(* ===== verification/Gateway_Prelude.thy ===== *)
theory Gateway_Prelude
  imports Complex_Main "HOL-Library.Word" "HOL-Library.Sublist"
begin

text \<open>
  Shared vocabulary of the gateway development: the machine integers of the Rust sources, the
  standard-library operations the components use on them, association lists as the contents of
  the concurrent hash maps, the random source, and the list facts that several components need.

  A \<open>DashMap\<close> or \<open>HashMap\<close> is an association list with distinct keys.
  Only lookup, insertion, removal and iteration are used; where the sources take the first
  element of an iteration, the position in the list stands for the (unspecified) iteration order.
  The random generator is an argument \<open>rng\<close>: \<open>rng n\<close> is the value that
  \<open>random_range(0..n)\<close> returns, and \<open>rng_ok\<close> is the documented contract of that call.
\<close>

unbundle bit_operations_syntax

named_theorems gateway_simps "unfolding rules that are safe in every component"
named_theorems gateway_inv "preservation of the components' invariants"

type_synonym u8 = "8 word"
type_synonym u16 = "16 word"
type_synonym u32 = "32 word"
type_synonym u64 = "64 word"
type_synonym usize = "64 word"
type_synonym duration = nat

section \<open>Rust integer operations\<close>

definition saturating_sub :: "'a::len word \<Rightarrow> 'a word \<Rightarrow> 'a word" where
  "saturating_sub a b = (if a < b then 0 else a - b)"

lemma unat_saturating_sub: "unat (saturating_sub a b) = unat a - unat b"
  by (simp add: saturating_sub_def word_less_nat_alt unat_sub word_le_nat_alt)

lemma saturating_sub_le: "saturating_sub a b \<le> a"
  by (simp add: word_le_nat_alt unat_saturating_sub)

lemma unat_inc_bounded:
  fixes x y :: "'a::len word"
  assumes "unat x < unat y"
  shows "unat (x + 1) = Suc (unat x)"
proof -
  have "unat y < 2 ^ LENGTH('a)"
    by (rule unsigned_less)
  with assms have "Suc (unat x) < 2 ^ LENGTH('a)"
    by linarith
  then show ?thesis
    by (simp add: unat_word_ariths)
qed

definition usize_max :: nat where
  "usize_max = 2 ^ 64 - 1"

section \<open>Hash maps as association lists\<close>

fun map_get :: "('k \<times> 'v) list \<Rightarrow> 'k \<Rightarrow> 'v option" where
  "map_get [] k = None"
| "map_get ((k', v) # m) k = (if k' = k then Some v else map_get m k)"

fun map_insert :: "'k \<Rightarrow> 'v \<Rightarrow> ('k \<times> 'v) list \<Rightarrow> ('k \<times> 'v) list" where
  "map_insert k v [] = [(k, v)]"
| "map_insert k v ((k', v') # m) =
     (if k' = k then (k, v) # m else (k', v') # map_insert k v m)"

definition map_remove :: "'k \<Rightarrow> ('k \<times> 'v) list \<Rightarrow> ('k \<times> 'v) list" where
  "map_remove k m = filter (\<lambda>e. fst e \<noteq> k) m"

definition map_keys :: "('k \<times> 'v) list \<Rightarrow> 'k list" where
  "map_keys m = map fst m"

definition contains_key :: "('k \<times> 'v) list \<Rightarrow> 'k \<Rightarrow> bool" where
  "contains_key m k \<longleftrightarrow> k \<in> fst ` set m"

text \<open>\<open>entry(k).or_insert(v)\<close> keeps a present value; \<open>entry(k).and_modify(f)\<close> changes one.\<close>

definition map_or_insert :: "'k \<Rightarrow> 'v \<Rightarrow> ('k \<times> 'v) list \<Rightarrow> ('k \<times> 'v) list" where
  "map_or_insert k v m = (if contains_key m k then m else map_insert k v m)"

definition map_and_modify :: "'k \<Rightarrow> ('v \<Rightarrow> 'v) \<Rightarrow> ('k \<times> 'v) list \<Rightarrow> ('k \<times> 'v) list" where
  "map_and_modify k f m = map (\<lambda>e. if fst e = k then (k, f (snd e)) else e) m"

definition map_modify_or_insert :: "'k \<Rightarrow> ('v \<Rightarrow> 'v) \<Rightarrow> 'v \<Rightarrow> ('k \<times> 'v) list \<Rightarrow> ('k \<times> 'v) list" where
  "map_modify_or_insert k f v m =
     (if contains_key m k then map_and_modify k f m else map_insert k v m)"

definition map_wf :: "('k \<times> 'v) list \<Rightarrow> bool" where
  "map_wf m \<longleftrightarrow> distinct (map fst m)"

lemma contains_key_get: "contains_key m k \<longleftrightarrow> map_get m k \<noteq> None"
  by (induction m) (auto simp: contains_key_def)

lemma contains_key_simps [simp]:
  "contains_key [] k = False"
  "contains_key (e # m) k = (fst e = k \<or> contains_key m k)"
  by (auto simp: contains_key_def)

lemma map_get_insert [simp]: "map_get (map_insert k v m) k' = (if k' = k then Some v else map_get m k')"
  by (induction m) auto

lemma map_get_remove [simp]: "map_get (map_remove k m) k' = (if k' = k then None else map_get m k')"
  by (induction m) (auto simp: map_remove_def)

lemma map_get_and_modify [simp]:
  "map_get (map_and_modify k f m) k' = (if k' = k then map_option f (map_get m k) else map_get m k')"
  by (induction m) (auto simp: map_and_modify_def)

lemma map_get_or_insert [simp]:
  "map_get (map_or_insert k v m) k' =
     (if k' = k then Some (case map_get m k of None \<Rightarrow> v | Some w \<Rightarrow> w) else map_get m k')"
  by (auto simp: map_or_insert_def contains_key_get split: option.splits)

lemma map_get_modify_or_insert [simp]:
  "map_get (map_modify_or_insert k f v m) k' =
     (if k' = k then Some (case map_get m k of None \<Rightarrow> v | Some w \<Rightarrow> f w) else map_get m k')"
  by (auto simp: map_modify_or_insert_def contains_key_get split: option.splits)

lemma keys_map_insert: "fst ` set (map_insert k v m) = insert k (fst ` set m)"
  by (induction k v m rule: map_insert.induct) (simp_all add: insert_commute)

lemma contains_key_insert [simp]: "contains_key (map_insert k v m) k' \<longleftrightarrow> k' = k \<or> contains_key m k'"
  by (auto simp: contains_key_def keys_map_insert)

lemma contains_key_remove [simp]: "contains_key (map_remove k m) k' \<longleftrightarrow> k' \<noteq> k \<and> contains_key m k'"
  by (simp add: contains_key_get)

lemma contains_key_and_modify [simp]: "contains_key (map_and_modify k f m) k' \<longleftrightarrow> contains_key m k'"
  by (auto simp: contains_key_get)

lemma contains_key_or_insert [simp]:
  "contains_key (map_or_insert k v m) k' \<longleftrightarrow> k' = k \<or> contains_key m k'"
  by (simp add: contains_key_get)

lemma contains_key_modify_or_insert [simp]:
  "contains_key (map_modify_or_insert k f v m) k' \<longleftrightarrow> k' = k \<or> contains_key m k'"
  by (simp add: contains_key_get)

lemma map_wf_nil [simp]: "map_wf []"
  by (simp add: map_wf_def)

lemma map_wf_insert [simp, intro]: "map_wf m \<Longrightarrow> map_wf (map_insert k v m)"
  by (induction m) (auto simp: map_wf_def keys_map_insert)

lemma set_map_insert: "set (map_insert k v m) \<subseteq> {(k, v)} \<union> set m"
  by (induction k v m rule: map_insert.induct) auto

lemma set_map_insert_wf: "map_wf m \<Longrightarrow> set (map_insert k v m) = {(k, v)} \<union> {e \<in> set m. fst e \<noteq> k}"
  by (induction k v m rule: map_insert.induct) (auto simp: map_wf_def)

lemma map_wf_remove [simp, intro]: "map_wf m \<Longrightarrow> map_wf (map_remove k m)"
  by (auto simp: map_wf_def map_remove_def distinct_map_filter)

lemma map_wf_and_modify [simp, intro]: "map_wf m \<Longrightarrow> map_wf (map_and_modify k f m)"
proof -
  have "map fst (map_and_modify k f m) = map fst m"
    by (auto simp: map_and_modify_def)
  then show "map_wf m \<Longrightarrow> map_wf (map_and_modify k f m)"
    by (simp add: map_wf_def)
qed

lemma map_wf_or_insert [simp, intro]: "map_wf m \<Longrightarrow> map_wf (map_or_insert k v m)"
  by (simp add: map_or_insert_def)

lemma map_wf_modify_or_insert [simp, intro]: "map_wf m \<Longrightarrow> map_wf (map_modify_or_insert k f v m)"
  by (simp add: map_modify_or_insert_def)

lemma map_get_in_set: "map_get m k = Some v \<Longrightarrow> (k, v) \<in> set m"
  by (induction m) (auto split: if_splits)

lemma map_get_eq: "map_wf m \<Longrightarrow> (k, v) \<in> set m \<Longrightarrow> map_get m k = Some v"
  by (induction m) (force simp: map_wf_def)+

lemma map_get_iff: "map_wf m \<Longrightarrow> map_get m k = Some v \<longleftrightarrow> (k, v) \<in> set m"
  by (auto intro: map_get_eq map_get_in_set)

lemma map_get_append: "map_get (xs @ ys) k = (case map_get xs k of None \<Rightarrow> map_get ys k | Some v \<Rightarrow> Some v)"
  by (induction xs) auto

lemma map_get_filter: "map_get m k = Some v \<Longrightarrow> P (k, v) \<Longrightarrow> map_get (filter P m) k = Some v"
  by (induction m) (auto split: if_splits)

lemma map_get_filter_Some: "map_wf m \<Longrightarrow> map_get (filter P m) k = Some v \<Longrightarrow> map_get m k = Some v"
  by (auto dest!: map_get_in_set intro: map_get_eq)

lemma map_get_rev: "map_wf m \<Longrightarrow> map_get (rev m) k = map_get m k"
proof -
  assume wf: "map_wf m"
  then have "map_wf (rev m)" by (simp add: map_wf_def rev_map [symmetric])
  then have "map_get (rev m) k = Some v \<longleftrightarrow> map_get m k = Some v" for v using wf by (simp add: map_get_iff)
  then show ?thesis by (cases "map_get m k"; cases "map_get (rev m) k") auto
qed

section \<open>The random generator\<close>

type_synonym rng = "nat \<Rightarrow> nat"

definition rng_ok :: "rng \<Rightarrow> bool" where
  "rng_ok rng \<longleftrightarrow> (\<forall>n. 0 < n \<longrightarrow> rng n < n)"

text \<open>\<open>IteratorRandom::choose\<close>: a random element, \<open>None\<close> for the empty iterator.\<close>

definition rng_choose :: "rng \<Rightarrow> 'a list \<Rightarrow> 'a option" where
  "rng_choose rng xs = (if xs = [] then None else Some (xs ! rng (length xs)))"

lemma rng_okD: "rng_ok rng \<Longrightarrow> 0 < n \<Longrightarrow> rng n < n"
  by (simp add: rng_ok_def)

lemma rng_nth: "rng_ok rng \<Longrightarrow> xs \<noteq> [] \<Longrightarrow> xs ! rng (length xs) \<in> set xs"
  by (simp add: rng_okD)

lemma rng_choose_Some: "rng_ok rng \<Longrightarrow> rng_choose rng xs = Some x \<Longrightarrow> x \<in> set xs"
  by (auto simp: rng_choose_def rng_nth split: if_splits)

lemma rng_choose_None [simp]: "rng_choose rng xs = None \<longleftrightarrow> xs = []"
  by (simp add: rng_choose_def)

section \<open>Lists\<close>

text \<open>\<open>Iterator::position\<close>.\<close>

fun position :: "('a \<Rightarrow> bool) \<Rightarrow> 'a list \<Rightarrow> nat option" where
  "position p [] = None"
| "position p (x # xs) = (if p x then Some 0 else map_option Suc (position p xs))"

lemma position_Some: "position p xs = Some i \<Longrightarrow> i < length xs \<and> p (xs ! i) \<and> (\<forall>j<i. \<not> p (xs ! j))"
proof (induction xs arbitrary: i)
  case (Cons x xs)
  then show ?case
    by (auto split: if_splits simp: less_Suc_eq_0_disj)
qed simp

lemma position_None: "position p xs = None \<longleftrightarrow> (\<forall>x\<in>set xs. \<not> p x)"
  by (induction xs) auto

lemma position_cong:
  "length xs = length ys \<Longrightarrow> (\<And>i. i < length xs \<Longrightarrow> p (xs ! i) = q (ys ! i)) \<Longrightarrow> position p xs = position q ys"
proof (induction xs ys rule: list_induct2)
  case (Cons x xs y ys)
  have "p x = q y" using Cons.prems [of 0] by simp
  moreover have "position p xs = position q ys" using Cons.prems [of "Suc i" for i] by (intro Cons.IH) auto
  ultimately show ?case by simp
qed simp

text \<open>Indices of the elements that satisfy a predicate: \<open>iter().enumerate().filter(..).map(..)\<close>.\<close>

definition indices_where :: "('a \<Rightarrow> bool) \<Rightarrow> 'a list \<Rightarrow> nat list" where
  "indices_where p xs = filter (\<lambda>i. p (xs ! i)) [0..<length xs]"

lemma set_indices_where: "set (indices_where p xs) = {i. i < length xs \<and> p (xs ! i)}"
  by (auto simp: indices_where_def)

lemma sorted_indices_where: "sorted (indices_where p xs)"
  by (simp add: indices_where_def sorted_wrt_filter)

lemma distinct_indices_where: "distinct (indices_where p xs)"
  by (simp add: indices_where_def)

lemma length_indices_where: "length (indices_where p xs) = length (filter p xs)"
proof -
  have "filter p xs = map ((!) xs) (indices_where p xs)"
    unfolding indices_where_def by (subst (1) map_nth [symmetric]) (simp only: filter_map comp_def)
  then show ?thesis by simp
qed

lemma indices_where_empty: "indices_where p xs = [] \<longleftrightarrow> (\<forall>x\<in>set xs. \<not> p x)"
  by (auto simp: indices_where_def filter_empty_conv all_set_conv_all_nth)

text \<open>\<open>min_by_key\<close>: the first element of least key.\<close>

fun min_by_key :: "('a \<Rightarrow> nat) \<Rightarrow> 'a list \<Rightarrow> 'a option" where
  "min_by_key f [] = None"
| "min_by_key f (x # xs) =
     (case min_by_key f xs of None \<Rightarrow> Some x | Some y \<Rightarrow> if f x \<le> f y then Some x else Some y)"

lemma min_by_key_Some:
  "min_by_key f xs = Some x \<Longrightarrow> x \<in> set xs \<and> (\<forall>y\<in>set xs. f x \<le> f y)"
proof (induction xs arbitrary: x)
  case (Cons a xs)
  show ?case
  proof (cases "min_by_key f xs")
    case None
    then have "xs = []" by (cases xs) (auto split: option.splits if_splits)
    then show ?thesis using Cons.prems by simp
  next
    case (Some b)
    from Cons.IH [OF this] show ?thesis using Cons.prems Some by (auto split: if_splits)
  qed
qed simp

lemma min_by_key_None: "min_by_key f xs = None \<longleftrightarrow> xs = []"
  by (cases xs) (auto split: option.splits)

lemma min_by_key_exists: "xs \<noteq> [] \<Longrightarrow> \<exists>x. min_by_key f xs = Some x"
  using min_by_key_None [of f xs] by auto

section \<open>Loops that may fail\<close>

text \<open>A \<open>for\<close> loop whose body may panic, over an explicit state.\<close>

fun for_each :: "('a \<Rightarrow> 's \<Rightarrow> 's option) \<Rightarrow> 'a list \<Rightarrow> 's \<Rightarrow> 's option" where
  "for_each f [] s = Some s"
| "for_each f (x # xs) s = Option.bind (f x s) (for_each f xs)"

lemma for_each_inv:
  assumes "\<And>x s. x \<in> set xs \<Longrightarrow> P s \<Longrightarrow> \<exists>s'. f x s = Some s' \<and> P s'" and "P s"
  shows "\<exists>s'. for_each f xs s = Some s' \<and> P s'"
  using assms
proof (induction xs arbitrary: s)
  case (Cons x xs)
  from Cons.prems obtain s1 where "f x s = Some s1" "P s1" by (metis list.set_intros(1))
  moreover from this obtain s2 where "for_each f xs s1 = Some s2" "P s2"
    using Cons.IH [of s1] Cons.prems(1) by (metis list.set_intros(2))
  ultimately show ?case by simp
qed simp

end
