(* ===== verification/Token_Bucket.thy ===== *)
theory Token_Bucket
  imports Gateway_Prelude
begin

text \<open>
  The rate limiter of \<open>src/gateway/src/core/token_bucket.rs\<close>.

  The bucket is a record; its mutex makes every operation atomic.  \<open>Instant\<close> values are
  seconds as reals and \<open>f64\<close> token amounts are reals (rounding is not modelled; with a
  refill rate of 0, the documented way to limit concurrency, all amounts are whole
  numbers and \<open>f64\<close> is exact on them).  An \<open>await\<close> of \<open>acquire\<close> is the list of its
  wake-ups: the instant of each and what the other tasks did to the bucket before it.
\<close>

record token_bucket =
  tokens :: real
  last_refill :: real
  capacity :: real
  refill_rate :: real

definition token_bucket_new :: "nat \<Rightarrow> nat \<Rightarrow> real \<Rightarrow> token_bucket" where
  "token_bucket_new cap rate now =
     \<lparr> tokens = real cap, last_refill = now, capacity = real cap, refill_rate = real rate \<rparr>"

text \<open>\<open>Instant::duration_since\<close> saturates at zero.\<close>

definition duration_since :: "real \<Rightarrow> real \<Rightarrow> real" where
  "duration_since now earlier = max 0 (now - earlier)"

definition refill :: "real \<Rightarrow> token_bucket \<Rightarrow> token_bucket" where
  "refill now tb =
     (let elapsed = duration_since now (last_refill tb);
          refill_amount = elapsed * refill_rate tb in
      tb\<lparr> tokens := min (tokens tb + refill_amount) (capacity tb), last_refill := now \<rparr>)"

definition try_acquire_sync :: "real \<Rightarrow> real \<Rightarrow> token_bucket \<Rightarrow> bool \<times> token_bucket" where
  "try_acquire_sync now n tb =
     (let tb = refill now tb in
      if n \<le> tokens tb then (True, tb\<lparr> tokens := tokens tb - n \<rparr>) else (False, tb))"

definition return_tokens_sync :: "real \<Rightarrow> token_bucket \<Rightarrow> token_bucket" where
  "return_tokens_sync n tb = tb\<lparr> tokens := min (tokens tb + n) (capacity tb) \<rparr>"

definition available_tokens :: "real \<Rightarrow> token_bucket \<Rightarrow> real \<times> token_bucket" where
  "available_tokens now tb = (let tb = refill now tb in (tokens tb, tb))"

datatype acquire_outcome = Acquired | Elapsed | Pending

type_synonym wakeup = "real \<times> (token_bucket \<Rightarrow> token_bucket)"

text \<open>
  The retry loop: one attempt per wake-up, until one succeeds.  \<open>expired\<close> is the outcome
  when the list of wake-ups ends.
\<close>

fun acquire_loop :: "acquire_outcome \<Rightarrow> real \<Rightarrow> wakeup list \<Rightarrow> token_bucket \<Rightarrow> acquire_outcome \<times> token_bucket" where
  "acquire_loop expired n [] tb = (expired, tb)"
| "acquire_loop expired n ((now, others) # ws) tb =
     (let (ok, tb') = try_acquire_sync now n (others tb) in
      if ok then (Acquired, tb') else acquire_loop expired n ws tb')"

definition wait_secs :: "real \<Rightarrow> token_bucket \<Rightarrow> real" where
  "wait_secs n tb = max ((n - tokens tb) / refill_rate tb) 0"

text \<open>
  With a refill rate of 0 the loop only ends with the tokens (the end of the list is a task still
  waiting); otherwise \<open>tokio::time::timeout\<close> with \<open>wait_secs\<close> ends it.
\<close>

definition acquire :: "real \<Rightarrow> real \<Rightarrow> wakeup list \<Rightarrow> token_bucket \<Rightarrow> acquire_outcome \<times> token_bucket" where
  "acquire now n ws tb =
     (let (ok, tb') = try_acquire_sync now n tb in
      if ok then (Acquired, tb')
      else if refill_rate tb' = 0 then acquire_loop Pending n ws tb'
      else acquire_loop Elapsed n ws tb')"

definition acquire_timeout :: "real \<Rightarrow> real \<Rightarrow> wakeup list \<Rightarrow> token_bucket \<Rightarrow> acquire_outcome \<times> token_bucket" where
  "acquire_timeout now n ws tb =
     (case acquire now n ws tb of
        (Pending, tb') \<Rightarrow> (Elapsed, tb')
      | r \<Rightarrow> r)"

section \<open>Invariant\<close>

definition tb_inv :: "token_bucket \<Rightarrow> bool" where
  "tb_inv tb \<longleftrightarrow> 0 \<le> tokens tb \<and> tokens tb \<le> capacity tb \<and> 0 \<le> refill_rate tb"

lemma refill_fields [simp]:
  "capacity (refill now tb) = capacity tb" "refill_rate (refill now tb) = refill_rate tb"
  "last_refill (refill now tb) = now"
  by (simp_all add: refill_def Let_def)

lemma tb_inv_new [gateway_inv]: "tb_inv (token_bucket_new cap rate now)"
  by (simp add: tb_inv_def token_bucket_new_def)

lemma tb_inv_refill [gateway_inv]: "tb_inv tb \<Longrightarrow> tb_inv (refill now tb)"
  by (auto simp: tb_inv_def refill_def Let_def duration_since_def)

lemma tb_inv_try [gateway_inv]: "tb_inv tb \<Longrightarrow> 0 \<le> n \<Longrightarrow> tb_inv (snd (try_acquire_sync now n tb))"
  using tb_inv_refill [of tb now] by (auto simp: tb_inv_def try_acquire_sync_def Let_def)

lemma tb_inv_return [gateway_inv]: "tb_inv tb \<Longrightarrow> 0 \<le> n \<Longrightarrow> tb_inv (return_tokens_sync n tb)"
  by (auto simp: tb_inv_def return_tokens_sync_def)

lemma try_acquire_fields [simp]:
  "capacity (snd (try_acquire_sync now n tb)) = capacity tb"
  "refill_rate (snd (try_acquire_sync now n tb)) = refill_rate tb"
  "last_refill (snd (try_acquire_sync now n tb)) = now"
  by (simp_all add: try_acquire_sync_def Let_def)

section \<open>Requests holding tokens\<close>

text \<open>
  The bucket with the amounts held by the requests in flight: a request takes tokens with
  \<open>try_acquire\<close>, keeps them while it runs and gives them back when it ends.
\<close>

inductive held_step :: "token_bucket \<times> real list \<Rightarrow> token_bucket \<times> real list \<Rightarrow> bool" where
  take_tokens: "0 \<le> n \<Longrightarrow> try_acquire_sync now n tb = (True, tb') \<Longrightarrow> held_step (tb, hs) (tb', n # hs)"
| refused: "0 \<le> n \<Longrightarrow> try_acquire_sync now n tb = (False, tb') \<Longrightarrow> held_step (tb, hs) (tb', hs)"
| give_back: "n \<in> set hs \<Longrightarrow> held_step (tb, hs) (return_tokens_sync n tb, remove1 n hs)"
| monitor: "held_step (tb, hs) (snd (available_tokens now tb), hs)"

inductive_cases held_stepE: "held_step s s'"

abbreviation held_steps :: "token_bucket \<times> real list \<Rightarrow> token_bucket \<times> real list \<Rightarrow> bool" where
  "held_steps \<equiv> held_step\<^sup>*\<^sup>*"

definition conserved :: "token_bucket \<times> real list \<Rightarrow> bool" where
  "conserved s \<longleftrightarrow> (case s of (tb, hs) \<Rightarrow>
     tb_inv tb \<and> refill_rate tb = 0 \<and> (\<forall>h\<in>set hs. 0 \<le> h) \<and> tokens tb + sum_list hs = capacity tb)"

lemma refill_rate0: "refill_rate tb = 0 \<Longrightarrow> tb_inv tb \<Longrightarrow> tokens (refill now tb) = tokens tb"
  by (simp add: refill_def Let_def tb_inv_def)

lemma sum_list_remove1_real:
  fixes hs :: "real list"
  shows "n \<in> set hs \<Longrightarrow> sum_list hs = n + sum_list (remove1 n hs)"
  by (induction hs) auto

lemma sum_list_nonneg_real: "\<forall>h\<in>set hs. 0 \<le> h \<Longrightarrow> 0 \<le> sum_list (hs :: real list)"
  by (rule sum_list_nonneg) simp

lemma conserved_take:
  assumes "conserved (tb, hs)" and "0 \<le> n" and "try_acquire_sync now n tb = (True, tb')"
  shows "conserved (tb', n # hs)"
  using assms refill_rate0 [of tb now] tb_inv_try [of tb n now]
  by (auto simp: conserved_def try_acquire_sync_def Let_def split: if_splits)

lemma conserved_refused:
  assumes "conserved (tb, hs)" and "try_acquire_sync now n tb = (False, tb')"
  shows "conserved (tb', hs)"
  using assms refill_rate0 [of tb now] tb_inv_refill [of tb now]
  by (auto simp: conserved_def try_acquire_sync_def Let_def split: if_splits)

lemma conserved_give_back:
  assumes "conserved (tb, hs)" and "n \<in> set hs"
  shows "conserved (return_tokens_sync n tb, remove1 n hs)"
proof -
  have "0 \<le> sum_list (remove1 n hs)"
    using assms by (intro sum_list_nonneg_real) (auto simp: conserved_def dest: notin_set_remove1)
  moreover have "sum_list hs = n + sum_list (remove1 n hs)"
    using assms(2) by (rule sum_list_remove1_real)
  ultimately have "min (tokens tb + n) (capacity tb) = tokens tb + n"
    using assms(1) by (simp add: conserved_def)
  then show ?thesis
    using assms tb_inv_return [of tb n] \<open>sum_list hs = _\<close>
    by (auto simp: conserved_def return_tokens_sync_def dest: notin_set_remove1)
qed

lemma conserved_step: "held_step s s' \<Longrightarrow> conserved s \<Longrightarrow> conserved s'"
proof (induction rule: held_step.induct)
  case (monitor tb hs now)
  then show ?case
    using refill_rate0 [of tb now] tb_inv_refill [of tb now]
    by (auto simp: conserved_def available_tokens_def Let_def)
qed (auto intro: conserved_take conserved_refused conserved_give_back)

lemma conserved_steps: "held_steps s s' \<Longrightarrow> conserved s \<Longrightarrow> conserved s'"
  by (induction rule: rtranclp_induct) (auto intro: conserved_step)

section \<open>The rate bound\<close>

text \<open>A sequence of attempts at the given instants; the first component is the amount granted.\<close>

fun attempts :: "(real \<times> real) list \<Rightarrow> token_bucket \<Rightarrow> real \<times> token_bucket" where
  "attempts [] tb = (0, tb)"
| "attempts ((now, n) # as) tb =
     (let (ok, tb') = try_acquire_sync now n tb;
          (granted, tb'') = attempts as tb' in
      ((if ok then n else 0) + granted, tb''))"

fun times_from :: "real \<Rightarrow> (real \<times> real) list \<Rightarrow> bool" where
  "times_from t0 [] = True"
| "times_from t0 ((t, n) # as) = (t0 \<le> t \<and> 0 \<le> n \<and> times_from t as)"

lemma try_acquire_budget:
  assumes "last_refill tb \<le> now" and "0 \<le> refill_rate tb"
  shows "(if fst (try_acquire_sync now n tb) then n else 0) + tokens (snd (try_acquire_sync now n tb))
           \<le> tokens tb + refill_rate tb * (now - last_refill tb)"
  using assms
  by (auto simp: try_acquire_sync_def refill_def Let_def duration_since_def mult.commute min_def)

lemma attempts_budget:
  assumes "tb_inv tb" and "times_from (last_refill tb) as"
  shows "fst (attempts as tb) + tokens (snd (attempts as tb))
           \<le> tokens tb + refill_rate tb * (last_refill (snd (attempts as tb)) - last_refill tb)"
  using assms
proof (induction as arbitrary: tb)
  case Nil
  then show ?case by simp
next
  case (Cons a as)
  obtain now n where a: "a = (now, n)" by (cases a)
  let ?tb = "snd (try_acquire_sync now n tb)"
  have "tb_inv ?tb" "times_from (last_refill ?tb) as"
    using Cons.prems a by (auto intro: tb_inv_try)
  note IH = Cons.IH [OF this]
  have "0 \<le> refill_rate tb" "last_refill tb \<le> now"
    using Cons.prems a by (auto simp: tb_inv_def)
  note now = try_acquire_budget [OF this(2,1), of n]
  have "fst (attempts (a # as) tb) = (if fst (try_acquire_sync now n tb) then n else 0) + fst (attempts as ?tb)"
    "snd (attempts (a # as) tb) = snd (attempts as ?tb)"
    by (simp_all add: a split_beta Let_def)
  then show ?case
    using IH now by (simp add: algebra_simps)
qed

lemma attempts_last_refill:
  "times_from (last_refill tb) as \<Longrightarrow>
     last_refill (snd (attempts as tb)) = (if as = [] then last_refill tb else fst (last as))"
proof (induction as arbitrary: tb)
  case (Cons a as)
  obtain now n where a: "a = (now, n)" by (cases a)
  have "last_refill (snd (attempts as (snd (try_acquire_sync now n tb)))) =
      (if as = [] then now else fst (last as))"
    using Cons by (simp add: a)
  then show ?case by (simp add: a split_beta Let_def)
qed simp

lemma attempts_inv: "tb_inv tb \<Longrightarrow> times_from t as \<Longrightarrow> tb_inv (snd (attempts as tb))"
proof (induction as arbitrary: tb t)
  case (Cons a as)
  then show ?case by (cases a) (auto simp: split_beta Let_def intro: tb_inv_try)
qed simp

section \<open>Properties\<close>

text \<open>
  In pure concurrency limiting (\<open>refill_rate = 0\<close>), along every interleaving of granted,
  refused and ended requests the tokens in the bucket and the tokens held add up to the capacity,
  so the requests in flight never hold more than the capacity together.
\<close>

theorem concurrency_limit:
  assumes "held_steps (token_bucket_new cap 0 now, []) (tb, hs)"
  shows "tokens tb + sum_list hs = real cap \<and> 0 \<le> tokens tb \<and> sum_list hs \<le> real cap"
proof -
  have "conserved (token_bucket_new cap 0 now, [])"
    by (simp add: conserved_def tb_inv_def token_bucket_new_def)
  with assms have c: "conserved (tb, hs)" by (rule conserved_steps)
  have "capacity (fst s') = capacity (fst s)" if "held_steps s s'" for s s'
    using that
  proof (induction rule: rtranclp_induct)
    case (step y z)
    then have "capacity (fst z) = capacity (fst y)"
      by (auto elim!: held_stepE simp: return_tokens_sync_def available_tokens_def Let_def
          dest!: arg_cong [where f = "\<lambda>p. capacity (snd p)"])
    with step show ?case by simp
  qed simp
  from this [OF assms] have "capacity tb = real cap"
    by (simp add: token_bucket_new_def)
  with c show ?thesis by (simp add: conserved_def tb_inv_def)
qed

theorem concurrency_limit_witness:
  "tokens (snd (try_acquire_sync 1 1 (token_bucket_new 2 0 0))) + sum_list [1] = real 2"
proof -
  have "try_acquire_sync 1 1 (token_bucket_new 2 0 0) =
      (True, snd (try_acquire_sync 1 1 (token_bucket_new 2 0 0)))"
    by (simp add: try_acquire_sync_def refill_def token_bucket_new_def Let_def)
  then have "held_step (token_bucket_new 2 0 0, []) (snd (try_acquire_sync 1 1 (token_bucket_new 2 0 0)), [1])"
    by (intro take_tokens) auto
  then have "held_steps (token_bucket_new 2 0 0, []) (snd (try_acquire_sync 1 1 (token_bucket_new 2 0 0)), [1])"
    by simp
  from concurrency_limit [OF this] show ?thesis by simp
qed

text \<open>
  Over any sequence of requests at non-decreasing instants, the bucket grants at most the
  tokens it held at the start plus the refill rate times the time that has passed, and its level
  stays between 0 and the capacity.
\<close>

theorem rate_bound:
  assumes "tb_inv tb" and "times_from (last_refill tb) as" and "as \<noteq> []"
  shows "fst (attempts as tb) \<le> tokens tb + refill_rate tb * (fst (last as) - last_refill tb) \<and>
         tb_inv (snd (attempts as tb))"
  using attempts_budget [OF assms(1,2)] attempts_inv [OF assms(1,2)]
    attempts_last_refill [OF assms(2)] assms(3)
  by (simp add: tb_inv_def)

theorem rate_bound_witness:
  "fst (attempts [(1, 10), (2, 4)] (token_bucket_new 10 5 0)) \<le> 10 + 5 * (2 - 0)"
  using rate_bound [of "token_bucket_new 10 5 0" "[(1, 10), (2, 4)]"]
  by (simp add: tb_inv_def token_bucket_new_def)

text \<open>
  The waiting time that \<open>acquire\<close> computes is enough: if a request for at most the capacity
  was refused, then an attempt \<open>wait_secs\<close> later on an otherwise unused bucket succeeds.
\<close>

theorem wait_secs_sufficient:
  assumes "tb_inv tb" and "0 < refill_rate tb" and "0 \<le> n" and "n \<le> capacity tb"
    and "try_acquire_sync now n tb = (False, tb')"
  shows "fst (try_acquire_sync (now + wait_secs n tb') n tb')"
proof -
  have tb': "tb' = refill now tb" and less: "tokens tb' < n"
    using assms(5) by (auto simp: try_acquire_sync_def Let_def split: if_splits)
  have "wait_secs n tb' = (n - tokens tb') / refill_rate tb'"
    using less assms(2) by (simp add: wait_secs_def tb' max_def not_le)
  then have "duration_since (now + wait_secs n tb') (last_refill tb') * refill_rate tb' = n - tokens tb'"
    using less assms(2) by (simp add: duration_since_def tb')
  then show ?thesis
    using assms(4) by (simp add: try_acquire_sync_def refill_def [of _ tb'] Let_def) (simp add: tb')
qed

theorem wait_secs_sufficient_witness:
  "let tb = snd (try_acquire_sync 0 10 (token_bucket_new 10 5 0));
       tb' = snd (try_acquire_sync 0 4 tb) in
   fst (try_acquire_sync (0 + wait_secs 4 tb') 4 tb')"
proof -
  let ?tb = "snd (try_acquire_sync 0 10 (token_bucket_new 10 5 0))"
  have "try_acquire_sync 0 4 ?tb = (False, snd (try_acquire_sync 0 4 ?tb))"
    by (simp add: try_acquire_sync_def refill_def token_bucket_new_def duration_since_def Let_def)
  moreover have "tb_inv ?tb" "0 < refill_rate ?tb" "(4::real) \<le> capacity ?tb"
    by (simp_all add: tb_inv_def try_acquire_sync_def refill_def token_bucket_new_def duration_since_def Let_def)
  ultimately show ?thesis
    unfolding Let_def by (intro wait_secs_sufficient) auto
qed

end
