(* ===== verification/Rust_Str.thy ===== *)
theory Rust_Str
  imports Gateway_Prelude "HOL-Library.Monad_Syntax"
begin

text \<open>
  Rust strings and the string helpers of \<open>src/gateway/src/policies/tree.rs\<close>.

  A \<open>str\<close> is the list of its Unicode scalar values; \<open>as_bytes\<close> is its UTF-8 encoding.
  Slicing works on byte offsets as in Rust: an offset inside a character is a panic, the value
  \<open>None\<close>.  The helpers take fast paths over ASCII bytes; the theorems show that each of them
  computes the plain operation on characters, for every string, and never panics.
\<close>

type_synonym ustr = "nat list"
type_synonym byte = nat

definition utf8_char :: "nat \<Rightarrow> byte list" where
  "utf8_char c =
     (if c < 128 then [c]
      else if c < 2048 then [192 + c div 64, 128 + c mod 64]
      else if c < 65536 then [224 + c div 4096, 128 + c div 64 mod 64, 128 + c mod 64]
      else [240 + c div 262144, 128 + c div 4096 mod 64, 128 + c div 64 mod 64, 128 + c mod 64])"

definition as_bytes :: "ustr \<Rightarrow> byte list" where
  "as_bytes s = concat (map utf8_char s)"

definition len_utf8 :: "nat \<Rightarrow> nat" where
  "len_utf8 c = length (utf8_char c)"

definition is_ascii :: "byte list \<Rightarrow> bool" where
  "is_ascii bs = list_all (\<lambda>b. b < 128) bs"

text \<open>\<open>&s[n..]\<close> and \<open>&s[..n]\<close>: byte offsets, a panic inside a character or past the end.\<close>

fun slice_from :: "ustr \<Rightarrow> nat \<Rightarrow> ustr option" where
  "slice_from s 0 = Some s"
| "slice_from [] (Suc n) = None"
| "slice_from (c # s) (Suc n) = (if len_utf8 c \<le> Suc n then slice_from s (Suc n - len_utf8 c) else None)"

fun slice_to :: "ustr \<Rightarrow> nat \<Rightarrow> ustr option" where
  "slice_to s 0 = Some []"
| "slice_to [] (Suc n) = None"
| "slice_to (c # s) (Suc n) =
     (if len_utf8 c \<le> Suc n then map_option ((#) c) (slice_to s (Suc n - len_utf8 c)) else None)"

text \<open>\<open>s.char_indices().nth(n).map(|(i, _)| i)\<close>: the byte offset of the character \<open>n\<close>.\<close>

fun char_index_nth :: "ustr \<Rightarrow> nat \<Rightarrow> nat option" where
  "char_index_nth [] n = None"
| "char_index_nth (c # s) 0 = Some 0"
| "char_index_nth (c # s) (Suc n) = map_option (\<lambda>i. len_utf8 c + i) (char_index_nth s n)"

section \<open>The helpers of tree.rs\<close>

definition advance_by_chars :: "ustr \<Rightarrow> nat \<Rightarrow> ustr option" where
  "advance_by_chars s n =
     (if n = 0 then Some s
      else if length (as_bytes s) \<le> n then Some []
      else if is_ascii (take n (as_bytes s)) then slice_from s n
      else (case char_index_nth s n of None \<Rightarrow> Some [] | Some idx \<Rightarrow> slice_from s idx))"

definition take_chars :: "ustr \<Rightarrow> nat \<Rightarrow> ustr option" where
  "take_chars s n =
     (if n = 0 then Some []
      else (case char_index_nth s n of None \<Rightarrow> Some s | Some idx \<Rightarrow> slice_to s idx))"

definition shared_prefix_count_chars :: "ustr \<Rightarrow> ustr \<Rightarrow> nat" where
  "shared_prefix_count_chars a b = length (takeWhile (\<lambda>(x, y). x = y) (zip a b))"

definition shared_prefix_count :: "ustr \<Rightarrow> ustr \<Rightarrow> nat" where
  "shared_prefix_count a b =
     (let a_bytes = as_bytes a;
          b_bytes = as_bytes b;
          common_byte_len =
            (case position (\<lambda>(x, y). x \<noteq> y) (zip a_bytes b_bytes) of
               None \<Rightarrow> min (length a_bytes) (length b_bytes)
             | Some i \<Rightarrow> i) in
      if is_ascii (take common_byte_len a_bytes) then common_byte_len
      else shared_prefix_count_chars a b)"

section \<open>Lemmas\<close>

lemma as_bytes_simps [simp]: "as_bytes [] = []" "as_bytes (c # s) = utf8_char c @ as_bytes s"
  by (simp_all add: as_bytes_def)

lemma utf8_char_ascii [simp]: "c < 128 \<Longrightarrow> utf8_char c = [c]"
  by (simp add: utf8_char_def)

lemma utf8_char_multi:
  assumes "\<not> c < 128"
  obtains b bs where "utf8_char c = b # bs" and "192 \<le> b"
proof (cases "utf8_char c")
  case Nil
  then show ?thesis by (simp add: utf8_char_def split: if_splits)
next
  case (Cons b bs)
  then have "192 \<le> b"
    using assms by (auto simp: utf8_char_def split: if_splits)
  with Cons show ?thesis by (rule that)
qed

lemma len_utf8_pos: "0 < len_utf8 c"
  by (simp add: len_utf8_def utf8_char_def)

lemma length_as_bytes: "length s \<le> length (as_bytes s)"
proof (induction s)
  case (Cons c s)
  have "1 \<le> length (utf8_char c)"
    using len_utf8_pos [of c] by (simp only: len_utf8_def)
  with Cons show ?case by simp
qed simp

lemma slice_step:
  "slice_from (c # s) (len_utf8 c + j) = slice_from s j"
  "slice_to (c # s) (len_utf8 c + j) = map_option ((#) c) (slice_to s j)"
proof -
  obtain k where k: "len_utf8 c + j = Suc k"
    using len_utf8_pos [of c] by (metis add_gr_0 gr0_conv_Suc)
  then have "Suc k - len_utf8 c = j" "len_utf8 c \<le> Suc k" by linarith+
  then show "slice_from (c # s) (len_utf8 c + j) = slice_from s j"
    "slice_to (c # s) (len_utf8 c + j) = map_option ((#) c) (slice_to s j)"
    by (simp_all add: k)
qed

lemma slice_from_index: "char_index_nth s n = Some i \<Longrightarrow> slice_from s i = Some (drop n s)"
  by (induction s n arbitrary: i rule: char_index_nth.induct) (auto simp: slice_step)

lemma slice_to_index: "char_index_nth s n = Some i \<Longrightarrow> slice_to s i = Some (take n s)"
  by (induction s n arbitrary: i rule: char_index_nth.induct) (auto simp: slice_step)

lemma char_index_None: "char_index_nth s n = None \<longleftrightarrow> length s \<le> n"
  by (induction s n rule: char_index_nth.induct) auto

lemma slice_from_ascii:
  "is_ascii (take n (as_bytes s)) \<Longrightarrow> n \<le> length (as_bytes s) \<Longrightarrow> slice_from s n = Some (drop n s)"
proof (induction s n rule: slice_from.induct)
  case (3 c s n)
  show ?case
  proof (cases "c < 128")
    case True
    with 3 show ?thesis by (simp add: len_utf8_def is_ascii_def)
  next
    case False
    then obtain b bs where "utf8_char c = b # bs" "192 \<le> b" by (rule utf8_char_multi)
    with "3.prems" show ?thesis by (simp add: is_ascii_def)
  qed
qed auto

lemma shared_prefix_chars_simps [simp]:
  "shared_prefix_count_chars [] b = 0" "shared_prefix_count_chars a [] = 0"
  "shared_prefix_count_chars (x # a) (y # b) = (if x = y then Suc (shared_prefix_count_chars a b) else 0)"
  by (simp_all add: shared_prefix_count_chars_def)

lemma shared_prefix_chars_le:
  "shared_prefix_count_chars a b \<le> length a" "shared_prefix_count_chars a b \<le> length b"
  by (induction a b rule: list_induct2') auto

lemma shared_prefix_chars_take: "take (shared_prefix_count_chars a b) a = take (shared_prefix_count_chars a b) b"
  by (induction a b rule: list_induct2') auto

lemma shared_prefix_chars_full: "shared_prefix_count_chars a b = length b \<longleftrightarrow> prefix b a"
  by (induction a b rule: list_induct2') auto

lemma shared_prefix_chars_max: "prefix p a \<Longrightarrow> prefix p b \<Longrightarrow> length p \<le> shared_prefix_count_chars a b"
proof (induction a b arbitrary: p rule: list_induct2')
  case (4 x xs y ys)
  then show ?case by (cases p) auto
qed auto

text \<open>The number of leading bytes two strings share, as \<open>shared_prefix_count\<close> computes it.\<close>

definition common_bytes :: "byte list \<Rightarrow> byte list \<Rightarrow> nat" where
  "common_bytes xs ys =
     (case position (\<lambda>(x, y). x \<noteq> y) (zip xs ys) of None \<Rightarrow> min (length xs) (length ys) | Some i \<Rightarrow> i)"

lemma common_bytes_simps [simp]:
  "common_bytes [] ys = 0" "common_bytes xs [] = 0"
  "common_bytes (x # xs) (y # ys) = (if x = y then Suc (common_bytes xs ys) else 0)"
  by (auto simp: common_bytes_def split: option.splits)

lemma common_bytes_ascii:
  "is_ascii (take (common_bytes (as_bytes a) (as_bytes b)) (as_bytes a)) \<Longrightarrow>
     common_bytes (as_bytes a) (as_bytes b) = shared_prefix_count_chars a b"
proof (induction a b rule: list_induct2')
  case (4 x xs y ys)
  show ?case
  proof (cases "x < 128")
    case x: True
    show ?thesis
    proof (cases "y < 128")
      case True
      with x 4 show ?thesis by (auto simp: is_ascii_def)
    next
      case False
      then obtain b bs where "utf8_char y = b # bs" "192 \<le> b" by (rule utf8_char_multi)
      with x False show ?thesis by simp
    qed
  next
    case x: False
    then obtain b bs where b: "utf8_char x = b # bs" "192 \<le> b" by (rule utf8_char_multi)
    show ?thesis
    proof (cases "y < 128")
      case True
      with x b show ?thesis by auto
    next
      case False
      then obtain b' bs' where "utf8_char y = b' # bs'" "192 \<le> b'" by (rule utf8_char_multi)
      with b "4.prems" show ?thesis
        by (cases "b = b'") (auto simp: is_ascii_def)
    qed
  qed
qed simp_all

lemma shared_prefix_count_eq: "shared_prefix_count a b = shared_prefix_count_chars a b"
  using common_bytes_ascii [of a b]
  by (simp add: shared_prefix_count_def common_bytes_def [symmetric] Let_def)

lemma advance_by_chars_eq: "advance_by_chars s n = Some (drop n s)"
  using length_as_bytes [of s] slice_from_ascii [of n s]
  by (auto simp: advance_by_chars_def char_index_None slice_from_index split: option.splits)

lemma take_chars_eq: "take_chars s n = Some (take n s)"
  by (auto simp: take_chars_def char_index_None slice_to_index split: option.splits)

text \<open>
  The byte-level string helpers are equivalent to the character-level operations on every
  UTF-8 string: counting the shared prefix over bytes with the ASCII fast path gives the number
  of shared leading characters, advancing and taking by characters are \<open>drop\<close> and \<open>take\<close>,
  and none of the byte slices they make falls inside a character.
\<close>

theorem utf8_fast_paths_correct:
  "shared_prefix_count a b = shared_prefix_count_chars a b \<and>
   take (shared_prefix_count a b) a = take (shared_prefix_count a b) b \<and>
   (\<forall>p. prefix p a \<longrightarrow> prefix p b \<longrightarrow> length p \<le> shared_prefix_count a b) \<and>
   advance_by_chars a n = Some (drop n a) \<and> take_chars a n = Some (take n a)"
  using shared_prefix_chars_take [of a b] shared_prefix_chars_max [of _ a b]
  by (simp add: shared_prefix_count_eq advance_by_chars_eq take_chars_eq)

theorem utf8_fast_paths_correct_witness:
  "shared_prefix_count [104, 228, 98] [104, 228, 99] = shared_prefix_count_chars [104, 228, 98] [104, 228, 99] \<and>
   length [104, 228] \<le> shared_prefix_count [104, 228, 98] [104, 228, 99]"
  using utf8_fast_paths_correct [of "[104, 228, 98]" "[104, 228, 99]" 2] by auto

end
