(* ===== verification/Radix_Tree.thy ===== *)
theory Radix_Tree
  imports Rust_Str
begin

text \<open>
  The multi-tenant radix tree of \<open>src/gateway/src/policies/tree.rs\<close>: its data, \<open>insert\<close> and
  the prefix matches, with their refinement.  Eviction and tenant removal are in
  \<open>Radix_Evict\<close>.

  A node is a datatype value with its text (and the cached character count), its children by first
  character, the tenants with their last access epochs and the cached tenant.  The tree is used
  through one call at a time, so the shared references of the sources are positions in the value:
  a method that walks down and updates the node it reached returns the rebuilt path, and the
  parent pointers are the structure itself.  The global epoch counter is part of the tree state.
  A panic, or a loop that does not advance, is the value \<open>None\<close>; fuel bounds the walks, and the
  lemmas show that the fuel given is enough on every well-formed tree.

  What a tree means is \<open>owns t n s\<close>: tenant \<open>t\<close> has the text \<open>s\<close> below node \<open>n\<close>.
\<close>

section \<open>Data\<close>

type_synonym tenant_id = string

record node_text =
  nt_text :: ustr
  nt_char_count :: nat

definition node_text_new :: "ustr \<Rightarrow> node_text" where
  "node_text_new s = \<lparr> nt_text = s, nt_char_count = length s \<rparr>"

definition node_text_empty :: node_text where
  "node_text_empty = \<lparr> nt_text = [], nt_char_count = 0 \<rparr>"

definition first_char :: "node_text \<Rightarrow> nat option" where
  "first_char nt = (case nt_text nt of [] \<Rightarrow> None | c # _ \<Rightarrow> Some c)"

definition clone_text :: "node_text \<Rightarrow> node_text" where
  "clone_text nt = \<lparr> nt_text = nt_text nt, nt_char_count = nt_char_count nt \<rparr>"

text \<open>Both slices are on a character boundary of the text, or the code panics.\<close>

definition split_at_char :: "node_text \<Rightarrow> nat \<Rightarrow> (node_text \<times> node_text) option" where
  "split_at_char nt char_idx =
     (if char_idx = 0 then Some (node_text_empty, clone_text nt)
      else if nt_char_count nt \<le> char_idx then Some (clone_text nt, node_text_empty)
      else
        let byte_idx = (case char_index_nth (nt_text nt) char_idx of
                          Some i \<Rightarrow> i | None \<Rightarrow> length (as_bytes (nt_text nt))) in
        do {
          pre \<leftarrow> slice_to (nt_text nt) byte_idx;
          suf \<leftarrow> slice_from (nt_text nt) byte_idx;
          Some (\<lparr> nt_text = pre, nt_char_count = char_idx \<rparr>,
                \<lparr> nt_text = suf, nt_char_count = nt_char_count nt - char_idx \<rparr>)
        })"

datatype radix_node = Node
  (node_text: node_text)
  (children: "(nat \<times> radix_node) list")
  (tenants: "(tenant_id \<times> nat) list")
  (last_tenant: "tenant_id option")

definition set_text :: "node_text \<Rightarrow> radix_node \<Rightarrow> radix_node" where
  "set_text nt n = Node nt (children n) (tenants n) (last_tenant n)"

definition set_child :: "nat \<Rightarrow> radix_node \<Rightarrow> radix_node \<Rightarrow> radix_node" where
  "set_child c m n = Node (node_text n) (map_insert c m (children n)) (tenants n) (last_tenant n)"

definition set_access :: "tenant_id \<Rightarrow> nat \<Rightarrow> radix_node \<Rightarrow> radix_node" where
  "set_access t e n = Node (node_text n) (children n) (map_insert t e (tenants n)) (last_tenant n)"

definition set_last_tenant :: "tenant_id \<Rightarrow> radix_node \<Rightarrow> radix_node" where
  "set_last_tenant t n = Node (node_text n) (children n) (tenants n) (Some t)"

definition has_tenant :: "radix_node \<Rightarrow> tenant_id \<Rightarrow> bool" where
  "has_tenant n t = contains_key (tenants n) t"

record radix_tree =
  root :: radix_node
  tenant_char_count :: "(tenant_id \<times> nat) list"
  epoch_counter :: nat

definition tree_new :: "nat \<Rightarrow> radix_tree" where
  "tree_new epoch = \<lparr> root = Node node_text_empty [] [] None, tenant_char_count = [], epoch_counter = epoch \<rparr>"

record prefix_match_result =
  pm_tenant :: tenant_id
  matched_char_count :: nat
  input_char_count :: nat

section \<open>Insertion\<close>

definition add_chars :: "tenant_id \<Rightarrow> nat \<Rightarrow> (tenant_id \<times> nat) list \<Rightarrow> (tenant_id \<times> nat) list" where
  "add_chars t k cc = map_modify_or_insert t (\<lambda>count. count + k) k cc"

text \<open>Ensure the tenant exists at an intermediate node, adding the node's characters to its count.\<close>

definition attach_tenant ::
    "tenant_id \<Rightarrow> nat \<Rightarrow> radix_node \<Rightarrow> (tenant_id \<times> nat) list \<Rightarrow> radix_node \<times> (tenant_id \<times> nat) list" where
  "attach_tenant t k n cc =
     (if has_tenant n t then (n, cc) else (set_access t 0 n, add_chars t k cc))"

text \<open>The new intermediate node of a split: the shared text, with the matched node below it.\<close>

definition split_node :: "radix_node \<Rightarrow> nat \<Rightarrow> radix_node option" where
  "split_node m shared =
     do {
       (matched_text, contracted_text) \<leftarrow> split_at_char (node_text m) shared;
       first_new_char \<leftarrow> first_char contracted_text;
       Some (Node matched_text [(first_new_char, set_text contracted_text m)] (tenants m) (last_tenant m))
     }"

fun insert_from ::
    "nat \<Rightarrow> tenant_id \<Rightarrow> ustr \<Rightarrow> radix_node \<Rightarrow> (tenant_id \<times> nat) list \<Rightarrow> nat \<Rightarrow>
     (radix_node \<times> (tenant_id \<times> nat) list \<times> nat) option" where
  "insert_from fuel t [] prev cc epoch = Some (set_access t epoch prev, cc, epoch + 1)"
| "insert_from 0 t (c # r) prev cc epoch = None"
| "insert_from (Suc fuel) t (c # r) prev cc epoch =
     (let remaining = c # r in
      case map_get (children prev) c of
        None \<Rightarrow>
          let remaining_char_count = length remaining;
              new_node = Node (node_text_new remaining) [] [(t, epoch)] (Some t) in
          Some (set_child c new_node prev, add_chars t remaining_char_count cc, epoch + 1)
      | Some matched_node \<Rightarrow>
          let matched_count = nt_char_count (node_text matched_node);
              shared_count = shared_prefix_count remaining (nt_text (node_text matched_node)) in
          do {
            next_prev \<leftarrow> (if shared_count < matched_count then split_node matched_node shared_count
                           else Some matched_node);
            let (next_prev, cc) =
              attach_tenant t (if shared_count < matched_count then shared_count else matched_count)
                next_prev cc;
            rest \<leftarrow> advance_by_chars remaining shared_count;
            (next_prev, cc, epoch) \<leftarrow> insert_from fuel t rest next_prev cc epoch;
            Some (set_child c next_prev prev, cc, epoch)
          })"

definition insert :: "ustr \<Rightarrow> tenant_id \<Rightarrow> radix_tree \<Rightarrow> radix_tree option" where
  "insert text t tree =
     (let rt = root tree;
          rt = Node (node_text rt) (children rt) (map_or_insert t 0 (tenants rt)) (last_tenant rt);
          cc = map_or_insert t 0 (tenant_char_count tree) in
      do {
        (rt, cc, epoch) \<leftarrow> insert_from (length text) t text rt cc (epoch_counter tree);
        Some (tree\<lparr> root := rt, tenant_char_count := cc, epoch_counter := epoch \<rparr>)
      })"

section \<open>Prefix matching\<close>

definition first_tenant :: "radix_node \<Rightarrow> tenant_id" where
  "first_tenant n = (case tenants n of [] \<Rightarrow> ''empty'' | (t, _) # _ \<Rightarrow> t)"

text \<open>The tenant reported for the node reached, with the update of the cached tenant.\<close>

definition select_tenant :: "radix_node \<Rightarrow> tenant_id \<times> radix_node" where
  "select_tenant n =
     (case last_tenant n of
        Some t \<Rightarrow>
          if has_tenant n t then (t, n)
          else let t = first_tenant n in (t, set_last_tenant t n)
      | None \<Rightarrow> let t = first_tenant n in (t, set_last_tenant t n))"

text \<open>One match in eight refreshes the timestamp.\<close>

definition touch_matched :: "nat \<Rightarrow> radix_node \<Rightarrow> tenant_id \<times> radix_node" where
  "touch_matched epoch n =
     (let (t, n) = select_tenant n in
      (t, if epoch mod 8 = 0 then set_access t epoch n else n))"

fun match_from :: "nat \<Rightarrow> ustr \<Rightarrow> radix_node \<Rightarrow> nat \<Rightarrow> nat \<Rightarrow> (tenant_id \<times> nat \<times> radix_node) option" where
  "match_from fuel [] prev matched epoch =
     (let (t, prev) = touch_matched epoch prev in Some (t, matched, prev))"
| "match_from 0 (c # r) prev matched epoch = None"
| "match_from (Suc fuel) (c # r) prev matched epoch =
     (let remaining = c # r in
      case map_get (children prev) c of
        Some matched_node \<Rightarrow>
          let shared_count = shared_prefix_count remaining (nt_text (node_text matched_node)) in
          if shared_count = nt_char_count (node_text matched_node) then
            do {
              rest \<leftarrow> advance_by_chars remaining shared_count;
              (t, matched, matched_node) \<leftarrow> match_from fuel rest matched_node (matched + shared_count) epoch;
              Some (t, matched, set_child c matched_node prev)
            }
          else
            let (t, matched_node) = touch_matched epoch matched_node in
            Some (t, matched + shared_count, set_child c matched_node prev)
      | None \<Rightarrow>
          let (t, prev) = touch_matched epoch prev in Some (t, matched, prev))"

definition prefix_match_with_counts :: "ustr \<Rightarrow> radix_tree \<Rightarrow> (prefix_match_result \<times> radix_tree) option" where
  "prefix_match_with_counts text tree =
     do {
       (t, matched, rt) \<leftarrow> match_from (length text) text (root tree) 0 (epoch_counter tree);
       Some (\<lparr> pm_tenant = t, matched_char_count = matched, input_char_count = length text \<rparr>,
             tree\<lparr> root := rt, epoch_counter := epoch_counter tree + 1 \<rparr>)
     }"

definition prefix_match :: "ustr \<Rightarrow> radix_tree \<Rightarrow> ((ustr \<times> tenant_id) \<times> radix_tree) option" where
  "prefix_match text tree =
     do {
       (result, tree) \<leftarrow> prefix_match_with_counts text tree;
       matched_text \<leftarrow> take_chars text (matched_char_count result);
       Some ((matched_text, pm_tenant result), tree)
     }"

text \<open>The timestamp update that ends \<open>prefix_match_tenant\<close>: node and next epoch.\<close>

definition touch_tenant :: "tenant_id \<Rightarrow> nat \<Rightarrow> radix_node \<Rightarrow> radix_node \<times> nat" where
  "touch_tenant t epoch n =
     (if has_tenant n t then (set_access t epoch n, epoch + 1) else (n, epoch))"

fun match_tenant_from ::
    "nat \<Rightarrow> tenant_id \<Rightarrow> ustr \<Rightarrow> radix_node \<Rightarrow> nat \<Rightarrow> nat \<Rightarrow> (nat \<times> radix_node \<times> nat) option" where
  "match_tenant_from fuel t [] prev matched epoch =
     (let (prev, epoch) = touch_tenant t epoch prev in Some (matched, prev, epoch))"
| "match_tenant_from 0 t (c # r) prev matched epoch = None"
| "match_tenant_from (Suc fuel) t (c # r) prev matched epoch =
     (let remaining = c # r in
      case map_get (children prev) c of
        Some matched_node \<Rightarrow>
          if \<not> has_tenant matched_node t then
            let (prev, epoch) = touch_tenant t epoch prev in Some (matched, prev, epoch)
          else
            let shared_count = shared_prefix_count remaining (nt_text (node_text matched_node)) in
            if shared_count = nt_char_count (node_text matched_node) then
              do {
                rest \<leftarrow> advance_by_chars remaining shared_count;
                (matched, matched_node, epoch) \<leftarrow>
                  match_tenant_from fuel t rest matched_node (matched + shared_count) epoch;
                Some (matched, set_child c matched_node prev, epoch)
              }
            else
              let (matched_node, epoch) = touch_tenant t epoch matched_node in
              Some (matched + shared_count, set_child c matched_node prev, epoch)
      | None \<Rightarrow>
          let (prev, epoch) = touch_tenant t epoch prev in Some (matched, prev, epoch))"

definition prefix_match_tenant :: "ustr \<Rightarrow> tenant_id \<Rightarrow> radix_tree \<Rightarrow> (ustr \<times> radix_tree) option" where
  "prefix_match_tenant text t tree =
     do {
       (matched, rt, epoch) \<leftarrow> match_tenant_from (length text) t text (root tree) 0 (epoch_counter tree);
       matched_text \<leftarrow> take_chars text matched;
       Some (matched_text, tree\<lparr> root := rt, epoch_counter := epoch \<rparr>)
     }"

section \<open>Sizes\<close>

text \<open>\<open>get_used_size_per_tenant\<close>: a traversal with an explicit stack.\<close>

definition add_sizes :: "nat \<Rightarrow> (tenant_id \<times> nat) list \<Rightarrow> (tenant_id \<times> nat) list \<Rightarrow> (tenant_id \<times> nat) list" where
  "add_sizes k ts used = foldl (\<lambda>u e. map_modify_or_insert (fst e) (\<lambda>size. size + k) k u) used ts"

lemma size_children: "(c, m) \<in> set cs \<Longrightarrow> size m < Suc (size_list (size_prod (\<lambda>_. 0) size) cs)"
  by (induction cs) auto

fun count_nodes :: "radix_node \<Rightarrow> nat" where
  "count_nodes (Node nt cs ts lt) = Suc (sum_list (map (\<lambda>e. count_nodes (snd e)) cs))"

function used_size_loop :: "radix_node list \<Rightarrow> (tenant_id \<times> nat) list \<Rightarrow> (tenant_id \<times> nat) list" where
  "used_size_loop [] used = used"
| "used_size_loop (cur # stack) used =
     used_size_loop (rev (map snd (children cur)) @ stack)
       (add_sizes (nt_char_count (node_text cur)) (tenants cur) used)"
  by pat_completeness auto
termination
proof (relation "measure (\<lambda>(stack, used). sum_list (map count_nodes stack))", goal_cases)
  case (2 cur stack used)
  have "sum_list (map count_nodes (rev (map snd (children cur)))) = sum_list (map (\<lambda>e. count_nodes (snd e)) (children cur))"
    by (simp add: rev_map [symmetric] sum_list_rev comp_def)
  then show ?case by (cases cur) simp
qed simp

definition get_used_size_per_tenant :: "radix_tree \<Rightarrow> (tenant_id \<times> nat) list" where
  "get_used_size_per_tenant tree = used_size_loop [root tree] []"

definition get_tenant_char_count :: "radix_tree \<Rightarrow> (tenant_id \<times> nat) list" where
  "get_tenant_char_count tree = tenant_char_count tree"

section \<open>Well-formed trees\<close>

lemma radix_node_induct [case_names Node, induct type: radix_node]:
  assumes "\<And>nt cs ts lt. (\<And>c m. (c, m) \<in> set cs \<Longrightarrow> P m) \<Longrightarrow> P (Node nt cs ts lt)"
  shows "P n"
proof (induction n rule: radix_node.induct)
  case (Node nt cs ts lt)
  then show ?case by (intro assms) force
qed

definition text_ok :: "node_text \<Rightarrow> bool" where
  "text_ok nt \<longleftrightarrow> nt_char_count nt = length (nt_text nt)"

text \<open>
  What the parent knows of a child: its text is not empty and starts with the key it is stored
  under, it has a tenant, and every tenant of the child is a tenant of the parent.
\<close>

definition child_ok :: "(tenant_id \<times> nat) list \<Rightarrow> nat \<Rightarrow> radix_node \<Rightarrow> bool" where
  "child_ok ts c m \<longleftrightarrow>
     (\<exists>r. nt_text (node_text m) = c # r) \<and> tenants m \<noteq> [] \<and>
     (\<forall>t. has_tenant m t \<longrightarrow> contains_key ts t)"

fun wf_node :: "radix_node \<Rightarrow> bool" where
  "wf_node (Node nt cs ts lt) \<longleftrightarrow>
     text_ok nt \<and> map_wf cs \<and> map_wf ts \<and>
     (\<forall>e\<in>set cs. child_ok ts (fst e) (snd e) \<and> wf_node (snd e))"

text \<open>The characters a tenant uses below and at a node.\<close>

fun used :: "tenant_id \<Rightarrow> radix_node \<Rightarrow> nat" where
  "used t (Node nt cs ts lt) =
     (if contains_key ts t then nt_char_count nt else 0) + sum_list (map (\<lambda>e. used t (snd e)) cs)"

definition count_of :: "(tenant_id \<times> nat) list \<Rightarrow> tenant_id \<Rightarrow> nat" where
  "count_of cc t = (case map_get cc t of None \<Rightarrow> 0 | Some k \<Rightarrow> k)"

definition tree_ok :: "radix_tree \<Rightarrow> bool" where
  "tree_ok tree \<longleftrightarrow>
     wf_node (root tree) \<and> nt_text (node_text (root tree)) = [] \<and>
     map_wf (tenant_char_count tree) \<and>
     (\<forall>t. count_of (tenant_char_count tree) t = used t (root tree))"

section \<open>What a tree means\<close>

text \<open>
  \<open>owns t n s\<close>: the text \<open>s\<close> can be read downwards from \<open>n\<close> through nodes of tenant \<open>t\<close>
  (ending anywhere, also inside the text of a node).
\<close>

function owns :: "tenant_id \<Rightarrow> radix_node \<Rightarrow> ustr \<Rightarrow> bool" where
  "owns t n [] = has_tenant n t"
| "owns t n (c # r) =
     (case map_get (children n) c of
        None \<Rightarrow> False
      | Some m \<Rightarrow>
          let p = nt_text (node_text m) in
          if \<not> has_tenant m t then False
          else if prefix (c # r) p then True
          else if p \<noteq> [] \<and> prefix p (c # r) then owns t m (drop (length p) (c # r)) else False)"
  by pat_completeness auto
termination
  by (relation "measure (\<lambda>(t, n, s). length s)") (auto simp: Suc_le_eq)

definition owns_child :: "tenant_id \<Rightarrow> radix_node \<Rightarrow> ustr \<Rightarrow> bool" where
  "owns_child t m s \<longleftrightarrow>
     has_tenant m t \<and>
     (prefix s (nt_text (node_text m)) \<or>
      (nt_text (node_text m) \<noteq> [] \<and> prefix (nt_text (node_text m)) s \<and>
       owns t m (drop (length (nt_text (node_text m))) s)))"

lemma owns_Cons:
  "owns t n (c # r) = (case map_get (children n) c of None \<Rightarrow> False | Some m \<Rightarrow> owns_child t m (c # r))"
  by (auto simp: owns_child_def Let_def split: option.splits)

declare owns.simps(2) [simp del]

lemma owns_cong:
  "children n = children n' \<Longrightarrow> s \<noteq> [] \<Longrightarrow> owns t n s = owns t n' s"
  by (cases s) (simp_all add: owns_Cons)

lemmas node_updates [simp] = set_text_def set_child_def set_access_def set_last_tenant_def

lemma wf_nodeD:
  assumes "wf_node n"
  shows "text_ok (node_text n)" "map_wf (children n)" "map_wf (tenants n)"
    "map_get (children n) c = Some m \<Longrightarrow> child_ok (tenants n) c m \<and> wf_node m"
  using assms by (cases n; force dest: map_get_in_set)+

lemma wf_nodeI:
  assumes "text_ok (node_text n)" "map_wf (children n)" "map_wf (tenants n)"
    and "\<And>c m. (c, m) \<in> set (children n) \<Longrightarrow> child_ok (tenants n) c m \<and> wf_node m"
  shows "wf_node n"
  using assms by (cases n) force

lemma wf_node_child: "wf_node n \<Longrightarrow> (c, m) \<in> set (children n) \<Longrightarrow> child_ok (tenants n) c m \<and> wf_node m"
  by (cases n) force

lemma wf_set_child:
  assumes "wf_node n" and "wf_node m" and "child_ok (tenants n) c m"
  shows "wf_node (set_child c m n)"
proof (rule wf_nodeI)
  show "child_ok (tenants (set_child c m n)) c' m' \<and> wf_node m'"
    if "(c', m') \<in> set (children (set_child c m n))" for c' m'
    using that assms set_map_insert [of c m "children n"] wf_node_child [OF assms(1)] by auto
qed (use wf_nodeD [OF assms(1)] in auto)

text \<open>Adding a tenant to a node keeps it well formed: the children's tenants stay tenants of it.\<close>

lemma child_ok_mono: "child_ok ts c m \<Longrightarrow> (\<And>t. contains_key ts t \<Longrightarrow> contains_key ts' t) \<Longrightarrow> child_ok ts' c m"
  by (auto simp: child_ok_def)

lemma wf_set_access: "wf_node n \<Longrightarrow> wf_node (set_access t e n)"
  by (rule wf_nodeI) (auto dest: wf_nodeD wf_node_child intro: child_ok_mono)

lemma wf_set_last: "wf_node n \<Longrightarrow> wf_node (set_last_tenant t n)"
  by (rule wf_nodeI) (auto dest: wf_nodeD wf_node_child)

lemma has_tenant_set [simp]:
  "has_tenant (set_access t e n) t' \<longleftrightarrow> t' = t \<or> has_tenant n t'"
  "has_tenant (set_last_tenant t n) t' = has_tenant n t'"
  "has_tenant (set_child c m n) t' = has_tenant n t'"
  "has_tenant (set_text nt n) t' = has_tenant n t'"
  by (simp_all add: has_tenant_def)

lemma children_lack_tenant:
  assumes "wf_node n" and "\<not> has_tenant n t" and "s \<noteq> []"
  shows "\<not> owns t n s"
  using assms(3)
proof (cases s)
  case (Cons c r)
  then show ?thesis
    using assms wf_nodeD(4) [OF assms(1), of c]
    by (auto simp: owns_Cons owns_child_def child_ok_def has_tenant_def split: option.splits)
qed simp

lemma owns_imp_has: "wf_node n \<Longrightarrow> owns t n s \<Longrightarrow> has_tenant n t"
  by (cases "s = []") (auto dest: children_lack_tenant)

lemma owns_prefix_closed:
  "wf_node n \<Longrightarrow> owns t n s \<Longrightarrow> prefix s' s \<Longrightarrow> owns t n s'"
proof (induction "length s" arbitrary: n s s' rule: less_induct)
  case less
  show ?case
  proof (cases s')
    case Nil
    with less show ?thesis by (auto dest: owns_imp_has)
  next
    case (Cons c r')
    then obtain r where s: "s = c # r" using less.prems(3) by (cases s) auto
    from less.prems(2) s obtain m where m: "map_get (children n) c = Some m" "owns_child t m s"
      by (auto simp: owns_Cons split: option.splits)
    let ?p = "nt_text (node_text m)"
    have "owns_child t m s'"
    proof (cases "prefix s' ?p")
      case True
      with m show ?thesis by (simp add: owns_child_def)
    next
      case False
      have pre: "prefix ?p s" "owns t m (drop (length ?p) s)" "?p \<noteq> []"
        using m(2) False less.prems(3) by (auto simp: owns_child_def dest: prefix_order.trans)
      then have ps': "prefix ?p s'"
        using False less.prems(3) prefix_same_cases by blast
      have "prefix (drop (length ?p) s') (drop (length ?p) s)"
        using ps' less.prems(3) by (auto simp: prefix_def)
      then have "owns t m (drop (length ?p) s')"
        using less.hyps [of "drop (length ?p) s" m] pre s wf_nodeD(4) [OF less.prems(1) m(1)] by simp
      with m pre ps' show ?thesis by (simp add: owns_child_def)
    qed
    with Cons m(1) show ?thesis by (simp add: owns_Cons)
  qed
qed

lemma used_set_child:
  assumes "map_wf (children n)"
  shows "used t (set_child c m n) + (case map_get (children n) c of None \<Rightarrow> 0 | Some m' \<Rightarrow> used t m') =
         used t n + used t m"
proof (cases n)
  case (Node nt cs ts lt)
  have "sum_list (map (\<lambda>e. used t (snd e)) (map_insert c m cs)) +
      (case map_get cs c of None \<Rightarrow> 0 | Some m' \<Rightarrow> used t m') =
      sum_list (map (\<lambda>e. used t (snd e)) cs) + used t m"
    by (induction c m cs rule: map_insert.induct) auto
  with Node show ?thesis by simp
qed

lemma used_no_tenant: "wf_node n \<Longrightarrow> \<not> has_tenant n t \<Longrightarrow> used t n = 0"
proof (induction n)
  case (Node nt cs ts lt)
  have "used t (snd e) = 0" if "e \<in> set cs" for e
    using that Node.IH [of "fst e" "snd e"] Node.prems
    by (auto simp: child_ok_def has_tenant_def)
  then have "sum_list (map (\<lambda>e. used t (snd e)) cs) = 0"
    by (simp add: sum_list_eq_0_iff)
  with Node.prems show ?case by (simp add: has_tenant_def)
qed

section \<open>Splitting a node\<close>

lemma split_at_char_eq:
  assumes "text_ok nt" and "0 < k" and "k < nt_char_count nt"
  shows "split_at_char nt k =
    Some (\<lparr> nt_text = take k (nt_text nt), nt_char_count = k \<rparr>,
          \<lparr> nt_text = drop k (nt_text nt), nt_char_count = nt_char_count nt - k \<rparr>)"
proof -
  obtain i where i: "char_index_nth (nt_text nt) k = Some i"
    using assms char_index_None [of "nt_text nt" k] by (cases "char_index_nth (nt_text nt) k") (auto simp: text_ok_def)
  with assms show ?thesis
    by (simp add: split_at_char_def Let_def slice_to_index slice_from_index)
qed

lemma split_node_eq:
  assumes "wf_node m" and "0 < k" and "k < nt_char_count (node_text m)"
  defines "p \<equiv> nt_text (node_text m)"
  shows "split_node m k =
    Some (Node \<lparr> nt_text = take k p, nt_char_count = k \<rparr>
            [(p ! k, set_text \<lparr> nt_text = drop k p, nt_char_count = length p - k \<rparr> m)]
            (tenants m) (last_tenant m))"
proof -
  have ok: "text_ok (node_text m)" using assms(1) by (rule wf_nodeD)
  then have "drop k p = p ! k # drop (Suc k) p"
    using assms(3) by (simp add: p_def text_ok_def Cons_nth_drop_Suc)
  then show ?thesis
    using split_at_char_eq [OF ok assms(2,3)] ok
    by (simp add: split_node_def first_char_def p_def text_ok_def)
qed

lemma split_node_wf:
  assumes "wf_node m" and "0 < k" and "k < nt_char_count (node_text m)" and "tenants m \<noteq> []"
    and "split_node m k = Some m'"
  shows "wf_node m'"
proof -
  let ?p = "nt_text (node_text m)"
  have ok: "nt_char_count (node_text m) = length ?p" and k: "k < length ?p"
    using wf_nodeD(1) [OF assms(1)] assms(3) by (simp_all add: text_ok_def)
  have m': "m' = Node \<lparr> nt_text = take k ?p, nt_char_count = k \<rparr>
            [(?p ! k, set_text \<lparr> nt_text = drop k ?p, nt_char_count = length ?p - k \<rparr> m)]
            (tenants m) (last_tenant m)"
    using split_node_eq [OF assms(1-3)] assms(5) by simp
  have "wf_node (set_text \<lparr> nt_text = drop k ?p, nt_char_count = length ?p - k \<rparr> m)"
    using wf_nodeD [OF assms(1)] wf_node_child [OF assms(1)]
    by (intro wf_nodeI) (auto simp: text_ok_def)
  moreover have "drop k ?p = ?p ! k # drop (Suc k) ?p"
    using k by (simp add: Cons_nth_drop_Suc)
  ultimately show ?thesis
    using assms(4) k wf_nodeD(3) [OF assms(1)]
    by (simp add: m' text_ok_def child_ok_def has_tenant_def map_wf_def)
qed

lemma split_node_facts:
  assumes "wf_node m" and "0 < k" and "k < nt_char_count (node_text m)"
    and "split_node m k = Some m'"
  shows "tenants m' = tenants m"
    "nt_text (node_text m') = take k (nt_text (node_text m))"
    "nt_char_count (node_text m') = k"
    "used t m' = used t m"
proof -
  let ?p = "nt_text (node_text m)"
  have ok: "nt_char_count (node_text m) = length ?p"
    using wf_nodeD(1) [OF assms(1)] by (simp add: text_ok_def)
  have m': "m' = Node \<lparr> nt_text = take k ?p, nt_char_count = k \<rparr>
            [(?p ! k, set_text \<lparr> nt_text = drop k ?p, nt_char_count = length ?p - k \<rparr> m)]
            (tenants m) (last_tenant m)"
    using split_node_eq [OF assms(1-3)] assms(4) by simp
  show "tenants m' = tenants m" "nt_text (node_text m') = take k ?p" "nt_char_count (node_text m') = k"
    by (simp_all add: m')
  obtain nt cs ts lt where m: "m = Node nt cs ts lt" by (cases m)
  show "used t m' = used t m"
    using ok assms(3) by (simp add: m' m)
qed

lemma prefix_take_drop:
  assumes "k \<le> length p"
  shows "prefix s p \<longleftrightarrow> prefix s (take k p) \<or> (prefix (take k p) s \<and> prefix (drop k s) (drop k p))"
proof
  assume "prefix s p"
  then obtain z where z: "p = s @ z" by (auto simp: prefix_def)
  show "prefix s (take k p) \<or> (prefix (take k p) s \<and> prefix (drop k s) (drop k p))"
    by (cases "k \<le> length s") (auto simp: z take_is_prefix)
next
  assume "prefix s (take k p) \<or> (prefix (take k p) s \<and> prefix (drop k s) (drop k p))"
  then show "prefix s p"
  proof
    assume "prefix s (take k p)"
    then show ?thesis using take_is_prefix prefix_order.trans by blast
  next
    assume h: "prefix (take k p) s \<and> prefix (drop k s) (drop k p)"
    then have "s = take k p @ drop k s"
      using assms by (auto simp: prefix_def)
    then have "prefix s (take k p @ drop k p)"
      using h by (metis same_prefix_prefix)
    then show ?thesis by simp
  qed
qed

lemma prefix_append_drop:
  assumes "k \<le> length p"
  shows "prefix p s \<longleftrightarrow> prefix (take k p) s \<and> prefix (drop k p) (drop k s)"
proof -
  have "prefix (take k p @ drop k p) s \<longleftrightarrow> prefix (take k p) s \<and> prefix (drop k p) (drop k s)"
  proof
    assume "prefix (take k p @ drop k p) s"
    then obtain z where "s = take k p @ drop k p @ z" by (metis append.assoc prefixE)
    then show "prefix (take k p) s \<and> prefix (drop k p) (drop k s)"
      using assms by (metis append_eq_conv_conj length_take min.absorb2 prefixI)
  next
    assume h: "prefix (take k p) s \<and> prefix (drop k p) (drop k s)"
    then have "s = take k p @ drop k s"
      using assms by (auto simp: prefix_def)
    then show "prefix (take k p @ drop k p) s"
      using h by (metis same_prefix_prefix)
  qed
  then show ?thesis by simp
qed

text \<open>Splitting does not change what any tenant owns.\<close>

lemma owns_child_split:
  assumes "wf_node m" and "0 < k" and "k < nt_char_count (node_text m)"
    and "split_node m k = Some m'"
  shows "owns_child t m' s = owns_child t m s"
proof -
  let ?p = "nt_text (node_text m)"
  have ok: "nt_char_count (node_text m) = length ?p" and k: "k < length ?p"
    using wf_nodeD(1) [OF assms(1)] assms(3) by (simp_all add: text_ok_def)
  let ?low = "set_text \<lparr> nt_text = drop k ?p, nt_char_count = length ?p - k \<rparr> m"
  have m': "m' = Node \<lparr> nt_text = take k ?p, nt_char_count = k \<rparr> [(?p ! k, ?low)] (tenants m) (last_tenant m)"
    using split_node_eq [OF assms(1-3)] assms(4) by simp
  have same: "owns t ?low x = owns t m x" for x
    by (cases "x = []") (simp add: has_tenant_def, rule owns_cong, simp_all)
  have low: "owns t m' x \<longleftrightarrow> has_tenant m t \<and>
      (prefix x (drop k ?p) \<or> (prefix (drop k ?p) x \<and> owns t m (drop (length ?p - k) x)))" for x
  proof (cases x)
    case Nil
    then show ?thesis by (simp add: m' has_tenant_def)
  next
    case (Cons c r)
    have d: "drop k ?p = ?p ! k # drop (Suc k) ?p"
      using k by (simp add: Cons_nth_drop_Suc)
    show ?thesis
    proof (cases "?p ! k = c")
      case True
      then show ?thesis
        using k same [of "drop (length ?p - k) x"]
        by (simp add: Cons m' owns_Cons owns_child_def has_tenant_def)
    next
      case False
      then show ?thesis
        by (simp add: Cons m' owns_Cons d)
    qed
  qed
  have drop2: "drop (length ?p - k) (drop k s) = drop (length ?p) s"
    using k by simp
  have has: "has_tenant m' t = has_tenant m t" and tx: "nt_text (node_text m') = take k ?p"
    by (simp_all add: m' has_tenant_def)
  have len: "length (take k ?p) = k" "take k ?p \<noteq> []" using k assms(2) by auto
  show ?thesis
    unfolding owns_child_def has tx len low
    using prefix_take_drop [of k ?p s] prefix_append_drop [of k ?p s] k drop2 len(2)
    by auto
qed

section \<open>Insertion refines adding the prefixes of a text\<close>

lemma node_update_sels [simp]:
  "node_text (set_child c m n) = node_text n" "tenants (set_child c m n) = tenants n"
  "children (set_child c m n) = map_insert c m (children n)" "last_tenant (set_child c m n) = last_tenant n"
  "node_text (set_access t e n) = node_text n" "tenants (set_access t e n) = map_insert t e (tenants n)"
  "children (set_access t e n) = children n" "last_tenant (set_access t e n) = last_tenant n"
  "node_text (set_last_tenant t n) = node_text n" "tenants (set_last_tenant t n) = tenants n"
  "children (set_last_tenant t n) = children n" "last_tenant (set_last_tenant t n) = Some t"
  by simp_all

declare node_updates [simp del]

lemma used_set_access:
  "used t' (set_access t e n) =
     used t' n + (if t' = t \<and> \<not> has_tenant n t then nt_char_count (node_text n) else 0)"
  by (cases n) (auto simp: has_tenant_def set_access_def)

lemma count_of_add_chars: "count_of (add_chars t k cc) t' = count_of cc t' + (if t' = t then k else 0)"
  by (auto simp: count_of_def add_chars_def split: option.splits)

lemma map_wf_add_chars [simp]: "map_wf cc \<Longrightarrow> map_wf (add_chars t k cc)"
  by (simp add: add_chars_def)

lemma owns_set_child:
  "owns t' (set_child c m n) s =
     (case s of [] \<Rightarrow> has_tenant n t'
      | c' # r \<Rightarrow> if c' = c then owns_child t' m s else owns t' n s)"
  by (cases s) (simp_all add: owns_Cons has_tenant_def)

lemma owns_set_access: "owns t' (set_access t e n) s = (if s = [] then t' = t \<or> has_tenant n t' else owns t' n s)"
proof (cases "s = []")
  case False
  then show ?thesis using owns_cong [of "set_access t e n" n s t'] by simp
qed (simp add: has_tenant_def)

text \<open>The node that the walk continues at, after the split if there is one.\<close>

lemma next_prev_spec:
  assumes wf: "wf_node prev" and m: "map_get (children prev) c = Some m"
    and sh_def: "sh = shared_prefix_count (c # r) (nt_text (node_text m))"
  obtains m' where
    "(if sh < nt_char_count (node_text m) then split_node m sh else Some m) = Some m'"
    "wf_node m'" "tenants m' = tenants m" "nt_text (node_text m') = take sh (c # r)"
    "nt_char_count (node_text m') = sh" "0 < sh" "sh \<le> length (c # r)"
    "sh \<le> nt_char_count (node_text m)"
    "\<And>t. used t m' = used t m" "\<And>t s. owns_child t m' s = owns_child t m s"
proof -
  have child: "child_ok (tenants prev) c m" "wf_node m"
    using wf_nodeD(4) [OF wf m] by auto
  let ?p = "nt_text (node_text m)"
  obtain q where q: "?p = c # q" using child(1) by (auto simp: child_ok_def)
  have cnt: "nt_char_count (node_text m) = length ?p"
    using wf_nodeD(1) [OF child(2)] by (simp add: text_ok_def)
  have sh0: "0 < sh" by (simp add: sh_def shared_prefix_count_eq q)
  have shr: "sh \<le> length (c # r)" and shp: "sh \<le> length ?p"
    unfolding sh_def shared_prefix_count_eq by (rule shared_prefix_chars_le)+
  have tk: "take sh ?p = take sh (c # r)"
    unfolding sh_def shared_prefix_count_eq by (rule shared_prefix_chars_take [symmetric])
  show thesis
  proof (cases "sh < nt_char_count (node_text m)")
    case True
    obtain m' where m': "split_node m sh = Some m'"
      using split_node_eq [OF child(2) sh0 True] by simp
    have "tenants m \<noteq> []" using child(1) by (simp add: child_ok_def)
    note facts = split_node_facts [OF child(2) sh0 True m']
      split_node_wf [OF child(2) sh0 True this m'] owns_child_split [OF child(2) sh0 True m']
    show thesis
      by (rule that [of m']) (use True m' facts sh0 shr shp tk cnt in auto)
  next
    case False
    then have "take sh (c # r) = ?p" "sh = length ?p" using shp cnt tk by auto
    then show thesis
      by (intro that [of m]) (use False child(2) cnt sh0 shr in auto)
  qed
qed

definition insert_post ::
    "tenant_id \<Rightarrow> ustr \<Rightarrow> radix_node \<Rightarrow> (tenant_id \<times> nat) list \<Rightarrow> radix_node \<Rightarrow> (tenant_id \<times> nat) list \<Rightarrow> bool" where
  "insert_post t text n cc n' cc' \<longleftrightarrow>
     wf_node n' \<and> node_text n' = node_text n \<and> (\<forall>t'. has_tenant n' t' = has_tenant n t') \<and>
     (\<forall>t' s. owns t' n' s \<longleftrightarrow> owns t' n s \<or> (t' = t \<and> prefix s text)) \<and>
     (\<forall>t'. count_of cc' t' + used t' n = count_of cc t' + used t' n') \<and>
     (map_wf cc \<longrightarrow> map_wf cc')"

lemma insert_post_leaf:
  assumes "wf_node n" "has_tenant n t" "map_get (children n) c = None"
  shows "insert_post t (c # r) n cc
    (set_child c (Node (node_text_new (c # r)) [] [(t, e)] (Some t)) n) (add_chars t (length (c # r)) cc)"
proof -
  let ?leaf = "Node (node_text_new (c # r)) [] [(t, e)] (Some t)"
  have leaf_ok: "wf_node ?leaf" "child_ok (tenants n) c ?leaf"
    using assms(2) by (auto simp: text_ok_def node_text_new_def map_wf_def child_ok_def has_tenant_def)
  have nochild: "owns t' ?leaf s \<longleftrightarrow> s = [] \<and> t' = t" for t' s
    by (cases s) (auto simp: owns_Cons has_tenant_def)
  have leaf: "owns_child t' ?leaf s \<longleftrightarrow> t' = t \<and> prefix s (c # r)" for t' s
    using nochild [of t' "drop (length (c # r)) s"]
    by (auto simp: owns_child_def has_tenant_def node_text_new_def simp del: owns.simps elim: prefixE)
  have "owns t' (set_child c ?leaf n) s \<longleftrightarrow> owns t' n s \<or> (t' = t \<and> prefix s (c # r))" for t' s
    using assms(2,3) leaf [of t' s]
    by (cases s) (auto simp: owns_set_child owns_Cons)
  moreover have "count_of (add_chars t (length (c # r)) cc) t' + used t' n =
      count_of cc t' + used t' (set_child c ?leaf n)" for t'
    using used_set_child [OF wf_nodeD(2) [OF assms(1)], of t' c ?leaf] assms(3)
    by (simp add: count_of_add_chars node_text_new_def)
  ultimately show ?thesis
    using wf_set_child [OF assms(1) leaf_ok] by (simp add: insert_post_def has_tenant_def)
qed

lemma insert_post_end:
  assumes "wf_node n" "has_tenant n t"
  shows "insert_post t [] n cc (set_access t e n) cc"
  using assms wf_set_access [OF assms(1), of t e]
  by (auto simp: insert_post_def used_set_access owns_set_access)

lemma attach_tenant_spec:
  assumes wf: "wf_node m" and att: "attach_tenant t (nt_char_count (node_text m)) m cc = (m1, cc1)"
  shows "wf_node m1" "node_text m1 = node_text m" "has_tenant m1 t' \<longleftrightarrow> has_tenant m t' \<or> t' = t"
    "owns_child t' m1 s \<longleftrightarrow> owns_child t' m s \<or> (t' = t \<and> prefix s (nt_text (node_text m)))"
    "count_of cc1 t' + used t' m = count_of cc t' + used t' m1"
    "map_wf cc \<Longrightarrow> map_wf cc1"
proof -
  have m1: "m1 = (if has_tenant m t then m else set_access t 0 m)"
    and cc1: "cc1 = (if has_tenant m t then cc else add_chars t (nt_char_count (node_text m)) cc)"
    using att by (auto simp: attach_tenant_def split: if_splits)
  show "wf_node m1" using wf wf_set_access [OF wf] by (simp add: m1)
  show nt: "node_text m1 = node_text m" by (simp add: m1)
  show has: "has_tenant m1 t' \<longleftrightarrow> has_tenant m t' \<or> t' = t" for t'
    by (auto simp: m1)
  show "count_of cc1 t' + used t' m = count_of cc t' + used t' m1"
    by (simp add: m1 cc1 used_set_access count_of_add_chars)
  show "map_wf cc \<Longrightarrow> map_wf cc1" by (simp add: cc1)
  have below: "owns t' m1 x \<longleftrightarrow> owns t' m x \<or> (x = [] \<and> t' = t)" for t' x
    by (cases "x = []") (auto simp: m1 owns_set_access)
  show "owns_child t' m1 s \<longleftrightarrow> owns_child t' m s \<or> (t' = t \<and> prefix s (nt_text (node_text m)))"
    using children_lack_tenant [OF wf, of t]
    by (auto simp: owns_child_def nt has below elim!: prefixE) blast+
qed

lemma insert_post_step:
  assumes wf: "wf_node prev" "has_tenant prev t" and m: "map_get (children prev) c = Some m"
    and m': "wf_node m'" "tenants m' = tenants m" "nt_text (node_text m') = p" "nt_char_count (node_text m') = length p"
      "\<And>t. used t m' = used t m" "\<And>t s. owns_child t m' s = owns_child t m s" "p \<noteq> []" "c # r = p @ rest"
    and att: "attach_tenant t (length p) m' cc = (m1, cc1)"
    and IH: "insert_post t rest m1 cc1 m2 cc2"
  shows "insert_post t (c # r) prev cc (set_child c m2 prev) cc2"
proof -
  note att' = attach_tenant_spec [OF m'(1), of t cc m1 cc1, unfolded m'(3,4), OF att]
  have post: "wf_node m2" "node_text m2 = node_text m1" "\<And>t'. has_tenant m2 t' = has_tenant m1 t'"
    "\<And>t' s. owns t' m2 s \<longleftrightarrow> owns t' m1 s \<or> (t' = t \<and> prefix s rest)"
    "\<And>t'. count_of cc2 t' + used t' m1 = count_of cc1 t' + used t' m2"
    "map_wf cc1 \<Longrightarrow> map_wf cc2"
    using IH by (auto simp: insert_post_def)
  have has2: "has_tenant m2 t' \<longleftrightarrow> has_tenant m t' \<or> t' = t" for t'
    using post(3) att'(3) m'(2) by (simp add: has_tenant_def)
  have "has_tenant m2 t" using has2 by simp
  then have "tenants m2 \<noteq> []" by (auto simp: has_tenant_def)
  moreover have "nt_text (node_text m2) = p" using post(2) att'(2) m'(3) by simp
  ultimately have ok2: "child_ok (tenants prev) c m2"
    using m'(7,8) has2 wf wf_nodeD(4) [OF wf(1) m] by (cases p) (auto simp: child_ok_def has_tenant_def)
  have own: "owns_child t' m2 s \<longleftrightarrow> owns_child t' m s \<or> (t' = t \<and> prefix s (c # r))" for t' s
  proof -
    have "owns_child t' m2 s \<longleftrightarrow> owns_child t' m1 s \<or> (t' = t \<and> prefix p s \<and> prefix (drop (length p) s) rest)"
      using m'(7) has2 att'(3) by (auto simp: owns_child_def post(2-4) att'(2) m'(2,3))
    moreover have "prefix s (p @ rest) \<longleftrightarrow> prefix s p \<or> (prefix p s \<and> prefix (drop (length p) s) rest)"
      using prefix_take_drop [of "length p" "p @ rest" s] by simp
    ultimately show ?thesis
      using att'(4) m'(6,8) by auto
  qed
  have "owns t' (set_child c m2 prev) s \<longleftrightarrow> owns t' prev s \<or> (t' = t \<and> prefix s (c # r))" for t' s
    using own [of t' s] m wf(2) by (cases s) (auto simp: owns_set_child owns_Cons)
  moreover have "count_of cc2 t' + used t' prev = count_of cc t' + used t' (set_child c m2 prev)" for t'
    using used_set_child [OF wf_nodeD(2) [OF wf(1)], of t' c m2] m post(5) [of t'] att'(5) [of t'] m'(5) [of t']
    by simp
  ultimately show ?thesis
    using wf_set_child [OF wf(1) post(1) ok2] post(6) att'(6)
    by (simp add: insert_post_def has_tenant_def)
qed

lemma insert_from_spec:
  assumes "wf_node prev" and "has_tenant prev t" and "length rem \<le> fuel"
  shows "\<exists>n' cc' e'. insert_from fuel t rem prev cc epoch = Some (n', cc', e') \<and> insert_post t rem prev cc n' cc'"
  using assms
proof (induction fuel arbitrary: rem prev cc)
  case 0
  then show ?case using insert_post_end by simp
next
  case (Suc fuel)
  show ?case
  proof (cases rem)
    case Nil
    then show ?thesis using insert_post_end Suc.prems by simp
  next
    case (Cons c r)
    show ?thesis
    proof (cases "map_get (children prev) c")
      case None
      then show ?thesis
        using insert_post_leaf [OF Suc.prems(1,2) None] by (simp add: Let_def Cons)
    next
      case (Some m)
      define sh where "sh = shared_prefix_count (c # r) (nt_text (node_text m))"
      obtain m' where m': "(if sh < nt_char_count (node_text m) then split_node m sh else Some m) = Some m'"
        "wf_node m'" "tenants m' = tenants m" "nt_text (node_text m') = take sh (c # r)"
        "nt_char_count (node_text m') = sh" "0 < sh" "sh \<le> length (c # r)"
        "sh \<le> nt_char_count (node_text m)"
        "\<And>t. used t m' = used t m" "\<And>t s. owns_child t m' s = owns_child t m s"
        using next_prev_spec [OF Suc.prems(1) Some sh_def] by blast
      have k: "(if sh < nt_char_count (node_text m) then sh else nt_char_count (node_text m)) = sh"
        using m'(8) by simp
      obtain m1 cc1 where att: "attach_tenant t sh m' cc = (m1, cc1)" by fastforce
      note a = attach_tenant_spec [OF m'(2), of t cc m1 cc1, unfolded m'(5), OF att]
      have "length (drop sh (c # r)) \<le> fuel" using m'(6) Suc.prems(3) Cons by simp
      then obtain m2 cc2 e2 where rec: "insert_from fuel t (drop sh (c # r)) m1 cc1 epoch = Some (m2, cc2, e2)"
          and post: "insert_post t (drop sh (c # r)) m1 cc1 m2 cc2"
        using Suc.IH [of m1 "drop sh (c # r)" cc1] a(1,3) by blast
      have "insert_from (Suc fuel) t (c # r) prev cc epoch = Some (set_child c m2 prev, cc2, e2)"
        by (simp only: insert_from.simps Let_def Some option.case sh_def [symmetric] m'(1) k att
              advance_by_chars_eq rec Option.bind.simps prod.case)
      moreover have "insert_post t (c # r) prev cc (set_child c m2 prev) cc2"
        by (rule insert_post_step [OF Suc.prems(1,2) Some m'(2,3,4) _ m'(9,10) _ _ _ post])
           (use m'(5,6,7) att in auto)
      ultimately show ?thesis using Cons by simp
    qed
  qed
qed

lemma tree_new_ok: "tree_ok (tree_new e)"
  by (simp add: tree_ok_def tree_new_def node_text_empty_def text_ok_def map_wf_def count_of_def)

lemma insert_spec:
  assumes "tree_ok tree"
  shows "\<exists>tree'. insert text t tree = Some tree' \<and> tree_ok tree' \<and>
    (\<forall>t' s. owns t' (root tree') s \<longleftrightarrow> owns t' (root tree) s \<or> (t' = t \<and> prefix s text))"
proof -
  let ?rt = "Node (node_text (root tree)) (children (root tree)) (map_or_insert t 0 (tenants (root tree))) (last_tenant (root tree))"
  let ?cc = "map_or_insert t 0 (tenant_char_count tree)"
  have ok: "wf_node (root tree)" "nt_text (node_text (root tree)) = []" "map_wf (tenant_char_count tree)"
    "\<And>t. count_of (tenant_char_count tree) t = used t (root tree)"
    using assms by (auto simp: tree_ok_def)
  have len0: "nt_char_count (node_text (root tree)) = 0"
    using ok(2) wf_nodeD(1) [OF ok(1)] by (simp add: text_ok_def)
  have wf: "wf_node ?rt" 
    by (rule wf_nodeI) (use ok(1) in \<open>auto dest: wf_nodeD wf_node_child intro: child_ok_mono\<close>)
  have has: "has_tenant ?rt t' \<longleftrightarrow> t' = t \<or> has_tenant (root tree) t'" for t' by (simp add: has_tenant_def)
  then obtain n' cc' e' where ins: "insert_from (length text) t text ?rt ?cc (epoch_counter tree) = Some (n', cc', e')"
      and post: "insert_post t text ?rt ?cc n' cc'"
    using insert_from_spec [OF wf, of t "text" "length text"] by blast
  have cc: "count_of ?cc t' = count_of (tenant_char_count tree) t'" for t'
    by (auto simp: count_of_def map_or_insert_def contains_key_get split: option.splits)
  have usd: "used t' ?rt = used t' (root tree)" for t'
    using len0 by (cases "root tree") auto
  have own: "owns t' ?rt s \<longleftrightarrow> owns t' (root tree) s \<or> (s = [] \<and> t' = t)" for t' s
    using owns_cong [of ?rt "root tree" s t'] has by (cases "s = []") auto
  have "tree_ok (tree\<lparr>root := n', tenant_char_count := cc', epoch_counter := e'\<rparr>)"
    using post ok usd cc by (simp add: tree_ok_def insert_post_def)
  moreover have "owns t' n' s \<longleftrightarrow> owns t' (root tree) s \<or> (t' = t \<and> prefix s text)" for t' s
    using post own by (auto simp: insert_post_def)
  ultimately show ?thesis using ins by (auto simp: insert_def Let_def)
qed

text \<open>
  C3: inserting a text for a tenant into a consistent tree never panics, gives a consistent tree
  (well formed, and the character count of every tenant is what it uses), and the texts a tenant
  owns afterwards are exactly those it owned before, and for that tenant the prefixes of the text.
\<close>

theorem insert_refines:
  assumes "tree_ok tree"
  shows "\<exists>tree'. insert text t tree = Some tree' \<and> tree_ok tree' \<and>
    (\<forall>t' s. owns t' (root tree') s \<longleftrightarrow> owns t' (root tree) s \<or> (t' = t \<and> prefix s text))"
  by (rule insert_spec [OF assms])

theorem insert_refines_witness:
  "\<exists>tree'. insert [104, 105] ''w1'' (tree_new 1) = Some tree' \<and> tree_ok tree' \<and>
    (\<forall>t' s. owns t' (root tree') s \<longleftrightarrow> owns t' (root (tree_new 1)) s \<or> (t' = ''w1'' \<and> prefix s [104, 105]))"
  by (rule insert_refines [OF tree_new_ok])

section \<open>Matching finds the longest owned prefix\<close>

text \<open>A match may refresh timestamps and the cached tenant, but the tree means the same.\<close>

definition same_node :: "radix_node \<Rightarrow> radix_node \<Rightarrow> bool" where
  "same_node n n' \<longleftrightarrow>
     wf_node n' \<and> node_text n' = node_text n \<and> (\<forall>t. has_tenant n' t = has_tenant n t) \<and>
     (\<forall>t s. owns t n' s = owns t n s) \<and> (\<forall>t. used t n' = used t n)"

lemma same_node_refl: "wf_node n \<Longrightarrow> same_node n n"
  by (simp add: same_node_def)

lemma used_set_last [simp]: "used t' (set_last_tenant t n) = used t' n"
  by (cases n) (simp add: set_last_tenant_def)

lemma owns_set_last [simp]: "owns t' (set_last_tenant t n) s = owns t' n s"
  using owns_cong [of "set_last_tenant t n" n s t'] by (cases "s = []") auto

lemma same_set_last: "wf_node n \<Longrightarrow> same_node n (set_last_tenant t n)"
  by (simp add: same_node_def wf_set_last)

lemma same_set_access: "wf_node n \<Longrightarrow> has_tenant n t \<Longrightarrow> same_node n (set_access t e n)"
  by (auto simp: same_node_def wf_set_access owns_set_access used_set_access)

lemma same_set_child:
  assumes "wf_node n" and m: "map_get (children n) c = Some m" and same: "same_node m m'"
  shows "same_node n (set_child c m' n)"
proof -
  have ok: "child_ok (tenants n) c m" using wf_nodeD(4) [OF assms(1) m] by simp
  have m': "wf_node m'" "node_text m' = node_text m" "\<And>t. has_tenant m' t = has_tenant m t"
    "\<And>t s. owns t m' s = owns t m s" "\<And>t. used t m' = used t m"
    using same by (auto simp: same_node_def)
  have "tenants m' \<noteq> []"
    using ok m'(3) by (cases "tenants m") (force simp: child_ok_def has_tenant_def)+
  then have "child_ok (tenants n) c m'" using ok m' by (simp add: child_ok_def)
  moreover have "owns t (set_child c m' n) s = owns t n s" for t s
    using m m' by (cases s) (auto simp: owns_set_child owns_Cons owns_child_def)
  moreover have "used t (set_child c m' n) = used t n" for t
    using used_set_child [OF wf_nodeD(2) [OF assms(1)], of t c m'] m m'(5) by simp
  ultimately show ?thesis
    using wf_set_child [OF assms(1) m'(1)] by (simp add: same_node_def)
qed

lemma touch_matched_spec:
  assumes "wf_node n" "tenants n \<noteq> []" "touch_matched epoch n = (t, n')"
  shows "has_tenant n t" "same_node n n'"
proof -
  obtain u m where sel: "select_tenant n = (u, m)" by fastforce
  have first: "has_tenant n (first_tenant n)"
    using assms(2) by (cases "tenants n") (auto simp: first_tenant_def has_tenant_def)
  then have u: "has_tenant n u" "m = n \<or> m = set_last_tenant u n"
    using sel by (auto simp: select_tenant_def Let_def split: option.splits if_splits)
  have "t = u" "n' = (if epoch mod 8 = 0 then set_access t epoch m else m)"
    using assms(3) sel by (auto simp: touch_matched_def)
  then show "has_tenant n t" "same_node n n'"
    using u assms(1) same_node_refl [OF assms(1)] same_set_last [OF assms(1), of t]
      same_set_access [OF assms(1) u(1)] same_set_access [of m t epoch]
    by (auto simp: same_node_def)
qed

text \<open>How the prefixes of a text owned below a node are found: by its child on the first character.\<close>

lemma shared_full:
  assumes "wf_node m"
  shows "shared_prefix_count s (nt_text (node_text m)) = nt_char_count (node_text m) \<longleftrightarrow> prefix (nt_text (node_text m)) s"
  using wf_nodeD(1) [OF assms] shared_prefix_chars_full [of s "nt_text (node_text m)"]
  by (simp add: shared_prefix_count_eq text_ok_def)

lemma owns_walk_partial:
  assumes "wf_node prev" and m: "map_get (children prev) c = Some m" and "has_tenant m t"
    and np: "\<not> prefix (nt_text (node_text m)) (c # r)"
    and sh: "sh = shared_prefix_count (c # r) (nt_text (node_text m))"
  shows "owns t prev (take sh (c # r))" "sh \<le> length (c # r)"
    "prefix s (c # r) \<Longrightarrow> owns t' prev s \<Longrightarrow> length s \<le> sh"
proof -
  let ?p = "nt_text (node_text m)"
  have hp: "has_tenant prev t" using wf_nodeD(4) [OF assms(1) m] assms(3) by (auto simp: child_ok_def has_tenant_def)
  have tk: "take sh (c # r) = take sh ?p" and sh': "sh = shared_prefix_count_chars (c # r) ?p"
    using shared_prefix_chars_take [of "c # r" ?p] by (simp_all add: sh shared_prefix_count_eq)
  show "sh \<le> length (c # r)" unfolding sh' by (rule shared_prefix_chars_le)
  show "owns t prev (take sh (c # r))"
  proof (cases sh)
    case (Suc k)
    then have "take sh (c # r) = c # take k r" "prefix (c # take k r) ?p"
      using tk take_is_prefix [of sh ?p] by auto
    then show ?thesis using m assms(3) by (simp add: owns_Cons owns_child_def)
  qed (simp add: hp)
  show "length s \<le> sh" if "prefix s (c # r)" "owns t' prev s"
  proof (cases s)
    case (Cons d q)
    then have "d = c" "owns_child t' m s" using that m by (auto simp: owns_Cons)
    then have "prefix s ?p"
      using np that(1) by (auto simp: owns_child_def intro: prefix_order.trans)
    then show ?thesis unfolding sh' using that(1) by (rule shared_prefix_chars_max [rotated])
  qed simp
qed

lemma owns_walk_full:
  assumes m: "map_get (children prev) c = Some m"
    and p: "prefix (nt_text (node_text m)) (c # r)" "nt_text (node_text m) \<noteq> []"
    and wf: "wf_node m"
  shows "owns t prev (take (length (nt_text (node_text m)) + k) (c # r)) \<longleftrightarrow>
      owns t m (take k (drop (length (nt_text (node_text m))) (c # r)))"
    "prefix s (c # r) \<Longrightarrow> owns t prev s \<Longrightarrow> length s \<le> length (nt_text (node_text m)) \<or>
       (prefix (drop (length (nt_text (node_text m))) s) (drop (length (nt_text (node_text m))) (c # r)) \<and>
        owns t m (drop (length (nt_text (node_text m))) s))"
proof -
  let ?p = "nt_text (node_text m)"
  obtain q where q: "c # r = ?p @ q" using p(1) by (auto simp: prefix_def)
  obtain p' where p': "?p = c # p'" using q p(2) by (cases ?p) auto
  have eq: "take (length ?p + k) (c # r) = ?p @ take k q" by (simp add: q)
  have dq: "drop (length ?p) (c # r) = q" by (simp add: q)
  have "owns t prev (?p @ take k q) \<longleftrightarrow> owns_child t m (?p @ take k q)"
    using m by (simp add: owns_Cons p')
  also have "\<dots> \<longleftrightarrow> owns t m (take k q)"
    using owns_imp_has [OF wf, of t] p(2) by (cases "take k q = []") (auto simp: owns_child_def)
  finally show "owns t prev (take (length ?p + k) (c # r)) \<longleftrightarrow> owns t m (take k (drop (length ?p) (c # r)))"
    unfolding eq dq .
  show "length s \<le> length ?p \<or> (prefix (drop (length ?p) s) (drop (length ?p) (c # r)) \<and> owns t m (drop (length ?p) s))"
    if "prefix s (c # r)" "owns t prev s"
  proof (cases s)
    case (Cons d s')
    then have "owns_child t m s" using that m by (auto simp: owns_Cons)
    then show ?thesis
      using that(1) by (auto simp: owns_child_def dest: prefix_length_le intro: prefix_order.trans
        elim!: prefixE simp: dq q)
  qed simp
qed

lemma match_from_spec:
  assumes "wf_node prev" and "tenants prev \<noteq> []" and "length rem \<le> fuel"
  shows "\<exists>t k n'. match_from fuel rem prev matched epoch = Some (t, matched + k, n') \<and>
    k \<le> length rem \<and> owns t prev (take k rem) \<and>
    (\<forall>t' s. prefix s rem \<longrightarrow> owns t' prev s \<longrightarrow> length s \<le> k) \<and> same_node prev n'"
  using assms
proof (induction fuel arbitrary: rem prev matched)
  case 0
  obtain t n' where tm: "touch_matched epoch prev = (t, n')" by fastforce
  show ?case using 0 touch_matched_spec [OF 0(1,2) tm] tm by (intro exI [of _ t] exI [of _ 0]) auto
next
  case (Suc fuel)
  obtain t n' where tm: "touch_matched epoch prev = (t, n')" by fastforce
  note tm' = touch_matched_spec [OF Suc.prems(1,2) tm]
  show ?case
  proof (cases rem)
    case Nil
    then show ?thesis using tm tm' by (intro exI [of _ t] exI [of _ 0]) auto
  next
    case (Cons c r)
    show ?thesis
    proof (cases "map_get (children prev) c")
      case None
      have "length s \<le> 0" if "prefix s rem" "owns t' prev s" for t' s
        using that None Cons by (cases s) (auto simp: owns_Cons)
      then show ?thesis using None Cons tm tm' by (intro exI [of _ t] exI [of _ 0]) auto
    next
      case (Some m)
      let ?p = "nt_text (node_text m)" and ?sh = "shared_prefix_count (c # r) (nt_text (node_text m))"
      have m: "wf_node m" "tenants m \<noteq> []" "?p \<noteq> []" "nt_char_count (node_text m) = length ?p"
        using wf_nodeD(4) [OF Suc.prems(1) Some] wf_nodeD(1) by (auto simp: child_ok_def text_ok_def)
      show ?thesis
      proof (cases "prefix ?p (c # r)")
        case True
        have full: "?sh = length ?p" using shared_full [OF m(1), of "c # r"] True m(4) by simp
        have "length (drop (length ?p) (c # r)) \<le> fuel" using m(3) Suc.prems(3) Cons by (cases ?p) auto
        then obtain u k m' where rec: "match_from fuel (drop (length ?p) (c # r)) m (matched + length ?p) epoch = Some (u, matched + length ?p + k, m')"
            and k: "k \<le> length (drop (length ?p) (c # r))" "owns u m (take k (drop (length ?p) (c # r)))"
              "\<And>t' s. prefix s (drop (length ?p) (c # r)) \<Longrightarrow> owns t' m s \<Longrightarrow> length s \<le> k"
            and same: "same_node m m'"
          using Suc.IH [OF m(1,2), of "drop (length ?p) (c # r)" "matched + length ?p"] by blast
        have "length s \<le> length ?p + k" if "prefix s (c # r)" "owns t' prev s" for t' s
          using owns_walk_full(2) [OF Some True m(3,1) that] k(3) [of "drop (length ?p) s" t'] by auto
        moreover have "length ?p + k \<le> length (c # r)" using k(1) prefix_length_le [OF True] by simp
        moreover have "match_from (Suc fuel) rem prev matched epoch = Some (u, matched + (length ?p + k), set_child c m' prev)"
          using Some Cons full m(4) rec by (simp add: Let_def advance_by_chars_eq add.assoc)
        ultimately show ?thesis
          using k(2) owns_walk_full(1) [OF Some True m(3,1)] same_set_child [OF Suc.prems(1) Some same] Cons
          by blast
      next
        case False
        have nf: "?sh \<noteq> nt_char_count (node_text m)" using shared_full [OF m(1), of "c # r"] False by simp
        obtain u m' where um: "touch_matched epoch m = (u, m')" by fastforce
        note um' = touch_matched_spec [OF m(1,2) um]
        note walk = owns_walk_partial [OF Suc.prems(1) Some um'(1) False refl]
        have "match_from (Suc fuel) rem prev matched epoch = Some (u, matched + ?sh, set_child c m' prev)"
          using Some Cons nf um by (simp add: Let_def)
        then show ?thesis
          using walk same_set_child [OF Suc.prems(1) Some um'(2)] Cons by blast
      qed
    qed
  qed
qed

lemma prefix_match_spec:
  assumes "tree_ok tree" and "tenants (root tree) \<noteq> []"
  shows "\<exists>result tree'. prefix_match_with_counts text tree = Some (result, tree') \<and>
    input_char_count result = length text \<and> matched_char_count result \<le> length text \<and>
    owns (pm_tenant result) (root tree) (take (matched_char_count result) text) \<and>
    (\<forall>t s. prefix s text \<longrightarrow> owns t (root tree) s \<longrightarrow> length s \<le> matched_char_count result) \<and>
    tree_ok tree' \<and> (\<forall>t s. owns t (root tree') s = owns t (root tree) s)"
proof -
  have wf: "wf_node (root tree)" using assms(1) by (simp add: tree_ok_def)
  obtain t k n' where
    "match_from (length text) text (root tree) 0 (epoch_counter tree) = Some (t, k, n')"
    "k \<le> length text" "owns t (root tree) (take k text)"
    "\<forall>t' s. prefix s text \<longrightarrow> owns t' (root tree) s \<longrightarrow> length s \<le> k" "same_node (root tree) n'"
    using match_from_spec [OF wf assms(2), of "text" "length text" 0 "epoch_counter tree"] by auto
  then show ?thesis
    using assms(1) by (simp add: prefix_match_with_counts_def same_node_def tree_ok_def)
qed

lemma match_tenant_from_spec:
  assumes "wf_node prev" and "length rem \<le> fuel"
  shows "\<exists>k n' e'. match_tenant_from fuel t rem prev matched epoch = Some (matched + k, n', e') \<and>
    k \<le> length rem \<and> (has_tenant prev t \<longrightarrow> owns t prev (take k rem)) \<and>
    (\<forall>s. prefix s rem \<longrightarrow> owns t prev s \<longrightarrow> length s \<le> k) \<and> (\<not> has_tenant prev t \<longrightarrow> k = 0) \<and> same_node prev n'"
  using assms
proof (induction fuel arbitrary: rem prev matched)
  case 0
  then show ?case using same_set_access [OF 0(1), of t epoch] same_node_refl [OF 0(1)]
    by (auto simp: touch_tenant_def)
next
  case (Suc fuel)
  have touch: "same_node n (fst (touch_tenant t epoch n))" if "wf_node n" for n
    using same_set_access [OF that, of t epoch] same_node_refl [OF that] by (simp add: touch_tenant_def)
  obtain n' e' where tt: "touch_tenant t epoch prev = (n', e')" by fastforce
  have stop: ?case if "match_tenant_from (Suc fuel) t rem prev matched epoch = Some (matched, n', e')"
      "\<And>s. prefix s rem \<Longrightarrow> owns t prev s \<Longrightarrow> s = []"
    using that touch [OF Suc.prems(1)] tt by (intro exI [of _ 0]) auto
  show ?case
  proof (cases rem)
    case Nil
    then show ?thesis using tt by (intro stop) auto
  next
    case (Cons c r)
    show ?thesis
    proof (cases "map_get (children prev) c")
      case None
      show ?thesis
      proof (rule stop)
        show "s = []" if "prefix s rem" "owns t prev s" for s
          using that None Cons by (cases s) (auto simp: owns_Cons)
      qed (use None Cons tt in simp)
    next
      case (Some m)
      let ?p = "nt_text (node_text m)" and ?sh = "shared_prefix_count (c # r) (nt_text (node_text m))"
      have m: "wf_node m" "?p \<noteq> []" "nt_char_count (node_text m) = length ?p"
        using wf_nodeD(4) [OF Suc.prems(1) Some] wf_nodeD(1) by (auto simp: child_ok_def text_ok_def)
      have up: "has_tenant prev t" if "has_tenant m t"
        using wf_nodeD(4) [OF Suc.prems(1) Some] that by (auto simp: child_ok_def has_tenant_def)
      consider (none) "\<not> has_tenant m t" | (full) "has_tenant m t" "prefix ?p (c # r)"
        | (part) "has_tenant m t" "\<not> prefix ?p (c # r)" by blast
      then show ?thesis
      proof cases
        case none
        show ?thesis
        proof (rule stop)
          show "s = []" if "prefix s rem" "owns t prev s" for s
            using that none Some Cons by (cases s) (auto simp: owns_Cons owns_child_def)
        qed (use none Some Cons tt in simp)
      next
        case full
        have sh: "?sh = length ?p" using shared_full [OF m(1), of "c # r"] full m(3) by simp
        have "length (drop (length ?p) (c # r)) \<le> fuel" using m(2) Suc.prems(2) Cons by (cases ?p) auto
        then obtain k m' e2 where rec: "match_tenant_from fuel t (drop (length ?p) (c # r)) m (matched + length ?p) epoch = Some (matched + length ?p + k, m', e2)"
            and k: "k \<le> length (drop (length ?p) (c # r))" "owns t m (take k (drop (length ?p) (c # r)))"
              "\<And>s. prefix s (drop (length ?p) (c # r)) \<Longrightarrow> owns t m s \<Longrightarrow> length s \<le> k"
            and same: "same_node m m'"
          using Suc.IH [OF m(1), of "drop (length ?p) (c # r)" "matched + length ?p"] full(1) by blast
        have "length s \<le> length ?p + k" if "prefix s (c # r)" "owns t prev s" for s
          using owns_walk_full(2) [OF Some full(2) m(2,1) that] k(3) [of "drop (length ?p) s"] by auto
        moreover have "length ?p + k \<le> length (c # r)" using k(1) prefix_length_le [OF full(2)] by simp
        moreover have "match_tenant_from (Suc fuel) t rem prev matched epoch = Some (matched + (length ?p + k), set_child c m' prev, e2)"
          using Some Cons sh m(3) rec full by (simp add: Let_def advance_by_chars_eq add.assoc)
        ultimately show ?thesis
          using k(2) owns_walk_full(1) [OF Some full(2) m(2,1)] same_set_child [OF Suc.prems(1) Some same] Cons up [OF full(1)]
          by blast
      next
        case part
        have nf: "?sh \<noteq> nt_char_count (node_text m)" using shared_full [OF m(1), of "c # r"] part by simp
        obtain m' e2 where um: "touch_tenant t epoch m = (m', e2)" by fastforce
        have "same_node m m'" using touch [OF m(1)] um by simp
        note walk = owns_walk_partial [OF Suc.prems(1) Some part refl] same_set_child [OF Suc.prems(1) Some this]
        have "match_tenant_from (Suc fuel) t rem prev matched epoch = Some (matched + ?sh, set_child c m' prev, e2)"
          using Some Cons nf um part by (simp add: Let_def)
        then show ?thesis
          using walk Cons up [OF part(1)] by blast
      qed
    qed
  qed
qed

section \<open>The properties of the tree\<close>

lemma owns_tenants: "tree_ok tree \<Longrightarrow> owns t (root tree) s \<Longrightarrow> tenants (root tree) \<noteq> []"
  using owns_imp_has [of "root tree" t s] by (auto simp: tree_ok_def has_tenant_def)

text \<open>
  C5: on a consistent tree with a tenant, a prefix match always returns; the matched count is
  the length of the longest prefix of the text that any tenant owns, the reported tenant owns
  that prefix, and the match changes nothing of what the tenants own.
\<close>

theorem prefix_match_longest:
  assumes "tree_ok tree" and "tenants (root tree) \<noteq> []"
  shows "\<exists>result tree'. prefix_match_with_counts text tree = Some (result, tree') \<and>
    input_char_count result = length text \<and> matched_char_count result \<le> length text \<and>
    owns (pm_tenant result) (root tree) (take (matched_char_count result) text) \<and>
    (\<forall>t s. prefix s text \<longrightarrow> owns t (root tree) s \<longrightarrow> length s \<le> matched_char_count result) \<and>
    tree_ok tree' \<and> (\<forall>t s. owns t (root tree') s = owns t (root tree) s)"
  by (rule prefix_match_spec [OF assms])

definition sample_tree :: radix_tree where
  "sample_tree = the (insert [104, 101, 121] ''w2'' (the (insert [104, 105] ''w1'' (tree_new 1))))"

lemma sample_tree_ok: "tree_ok sample_tree" "tenants (root sample_tree) \<noteq> []"
proof -
  obtain t1 where t1: "insert [104, 105] ''w1'' (tree_new 1) = Some t1" "tree_ok t1"
    using insert_spec [OF tree_new_ok] by blast
  obtain t2 where t2: "insert [104, 101, 121] ''w2'' t1 = Some t2" "tree_ok t2"
      "\<forall>t' s. owns t' (root t2) s \<longleftrightarrow> owns t' (root t1) s \<or> (t' = ''w2'' \<and> prefix s [104, 101, 121])"
    using insert_spec [OF t1(2)] by blast
  have s: "sample_tree = t2" by (simp only: sample_tree_def t1 t2 option.sel)
  have "owns ''w2'' (root t2) []" unfolding t2(3) [rule_format] by simp
  note ne = owns_tenants [OF t2(2) this]
  show "tree_ok sample_tree" "tenants (root sample_tree) \<noteq> []"
    unfolding s by (rule t2(2), rule ne)
qed

theorem prefix_match_longest_witness:
  "tree_ok sample_tree \<and> tenants (root sample_tree) \<noteq> [] \<and>
   (\<exists>result tree'. prefix_match_with_counts [104, 101, 108, 112] sample_tree = Some (result, tree') \<and>
     input_char_count result = length ([104, 101, 108, 112] :: ustr) \<and>
     owns (pm_tenant result) (root sample_tree) (take (matched_char_count result) [104, 101, 108, 112]) \<and> tree_ok tree')"
  using prefix_match_longest [OF sample_tree_ok, of "[104, 101, 108, 112]"] sample_tree_ok by blast

text \<open>
  Round trip of insert and match: after a text has been inserted for a tenant, a prefix match
  of any prefix of it is complete, and the tenant-specific match returns that prefix whole.
\<close>

theorem insert_then_match:
  assumes "tree_ok tree" and "prefix s text"
  shows "\<exists>tree1 result tree2. insert text t tree = Some tree1 \<and>
    prefix_match_with_counts s tree1 = Some (result, tree2) \<and> matched_char_count result = length s \<and>
    owns (pm_tenant result) (root tree1) s \<and>
    (\<exists>tree3. prefix_match_tenant s t tree1 = Some (s, tree3))"
proof -
  obtain tree1 where ins: "insert text t tree = Some tree1" and ok: "tree_ok tree1"
      and own: "owns t (root tree1) s"
    using insert_spec [OF assms(1), of "text" t] assms(2) by blast
  obtain result tree2 where pm: "prefix_match_with_counts s tree1 = Some (result, tree2)"
      "matched_char_count result = length s" "owns (pm_tenant result) (root tree1) (take (matched_char_count result) s)"
    using prefix_match_spec [OF ok owns_tenants [OF ok own], of s] own prefix_order.refl le_antisym by metis
  have wf: "wf_node (root tree1)" using ok by (simp add: tree_ok_def)
  obtain k n' e' where mt: "match_tenant_from (length s) t s (root tree1) 0 (epoch_counter tree1) = Some (k, n', e')"
      "length s \<le> k"
    using match_tenant_from_spec [OF wf le_refl, where t = t and rem = s and matched = 0] own by force
  then show ?thesis
    using ins pm by (simp add: prefix_match_tenant_def take_chars_eq)
qed

theorem insert_then_match_witness:
  "tree_ok sample_tree \<and> prefix [104] ([104, 97] :: ustr) \<and>
   (\<exists>tree1 result tree2. insert [104, 97] ''w1'' sample_tree = Some tree1 \<and>
     prefix_match_with_counts [104] tree1 = Some (result, tree2) \<and> matched_char_count result = length ([104] :: ustr) \<and>
     owns (pm_tenant result) (root tree1) [104] \<and>
     (\<exists>tree3. prefix_match_tenant [104] ''w1'' tree1 = Some ([104], tree3)))"
proof -
  have "prefix [104] ([104, 97] :: ustr)" by simp
  from insert_then_match [OF sample_tree_ok(1) this] show ?thesis using sample_tree_ok(1) by simp
qed

text \<open>
  The tenant-specific match returns the longest prefix of the text that this tenant owns (the
  empty text for an unknown tenant), without changing what the tenants own.
\<close>

theorem prefix_match_tenant_longest:
  assumes "tree_ok tree"
  shows "\<exists>p tree'. prefix_match_tenant text t tree = Some (p, tree') \<and> prefix p text \<and>
    (if has_tenant (root tree) t then owns t (root tree) p else p = []) \<and>
    (\<forall>s. prefix s text \<longrightarrow> owns t (root tree) s \<longrightarrow> prefix s p) \<and>
    tree_ok tree' \<and> (\<forall>t s. owns t (root tree') s = owns t (root tree) s)"
proof -
  have wf: "wf_node (root tree)" using assms by (simp add: tree_ok_def)
  obtain k n' e' where mt: "match_tenant_from (length text) t text (root tree) 0 (epoch_counter tree) = Some (k, n', e')"
      "k \<le> length text" "has_tenant (root tree) t \<longrightarrow> owns t (root tree) (take k text)"
      "\<forall>s. prefix s text \<longrightarrow> owns t (root tree) s \<longrightarrow> length s \<le> k" "\<not> has_tenant (root tree) t \<longrightarrow> k = 0"
      "same_node (root tree) n'"
    using match_tenant_from_spec [OF wf le_refl, where t = t and rem = "text" and matched = 0
        and epoch = "epoch_counter tree"] by auto
  have "prefix s (take k text)" if "prefix s text" "owns t (root tree) s" for s
    using mt(4) that by (auto simp: prefix_def)
  then show ?thesis
    using mt assms take_is_prefix [of k "text"]
    by (simp add: prefix_match_tenant_def take_chars_eq same_node_def tree_ok_def)
qed

theorem prefix_match_tenant_longest_witness:
  "tree_ok sample_tree \<and>
   (\<exists>p tree'. prefix_match_tenant [104, 101, 108, 112] ''w2'' sample_tree = Some (p, tree') \<and>
      prefix p [104, 101, 108, 112] \<and> tree_ok tree')"
  using prefix_match_tenant_longest [OF sample_tree_ok(1), of "[104, 101, 108, 112]" "''w2''"] sample_tree_ok(1)
  by blast

section \<open>The used sizes\<close>

lemma count_of_add_sizes:
  "map_wf ts \<Longrightarrow> count_of (add_sizes k ts u) t = count_of u t + (if contains_key ts t then k else 0)"
proof (induction ts arbitrary: u)
  case (Cons e ts)
  let ?u = "map_modify_or_insert (fst e) (\<lambda>size. size + k) k u"
  have "count_of ?u t = count_of u t + (if t = fst e then k else 0)"
    using count_of_add_chars [of "fst e" k u t] by (simp add: add_chars_def)
  then show ?case
    using Cons by (auto simp: add_sizes_def map_wf_def contains_key_def)
qed (simp add: add_sizes_def)

lemma used_size_loop_count:
  "\<forall>n\<in>set stack. wf_node n \<Longrightarrow>
     count_of (used_size_loop stack u) t = count_of u t + sum_list (map (used t) stack)"
proof (induction stack u rule: used_size_loop.induct)
  case (2 n stack u)
  have wf: "wf_node n" "map_wf (tenants n)" using 2(2) wf_nodeD(3) by auto
  have "\<forall>m\<in>set (rev (map snd (children n)) @ stack). wf_node m"
    using 2(2) wf_node_child [OF wf(1)] by auto
  note IH = 2(1) [OF this]
  have "sum_list (map (used t) (rev (map snd (children n)))) = sum_list (map (\<lambda>e. used t (snd e)) (children n))"
    by (simp add: rev_map [symmetric] sum_list_rev comp_def)
  then show ?case
    using IH count_of_add_sizes [OF wf(2)] by (cases n) simp
qed simp

text \<open>
  The maintained character counts are the recomputed sizes: on a consistent tree
  \<open>get_tenant_char_count\<close> and the full traversal \<open>get_used_size_per_tenant\<close> agree on every tenant.
\<close>

theorem char_counts_agree:
  assumes "tree_ok tree"
  shows "count_of (get_tenant_char_count tree) t = count_of (get_used_size_per_tenant tree) t"
  using assms used_size_loop_count [of "[root tree]" "[]" t]
  by (simp add: tree_ok_def get_tenant_char_count_def get_used_size_per_tenant_def count_of_def)

theorem char_counts_agree_witness:
  "tree_ok sample_tree \<and>
   count_of (get_tenant_char_count sample_tree) ''w2'' = count_of (get_used_size_per_tenant sample_tree) ''w2''"
  using char_counts_agree [OF sample_tree_ok(1)] sample_tree_ok(1) by blast

text \<open>
  A match on a tree without tenants reports the tenant \<open>empty\<close>, and on one epoch in eight also
  enters it at the root, where later unmatched texts find it, although no such tenant was inserted.
\<close>

lemma phantom_tenant:
  "map_option (\<lambda>(r, tree). (pm_tenant r, has_tenant (root tree) ''empty''))
     (prefix_match_with_counts [120] (tree_new 0)) = Some (''empty'', True)"
  by code_simp

end
