(* ===== verification/Radix_Evict.thy ===== *)
theory Radix_Evict
  imports Radix_Tree
begin

text \<open>
  Eviction and tenant removal of the radix tree (\<open>src/gateway/src/policies/tree.rs\<close>):
  \<open>leaf_of\<close>, \<open>evict_tenant_by_size\<close> and \<open>remove_tenant\<close>.

  Both keep a queue of references to nodes.  A reference is the path of child keys from the root:
  the paths of the other nodes do not change when a tenant leaves a node or an empty node is
  removed, and a removed node has no tenants, so an entry that still refers to it is skipped
  (eviction) or cannot occur (removal, proved).  The binary heap of the eviction is a list whose
  \<open>heap_pop\<close> takes an entry of least timestamp.  The loops have fuel; the number of tenant entries
  plus the length of the queue is enough, since each round shortens the queue or removes an entry.
\<close>

section \<open>Nodes by path\<close>

fun node_at :: "radix_node \<Rightarrow> nat list \<Rightarrow> radix_node option" where
  "node_at n [] = Some n"
| "node_at n (c # p) = (case map_get (children n) c of None \<Rightarrow> None | Some m \<Rightarrow> node_at m p)"

definition remove_access :: "tenant_id \<Rightarrow> radix_node \<Rightarrow> radix_node" where
  "remove_access t n = Node (node_text n) (children n) (map_remove t (tenants n)) (last_tenant n)"

definition remove_child :: "nat \<Rightarrow> radix_node \<Rightarrow> radix_node" where
  "remove_child c n = Node (node_text n) (map_remove c (children n)) (tenants n) (last_tenant n)"

text \<open>Remove the tenant from the node at a path, then the node from its parent when it is empty.\<close>

fun detach :: "tenant_id \<Rightarrow> nat list \<Rightarrow> radix_node \<Rightarrow> radix_node" where
  "detach t [] n = remove_access t n"
| "detach t (c # p) n =
     (case map_get (children n) c of
        None \<Rightarrow> n
      | Some m \<Rightarrow>
          let m' = detach t p m; n' = set_child c m' n in
          if p = [] \<and> children m' = [] \<and> tenants m' = [] then
            (case first_char (node_text m') of Some fc \<Rightarrow> remove_child fc n' | None \<Rightarrow> n')
          else n')"

definition child_has :: "tenant_id \<Rightarrow> radix_node \<Rightarrow> bool" where
  "child_has t n \<longleftrightarrow> list_ex (\<lambda>e. has_tenant (snd e) t) (children n)"

text \<open>The parent of the node at a path, when it has the tenant and none of its children has.\<close>

definition new_leaf :: "tenant_id \<Rightarrow> nat list \<Rightarrow> radix_node \<Rightarrow> (nat list \<times> radix_node) option" where
  "new_leaf t path rt =
     (if path = [] then None
      else case node_at rt (butlast path) of
        None \<Rightarrow> None
      | Some parent \<Rightarrow>
          if has_tenant parent t \<and> \<not> child_has t parent then Some (butlast path, parent) else None)"

section \<open>Leaves\<close>

definition leaf_candidates :: "radix_node \<Rightarrow> (tenant_id \<times> bool) list" where
  "leaf_candidates n =
     foldl (\<lambda>m child. foldl (\<lambda>m e. map_insert (fst e) False m) m (tenants (snd child)))
       (map (\<lambda>e. (fst e, True)) (tenants n)) (children n)"

definition leaf_of :: "radix_node \<Rightarrow> tenant_id list" where
  "leaf_of n = map fst (filter snd (leaf_candidates n))"

section \<open>Eviction\<close>

record eviction_entry =
  ee_timestamp :: nat
  ee_tenant :: tenant_id
  ee_node :: "nat list"

fun heap_pop :: "eviction_entry list \<Rightarrow> (eviction_entry \<times> eviction_entry list) option" where
  "heap_pop [] = None"
| "heap_pop (e # es) =
     (case heap_pop es of
        None \<Rightarrow> Some (e, es)
      | Some (m, rest) \<Rightarrow>
          if ee_timestamp e \<le> ee_timestamp m then Some (e, es) else Some (m, e # rest))"

definition push_leaf :: "nat list \<Rightarrow> radix_node \<Rightarrow> eviction_entry list \<Rightarrow> tenant_id \<Rightarrow> eviction_entry list" where
  "push_leaf path n pq t =
     (case map_get (tenants n) t of
        Some timestamp \<Rightarrow> pq @ [\<lparr> ee_timestamp = timestamp, ee_tenant = t, ee_node = path \<rparr>]
      | None \<Rightarrow> pq)"

definition push_children :: "nat list \<Rightarrow> radix_node \<Rightarrow> (nat list \<times> radix_node) list \<Rightarrow> (nat list \<times> radix_node) list" where
  "push_children path n stack = rev (map (\<lambda>e. (path @ [fst e], snd e)) (children n)) @ stack"

lemma push_children_measure:
  "sum_list (map (\<lambda>e. count_nodes (snd e)) (push_children path n stack)) <
   count_nodes n + sum_list (map (\<lambda>e. count_nodes (snd e)) stack)"
  by (cases n) (simp add: push_children_def rev_map [symmetric] sum_list_rev comp_def)

function collect_evictions :: "(nat list \<times> radix_node) list \<Rightarrow> eviction_entry list \<Rightarrow> eviction_entry list" where
  "collect_evictions [] pq = pq"
| "collect_evictions ((path, n) # stack) pq =
     collect_evictions (push_children path n stack) (foldl (push_leaf path n) pq (leaf_of n))"
  by pat_completeness auto
termination
  by (relation "measure (\<lambda>(stack, pq). sum_list (map (\<lambda>e. count_nodes (snd e)) stack))")
     (use push_children_measure in auto)

fun evict_loop ::
    "nat \<Rightarrow> nat \<Rightarrow> eviction_entry list \<Rightarrow> radix_node \<Rightarrow> (tenant_id \<times> nat) list \<Rightarrow>
     (radix_node \<times> (tenant_id \<times> nat) list) option" where
  "evict_loop fuel max_size pq rt cc =
     (case heap_pop pq of
        None \<Rightarrow> Some (rt, cc)
      | Some (entry, pq) \<Rightarrow>
          (case fuel of
             0 \<Rightarrow> None
           | Suc fuel \<Rightarrow>
               let t = ee_tenant entry; path = ee_node entry in
               if (case map_get cc t of Some used_size \<Rightarrow> used_size \<le> max_size | None \<Rightarrow> False) then
                 evict_loop fuel max_size pq rt cc
               else
                 (case node_at rt path of
                    None \<Rightarrow> evict_loop fuel max_size pq rt cc
                  | Some n \<Rightarrow>
                      if \<not> (has_tenant n t \<and> \<not> child_has t n) then evict_loop fuel max_size pq rt cc
                      else
                        let node_len = nt_char_count (node_text n);
                            cc = map_and_modify t (\<lambda>count. count - node_len) cc;
                            rt = detach t path rt;
                            pq = (case new_leaf t path rt of
                                    Some (ppath, parent) \<Rightarrow> push_leaf ppath parent pq t
                                  | None \<Rightarrow> pq) in
                        evict_loop fuel max_size pq rt cc)))"

declare evict_loop.simps [simp del]

fun tenant_entries :: "radix_node \<Rightarrow> nat" where
  "tenant_entries (Node nt cs ts lt) = length ts + sum_list (map (\<lambda>e. tenant_entries (snd e)) cs)"

definition evict_tenant_by_size :: "nat \<Rightarrow> radix_tree \<Rightarrow> radix_tree option" where
  "evict_tenant_by_size max_size tree =
     (let pq = collect_evictions [([], root tree)] [] in
      do {
        (rt, cc) \<leftarrow> evict_loop (tenant_entries (root tree) + length pq) max_size pq (root tree)
                      (tenant_char_count tree);
        Some (tree\<lparr> root := rt, tenant_char_count := cc \<rparr>)
      })"

section \<open>Removal of a tenant\<close>

function collect_leaves :: "tenant_id \<Rightarrow> (nat list \<times> radix_node) list \<Rightarrow> nat list list \<Rightarrow> nat list list" where
  "collect_leaves t [] queue = queue"
| "collect_leaves t ((path, n) # stack) queue =
     collect_leaves t (push_children path n stack)
       (if has_tenant n t \<and> \<not> child_has t n then queue @ [path] else queue)"
  by pat_completeness auto
termination
  by (relation "measure (\<lambda>(t, stack, pq). sum_list (map (\<lambda>e. count_nodes (snd e)) stack))")
     (use push_children_measure in auto)

text \<open>A reference to a node that is no longer in the tree would be the value \<open>None\<close>.\<close>

fun remove_loop :: "nat \<Rightarrow> tenant_id \<Rightarrow> nat list list \<Rightarrow> radix_node \<Rightarrow> radix_node option" where
  "remove_loop fuel t [] rt = Some rt"
| "remove_loop 0 t (path # queue) rt = None"
| "remove_loop (Suc fuel) t (path # queue) rt =
     (case node_at rt path of
        None \<Rightarrow> None
      | Some n \<Rightarrow>
          let rt = detach t path rt in
          remove_loop fuel t
            (case new_leaf t path rt of Some (ppath, parent) \<Rightarrow> queue @ [ppath] | None \<Rightarrow> queue) rt)"

definition remove_tenant :: "tenant_id \<Rightarrow> radix_tree \<Rightarrow> radix_tree option" where
  "remove_tenant t tree =
     (let queue = collect_leaves t [([], root tree)] [] in
      do {
        rt \<leftarrow> remove_loop (tenant_entries (root tree) + length queue) t queue (root tree);
        Some (tree\<lparr> root := rt, tenant_char_count := map_remove t (tenant_char_count tree) \<rparr>)
      })"

section \<open>Which tenants are where\<close>

definition has_at :: "radix_node \<Rightarrow> nat list \<Rightarrow> tenant_id \<Rightarrow> bool" where
  "has_at rt path t \<longleftrightarrow> (case node_at rt path of None \<Rightarrow> False | Some n \<Rightarrow> has_tenant n t)"

text \<open>A leaf of a tenant: the tenant is at the path and not one step below.\<close>

definition leaf_at :: "radix_node \<Rightarrow> nat list \<Rightarrow> tenant_id \<Rightarrow> bool" where
  "leaf_at rt path t \<longleftrightarrow> has_at rt path t \<and> (\<forall>c. \<not> has_at rt (path @ [c]) t)"

lemma has_at_simps [simp]:
  "has_at n [] t = has_tenant n t"
  "has_at n (c # p) t = (case map_get (children n) c of None \<Rightarrow> False | Some m \<Rightarrow> has_at m p t)"
  by (auto simp: has_at_def split: option.splits)

lemma node_at_append: "node_at n (p @ q) = Option.bind (node_at n p) (\<lambda>m. node_at m q)"
  by (induction n p rule: node_at.induct) (auto split: option.splits)

lemma map_get_ex: "map_wf m \<Longrightarrow> (\<exists>e\<in>set m. P (snd e)) \<longleftrightarrow> (\<exists>k v. map_get m k = Some v \<and> P v)"
  using map_get_iff [of m] by force

lemma node_at_wf: "wf_node rt \<Longrightarrow> node_at rt p = Some n \<Longrightarrow> wf_node n"
  by (induction rt p rule: node_at.induct) (auto split: option.splits dest: wf_nodeD(4))

lemma leaf_at_node:
  assumes "wf_node rt" "node_at rt path = Some n"
  shows "leaf_at rt path t \<longleftrightarrow> has_tenant n t \<and> \<not> child_has t n"
proof -
  have "child_has t n \<longleftrightarrow> (\<exists>c m. map_get (children n) c = Some m \<and> has_tenant m t)"
    using map_get_ex [OF wf_nodeD(2) [OF node_at_wf [OF assms]], of "\<lambda>m. has_tenant m t"]
    by (simp add: child_has_def list_ex_iff)
  then show ?thesis
    using assms(2) by (auto simp: leaf_at_def has_at_def node_at_append split: option.splits)
qed

lemma has_at_parent:
  "wf_node rt \<Longrightarrow> has_at rt (p @ [c]) t \<Longrightarrow> has_at rt p t"
proof (induction rt p rule: node_at.induct)
  case (1 n)
  then show ?case using wf_nodeD(4) [OF 1(1), of c]
    by (auto simp: child_ok_def has_tenant_def split: option.splits)
next
  case (2 n d p)
  then show ?case using wf_nodeD(4) [OF 2(2), of d] by (auto split: option.splits)
qed

lemma has_at_prefix: "wf_node rt \<Longrightarrow> has_at rt (p @ q) t \<Longrightarrow> has_at rt p t"
proof (induction q rule: rev_induct)
  case (snoc c q)
  then show ?case using has_at_parent [of rt "p @ q" c t] by simp
qed simp

lemma node_at_depth: "node_at rt p = Some n \<Longrightarrow> length p < count_nodes rt"
proof (induction rt p rule: node_at.induct)
  case (1 rt)
  then show ?case by (cases rt) auto
next
  case (2 rt c p)
  then obtain m where m: "map_get (children rt) c = Some m" "node_at m p = Some n"
    by (auto split: option.splits)
  have "count_nodes m \<in> set (map (\<lambda>e. count_nodes (snd e)) (children rt))"
    using map_get_in_set [OF m(1)] by force
  then have "count_nodes m \<le> sum_list (map (\<lambda>e. count_nodes (snd e)) (children rt))"
    by (rule member_le_sum_list) simp
  moreover have "length p < count_nodes m" using 2 m by simp
  ultimately show ?case by (cases rt) simp
qed

lemma leaf_below:
  assumes "has_at rt p t"
  shows "\<exists>q. leaf_at rt (p @ q) t"
proof (rule ccontr)
  assume none: "\<not> ?thesis"
  have "\<exists>q. length q = k \<and> has_at rt (p @ q) t" for k
  proof (induction k)
    case (Suc k)
    then obtain q where q: "length q = k" "has_at rt (p @ q) t" by blast
    then obtain c where "has_at rt ((p @ q) @ [c]) t" using none by (auto simp: leaf_at_def)
    then show ?case using q by (intro exI [of _ "q @ [c]"]) simp
  qed (use assms in simp)
  then obtain q where "length q = count_nodes rt" "has_at rt (p @ q) t" by blast
  then show False using node_at_depth [of rt "p @ q"] by (auto simp: has_at_def split: option.splits)
qed

section \<open>Removing one tenant entry\<close>

lemma node_removes [simp]:
  "node_text (remove_access t n) = node_text n" "children (remove_access t n) = children n"
  "tenants (remove_access t n) = map_remove t (tenants n)"
  "node_text (remove_child c n) = node_text n" "children (remove_child c n) = map_remove c (children n)"
  "tenants (remove_child c n) = tenants n"
  by (simp_all add: remove_access_def remove_child_def)

lemma has_tenant_remove [simp]:
  "has_tenant (remove_access t n) t' \<longleftrightarrow> t' \<noteq> t \<and> has_tenant n t'"
  "has_tenant (remove_child c n) t' \<longleftrightarrow> has_tenant n t'"
  by (simp_all add: has_tenant_def)

lemma detach_text [simp]: "node_text (detach t p n) = node_text n"
  by (cases p) (auto simp: Let_def split: option.splits)

lemma detach_Cons:
  assumes "wf_node n" and m: "map_get (children n) c = Some m"
  shows "detach t (c # p) n =
    (let m' = detach t p m; n' = set_child c m' n in
     if p = [] \<and> children m' = [] \<and> tenants m' = [] then remove_child c n' else n')"
proof -
  have "first_char (node_text m) = Some c"
    using wf_nodeD(4) [OF assms] by (auto simp: child_ok_def first_char_def)
  then show ?thesis by (simp only: detach.simps m Let_def detach_text option.case)
qed

lemma map_remove_insert [simp]: "map_remove c (map_insert c m cs) = map_remove c cs"
  by (induction c m cs rule: map_insert.induct) (auto simp: map_remove_def)

definition detach_post :: "tenant_id \<Rightarrow> nat list \<Rightarrow> radix_node \<Rightarrow> radix_node \<Rightarrow> bool" where
  "detach_post t p n n' \<longleftrightarrow>
     wf_node n' \<and> node_text n' = node_text n \<and> has_at n p t \<and>
     (\<forall>q t'. has_at n' q t' \<longleftrightarrow> has_at n q t' \<and> \<not> (q = p \<and> t' = t)) \<and>
     (\<forall>t'. used t' n = used t' n' + (if t' = t then nt_char_count (node_text (the (node_at n p))) else 0)) \<and>
     (\<forall>t' s. t' \<noteq> t \<longrightarrow> owns t' n' s = owns t' n s) \<and> (\<forall>s. owns t n' s \<longrightarrow> owns t n s) \<and>
     tenant_entries n = Suc (tenant_entries n')"

lemma length_map_remove: "map_wf m \<Longrightarrow> contains_key m k \<Longrightarrow> length m = Suc (length (map_remove k m))"
proof (induction m)
  case (Cons e m)
  have "map_remove k m = m" if "k \<notin> fst ` set m"
    using that unfolding map_remove_def by (intro filter_True) auto
  then show ?case
    using Cons by (cases "fst e = k") (auto simp: map_wf_def map_remove_def)
qed simp

lemma detach_post_base:
  assumes wf: "wf_node n" and leaf: "leaf_at n [] t"
  shows "detach_post t [] n (remove_access t n)"
proof -
  have has: "has_tenant n t" and none: "\<And>c m. map_get (children n) c = Some m \<Longrightarrow> \<not> has_tenant m t"
    using leaf by (auto simp: leaf_at_def split: option.splits)
  have "wf_node (remove_access t n)"
  proof (rule wf_nodeI)
    show "child_ok (tenants (remove_access t n)) c m \<and> wf_node m" if "(c, m) \<in> set (children (remove_access t n))" for c m
      using wf_node_child [OF wf, of c m] that none [of c m] wf_nodeD(2) [OF wf]
      by (auto simp: child_ok_def map_get_iff)
  qed (use wf_nodeD [OF wf] in auto)
  moreover have "has_at (remove_access t n) q t' \<longleftrightarrow> has_at n q t' \<and> \<not> (q = [] \<and> t' = t)" for q t'
    by (cases q) auto
  moreover have "used t' n = used t' (remove_access t n) + (if t' = t then nt_char_count (node_text n) else 0)" for t'
    using has by (cases n) (auto simp: remove_access_def has_tenant_def)
  moreover have "owns t' (remove_access t n) s \<longleftrightarrow> owns t' n s \<and> \<not> (s = [] \<and> t' = t)" for t' s
    using owns_cong [of "remove_access t n" n s t'] by (cases "s = []") auto
  moreover have "tenant_entries n = Suc (tenant_entries (remove_access t n))"
    using length_map_remove [of "tenants n" t] has wf_nodeD(3) [OF wf] by (cases n) (simp add: has_tenant_def remove_access_def)
  ultimately show ?thesis using has by (simp add: detach_post_def)
qed

text \<open>A sum over the children, after one of them has been replaced or removed.\<close>

lemma sum_map_insert:
  assumes "map_wf cs" "map_get cs c = Some m"
  shows "sum_list (map (\<lambda>e. f (snd e)) (map_insert c m' cs)) + f m = sum_list (map (\<lambda>e. f (snd e)) cs) + (f m' :: nat)"
  using assms by (induction c m' cs rule: map_insert.induct) (auto simp: map_wf_def)

lemma sum_map_remove:
  assumes "map_wf cs" "map_get cs c = Some m"
  shows "sum_list (map (\<lambda>e. f (snd e)) (map_remove c cs)) + f m = (sum_list (map (\<lambda>e. f (snd e)) cs) :: nat)"
  using assms
proof (induction cs)
  case (Cons e cs)
  have "map_remove c cs = cs" if "c \<notin> fst ` set cs"
    using that unfolding map_remove_def by (intro filter_True) auto
  then show ?case using Cons by (cases e; cases "fst e = c") (auto simp: map_wf_def map_remove_def)
qed simp

lemma detach_postD:
  assumes "detach_post t p m m'"
  shows "wf_node m'" "node_text m' = node_text m" "has_at m' q t' \<longleftrightarrow> has_at m q t' \<and> \<not> (q = p \<and> t' = t)"
    "used t' m = used t' m' + (if t' = t then nt_char_count (node_text (the (node_at m p))) else 0)"
    "t' \<noteq> t \<Longrightarrow> owns t' m' s = owns t' m s" "owns t m' s \<Longrightarrow> owns t m s"
    "tenant_entries m = Suc (tenant_entries m')" "has_tenant m' t' \<Longrightarrow> has_tenant m t'"
    "t' \<noteq> t \<Longrightarrow> has_tenant m' t' = has_tenant m t'" "has_at m p t"
  using assms has_at_simps(1) [of m' t'] has_at_simps(1) [of m t']
  by (auto simp: detach_post_def simp del: has_at_simps)

lemma detach_post_set:
  assumes wf: "wf_node n" and m: "map_get (children n) c = Some m" and post: "detach_post t p m m'"
    and ne: "tenants m' \<noteq> []"
  shows "detach_post t (c # p) n (set_child c m' n)"
proof -
  note m' = detach_postD [OF post] and cwf = wf_nodeD(2) [OF wf]
  have ok: "child_ok (tenants n) c m'"
    using wf_nodeD(4) [OF wf m] ne m'(2,8) by (auto simp: child_ok_def)
  have "has_at (set_child c m' n) q t' \<longleftrightarrow> has_at n q t' \<and> \<not> (q = c # p \<and> t' = t)" for q t'
    using m m'(3) by (cases q) (auto split: option.splits)
  moreover have "used t' n = used t' (set_child c m' n) +
      (if t' = t then nt_char_count (node_text (the (node_at n (c # p)))) else 0)" for t'
    using used_set_child [OF cwf, of t' c m'] m m'(4) [of t'] by auto
  moreover have "owns t' (set_child c m' n) s = owns t' n s" if "t' \<noteq> t" for t' s
    using m m'(2) m'(5,9) [OF that] by (cases s) (auto simp: owns_set_child owns_Cons owns_child_def)
  moreover have "owns t n s" if "owns t (set_child c m' n) s" for s
    using that m m'(2,6,8) by (cases s) (auto simp: owns_set_child owns_Cons owns_child_def split: if_splits)
  moreover have "tenant_entries n = Suc (tenant_entries (set_child c m' n))"
    using sum_map_insert [OF cwf m, of tenant_entries m'] m'(7) by (cases n) (simp add: set_child_def)
  ultimately show ?thesis
    using wf_set_child [OF wf m'(1) ok] m'(10) m by (simp add: detach_post_def del: has_at_simps) simp
qed

lemma owns_remove_child:
  "owns t' (remove_child c n) s = (case s of [] \<Rightarrow> has_tenant n t' | c' # r \<Rightarrow> c' \<noteq> c \<and> owns t' n s)"
  by (cases s) (auto simp: owns_Cons)

lemma detach_post_remove:
  assumes wf: "wf_node n" and m: "map_get (children n) c = Some m" and post: "detach_post t [] m m'"
    and empty: "tenants m' = []" "children m' = []"
  shows "detach_post t [c] n (remove_child c (set_child c m' n))"
proof -
  note m' = detach_postD [OF post] and cwf = wf_nodeD(2) [OF wf]
  have eq: "remove_child c (set_child c m' n) = remove_child c n" by (simp add: remove_child_def)
  have "wf_node (remove_child c n)"
  proof (rule wf_nodeI)
    show "child_ok (tenants (remove_child c n)) d k \<and> wf_node k" if "(d, k) \<in> set (children (remove_child c n))" for d k
      using that wf_node_child [OF wf, of d k] by (simp add: map_remove_def)
  qed (use wf_nodeD [OF wf] in auto)
  moreover have none: "\<not> has_tenant m' t'" for t' by (simp add: has_tenant_def empty)
  have gone: "\<not> has_at m' q t'" for q t'
    using has_at_prefix [OF m'(1), of "[]" q t'] none by auto
  have "has_at (remove_child c n) q t' \<longleftrightarrow> has_at n q t' \<and> \<not> (q = [c] \<and> t' = t)" for q t'
    using m m'(3) gone by (cases q) auto
  moreover have "used t' n = used t' (remove_child c n) + (if t' = t then nt_char_count (node_text (the (node_at n [c]))) else 0)" for t'
    using sum_map_remove [OF cwf m, of "used t'"] m m'(4) [of t'] used_no_tenant [OF m'(1) none, of t']
    by (cases n) (auto simp: remove_child_def)
  moreover have "owns t' (remove_child c n) s = owns t' n s" if "t' \<noteq> t" for t' s
    using m m'(9) [OF that] none by (cases s) (auto simp: owns_remove_child owns_Cons owns_child_def)
  moreover have "owns t n s" if "owns t (remove_child c n) s" for s
    using that by (cases s) (auto simp: owns_remove_child)
  moreover have "tenant_entries n = Suc (tenant_entries (remove_child c n))"
    using sum_map_remove [OF cwf m, of tenant_entries] m'(7) empty
    by (cases n; cases m') (simp add: remove_child_def)
  ultimately show ?thesis
    unfolding eq using m'(10) m by (simp add: detach_post_def del: has_at_simps) simp
qed

lemma detach_spec: "wf_node n \<Longrightarrow> leaf_at n p t \<Longrightarrow> detach_post t p n (detach t p n)"
proof (induction p arbitrary: n)
  case Nil
  then show ?case using detach_post_base by simp
next
  case (Cons c p)
  from Cons.prems(2) obtain m where m: "map_get (children n) c = Some m"
    by (auto simp: leaf_at_def split: option.splits)
  have "leaf_at m p t" using Cons.prems(2) m by (simp add: leaf_at_def)
  then have post: "detach_post t p m (detach t p m)"
    using Cons.IH wf_nodeD(4) [OF Cons.prems(1) m] by blast
  note m' = detach_postD [OF post]
  show ?case
  proof (cases "p = [] \<and> children (detach t p m) = [] \<and> tenants (detach t p m) = []")
    case True
    then show ?thesis
      using detach_post_remove [OF Cons.prems(1) m] post detach_Cons [OF Cons.prems(1) m, of t p] by auto
  next
    case False
    have "tenants (detach t p m) \<noteq> []"
    proof
      assume e: "tenants (detach t p m) = []"
      then have "children (detach t p m) = []"
        using wf_node_child [OF m'(1)] by (cases "children (detach t p m)") (force simp: child_ok_def has_tenant_def neq_Nil_conv)+
      moreover have "p = []"
        using m'(3) [of "[]" t] has_at_prefix [of m "[]" p t] m'(10) wf_nodeD(4) [OF Cons.prems(1) m] e
        by (auto simp: has_tenant_def)
      ultimately show False using False e by simp
    qed
    then show ?thesis
      using detach_post_set [OF Cons.prems(1) m post] detach_Cons [OF Cons.prems(1) m, of t p] False
      by (simp add: Let_def del: detach.simps)
  qed
qed

lemma detach_leaves:
  assumes "detach_post t p rt rt'"
  shows "leaf_at rt' q t' \<longleftrightarrow>
    (leaf_at rt q t' \<and> \<not> (q = p \<and> t' = t)) \<or> (t' = t \<and> p \<noteq> [] \<and> q = butlast p \<and> leaf_at rt' q t)"
  using detach_postD(3) [OF assms] unfolding leaf_at_def by (metis butlast_snoc snoc_eq_iff_butlast)

lemma detach_leaves_set:
  assumes "detach_post t p rt rt'"
  shows "{q. leaf_at rt' q t} = ({q. leaf_at rt q t} - {p}) \<union>
    (if p \<noteq> [] \<and> leaf_at rt' (butlast p) t then {butlast p} else {})" (is "?l = ?r")
proof (rule set_eqI)
  fix q
  have "q \<in> ?l \<longleftrightarrow> (leaf_at rt q t \<and> q \<noteq> p) \<or> (p \<noteq> [] \<and> q = butlast p \<and> leaf_at rt' q t)"
    using detach_leaves [OF assms, of q t] by blast
  then show "q \<in> ?l \<longleftrightarrow> q \<in> ?r" by (cases "q = butlast p") auto
qed

lemma leaf_at_has_node: "leaf_at rt p t \<Longrightarrow> \<exists>n. node_at rt p = Some n \<and> has_tenant n t"
  by (auto simp: leaf_at_def has_at_def split: option.splits)

lemma new_leaf_cases:
  assumes "wf_node rt"
  shows "new_leaf t path rt =
    (if path \<noteq> [] \<and> leaf_at rt (butlast path) t then Some (butlast path, the (node_at rt (butlast path))) else None)"
proof (cases "node_at rt (butlast path)")
  case None
  then show ?thesis using leaf_at_has_node [of rt "butlast path" t] by (auto simp: new_leaf_def)
next
  case (Some n)
  then show ?thesis by (simp add: new_leaf_def leaf_at_node [OF assms Some])
qed

section \<open>Removal removes exactly one tenant\<close>

fun node_leaves :: "tenant_id \<Rightarrow> nat list \<Rightarrow> radix_node \<Rightarrow> nat list list" where
  "node_leaves t path (Node nt cs ts lt) =
     (if contains_key ts t \<and> \<not> list_ex (\<lambda>e. has_tenant (snd e) t) cs then [path] else []) @
     concat (rev (map (\<lambda>e. node_leaves t (path @ [fst e]) (snd e)) cs))"

lemma collect_leaves_eq:
  "collect_leaves t stack queue = queue @ concat (map (\<lambda>(path, n). node_leaves t path n) stack)"
proof (induction t stack queue rule: collect_leaves.induct)
  case (2 t path n stack queue)
  then show ?case by (cases n) (simp add: push_children_def child_has_def has_tenant_def rev_map comp_def)
qed simp

lemma node_leaves_set: "wf_node n \<Longrightarrow> p \<in> set (node_leaves t path n) \<longleftrightarrow> (\<exists>q. p = path @ q \<and> leaf_at n q t)"
proof (induction n arbitrary: path)
  case (Node nt cs ts lt)
  let ?n = "Node nt cs ts lt"
  have cwf: "map_wf cs" using Node.prems by simp
  have here: "leaf_at ?n [] t \<longleftrightarrow> contains_key ts t \<and> \<not> list_ex (\<lambda>e. has_tenant (snd e) t) cs"
    using leaf_at_node [OF Node.prems, of "[]" ?n t] by (simp add: child_has_def has_tenant_def)
  have below: "leaf_at ?n (c # q) t \<longleftrightarrow> (\<exists>m. (c, m) \<in> set cs \<and> leaf_at m q t)" for c q
    unfolding map_get_iff [OF cwf, symmetric] by (auto simp: leaf_at_def split: option.splits)
  have "p \<in> set (node_leaves t (path @ [c]) m) \<longleftrightarrow> (\<exists>q. p = path @ c # q \<and> leaf_at m q t)"
    if "(c, m) \<in> set cs" for c m
    using Node.IH [OF that, of "path @ [c]"] Node.prems that by force
  then have "(\<exists>e\<in>set cs. p \<in> set (node_leaves t (path @ [fst e]) (snd e))) \<longleftrightarrow>
      (\<exists>c m. (c, m) \<in> set cs \<and> (\<exists>q. p = path @ c # q \<and> leaf_at m q t))" by force
  also have "\<dots> \<longleftrightarrow> (\<exists>c q. p = path @ c # q \<and> leaf_at ?n (c # q) t)" unfolding below by blast
  finally have "p \<in> set (node_leaves t path ?n) \<longleftrightarrow>
      (p = path \<and> leaf_at ?n [] t) \<or> (\<exists>c q. p = path @ c # q \<and> leaf_at ?n (c # q) t)"
    unfolding here by auto
  also have "\<dots> \<longleftrightarrow> (\<exists>q. p = path @ q \<and> leaf_at ?n q t)"
    by (metis append_Nil2 list.exhaust)
  finally show ?case .
qed

lemma distinct_concat_keys:
  assumes "distinct (map fst cs)" "\<And>e. e \<in> set cs \<Longrightarrow> distinct (f e)"
    and "\<And>e p. e \<in> set cs \<Longrightarrow> p \<in> set (f e) \<Longrightarrow> prefix (path @ [fst e]) p"
  shows "distinct (concat (rev (map f cs)))"
  using assms
proof (induction cs)
  case (Cons e cs)
  have "fst e = fst e'" if "p \<in> set (f e)" "e' \<in> set cs" "p \<in> set (f e')" for p e'
  proof -
    have "prefix (path @ [fst e]) p" "prefix (path @ [fst e']) p" using Cons.prems(3) that by auto
    then show ?thesis by (auto simp: prefix_def)
  qed
  then have "set (f e) \<inter> set (concat (rev (map f cs))) = {}"
    using Cons.prems(1) by (auto simp: image_iff)
  then show ?case using Cons by auto
qed simp

lemma node_leaves_distinct: "wf_node n \<Longrightarrow> distinct (node_leaves t path n)"
proof (induction n arbitrary: path)
  case (Node nt cs ts lt)
  have pre: "prefix (path @ [fst e]) p" if "e \<in> set cs" "p \<in> set (node_leaves t (path @ [fst e]) (snd e))" for e p
    using node_leaves_set [of "snd e" p t "path @ [fst e]"] that Node.prems by auto
  then have "path \<notin> set (node_leaves t (path @ [fst e]) (snd e))" if "e \<in> set cs" for e
    using that by (auto dest!: pre [OF that] prefix_length_le)
  moreover have "distinct (concat (rev (map (\<lambda>e. node_leaves t (path @ [fst e]) (snd e)) cs)))"
    using Node pre by (intro distinct_concat_keys [where path = path]) (auto simp: map_wf_def)
  ultimately show ?case by auto
qed

lemma remove_loop_spec:
  assumes "wf_node rt" "distinct queue" "set queue = {p. leaf_at rt p t}"
    and "tenant_entries rt + length queue \<le> fuel"
  shows "\<exists>rt'. remove_loop fuel t queue rt = Some rt' \<and> wf_node rt' \<and> node_text rt' = node_text rt \<and>
    \<not> has_tenant rt' t \<and> (\<forall>t' s. t' \<noteq> t \<longrightarrow> owns t' rt' s = owns t' rt s) \<and>
    (\<forall>t'. t' \<noteq> t \<longrightarrow> used t' rt' = used t' rt)"
  using assms
proof (induction fuel arbitrary: queue rt)
  case 0
  then have "queue = []" by simp
  then show ?case using 0 leaf_below [of rt "[]" t] by auto
next
  case (Suc fuel)
  show ?case
  proof (cases queue)
    case Nil
    then show ?thesis using Suc.prems leaf_below [of rt "[]" t] by auto
  next
    case (Cons path rest)
    have leaf: "leaf_at rt path t" using Suc.prems(3) Cons by auto
    then obtain n where n: "node_at rt path = Some n" using leaf_at_has_node by blast
    note post = detach_spec [OF Suc.prems(1) leaf]
    let ?rt = "detach t path rt"
    let ?queue = "case new_leaf t path ?rt of Some (ppath, parent) \<Rightarrow> rest @ [ppath] | None \<Rightarrow> rest"
    note d = detach_postD [OF post]
    have old: "set rest = {p. leaf_at rt p t \<and> p \<noteq> path}" using Suc.prems(2,3) Cons by auto
    have "\<not> leaf_at rt (butlast path) t" if "path \<noteq> []"
      using leaf that unfolding leaf_at_def by (metis append_butlast_last_id)
    then have "distinct ?queue \<and> set ?queue = {p. leaf_at ?rt p t} \<and> length ?queue \<le> length queue"
      unfolding detach_leaves_set [OF post] using old Suc.prems(2) Cons
      by (auto simp: new_leaf_cases [OF d(1)] split: option.splits)
    moreover from this have "tenant_entries ?rt + length ?queue \<le> fuel" using d(7) Suc.prems(4) by simp
    ultimately obtain rt' where "remove_loop fuel t ?queue ?rt = Some rt'" "wf_node rt'"
        "node_text rt' = node_text ?rt" "\<not> has_tenant rt' t"
        "\<forall>t' s. t' \<noteq> t \<longrightarrow> owns t' rt' s = owns t' ?rt s" "\<forall>t'. t' \<noteq> t \<longrightarrow> used t' rt' = used t' ?rt"
      using Suc.IH [OF d(1), of ?queue] by blast
    then show ?thesis
      using Cons n d(2,4,5) by (simp add: Let_def)
  qed
qed

lemma remove_tenant_spec:
  assumes "tree_ok tree"
  shows "\<exists>tree'. remove_tenant t tree = Some tree' \<and> tree_ok tree' \<and>
    (\<forall>t' s. owns t' (root tree') s \<longleftrightarrow> t' \<noteq> t \<and> owns t' (root tree) s) \<and>
    \<not> contains_key (tenant_char_count tree') t"
proof -
  have ok: "wf_node (root tree)" "nt_text (node_text (root tree)) = []" "map_wf (tenant_char_count tree)"
    "\<And>t. count_of (tenant_char_count tree) t = used t (root tree)"
    using assms by (auto simp: tree_ok_def)
  let ?queue = "collect_leaves t [([], root tree)] []"
  have q: "?queue = node_leaves t [] (root tree)" by (simp add: collect_leaves_eq)
  have "distinct ?queue" "set ?queue = {p. leaf_at (root tree) p t}"
    unfolding q using node_leaves_distinct [OF ok(1)] node_leaves_set [OF ok(1), of _ t "[]"] by auto
  then obtain rt' where rt': "remove_loop (tenant_entries (root tree) + length ?queue) t ?queue (root tree) = Some rt'"
      "wf_node rt'" "node_text rt' = node_text (root tree)" "\<not> has_tenant rt' t"
      "\<And>t' s. t' \<noteq> t \<Longrightarrow> owns t' rt' s = owns t' (root tree) s" "\<And>t'. t' \<noteq> t \<Longrightarrow> used t' rt' = used t' (root tree)"
    using remove_loop_spec [OF ok(1), of ?queue t] by blast
  have "owns t' rt' s \<longleftrightarrow> t' \<noteq> t \<and> owns t' (root tree) s" for t' s
    using rt'(4,5) owns_imp_has [OF rt'(2), of t s] by (cases "t' = t") auto
  moreover have "count_of (map_remove t (tenant_char_count tree)) t' = used t' rt'" for t'
    using ok(4) [of t'] rt'(6) [of t'] used_no_tenant [OF rt'(2,4)] by (cases "t' = t") (auto simp: count_of_def)
  ultimately show ?thesis
    using rt'(1-3) ok(2,3) by (simp add: remove_tenant_def Let_def tree_ok_def)
qed

text \<open>
  C19: removing a tenant from a consistent tree always returns, leaves a consistent tree in which
  the tenant owns nothing and has no character count, and changes nothing of what the other
  tenants own.
\<close>

theorem remove_tenant_exact:
  assumes "tree_ok tree"
  shows "\<exists>tree'. remove_tenant t tree = Some tree' \<and> tree_ok tree' \<and>
    (\<forall>t' s. owns t' (root tree') s \<longleftrightarrow> t' \<noteq> t \<and> owns t' (root tree) s) \<and>
    \<not> contains_key (tenant_char_count tree') t"
  by (rule remove_tenant_spec [OF assms])

theorem remove_tenant_exact_witness:
  "tree_ok sample_tree \<and>
   (\<exists>tree'. remove_tenant ''w1'' sample_tree = Some tree' \<and> tree_ok tree' \<and>
     (\<forall>t' s. owns t' (root tree') s \<longleftrightarrow> t' \<noteq> ''w1'' \<and> owns t' (root sample_tree) s) \<and>
     \<not> contains_key (tenant_char_count tree') ''w1'')"
  using remove_tenant_exact [OF sample_tree_ok(1)] sample_tree_ok(1) by blast

section \<open>Eviction brings every tenant under the limit\<close>

lemma heap_pop_None: "heap_pop pq = None \<longleftrightarrow> pq = []"
  by (cases pq) (auto split: option.splits)

lemma heap_pop_spec:
  "heap_pop pq = Some (e, pq') \<Longrightarrow>
     set pq = {e} \<union> set pq' \<and> length pq = Suc (length pq') \<and> (\<forall>x\<in>set pq. ee_timestamp e \<le> ee_timestamp x)"
proof (induction pq arbitrary: e pq')
  case (Cons x pq)
  show ?case
  proof (cases "heap_pop pq")
    case None
    then show ?thesis using Cons.prems heap_pop_None [of pq] by auto
  next
    case (Some y)
    then show ?thesis using Cons.prems Cons.IH [of "fst y" "snd y"]
      by (cases y) (auto split: if_splits intro: order_trans le_less_trans less_imp_le)
  qed
qed simp

lemma leaf_candidates_get:
  assumes "map_wf (tenants n)"
  shows "map_wf (leaf_candidates n) \<and>
    map_get (leaf_candidates n) t =
      (if child_has t n then Some False else if has_tenant n t then Some True else None)"
proof -
  have inner: "map_wf m \<Longrightarrow> map_wf (foldl (\<lambda>m e. map_insert (fst e) False m) m ts) \<and>
      map_get (foldl (\<lambda>m e. map_insert (fst e) False m) m ts) t = (if contains_key ts t then Some False else map_get m t)"
    for m and ts :: "(tenant_id \<times> nat) list"
    by (induction ts arbitrary: m) auto
  have outer: "map_wf m \<Longrightarrow>
      map_wf (foldl (\<lambda>m child. foldl (\<lambda>m e. map_insert (fst e) False m) m (tenants (snd child))) m cs) \<and>
      map_get (foldl (\<lambda>m child. foldl (\<lambda>m e. map_insert (fst e) False m) m (tenants (snd child))) m cs) t =
        (if list_ex (\<lambda>e. has_tenant (snd e) t) cs then Some False else map_get m t)"
    for m and cs :: "(nat \<times> radix_node) list"
    using inner by (induction cs arbitrary: m) (auto simp: has_tenant_def)
  have "map_get (map (\<lambda>e. (fst e, True)) ts) t = (if contains_key ts t then Some True else None)"
    for ts :: "(tenant_id \<times> nat) list" by (induction ts) auto
  moreover have "map_wf (map (\<lambda>e. (fst e, True)) (tenants n))"
    using assms by (simp add: map_wf_def comp_def)
  ultimately show ?thesis
    using outer by (auto simp: leaf_candidates_def child_has_def has_tenant_def)
qed

lemma leaf_of_set:
  assumes "wf_node n"
  shows "t \<in> set (leaf_of n) \<longleftrightarrow> has_tenant n t \<and> \<not> child_has t n"
proof -
  note c = leaf_candidates_get [OF wf_nodeD(3) [OF assms], of t]
  have "t \<in> set (leaf_of n) \<longleftrightarrow> map_get (leaf_candidates n) t = Some True"
    using map_get_iff [of "leaf_candidates n" t True] c by (force simp: leaf_of_def)
  then show ?thesis using c by auto
qed

definition entry_for :: "eviction_entry list \<Rightarrow> tenant_id \<Rightarrow> nat list \<Rightarrow> bool" where
  "entry_for pq t path \<longleftrightarrow> (\<exists>e\<in>set pq. ee_tenant e = t \<and> ee_node e = path)"

lemma entry_for_push:
  "entry_for (push_leaf path n pq t) t' q \<longleftrightarrow> entry_for pq t' q \<or> (has_tenant n t \<and> t' = t \<and> q = path)"
  by (auto simp: entry_for_def push_leaf_def has_tenant_def contains_key_get split: option.splits)

lemma entry_for_fold:
  "entry_for (foldl (push_leaf path n) pq ts) t' q \<longleftrightarrow>
     entry_for pq t' q \<or> (t' \<in> set ts \<and> has_tenant n t' \<and> q = path)"
  by (induction ts arbitrary: pq) (auto simp: entry_for_push)

lemma collect_evictions_complete:
  "\<forall>(path, n)\<in>set stack. wf_node n \<Longrightarrow>
   entry_for pq t q \<or> (\<exists>path n p. (path, n) \<in> set stack \<and> leaf_at n p t \<and> q = path @ p) \<Longrightarrow>
   entry_for (collect_evictions stack pq) t q"
proof (induction stack pq rule: collect_evictions.induct)
  case (2 path n stack pq)
  have wf: "wf_node n" using 2(2) by simp
  have "\<forall>(path, n)\<in>set (push_children path n stack). wf_node n"
    using 2(2) wf_node_child [OF wf] by (auto simp: push_children_def)
  moreover have "entry_for (foldl (push_leaf path n) pq (leaf_of n)) t q \<or>
      (\<exists>path' m p. (path', m) \<in> set (push_children path n stack) \<and> leaf_at m p t \<and> q = path' @ p)"
  proof -
    consider "entry_for pq t q" | path' m p where "(path', m) \<in> set stack" "leaf_at m p t" "q = path' @ p"
      | "leaf_at n [] t" "q = path" | c p where "leaf_at n (c # p) t" "q = path @ c # p"
      using 2(3) by (auto; metis append_Nil2 list.exhaust)
    then show ?thesis
    proof cases
      case 3
      then show ?thesis using leaf_at_node [OF wf, of "[]" n t] leaf_of_set [OF wf, of t] by (simp add: entry_for_fold)
    next
      case 4
      then obtain m where m: "map_get (children n) c = Some m"
        by (auto simp: leaf_at_def split: option.splits)
      then have "(path @ [c], m) \<in> set (push_children path n stack)" "leaf_at m p t"
        using 4 map_get_in_set [OF m] by (force simp: push_children_def leaf_at_def)+
      then show ?thesis using 4(2) by (metis append.assoc append_Cons append_Nil)
    qed (force simp: entry_for_fold push_children_def)+
  qed
  ultimately show ?case using 2(1) by simp
qed simp

text \<open>One round of the eviction: the invariant is kept, and the tree shrinks for the tenant only.\<close>

definition evict_inv :: "nat \<Rightarrow> eviction_entry list \<Rightarrow> radix_node \<Rightarrow> (tenant_id \<times> nat) list \<Rightarrow> bool" where
  "evict_inv max_size pq rt cc \<longleftrightarrow>
     wf_node rt \<and> map_wf cc \<and> (\<forall>t. count_of cc t = used t rt) \<and>
     (\<forall>t p. leaf_at rt p t \<longrightarrow> max_size < count_of cc t \<longrightarrow> entry_for pq t p)"

lemma evict_inv_skip:
  assumes "evict_inv max_size pq rt cc" "heap_pop pq = Some (e, pq')"
    and "\<not> leaf_at rt (ee_node e) (ee_tenant e) \<or> count_of cc (ee_tenant e) \<le> max_size"
  shows "evict_inv max_size pq' rt cc"
  using assms heap_pop_spec [OF assms(2)] by (fastforce simp: evict_inv_def entry_for_def)

lemma evict_inv_detach:
  assumes inv: "evict_inv max_size pq rt cc" and pop: "heap_pop pq = Some (e, pq')"
    and leaf: "leaf_at rt (ee_node e) (ee_tenant e)" and n: "node_at rt (ee_node e) = Some n"
    and rt': "rt' = detach (ee_tenant e) (ee_node e) rt"
  shows "evict_inv max_size
    (case new_leaf (ee_tenant e) (ee_node e) rt' of
       Some (ppath, parent) \<Rightarrow> push_leaf ppath parent pq' (ee_tenant e) | None \<Rightarrow> pq')
    rt' (map_and_modify (ee_tenant e) (\<lambda>count. count - nt_char_count (node_text n)) cc)"
    (is "evict_inv _ ?pq _ ?cc")
proof -
  let ?t = "ee_tenant e" and ?p = "ee_node e"
  have wf: "wf_node rt" "map_wf cc" "\<And>t. count_of cc t = used t rt" using inv by (auto simp: evict_inv_def)
  note post = detach_spec [OF wf(1) leaf, folded rt']
  note d = detach_postD [OF post]
  have cc: "count_of ?cc t = used t rt'" for t
    using d(4) [of t] n wf(3) [of t] by (auto simp: count_of_def split: option.splits)
  have mono: "count_of ?cc t \<le> count_of cc t" for t using cc wf(3) d(4) [of t] by simp
  have "entry_for ?pq t p" if l: "leaf_at rt' p t" "max_size < count_of ?cc t" for t p
  proof (cases "leaf_at rt p t \<and> \<not> (p = ?p \<and> t = ?t)")
    case True
    then have "entry_for pq t p" using inv l(2) mono [of t] by (auto simp: evict_inv_def)
    then have "entry_for pq' t p" using heap_pop_spec [OF pop] True by (auto simp: entry_for_def)
    then show ?thesis by (auto simp: entry_for_push split: option.splits)
  next
    case False
    then have "t = ?t" "?p \<noteq> []" "p = butlast ?p" using detach_leaves [OF post, of p t] l(1) by blast+
    then show ?thesis
      using l(1) leaf_at_has_node [of rt' p t] by (auto simp: new_leaf_cases [OF d(1)] entry_for_push)
  qed
  then show ?thesis using d(1) wf(2) cc by (simp add: evict_inv_def)
qed

lemma evict_loop_spec:
  assumes "evict_inv max_size pq rt cc" and "tenant_entries rt + length pq \<le> fuel"
  shows "\<exists>rt' cc'. evict_loop fuel max_size pq rt cc = Some (rt', cc') \<and> evict_inv max_size [] rt' cc' \<and>
    node_text rt' = node_text rt \<and> (\<forall>t s. owns t rt' s \<longrightarrow> owns t rt s) \<and>
    (\<forall>t s. contains_key cc t \<longrightarrow> count_of cc t \<le> max_size \<longrightarrow> owns t rt' s = owns t rt s)"
  using assms
proof (induction fuel arbitrary: pq rt cc)
  case 0
  then show ?case by (simp add: evict_loop.simps)
next
  case (Suc fuel)
  show ?case
  proof (cases "heap_pop pq")
    case None
    then show ?thesis using Suc.prems by (simp add: evict_loop.simps heap_pop_None)
  next
    case (Some y)
    then obtain e pq' where pop: "heap_pop pq = Some (e, pq')" by (cases y) auto
    let ?t = "ee_tenant e" and ?p = "ee_node e"
    have wf: "wf_node rt" using Suc.prems(1) by (simp add: evict_inv_def)
    have len: "length pq = Suc (length pq')" using heap_pop_spec [OF pop] by simp
    define small where "small \<longleftrightarrow> (case map_get cc ?t of Some used_size \<Rightarrow> used_size \<le> max_size | None \<Rightarrow> False)"
    have skip: ?thesis
      if "evict_loop (Suc fuel) max_size pq rt cc = evict_loop fuel max_size pq' rt cc"
        "\<not> leaf_at rt ?p ?t \<or> count_of cc ?t \<le> max_size"
      unfolding that(1) using Suc.IH [OF evict_inv_skip [OF Suc.prems(1) pop that(2)]] Suc.prems(2) len by simp
    consider (small) small | (none) "\<not> small" "node_at rt ?p = None"
      | (other) n where "\<not> small" "node_at rt ?p = Some n" "\<not> leaf_at rt ?p ?t"
      | (leaf) n where "\<not> small" "node_at rt ?p = Some n" "leaf_at rt ?p ?t" by fastforce
    then show ?thesis
    proof cases
      case small
      then show ?thesis
        by (intro skip) (auto simp: evict_loop.simps [of "Suc fuel"] pop small_def count_of_def Let_def split: option.splits)
    next
      case none
      then show ?thesis using leaf_at_has_node [of rt ?p ?t]
        by (intro skip) (auto simp: evict_loop.simps [of "Suc fuel"] pop small_def Let_def)
    next
      case other
      then show ?thesis using leaf_at_node [OF wf other(2), of ?t]
        by (intro skip) (auto simp: evict_loop.simps [of "Suc fuel"] pop small_def Let_def)
    next
      case leaf
      define rt1 where "rt1 = detach ?t ?p rt"
      define cc1 where "cc1 = map_and_modify ?t (\<lambda>count. count - nt_char_count (node_text n)) cc"
      define pq1 where "pq1 = (case new_leaf ?t ?p rt1 of
        Some (ppath, parent) \<Rightarrow> push_leaf ppath parent pq' ?t | None \<Rightarrow> pq')"
      note d = detach_postD [OF detach_spec [OF wf leaf(3)], folded rt1_def]
      have "length pq1 \<le> Suc (length pq')" by (simp add: pq1_def push_leaf_def split: option.splits)
      then have "tenant_entries rt1 + length pq1 \<le> fuel" using d(7) Suc.prems(2) len by simp
      moreover have "evict_inv max_size pq1 rt1 cc1"
        unfolding pq1_def cc1_def by (rule evict_inv_detach [OF Suc.prems(1) pop leaf(3,2) rt1_def])
      ultimately obtain rt' cc' where rec: "evict_loop fuel max_size pq1 rt1 cc1 = Some (rt', cc')"
          "evict_inv max_size [] rt' cc'" "node_text rt' = node_text rt1" "\<And>t s. owns t rt' s \<Longrightarrow> owns t rt1 s"
          "\<And>t s. contains_key cc1 t \<Longrightarrow> count_of cc1 t \<le> max_size \<Longrightarrow> owns t rt' s = owns t rt1 s"
        using Suc.IH [of pq1 rt1 cc1] by blast
      have step: "evict_loop (Suc fuel) max_size pq rt cc = evict_loop fuel max_size pq1 rt1 cc1"
        using leaf leaf_at_node [OF wf leaf(2), of ?t]
        by (simp add: evict_loop.simps [of "Suc fuel"] pop small_def [symmetric] Let_def rt1_def cc1_def pq1_def)
      have "owns t rt1 s \<Longrightarrow> owns t rt s" for t s using d(5,6) by (cases "t = ?t") auto
      moreover have "owns t rt' s = owns t rt s" if "contains_key cc t" "count_of cc t \<le> max_size" for t s
      proof -
        have "t \<noteq> ?t" using that leaf(1) by (auto simp: small_def count_of_def contains_key_get split: option.splits)
        then show ?thesis using rec(5) [of t s] that d(5) by (simp add: cc1_def count_of_def)
      qed
      ultimately show ?thesis unfolding step using rec(1-4) d(2) by simp
    qed
  qed
qed

lemma evict_spec:
  assumes "tree_ok tree"
  shows "\<exists>tree'. evict_tenant_by_size max_size tree = Some tree' \<and> tree_ok tree' \<and>
    (\<forall>t. count_of (get_used_size_per_tenant tree') t \<le> max_size) \<and>
    (\<forall>t s. owns t (root tree') s \<longrightarrow> owns t (root tree) s) \<and>
    (\<forall>t s. contains_key (tenant_char_count tree) t \<and> count_of (tenant_char_count tree) t \<le> max_size \<longrightarrow>
       owns t (root tree') s = owns t (root tree) s)"
proof -
  have ok: "wf_node (root tree)" "nt_text (node_text (root tree)) = []" "map_wf (tenant_char_count tree)"
    "\<And>t. count_of (tenant_char_count tree) t = used t (root tree)"
    using assms by (auto simp: tree_ok_def)
  let ?pq = "collect_evictions [([], root tree)] []"
  have "evict_inv max_size ?pq (root tree) (tenant_char_count tree)"
    using ok collect_evictions_complete [of "[([], root tree)]" "[]"] by (simp add: evict_inv_def)
  from evict_loop_spec [OF this le_refl] obtain rt' cc' where
    rec: "evict_loop (tenant_entries (root tree) + length ?pq) max_size ?pq (root tree) (tenant_char_count tree) = Some (rt', cc')"
      "evict_inv max_size [] rt' cc'" "node_text rt' = node_text (root tree)"
      "\<forall>t s. owns t rt' s \<longrightarrow> owns t (root tree) s"
      "\<forall>t s. contains_key (tenant_char_count tree) t \<longrightarrow> count_of (tenant_char_count tree) t \<le> max_size \<longrightarrow>
         owns t rt' s = owns t (root tree) s"
    by blast
  let ?tree = "tree\<lparr>root := rt', tenant_char_count := cc'\<rparr>"
  have inv: "wf_node rt'" "map_wf cc'" "\<And>t. count_of cc' t = used t rt'"
      "\<And>t p. leaf_at rt' p t \<Longrightarrow> count_of cc' t \<le> max_size"
    using rec(2) by (auto simp: evict_inv_def entry_for_def not_less [symmetric])
  have "tree_ok ?tree" using inv rec(3) ok(2) by (simp add: tree_ok_def)
  moreover have "used t rt' \<le> max_size" for t
    using inv(4) [of _ t] inv(3) [of t] leaf_below [of rt' "[]" t] used_no_tenant [OF inv(1), of t]
    by (cases "has_tenant rt' t") auto
  moreover have "count_of (get_used_size_per_tenant ?tree) t = used t rt'" for t
    using used_size_loop_count [of "[rt']" "[]" t] inv(1) by (simp add: get_used_size_per_tenant_def count_of_def)
  ultimately show ?thesis
    using rec(1,4,5) by (simp add: evict_tenant_by_size_def Let_def)
qed

text \<open>
  C4: evicting by size from a consistent tree always returns and leaves a consistent tree in which
  no tenant uses more than the limit; no tenant owns a text it did not own before, and a tenant
  that was within the limit keeps all its texts.
\<close>

theorem evict_bounds_sizes:
  assumes "tree_ok tree"
  shows "\<exists>tree'. evict_tenant_by_size max_size tree = Some tree' \<and> tree_ok tree' \<and>
    (\<forall>t. count_of (get_used_size_per_tenant tree') t \<le> max_size) \<and>
    (\<forall>t s. owns t (root tree') s \<longrightarrow> owns t (root tree) s) \<and>
    (\<forall>t s. contains_key (tenant_char_count tree) t \<and> count_of (tenant_char_count tree) t \<le> max_size \<longrightarrow>
       owns t (root tree') s = owns t (root tree) s)"
  by (rule evict_spec [OF assms])

theorem evict_bounds_sizes_witness:
  "tree_ok sample_tree \<and>
   (\<exists>tree'. evict_tenant_by_size 2 sample_tree = Some tree' \<and> tree_ok tree' \<and>
     (\<forall>t. count_of (get_used_size_per_tenant tree') t \<le> 2))"
  using evict_bounds_sizes [OF sample_tree_ok(1), of 2] sample_tree_ok(1) by blast

end
