(* ===== verification/Circuit_Breaker.thy ===== *)
theory Circuit_Breaker
  imports Gateway_Prelude
begin

text \<open>
  The per-worker circuit breaker of \<open>src/gateway/src/core/circuit_breaker.rs\<close>.

  The atomics are the fields of a record and each method is a function on it; a call of
  \<open>now_ms()\<close> is an argument, so a method that reads the clock twice has two of them.
  Counters keep their width: \<open>fetch_add\<close> wraps.  Metrics and log calls do not change the
  breaker and are left out.

  The methods are related to an abstract breaker with three constructors by a simulation, and the
  invariant of the record holds in every state that calls of the public methods can reach.
\<close>

section \<open>Configuration and state\<close>

record circuit_breaker_config =
  failure_threshold :: u32
  success_threshold :: u32
  timeout_duration :: duration
  window_duration :: duration

definition circuit_breaker_config_default :: circuit_breaker_config where
  "circuit_breaker_config_default =
     \<lparr> failure_threshold = 5, success_threshold = 2,
       timeout_duration = 30 * 1000, window_duration = 60 * 1000 \<rparr>"

definition STATE_CLOSED :: u8 where "STATE_CLOSED = 0"
definition STATE_OPEN :: u8 where "STATE_OPEN = 1"
definition STATE_HALF_OPEN :: u8 where "STATE_HALF_OPEN = 2"

lemmas state_consts [simp] = STATE_CLOSED_def STATE_OPEN_def STATE_HALF_OPEN_def

datatype circuit_state = Closed | Open | HalfOpen

fun circuit_state_display :: "circuit_state \<Rightarrow> string" where
  "circuit_state_display Closed = ''Closed''"
| "circuit_state_display Open = ''Open''"
| "circuit_state_display HalfOpen = ''HalfOpen''"

fun circuit_state_as_str :: "circuit_state \<Rightarrow> string" where
  "circuit_state_as_str Closed = ''closed''"
| "circuit_state_as_str Open = ''open''"
| "circuit_state_as_str HalfOpen = ''half_open''"

fun to_int :: "circuit_state \<Rightarrow> u8" where
  "to_int Closed = STATE_CLOSED"
| "to_int Open = STATE_OPEN"
| "to_int HalfOpen = STATE_HALF_OPEN"

definition from_int :: "u8 \<Rightarrow> circuit_state" where
  "from_int v =
     (if v = STATE_CLOSED then Closed
      else if v = STATE_OPEN then Open
      else if v = STATE_HALF_OPEN then HalfOpen
      else Closed)"

record circuit_breaker =
  cb_state :: u8
  cb_consecutive_failures :: u32
  cb_consecutive_successes :: u32
  cb_total_failures :: u64
  cb_total_successes :: u64
  cb_last_failure_time_ms :: u64
  cb_last_state_change_ms :: u64
  cb_config :: circuit_breaker_config
  cb_metric_label :: string

definition with_config_and_label :: "circuit_breaker_config \<Rightarrow> string \<Rightarrow> u64 \<Rightarrow> circuit_breaker" where
  "with_config_and_label cfg label now =
     \<lparr> cb_state = STATE_CLOSED, cb_consecutive_failures = 0, cb_consecutive_successes = 0,
       cb_total_failures = 0, cb_total_successes = 0, cb_last_failure_time_ms = 0,
       cb_last_state_change_ms = now, cb_config = cfg, cb_metric_label = label \<rparr>"

definition circuit_breaker_new :: "u64 \<Rightarrow> circuit_breaker" where
  "circuit_breaker_new now = with_config_and_label circuit_breaker_config_default '''' now"

section \<open>Methods\<close>

definition timeout_ms :: "circuit_breaker \<Rightarrow> u64" where
  "timeout_ms cb = of_nat (timeout_duration (cb_config cb))"

text \<open>
  \<open>now\<close> is the reading that measures the elapsed time, \<open>now'\<close> the one stored after the
  transition.  The compare-and-swap succeeds exactly when the state still is \<open>STATE_OPEN\<close>.
\<close>

definition check_and_update_state_returning ::
    "u64 \<Rightarrow> u64 \<Rightarrow> circuit_breaker \<Rightarrow> circuit_state \<times> circuit_breaker" where
  "check_and_update_state_returning now now' cb =
     (let current_state = from_int (cb_state cb) in
      if current_state = Open then
        let elapsed_ms = saturating_sub now (cb_last_state_change_ms cb) in
        if timeout_ms cb \<le> elapsed_ms then
          if cb_state cb = STATE_OPEN then
            (HalfOpen,
             cb\<lparr> cb_state := STATE_HALF_OPEN, cb_last_state_change_ms := now',
                 cb_consecutive_failures := 0, cb_consecutive_successes := 0 \<rparr>)
          else (from_int (cb_state cb), cb)
        else (current_state, cb)
      else (current_state, cb))"

definition state :: "u64 \<Rightarrow> u64 \<Rightarrow> circuit_breaker \<Rightarrow> circuit_state \<times> circuit_breaker" where
  "state now now' cb = check_and_update_state_returning now now' cb"

definition can_execute :: "u64 \<Rightarrow> u64 \<Rightarrow> circuit_breaker \<Rightarrow> bool \<times> circuit_breaker" where
  "can_execute now now' cb =
     (let (st, cb') = state now now' cb in
      (case st of Closed \<Rightarrow> True | Open \<Rightarrow> False | HalfOpen \<Rightarrow> True, cb'))"

definition transition_to :: "u64 \<Rightarrow> circuit_state \<Rightarrow> circuit_breaker \<Rightarrow> circuit_breaker" where
  "transition_to now new_state cb =
     (let old_state = from_int (cb_state cb);
          cb = cb\<lparr> cb_state := to_int new_state \<rparr> in
      if old_state \<noteq> new_state then
        let cb = cb\<lparr> cb_last_state_change_ms := now \<rparr> in
        (case new_state of
           Closed \<Rightarrow> cb\<lparr> cb_consecutive_failures := 0, cb_consecutive_successes := 0 \<rparr>
         | Open \<Rightarrow> cb\<lparr> cb_consecutive_successes := 0 \<rparr>
         | HalfOpen \<Rightarrow> cb\<lparr> cb_consecutive_failures := 0, cb_consecutive_successes := 0 \<rparr>)
      else cb)"

definition record_success :: "u64 \<Rightarrow> circuit_breaker \<Rightarrow> circuit_breaker" where
  "record_success now cb =
     (let cb = cb\<lparr> cb_total_successes := cb_total_successes cb + 1, cb_consecutive_failures := 0 \<rparr>;
          successes = cb_consecutive_successes cb + 1;
          cb = cb\<lparr> cb_consecutive_successes := successes \<rparr> in
      (case from_int (cb_state cb) of
         HalfOpen \<Rightarrow>
           if success_threshold (cb_config cb) \<le> successes then transition_to now Closed cb else cb
       | Closed \<Rightarrow> cb
       | Open \<Rightarrow> cb))"

definition record_failure :: "u64 \<Rightarrow> u64 \<Rightarrow> circuit_breaker \<Rightarrow> circuit_breaker" where
  "record_failure now now' cb =
     (let cb = cb\<lparr> cb_total_failures := cb_total_failures cb + 1, cb_consecutive_successes := 0 \<rparr>;
          failures = cb_consecutive_failures cb + 1;
          cb = cb\<lparr> cb_consecutive_failures := failures, cb_last_failure_time_ms := now \<rparr> in
      (case from_int (cb_state cb) of
         Closed \<Rightarrow>
           if failure_threshold (cb_config cb) \<le> failures then transition_to now' Open cb else cb
       | HalfOpen \<Rightarrow> transition_to now' Open cb
       | Open \<Rightarrow> cb))"

definition record_outcome :: "u64 \<Rightarrow> u64 \<Rightarrow> bool \<Rightarrow> circuit_breaker \<Rightarrow> circuit_breaker" where
  "record_outcome now now' success cb =
     (if success then record_success now' cb else record_failure now now' cb)"

definition time_since_last_failure :: "u64 \<Rightarrow> circuit_breaker \<Rightarrow> u64 option" where
  "time_since_last_failure now cb =
     (if cb_last_failure_time_ms cb = 0 then None
      else Some (saturating_sub now (cb_last_failure_time_ms cb)))"

definition time_since_last_state_change :: "u64 \<Rightarrow> circuit_breaker \<Rightarrow> u64" where
  "time_since_last_state_change now cb = saturating_sub now (cb_last_state_change_ms cb)"

definition is_half_open :: "u64 \<Rightarrow> u64 \<Rightarrow> circuit_breaker \<Rightarrow> bool \<times> circuit_breaker" where
  "is_half_open now now' cb = (let (st, cb') = state now now' cb in (st = HalfOpen, cb'))"

definition record_test_success :: "u64 \<Rightarrow> u64 \<Rightarrow> circuit_breaker \<Rightarrow> circuit_breaker" where
  "record_test_success now now' cb =
     (let (half, cb') = is_half_open now now' cb in
      if half then record_success now' cb' else cb')"

definition record_test_failure :: "u64 \<Rightarrow> u64 \<Rightarrow> circuit_breaker \<Rightarrow> circuit_breaker" where
  "record_test_failure now now' cb =
     (let (half, cb') = is_half_open now now' cb in
      if half then record_failure now' now' cb' else cb')"

definition reset :: "u64 \<Rightarrow> circuit_breaker \<Rightarrow> circuit_breaker" where
  "reset now cb =
     (transition_to now Closed cb)\<lparr> cb_consecutive_failures := 0, cb_consecutive_successes := 0 \<rparr>"

definition force_open :: "u64 \<Rightarrow> circuit_breaker \<Rightarrow> circuit_breaker" where
  "force_open now cb = transition_to now Open cb"

record circuit_breaker_stats =
  st_state :: circuit_state
  st_consecutive_failures :: u32
  st_consecutive_successes :: u32
  st_total_failures :: u64
  st_total_successes :: u64
  st_time_since_last_failure :: "u64 option"
  st_time_since_last_state_change :: u64

definition stats :: "u64 \<Rightarrow> u64 \<Rightarrow> circuit_breaker \<Rightarrow> circuit_breaker_stats \<times> circuit_breaker" where
  "stats now now' cb =
     (let (st, cb') = state now now' cb in
      (\<lparr> st_state = st, st_consecutive_failures = cb_consecutive_failures cb',
         st_consecutive_successes = cb_consecutive_successes cb',
         st_total_failures = cb_total_failures cb', st_total_successes = cb_total_successes cb',
         st_time_since_last_failure = time_since_last_failure now' cb',
         st_time_since_last_state_change = time_since_last_state_change now' cb' \<rparr>, cb'))"

text \<open>\<open>impl Clone\<close>: the copy starts from the current value of every atomic.\<close>

definition circuit_breaker_clone :: "circuit_breaker \<Rightarrow> circuit_breaker" where
  "circuit_breaker_clone cb =
     \<lparr> cb_state = cb_state cb, cb_consecutive_failures = cb_consecutive_failures cb,
       cb_consecutive_successes = cb_consecutive_successes cb,
       cb_total_failures = cb_total_failures cb, cb_total_successes = cb_total_successes cb,
       cb_last_failure_time_ms = cb_last_failure_time_ms cb,
       cb_last_state_change_ms = cb_last_state_change_ms cb,
       cb_config = cb_config cb, cb_metric_label = cb_metric_label cb \<rparr>"

lemmas cb_defs = check_and_update_state_returning_def state_def can_execute_def transition_to_def
  record_success_def record_failure_def record_outcome_def is_half_open_def
  record_test_success_def record_test_failure_def reset_def force_open_def Let_def

section \<open>Invariant\<close>

definition cb_inv :: "circuit_breaker \<Rightarrow> bool" where
  "cb_inv cb \<longleftrightarrow>
     cb_state cb \<in> {STATE_CLOSED, STATE_OPEN, STATE_HALF_OPEN} \<and>
     (cb_state cb = STATE_CLOSED \<longrightarrow>
        cb_consecutive_failures cb = 0 \<or>
        cb_consecutive_failures cb < failure_threshold (cb_config cb)) \<and>
     (cb_state cb = STATE_HALF_OPEN \<longrightarrow>
        cb_consecutive_failures cb = 0 \<and>
        (cb_consecutive_successes cb = 0 \<or>
         cb_consecutive_successes cb < success_threshold (cb_config cb)))"

lemma from_int_simps [simp]:
  "from_int 0 = Closed" "from_int 1 = Open" "from_int 2 = HalfOpen"
  by (simp_all add: from_int_def)

lemma from_to_int [simp]: "from_int (to_int st) = st"
  by (cases st) simp_all

lemma cb_inv_new: "cb_inv (with_config_and_label cfg label now)"
  by (simp add: cb_inv_def with_config_and_label_def)

lemma cb_inv_check [gateway_inv]: "cb_inv cb \<Longrightarrow> cb_inv (snd (check_and_update_state_returning t t' cb))"
  by (auto simp: cb_inv_def check_and_update_state_returning_def Let_def)

lemma cb_inv_success [gateway_inv]: "cb_inv cb \<Longrightarrow> cb_inv (record_success t cb)"
  by (auto simp: cb_inv_def record_success_def transition_to_def Let_def not_le)

lemma cb_inv_failure [gateway_inv]: "cb_inv cb \<Longrightarrow> cb_inv (record_failure t t' cb)"
  by (auto simp: cb_inv_def record_failure_def transition_to_def Let_def not_le)

lemma cb_inv_reset [gateway_inv]: "cb_inv cb \<Longrightarrow> cb_inv (reset t cb)"
  by (auto simp: cb_inv_def reset_def transition_to_def Let_def)

lemma cb_inv_force_open [gateway_inv]: "cb_inv cb \<Longrightarrow> cb_inv (force_open t cb)"
  by (auto simp: cb_inv_def force_open_def transition_to_def Let_def)

section \<open>Reachable breakers\<close>

datatype cb_call = Outcome bool | Poll | TestSuccess | TestFailure | Reset | ForceOpen

fun cb_step :: "cb_call \<Rightarrow> u64 \<Rightarrow> u64 \<Rightarrow> circuit_breaker \<Rightarrow> circuit_breaker" where
  "cb_step (Outcome b) t t' cb = record_outcome t t' b cb"
| "cb_step Poll t t' cb = snd (can_execute t t' cb)"
| "cb_step TestSuccess t t' cb = record_test_success t t' cb"
| "cb_step TestFailure t t' cb = record_test_failure t t' cb"
| "cb_step Reset t t' cb = reset t' cb"
| "cb_step ForceOpen t t' cb = force_open t' cb"

inductive cb_reachable :: "circuit_breaker_config \<Rightarrow> circuit_breaker \<Rightarrow> bool"
  for cfg :: circuit_breaker_config where
  cb_start: "cb_reachable cfg (with_config_and_label cfg label now)"
| cb_call: "cb_reachable cfg cb \<Longrightarrow> cb_reachable cfg (cb_step c t t' cb)"

lemma cb_inv_step: "cb_inv cb \<Longrightarrow> cb_inv (cb_step c t t' cb)"
  by (cases c)
     (auto simp: record_outcome_def can_execute_def state_def record_test_success_def
        record_test_failure_def is_half_open_def Let_def split_beta intro: gateway_inv)

lemma cb_reachable_inv: "cb_reachable cfg cb \<Longrightarrow> cb_inv cb"
  by (induction rule: cb_reachable.induct) (auto intro: cb_inv_new cb_inv_step)

lemma cb_config_step [simp]: "cb_config (cb_step c t t' cb) = cb_config cb"
  by (cases c) (auto simp: cb_defs split: circuit_state.splits)

lemma cb_reachable_config: "cb_reachable cfg cb \<Longrightarrow> cb_config cb = cfg"
  by (induction rule: cb_reachable.induct) (simp_all add: with_config_and_label_def)

section \<open>The abstract breaker and the simulation\<close>

datatype abs_breaker = A_Closed nat | A_Open u64 | A_HalfOpen nat

fun a_failure :: "nat \<Rightarrow> u64 \<Rightarrow> abs_breaker \<Rightarrow> abs_breaker" where
  "a_failure F t (A_Closed n) = (if F \<le> Suc n then A_Open t else A_Closed (Suc n))"
| "a_failure F t (A_HalfOpen n) = A_Open t"
| "a_failure F t (A_Open t0) = A_Open t0"

fun a_success :: "nat \<Rightarrow> abs_breaker \<Rightarrow> abs_breaker" where
  "a_success S (A_Closed n) = A_Closed 0"
| "a_success S (A_HalfOpen n) = (if S \<le> Suc n then A_Closed 0 else A_HalfOpen (Suc n))"
| "a_success S (A_Open t0) = A_Open t0"

fun a_poll :: "u64 \<Rightarrow> u64 \<Rightarrow> abs_breaker \<Rightarrow> abs_breaker" where
  "a_poll T t (A_Open t0) = (if T \<le> saturating_sub t t0 then A_HalfOpen 0 else A_Open t0)"
| "a_poll T t a = a"

fun a_allows :: "abs_breaker \<Rightarrow> bool" where
  "a_allows (A_Open t0) = False"
| "a_allows _ = True"

fun a_force_open :: "u64 \<Rightarrow> abs_breaker \<Rightarrow> abs_breaker" where
  "a_force_open t (A_Open t0) = A_Open t0"
| "a_force_open t _ = A_Open t"

fun a_step :: "circuit_breaker_config \<Rightarrow> cb_call \<Rightarrow> u64 \<Rightarrow> u64 \<Rightarrow> abs_breaker \<Rightarrow> abs_breaker" where
  "a_step cfg (Outcome b) t t' a =
     (if b then a_success (unat (success_threshold cfg)) a
      else a_failure (unat (failure_threshold cfg)) t' a)"
| "a_step cfg Poll t t' a = a_poll (of_nat (timeout_duration cfg)) t a"
| "a_step cfg TestSuccess t t' a =
     (case a_poll (of_nat (timeout_duration cfg)) t a of
        A_HalfOpen n \<Rightarrow> a_success (unat (success_threshold cfg)) (A_HalfOpen n)
      | a' \<Rightarrow> a')"
| "a_step cfg TestFailure t t' a =
     (case a_poll (of_nat (timeout_duration cfg)) t a of
        A_HalfOpen n \<Rightarrow> a_failure (unat (failure_threshold cfg)) t' (A_HalfOpen n)
      | a' \<Rightarrow> a')"
| "a_step cfg Reset t t' a = A_Closed 0"
| "a_step cfg ForceOpen t t' a = a_force_open t' a"

definition abs_cb :: "circuit_breaker \<Rightarrow> abs_breaker" where
  "abs_cb cb =
     (case from_int (cb_state cb) of
        Closed \<Rightarrow> A_Closed (unat (cb_consecutive_failures cb))
      | Open \<Rightarrow> A_Open (cb_last_state_change_ms cb)
      | HalfOpen \<Rightarrow> A_HalfOpen (unat (cb_consecutive_successes cb)))"

lemma cb_inv_cases [consumes 1, case_names Closed Open HalfOpen]:
  assumes "cb_inv cb"
  obtains "cb_state cb = 0" | "cb_state cb = 1" | "cb_state cb = 2"
  using assms by (auto simp: cb_inv_def)

lemma unat_inc_threshold:
  fixes n thr :: u32
  assumes "n = 0 \<or> n < thr"
  shows "unat (n + 1) = Suc (unat n)"
  using assms unat_inc_bounded [of n thr] by (auto simp: word_less_nat_alt)

lemma abs_check:
  assumes "cb_inv cb"
  shows "abs_cb (snd (check_and_update_state_returning t t' cb)) = a_poll (timeout_ms cb) t (abs_cb cb)"
  using assms
  by (cases cb rule: cb_inv_cases) (auto simp: abs_cb_def check_and_update_state_returning_def Let_def)

lemma abs_success:
  assumes "cb_inv cb"
  shows "abs_cb (record_success t cb) = a_success (unat (success_threshold (cb_config cb))) (abs_cb cb)"
  using assms
proof (cases rule: cb_inv_cases)
  case HalfOpen
  with assms have "unat (cb_consecutive_successes cb + 1) = Suc (unat (cb_consecutive_successes cb))"
    by (intro unat_inc_threshold) (auto simp: cb_inv_def)
  with HalfOpen show ?thesis
    by (simp add: abs_cb_def record_success_def transition_to_def Let_def word_le_nat_alt)
qed (simp_all add: abs_cb_def record_success_def Let_def)

lemma abs_failure:
  assumes "cb_inv cb"
  shows "abs_cb (record_failure t t' cb) = a_failure (unat (failure_threshold (cb_config cb))) t' (abs_cb cb)"
  using assms
proof (cases rule: cb_inv_cases)
  case Closed
  with assms have "unat (cb_consecutive_failures cb + 1) = Suc (unat (cb_consecutive_failures cb))"
    by (intro unat_inc_threshold) (auto simp: cb_inv_def)
  with Closed show ?thesis
    by (simp add: abs_cb_def record_failure_def transition_to_def Let_def word_le_nat_alt)
qed (simp_all add: abs_cb_def record_failure_def transition_to_def Let_def)

lemma abs_reset: "cb_inv cb \<Longrightarrow> abs_cb (reset t cb) = A_Closed 0"
  by (cases cb rule: cb_inv_cases) (simp_all add: abs_cb_def reset_def transition_to_def Let_def)

lemma abs_force_open: "cb_inv cb \<Longrightarrow> abs_cb (force_open t cb) = a_force_open t (abs_cb cb)"
  by (cases cb rule: cb_inv_cases) (simp_all add: abs_cb_def force_open_def transition_to_def Let_def)

lemma check_result:
  "cb_inv cb \<Longrightarrow> fst (check_and_update_state_returning t t' cb) =
     from_int (cb_state (snd (check_and_update_state_returning t t' cb)))"
  by (cases cb rule: cb_inv_cases) (auto simp: check_and_update_state_returning_def Let_def)

lemma abs_cb_HalfOpen: "from_int (cb_state cb) = HalfOpen \<longleftrightarrow> (\<exists>n. abs_cb cb = A_HalfOpen n)"
  by (auto simp: abs_cb_def split: circuit_state.splits)

lemma cb_config_check [simp]:
  "cb_config (snd (check_and_update_state_returning t t' cb)) = cb_config cb"
  by (simp add: check_and_update_state_returning_def Let_def)

lemma abs_step:
  assumes inv: "cb_inv cb"
  shows "abs_cb (cb_step c t t' cb) = a_step (cb_config cb) c t t' (abs_cb cb)"
proof -
  let ?c = "snd (check_and_update_state_returning t t' cb)"
  note facts = abs_check [OF inv, of t t'] check_result [OF inv, of t t'] cb_inv_check [OF inv, of t t']
  have test: "record_test_success t t' cb = (if \<exists>n. abs_cb ?c = A_HalfOpen n then record_success t' ?c else ?c)"
      "record_test_failure t t' cb = (if \<exists>n. abs_cb ?c = A_HalfOpen n then record_failure t' t' ?c else ?c)"
    using facts(2)
    by (simp_all add: record_test_success_def record_test_failure_def is_half_open_def state_def
          split_beta Let_def abs_cb_HalfOpen)
  show ?thesis
  proof (cases c)
    case Poll
    then show ?thesis
      using facts(1) by (simp add: can_execute_def state_def split_beta Let_def timeout_ms_def)
  next
    case TestSuccess
    then show ?thesis
      using facts abs_success [OF facts(3), of t']
      by (auto simp: test timeout_ms_def split: abs_breaker.splits)
  next
    case TestFailure
    then show ?thesis
      using facts abs_failure [OF facts(3), of t' t']
      by (auto simp: test timeout_ms_def split: abs_breaker.splits)
  qed (simp_all add: inv record_outcome_def abs_success abs_failure abs_reset abs_force_open)
qed

section \<open>Sequences of outcomes\<close>

text \<open>A sequence of recorded outcomes, each with its clock readings.\<close>

fun record_outcomes :: "(bool \<times> u64 \<times> u64) list \<Rightarrow> circuit_breaker \<Rightarrow> circuit_breaker" where
  "record_outcomes [] cb = cb"
| "record_outcomes ((b, t, t') # os) cb = record_outcomes os (record_outcome t t' b cb)"

lemma record_outcomes_append: "record_outcomes (xs @ ys) cb = record_outcomes ys (record_outcomes xs cb)"
  by (induction xs cb rule: record_outcomes.induct) simp_all

lemma record_outcome_step: "record_outcome t t' b cb = cb_step (Outcome b) t t' cb"
  by simp

lemma record_outcomes_inv: "cb_inv cb \<Longrightarrow> cb_inv (record_outcomes os cb)"
  by (induction os cb rule: record_outcomes.induct)
     (simp_all only: record_outcomes.simps record_outcome_step cb_inv_step)

lemma record_outcomes_config [simp]: "cb_config (record_outcomes os cb) = cb_config cb"
  by (induction os cb rule: record_outcomes.induct)
     (simp_all only: record_outcomes.simps record_outcome_step cb_config_step)

text \<open>The length of the run of failures a sequence of outcomes ends with.\<close>

definition trailing_failures :: "bool list \<Rightarrow> nat" where
  "trailing_failures bs = length (takeWhile Not (rev bs))"

lemma trailing_failures_snoc:
  "trailing_failures (bs @ [b]) = (if b then 0 else Suc (trailing_failures bs))"
  by (simp add: trailing_failures_def)

lemma replicate_suffix_trailing:
  "suffix (replicate n False) bs \<longleftrightarrow> n \<le> trailing_failures bs"
proof (induction bs arbitrary: n rule: rev_induct)
  case Nil
  then show ?case by (cases n) (auto simp: trailing_failures_def)
next
  case (snoc b bs)
  show ?case
  proof (cases n)
    case (Suc m)
    then have "replicate n False = replicate m False @ [False]"
      by (simp add: replicate_append_same)
    then show ?thesis
      using snoc.IH [of m] Suc by (simp add: trailing_failures_snoc)
  qed simp
qed

text \<open>A run of \<open>n\<close> consecutive failures occurs in a sequence of outcomes.\<close>

definition has_failure_run :: "nat \<Rightarrow> bool list \<Rightarrow> bool" where
  "has_failure_run n bs \<longleftrightarrow> sublist (replicate n False) bs"

lemma has_failure_run_snoc:
  "has_failure_run n (bs @ [b]) \<longleftrightarrow> has_failure_run n bs \<or> n \<le> trailing_failures (bs @ [b])"
  using replicate_suffix_trailing [of n "bs @ [b]"] unfolding has_failure_run_def sublist_snoc
  by blast

lemma abs_outcomes_snoc:
  assumes "cb_inv cb"
  shows "abs_cb (record_outcomes (os @ [(b, t, t')]) cb) =
           a_step (cb_config cb) (Outcome b) t t' (abs_cb (record_outcomes os cb))"
  using abs_step [OF record_outcomes_inv [OF assms], of "Outcome b" t t' os]
  by (simp add: record_outcomes_append)

lemma outcomes_from_closed:
  assumes "cb_inv cb" and "abs_cb cb = A_Closed 0"
    and "thr = max 1 (unat (failure_threshold (cb_config cb)))"
  shows "if has_failure_run thr (map fst os)
         then \<exists>t. abs_cb (record_outcomes os cb) = A_Open t
         else abs_cb (record_outcomes os cb) = A_Closed (trailing_failures (map fst os))"
proof (induction os rule: rev_induct)
  case Nil
  have "\<not> has_failure_run thr []"
    using assms(3) by (auto simp: has_failure_run_def)
  then show ?case
    using assms(2) by (simp add: trailing_failures_def)
next
  case (snoc x os)
  obtain b t t' where x: "x = (b, t, t')" by (cases x)
  show ?case
    using snoc.IH assms(3)
    by (auto simp: abs_outcomes_snoc [OF assms(1)] x has_failure_run_snoc trailing_failures_snoc max_def split: if_splits)
qed

lemma abs_new: "abs_cb (with_config_and_label cfg label now) = A_Closed 0"
  by (simp add: abs_cb_def with_config_and_label_def)

lemma abs_cb_state: "from_int (cb_state cb) =
    (case abs_cb cb of A_Closed _ \<Rightarrow> Closed | A_Open _ \<Rightarrow> Open | A_HalfOpen _ \<Rightarrow> HalfOpen)"
  by (simp add: abs_cb_def split: circuit_state.splits)

lemma successes_from_half_open:
  assumes "cb_inv cb" and "abs_cb cb = A_HalfOpen 0"
    and "S = max 1 (unat (success_threshold (cb_config cb)))"
    and "\<forall>x\<in>set os. fst x"
  shows "if length os < S
         then abs_cb (record_outcomes os cb) = A_HalfOpen (length os)
         else \<exists>n. abs_cb (record_outcomes os cb) = A_Closed n"
  using assms(4)
proof (induction os rule: rev_induct)
  case Nil
  then show ?case using assms(2,3) by simp
next
  case (snoc x os)
  obtain b t t' where x: "x = (b, t, t')" by (cases x)
  show ?case
    using snoc assms(3) by (auto simp: abs_outcomes_snoc [OF assms(1)] x max_def split: if_splits)
qed

section \<open>Properties\<close>

text \<open>
  C9: every breaker that the public methods can produce keeps its configuration, satisfies the
  invariant, and behaves as the abstract three-state breaker: each method is the abstract step on
  the abstract state, and \<open>can_execute\<close> answers what the abstract breaker allows.
\<close>

theorem cb_refines_abstract:
  assumes "cb_reachable cfg cb"
  shows "cb_inv cb \<and> cb_config cb = cfg \<and>
         abs_cb (cb_step c t t' cb) = a_step cfg c t t' (abs_cb cb) \<and>
         fst (can_execute t t' cb) = a_allows (a_step cfg Poll t t' (abs_cb cb))"
proof -
  have inv: "cb_inv cb" and cfg: "cb_config cb = cfg"
    using assms by (auto intro: cb_reachable_inv cb_reachable_config)
  have poll: "abs_cb (snd (check_and_update_state_returning t t' cb)) = a_step cfg Poll t t' (abs_cb cb)"
    using abs_check [OF inv, of t t'] cfg by (simp add: timeout_ms_def)
  have "fst (can_execute t t' cb) = a_allows (a_step cfg Poll t t' (abs_cb cb))"
    using check_result [OF inv, of t t'] poll
    by (auto simp: can_execute_def state_def split_beta Let_def abs_cb_state
        split: circuit_state.splits abs_breaker.splits)
  then show ?thesis
    using inv cfg abs_step [OF inv] by simp
qed

theorem cb_refines_abstract_witness:
  "fst (can_execute 30001 30001 (cb_step ForceOpen 0 1 (circuit_breaker_new 0)))
     = a_allows (a_step circuit_breaker_config_default Poll 30001 30001
         (abs_cb (cb_step ForceOpen 0 1 (circuit_breaker_new 0))))"
proof -
  have "cb_reachable circuit_breaker_config_default (cb_step ForceOpen 0 1 (circuit_breaker_new 0))"
    unfolding circuit_breaker_new_def by (intro cb_call cb_start)
  from cb_refines_abstract [OF this, of Poll 30001 30001] show ?thesis by simp
qed

text \<open>
  A fresh breaker that only records outcomes is open after a sequence of outcomes exactly when
  the sequence contains \<open>failure_threshold\<close> consecutive failures (one failure for a threshold
  of 0), and otherwise it is closed with the length of the last run of failures in its counter.
\<close>

theorem cb_opens_iff_failure_run:
  "let cb = record_outcomes os (with_config_and_label cfg label now);
       thr = max 1 (unat (failure_threshold cfg)) in
   from_int (cb_state cb) = (if has_failure_run thr (map fst os) then Open else Closed) \<and>
   (from_int (cb_state cb) = Closed \<longrightarrow>
      unat (cb_consecutive_failures cb) = trailing_failures (map fst os))"
proof -
  let ?cb = "with_config_and_label cfg label now"
  have "cb_config ?cb = cfg" by (simp add: with_config_and_label_def)
  with outcomes_from_closed [OF cb_inv_new abs_new refl, of cfg label now os]
  show ?thesis
    by (auto simp: Let_def abs_cb_def split: if_splits circuit_state.splits)
qed

theorem cb_opens_iff_failure_run_witness:
  "from_int (cb_state (record_outcomes (replicate 5 (False, 7, 7)) (circuit_breaker_new 0))) = Open"
proof -
  have "has_failure_run 5 (replicate 5 False)"
    by (simp add: has_failure_run_def)
  then show ?thesis
    using cb_opens_iff_failure_run [of "replicate 5 (False, 7, 7)" circuit_breaker_config_default "[]" 0]
    by (simp add: Let_def circuit_breaker_new_def circuit_breaker_config_default_def)
qed

text \<open>
  An open breaker rejects every request before its timeout has passed since the transition and
  does not change, and admits the first request at or after the timeout, which leaves it half open
  with both counters cleared: an open breaker is never stuck open.
\<close>

theorem cb_open_gate:
  assumes "cb_reachable cfg cb" and "from_int (cb_state cb) = Open"
  shows "if unat t - unat (cb_last_state_change_ms cb) < unat (timeout_ms cb)
         then can_execute t t' cb = (False, cb)
         else fst (can_execute t t' cb) \<and>
              abs_cb (snd (can_execute t t' cb)) = A_HalfOpen 0 \<and>
              cb_consecutive_failures (snd (can_execute t t' cb)) = 0 \<and>
              cb_last_state_change_ms (snd (can_execute t t' cb)) = t'"
proof -
  have "cb_inv cb" using assms(1) by (rule cb_reachable_inv)
  then have st: "cb_state cb = 1"
    using assms(2) by (cases cb rule: cb_inv_cases) auto
  have elapsed: "timeout_ms cb \<le> saturating_sub t (cb_last_state_change_ms cb) \<longleftrightarrow>
      \<not> unat t - unat (cb_last_state_change_ms cb) < unat (timeout_ms cb)"
    by (simp add: word_le_nat_alt unat_saturating_sub not_less)
  show ?thesis
    using st elapsed
    by (simp add: can_execute_def state_def check_and_update_state_returning_def Let_def abs_cb_def)
qed

theorem cb_open_gate_witness:
  "can_execute 20 20 (cb_step ForceOpen 0 1 (circuit_breaker_new 0)) =
     (False, cb_step ForceOpen 0 1 (circuit_breaker_new 0))"
proof -
  have r: "cb_reachable circuit_breaker_config_default (cb_step ForceOpen 0 1 (circuit_breaker_new 0))"
    unfolding circuit_breaker_new_def by (intro cb_call cb_start)
  have o: "from_int (cb_state (cb_step ForceOpen 0 1 (circuit_breaker_new 0))) = Open"
    by (simp add: cb_defs circuit_breaker_new_def with_config_and_label_def)
  show ?thesis
    using cb_open_gate [OF r o, of 20 20]
    by (simp add: cb_defs circuit_breaker_new_def with_config_and_label_def timeout_ms_def
        circuit_breaker_config_default_def)
qed

text \<open>
  A breaker that has just become half open closes after exactly \<open>success_threshold\<close>
  consecutive successes (one for a threshold of 0), stays half open before that, and any failure
  recorded while it is half open opens it again and restarts the timeout.
\<close>

theorem cb_half_open_recovery:
  assumes "cb_reachable cfg cb" and "abs_cb cb = A_HalfOpen 0"
    and "\<forall>x\<in>set os. fst x" and "S = max 1 (unat (success_threshold cfg))"
  shows "from_int (cb_state (record_outcomes os cb)) = (if length os < S then HalfOpen else Closed) \<and>
         (length os < S \<longrightarrow> abs_cb (record_failure t t' (record_outcomes os cb)) = A_Open t')"
proof -
  have inv: "cb_inv cb" and cfg: "cb_config cb = cfg"
    using assms(1) by (auto intro: cb_reachable_inv cb_reachable_config)
  have run: "if length os < S
         then abs_cb (record_outcomes os cb) = A_HalfOpen (length os)
         else \<exists>n. abs_cb (record_outcomes os cb) = A_Closed n"
    using successes_from_half_open [OF inv assms(2) _ assms(3), of S] assms(4) cfg by simp
  have "abs_cb (record_failure t t' (record_outcomes os cb)) =
      a_failure (unat (failure_threshold cfg)) t' (abs_cb (record_outcomes os cb))"
    using abs_failure [OF record_outcomes_inv [OF inv], of t t' os] cfg by simp
  with run show ?thesis
    by (auto simp: abs_cb_state split: if_splits)
qed

theorem cb_half_open_recovery_witness:
  "from_int (cb_state (record_outcomes [(True, 5, 5), (True, 6, 6)]
     (cb_step Poll 30001 30002 (cb_step ForceOpen 0 1 (circuit_breaker_new 0))))) = Closed"
proof -
  let ?cb = "cb_step Poll 30001 30002 (cb_step ForceOpen 0 1 (circuit_breaker_new 0))"
  have r: "cb_reachable circuit_breaker_config_default ?cb"
    unfolding circuit_breaker_new_def by (intro cb_call cb_start)
  have h: "abs_cb ?cb = A_HalfOpen 0"
    by (simp add: cb_defs abs_cb_def circuit_breaker_new_def with_config_and_label_def timeout_ms_def
        circuit_breaker_config_default_def saturating_sub_def)
  show ?thesis
    using cb_half_open_recovery [OF r h, of "[(True, 5, 5), (True, 6, 6)]" 2]
    by (simp add: circuit_breaker_config_default_def)
qed

end
