(* ===== verification/Model_Card.thy ===== *)
theory Model_Card
  imports Gateway_Prelude
begin

text \<open>
  Model capabilities and model cards: \<open>src/gateway/src/core/model_type.rs\<close> (the capability
  bitflags and the endpoints) and \<open>src/gateway/src/core/model_card.rs\<close>.

  The bitflags are 16-bit words, as in the sources.  The lemmas show that the endpoint checks are
  the required capability flag, that endpoint paths parse back (with any number of trailing
  slashes), that exactly the words made of known flags are accepted when a model type is read
  back, and that the capability names determine the flags.  \<open>ProviderType::from_model_name\<close>
  (Unicode lower case) and the derived serialisation are not modelled.
\<close>

unbundle bit_operations_syntax

type_synonym model_type = u16

section \<open>Capabilities\<close>

definition CHAT :: model_type where "CHAT = push_bit 0 1"
definition COMPLETIONS :: model_type where "COMPLETIONS = push_bit 1 1"
definition RESPONSES :: model_type where "RESPONSES = push_bit 2 1"
definition EMBEDDINGS :: model_type where "EMBEDDINGS = push_bit 3 1"
definition RERANK :: model_type where "RERANK = push_bit 4 1"
definition GENERATE :: model_type where "GENERATE = push_bit 5 1"
definition VISION :: model_type where "VISION = push_bit 6 1"
definition TOOLS :: model_type where "TOOLS = push_bit 7 1"
definition REASONING :: model_type where "REASONING = push_bit 8 1"
definition IMAGE_GEN :: model_type where "IMAGE_GEN = push_bit 9 1"
definition AUDIO :: model_type where "AUDIO = push_bit 10 1"
definition MODERATION :: model_type where "MODERATION = push_bit 11 1"

definition LLM :: model_type where "LLM = CHAT OR COMPLETIONS OR RESPONSES OR TOOLS"
definition VISION_LLM :: model_type where "VISION_LLM = LLM OR VISION"
definition REASONING_LLM :: model_type where "REASONING_LLM = LLM OR REASONING"
definition FULL_LLM :: model_type where "FULL_LLM = VISION_LLM OR REASONING"
definition EMBED_MODEL :: model_type where "EMBED_MODEL = EMBEDDINGS"
definition RERANK_MODEL :: model_type where "RERANK_MODEL = RERANK"
definition IMAGE_MODEL :: model_type where "IMAGE_MODEL = IMAGE_GEN"
definition AUDIO_MODEL :: model_type where "AUDIO_MODEL = AUDIO"
definition MODERATION_MODEL :: model_type where "MODERATION_MODEL = MODERATION"

lemmas flag_defs = CHAT_def COMPLETIONS_def RESPONSES_def EMBEDDINGS_def RERANK_def GENERATE_def
  VISION_def TOOLS_def REASONING_def IMAGE_GEN_def AUDIO_def MODERATION_def

lemmas model_defs = LLM_def VISION_LLM_def REASONING_LLM_def FULL_LLM_def EMBED_MODEL_def
  RERANK_MODEL_def IMAGE_MODEL_def AUDIO_MODEL_def MODERATION_MODEL_def

text \<open>The operations of the bitflags type: containment, and the words made of known flags.\<close>

definition contains_flag :: "model_type \<Rightarrow> model_type \<Rightarrow> bool" where
  "contains_flag m flag \<longleftrightarrow> m AND flag = flag"

definition CAPABILITY_NAMES :: "(model_type \<times> string) list" where
  "CAPABILITY_NAMES =
     [(CHAT, ''chat''), (COMPLETIONS, ''completions''), (RESPONSES, ''responses''),
      (EMBEDDINGS, ''embeddings''), (RERANK, ''rerank''), (GENERATE, ''generate''),
      (VISION, ''vision''), (TOOLS, ''tools''), (REASONING, ''reasoning''),
      (IMAGE_GEN, ''image_gen''), (AUDIO, ''audio''), (MODERATION, ''moderation'')]"

definition all_bits :: model_type where
  "all_bits = foldr (\<lambda>e b. fst e OR b) CAPABILITY_NAMES 0"

definition from_bits :: "u16 \<Rightarrow> model_type option" where
  "from_bits bits = (if bits AND NOT all_bits = 0 then Some bits else None)"

definition supports_chat where "supports_chat m \<longleftrightarrow> contains_flag m CHAT"
definition supports_completions where "supports_completions m \<longleftrightarrow> contains_flag m COMPLETIONS"
definition supports_responses where "supports_responses m \<longleftrightarrow> contains_flag m RESPONSES"
definition supports_embeddings where "supports_embeddings m \<longleftrightarrow> contains_flag m EMBEDDINGS"
definition supports_rerank where "supports_rerank m \<longleftrightarrow> contains_flag m RERANK"
definition supports_generate where "supports_generate m \<longleftrightarrow> contains_flag m GENERATE"
definition supports_vision where "supports_vision m \<longleftrightarrow> contains_flag m VISION"
definition supports_tools where "supports_tools m \<longleftrightarrow> contains_flag m TOOLS"
definition supports_reasoning where "supports_reasoning m \<longleftrightarrow> contains_flag m REASONING"
definition supports_image_gen where "supports_image_gen m \<longleftrightarrow> contains_flag m IMAGE_GEN"
definition supports_audio where "supports_audio m \<longleftrightarrow> contains_flag m AUDIO"
definition supports_moderation where "supports_moderation m \<longleftrightarrow> contains_flag m MODERATION"

datatype endpoint = Chat | Completions | Responses | Embeddings | Rerank | Generate | Models

fun type_supports_endpoint :: "model_type \<Rightarrow> endpoint \<Rightarrow> bool" where
  "type_supports_endpoint m Chat = supports_chat m"
| "type_supports_endpoint m Completions = supports_completions m"
| "type_supports_endpoint m Responses = supports_responses m"
| "type_supports_endpoint m Embeddings = supports_embeddings m"
| "type_supports_endpoint m Rerank = supports_rerank m"
| "type_supports_endpoint m Generate = supports_generate m"
| "type_supports_endpoint m Models = True"

definition as_capability_names :: "model_type \<Rightarrow> string list" where
  "as_capability_names m =
     foldl (\<lambda>result (flag, name). if contains_flag m flag then result @ [name] else result) [] CAPABILITY_NAMES"

definition is_llm where "is_llm m \<longleftrightarrow> supports_chat m"
definition is_embedding_model where "is_embedding_model m \<longleftrightarrow> supports_embeddings m \<and> \<not> supports_chat m"
definition is_reranker where "is_reranker m \<longleftrightarrow> supports_rerank m \<and> \<not> supports_chat m"
definition is_image_model where "is_image_model m \<longleftrightarrow> supports_image_gen m \<and> \<not> supports_chat m"
definition is_audio_model where "is_audio_model m \<longleftrightarrow> supports_audio m \<and> \<not> supports_chat m"
definition is_moderation_model where "is_moderation_model m \<longleftrightarrow> supports_moderation m \<and> \<not> supports_chat m"

fun join :: "string \<Rightarrow> string list \<Rightarrow> string" where
  "join sep [] = []"
| "join sep [s] = s"
| "join sep (s # ss) = s @ sep @ join sep ss"

definition model_type_display :: "model_type \<Rightarrow> string" where
  "model_type_display m =
     (let names = as_capability_names m in
      if names = [] then ''none'' else join '','' names)"

definition serialize :: "model_type \<Rightarrow> u16" where
  "serialize m = m"

definition deserialize :: "u16 \<Rightarrow> model_type option" where
  "deserialize bits = from_bits bits"

section \<open>Endpoints\<close>

fun endpoint_path :: "endpoint \<Rightarrow> string" where
  "endpoint_path Chat = ''/v1/chat/completions''"
| "endpoint_path Completions = ''/v1/completions''"
| "endpoint_path Responses = ''/v1/responses''"
| "endpoint_path Embeddings = ''/v1/embeddings''"
| "endpoint_path Rerank = ''/v1/rerank''"
| "endpoint_path Generate = ''/generate''"
| "endpoint_path Models = ''/v1/models''"

definition trim_end_matches :: "char \<Rightarrow> string \<Rightarrow> string" where
  "trim_end_matches c s = rev (dropWhile (\<lambda>d. d = c) (rev s))"

definition from_path :: "string \<Rightarrow> endpoint option" where
  "from_path path =
     (let path = trim_end_matches (CHR ''/'') path in
      if path = ''/v1/chat/completions'' then Some Chat
      else if path = ''/v1/completions'' then Some Completions
      else if path = ''/v1/responses'' then Some Responses
      else if path = ''/v1/embeddings'' then Some Embeddings
      else if path = ''/v1/rerank'' then Some Rerank
      else if path = ''/generate'' then Some Generate
      else if path = ''/v1/models'' then Some Models
      else None)"

fun required_capability :: "endpoint \<Rightarrow> model_type option" where
  "required_capability Chat = Some CHAT"
| "required_capability Completions = Some COMPLETIONS"
| "required_capability Responses = Some RESPONSES"
| "required_capability Embeddings = Some EMBEDDINGS"
| "required_capability Rerank = Some RERANK"
| "required_capability Generate = Some GENERATE"
| "required_capability Models = None"

fun endpoint_display :: "endpoint \<Rightarrow> string" where
  "endpoint_display Chat = ''chat''"
| "endpoint_display Completions = ''completions''"
| "endpoint_display Responses = ''responses''"
| "endpoint_display Embeddings = ''embeddings''"
| "endpoint_display Rerank = ''rerank''"
| "endpoint_display Generate = ''generate''"
| "endpoint_display Models = ''models''"

section \<open>Model cards\<close>

datatype provider_type = OpenAI | XAI | Anthropic | Gemini | Custom string

fun provider_as_str :: "provider_type \<Rightarrow> string" where
  "provider_as_str OpenAI = ''openai''"
| "provider_as_str XAI = ''xai''"
| "provider_as_str Anthropic = ''anthropic''"
| "provider_as_str Gemini = ''gemini''"
| "provider_as_str (Custom s) = s"

datatype json = JNull | JBool bool | JNumber int | JString string | JArray "json list"
  | JObject "(string \<times> json) list"

record model_card =
  mc_id :: string
  display_name :: "string option"
  aliases :: "string list"
  mc_model_type :: model_type
  hf_model_type :: "string option"
  architectures :: "string list"
  provider :: "provider_type option"
  context_length :: "u32 option"
  mc_tokenizer_path :: "string option"
  mc_chat_template :: "string option"
  mc_reasoning_parser :: "string option"
  mc_tool_parser :: "string option"
  mc_metadata :: "json option"
  mc_id2label :: "(u32 \<times> string) list"
  mc_num_labels :: u32

text \<open>The constant \<open>UNKNOWN_MODEL_ID\<close> comes from the protocol crate: it is an argument \<open>unknown_id\<close>.\<close>

definition model_card_new :: "string \<Rightarrow> model_card" where
  "model_card_new model_id =
     \<lparr> mc_id = model_id, display_name = None, aliases = [], mc_model_type = LLM, hf_model_type = None,
       architectures = [], provider = None, context_length = None, mc_tokenizer_path = None,
       mc_chat_template = None, mc_reasoning_parser = None, mc_tool_parser = None,
       mc_metadata = None, mc_id2label = [], mc_num_labels = 0 \<rparr>"

definition with_display_name where "with_display_name name c = c\<lparr> display_name := Some name \<rparr>"
definition with_alias where "with_alias alias c = c\<lparr> aliases := aliases c @ [alias] \<rparr>"
definition with_aliases where "with_aliases as c = c\<lparr> aliases := aliases c @ as \<rparr>"
definition with_model_type where "with_model_type m c = c\<lparr> mc_model_type := m \<rparr>"
definition with_hf_model_type where "with_hf_model_type h c = c\<lparr> hf_model_type := Some h \<rparr>"
definition with_architectures where "with_architectures a c = c\<lparr> architectures := a \<rparr>"
definition with_provider where "with_provider p c = c\<lparr> provider := Some p \<rparr>"
definition with_context_length where "with_context_length l c = c\<lparr> context_length := Some l \<rparr>"
definition with_tokenizer_path where "with_tokenizer_path p c = c\<lparr> mc_tokenizer_path := Some p \<rparr>"
definition with_chat_template where "with_chat_template t c = c\<lparr> mc_chat_template := Some t \<rparr>"
definition with_reasoning_parser where "with_reasoning_parser p c = c\<lparr> mc_reasoning_parser := Some p \<rparr>"
definition with_tool_parser where "with_tool_parser p c = c\<lparr> mc_tool_parser := Some p \<rparr>"
definition with_metadata where "with_metadata j c = c\<lparr> mc_metadata := Some j \<rparr>"
definition with_id2label where
  "with_id2label m c = c\<lparr> mc_num_labels := of_nat (length m), mc_id2label := m \<rparr>"
definition with_num_labels where "with_num_labels n c = c\<lparr> mc_num_labels := n \<rparr>"

definition card_matches :: "model_card \<Rightarrow> string \<Rightarrow> bool" where
  "card_matches c model_id \<longleftrightarrow> mc_id c = model_id \<or> list_ex (\<lambda>a. a = model_id) (aliases c)"

definition card_supports_endpoint :: "model_card \<Rightarrow> endpoint \<Rightarrow> bool" where
  "card_supports_endpoint c e = type_supports_endpoint (mc_model_type c) e"

definition card_name :: "model_card \<Rightarrow> string" where
  "card_name c = (case display_name c of Some n \<Rightarrow> n | None \<Rightarrow> mc_id c)"

definition is_native :: "model_card \<Rightarrow> bool" where "is_native c \<longleftrightarrow> provider c = None"
definition has_external_provider :: "model_card \<Rightarrow> bool" where "has_external_provider c \<longleftrightarrow> provider c \<noteq> None"

definition card_is_classifier :: "model_card \<Rightarrow> bool" where "card_is_classifier c \<longleftrightarrow> 0 < mc_num_labels c"

text \<open>Decimal printing, as \<open>format!\<close> does it.\<close>

fun show_nat :: "nat \<Rightarrow> string" where
  "show_nat n = (if n < 10 then [char_of (48 + n)] else show_nat (n div 10) @ [char_of (48 + n mod 10)])"

declare show_nat.simps [simp del]

definition generic_label :: "u32 \<Rightarrow> string" where
  "generic_label class_idx = ''LABEL_'' @ show_nat (unat class_idx)"

definition card_get_label :: "model_card \<Rightarrow> u32 \<Rightarrow> string" where
  "card_get_label c class_idx =
     (case map_get (mc_id2label c) class_idx of Some l \<Rightarrow> l | None \<Rightarrow> generic_label class_idx)"

definition model_card_default :: "string \<Rightarrow> model_card" where
  "model_card_default unknown_id = model_card_new unknown_id"

section \<open>Properties\<close>

lemma trim_end_matches_spec: "\<exists>n. s = trim_end_matches c s @ replicate n c"
proof -
  let ?r = "rev s"
  have "takeWhile (\<lambda>d. d = c) ?r = replicate (length (takeWhile (\<lambda>d. d = c) ?r)) c"
    by (rule replicate_length_same [symmetric]) (auto dest: set_takeWhileD)
  then have "?r = replicate (length (takeWhile (\<lambda>d. d = c) ?r)) c @ dropWhile (\<lambda>d. d = c) ?r"
    by (metis takeWhile_dropWhile_id)
  then have "s = rev (dropWhile (\<lambda>d. d = c) ?r) @ replicate (length (takeWhile (\<lambda>d. d = c) ?r)) c"
    by (metis rev_append rev_replicate rev_rev_ident)
  then show ?thesis unfolding trim_end_matches_def by blast
qed

lemma trim_end_matches_append: "s \<noteq> [] \<Longrightarrow> last s \<noteq> c \<Longrightarrow> trim_end_matches c (s @ replicate n c) = s"
  by (cases s rule: rev_cases) (auto simp: trim_end_matches_def dropWhile_append)

text \<open>
  Endpoint paths parse back: a path is read as an endpoint exactly when it is that endpoint's
  path followed by any number of slashes.
\<close>

theorem endpoint_path_roundtrip:
  "from_path path = Some e \<longleftrightarrow> (\<exists>n. path = endpoint_path e @ replicate n (CHR ''/''))"
proof
  assume "from_path path = Some e"
  then have "trim_end_matches (CHR ''/'') path = endpoint_path e"
    by (auto simp: from_path_def Let_def split: if_splits)
  then show "\<exists>n. path = endpoint_path e @ replicate n (CHR ''/'')"
    using trim_end_matches_spec [of path "CHR ''/''"] by simp
next
  assume "\<exists>n. path = endpoint_path e @ replicate n (CHR ''/'')"
  then have "trim_end_matches (CHR ''/'') path = endpoint_path e"
    using trim_end_matches_append [of "endpoint_path e" "CHR ''/''"] by (cases e) auto
  then show "from_path path = Some e" by (cases e) (simp_all add: from_path_def Let_def)
qed

lemma contains_flag_bit:
  assumes n: "n < 16"
  shows "contains_flag m (push_bit n 1) \<longleftrightarrow> bit m n"
proof -
  have at: "bit (push_bit n (1 :: model_type)) k \<longleftrightarrow> k = n" if "k < 16" for k
    using that n by (simp add: bit_exp_iff)
  show ?thesis
  proof
    assume "contains_flag m (push_bit n 1)"
    then have "bit (m AND push_bit n 1) n = bit (push_bit n (1 :: model_type)) n"
      by (simp only: contains_flag_def)
    then show "bit m n" using at [OF n] by (simp add: bit_and_iff)
  next
    assume "bit m n"
    then show "contains_flag m (push_bit n 1)"
      unfolding contains_flag_def using at by (intro bit_word_eqI) (auto simp: bit_and_iff)
  qed
qed

lemmas supports_defs = supports_chat_def supports_completions_def supports_responses_def
  supports_embeddings_def supports_rerank_def supports_generate_def supports_vision_def
  supports_tools_def supports_reasoning_def supports_image_gen_def supports_audio_def supports_moderation_def

text \<open>
  A model type supports an endpoint exactly when it has the capability that the endpoint
  requires, and every kind of language model supports the chat, completions and responses
  endpoints but no embeddings or rerank endpoint.
\<close>

theorem endpoint_capability:
  "(type_supports_endpoint m e \<longleftrightarrow>
      (case required_capability e of None \<Rightarrow> True | Some flag \<Rightarrow> contains_flag m flag)) \<and>
   (m \<in> {LLM, VISION_LLM, REASONING_LLM, FULL_LLM} \<longrightarrow>
      (type_supports_endpoint m e \<longleftrightarrow> e \<in> {Chat, Completions, Responses, Models}))"
proof
  show "type_supports_endpoint m e \<longleftrightarrow>
      (case required_capability e of None \<Rightarrow> True | Some flag \<Rightarrow> contains_flag m flag)"
    by (cases e) (simp_all add: supports_defs)
  show "m \<in> {LLM, VISION_LLM, REASONING_LLM, FULL_LLM} \<longrightarrow>
      (type_supports_endpoint m e \<longleftrightarrow> e \<in> {Chat, Completions, Responses, Models})"
    by (cases e) (auto simp: supports_defs contains_flag_def model_defs flag_defs)
qed

theorem endpoint_capability_witness:
  "type_supports_endpoint VISION_LLM Chat \<and> \<not> type_supports_endpoint VISION_LLM Rerank"
  using endpoint_capability [of VISION_LLM Chat] endpoint_capability [of VISION_LLM Rerank] by blast

lemma all_bits_eq: "all_bits = mask 12"
  by (simp add: all_bits_def CAPABILITY_NAMES_def flag_defs mask_eq_exp_minus_1)

lemma from_bits_iff: "from_bits b = Some m \<longleftrightarrow> m = b \<and> unat b < 2 ^ 12"
proof -
  have "b AND NOT (mask 12) = 0 \<longleftrightarrow> take_bit 12 b = b"
    by (auto simp: bit_eq_iff bit_simps)
  also have "\<dots> \<longleftrightarrow> unat b < 2 ^ 12"
    using unsigned_take_bit_eq [of 12 b, where 'a = nat] take_bit_nat_eq_self_iff [of 12 "unat b"]
      unsigned_word_eqI [of "take_bit 12 b" b, where 'a = nat] by metis
  finally show ?thesis by (auto simp: from_bits_def all_bits_eq)
qed

lemma as_capability_names_eq:
  "as_capability_names m = map snd (filter (\<lambda>e. contains_flag m (fst e)) CAPABILITY_NAMES)"
proof -
  have "foldl (\<lambda>result (flag, name). if contains_flag m flag then result @ [name] else result) acc es =
      acc @ map snd (filter (\<lambda>e. contains_flag m (fst e)) es)" for acc and es :: "(model_type \<times> string) list"
    by (induction es arbitrary: acc) auto
  then show ?thesis by (simp add: as_capability_names_def)
qed

lemma names_distinct: "distinct (map snd CAPABILITY_NAMES)"
  by (simp add: CAPABILITY_NAMES_def)

lemma name_unique: "distinct (map snd xs) \<Longrightarrow> (a, n) \<in> set xs \<Longrightarrow> (b, n) \<in> set xs \<Longrightarrow> a = b"
  by (induction xs) force+

lemma names_contains:
  assumes "(flag, name) \<in> set CAPABILITY_NAMES"
  shows "contains_flag m flag \<longleftrightarrow> name \<in> set (as_capability_names m)"
proof -
  have "name \<in> set (as_capability_names m) \<longleftrightarrow> (\<exists>flag'. (flag', name) \<in> set CAPABILITY_NAMES \<and> contains_flag m flag')"
    unfolding as_capability_names_eq by force
  then show ?thesis using assms name_unique [OF names_distinct assms] by blast
qed

lemma flags_by_bit: "n < 12 \<Longrightarrow> \<exists>name. (push_bit n 1, name) \<in> set CAPABILITY_NAMES"
  by (auto simp: CAPABILITY_NAMES_def flag_defs less_Suc_eq numeral_eq_Suc)

text \<open>
  A model type is read back from its serialised bits, and a word is accepted exactly when it
  has no bit beyond the twelve known flags; accepted model types with the same capability names
  are equal.
\<close>

theorem model_type_roundtrip:
  "(deserialize b = Some m \<longleftrightarrow> serialize m = b \<and> unat b < 2 ^ 12) \<and>
   (deserialize b \<noteq> None \<longrightarrow> deserialize b' \<noteq> None \<longrightarrow> as_capability_names b = as_capability_names b' \<longrightarrow> b = b')"
proof (intro conjI impI)
  show "deserialize b = Some m \<longleftrightarrow> serialize m = b \<and> unat b < 2 ^ 12"
    by (auto simp: deserialize_def serialize_def from_bits_iff)
  assume "deserialize b \<noteq> None" "deserialize b' \<noteq> None" and eq: "as_capability_names b = as_capability_names b'"
  then have small: "unat b < 2 ^ 12" "unat b' < 2 ^ 12"
    by (auto simp: deserialize_def from_bits_iff)
  have high: "\<not> bit c n" if "unat c < 2 ^ 12" "12 \<le> n" for c :: u16 and n
    using that bit_imp_le_length [of c n] from_bits_iff [of c c]
    by (fastforce simp: from_bits_def all_bits_eq bit_eq_iff bit_simps split: if_splits)
  have "bit b n = bit b' n" if "n < 12" for n
    using flags_by_bit [OF that] names_contains [of "push_bit n 1" _ b] names_contains [of "push_bit n 1" _ b']
      contains_flag_bit [of n] that eq by auto
  then show "b = b'" using high small by (intro bit_word_eqI) (metis not_less)
qed

theorem model_type_roundtrip_witness:
  "deserialize 4096 = None \<and> deserialize (serialize 151) = Some 151"
proof -
  have "deserialize 4096 \<noteq> Some m" for m using model_type_roundtrip [of 4096 m 0] by simp
  then show ?thesis using model_type_roundtrip [of 151 151 0] by (auto simp: serialize_def)
qed

end
