(* ===== verification/Header_Utils.thy ===== *)
theory Header_Utils
  imports Rust_Str
begin

text \<open>
  Header handling, \<open>src/gateway/src/routers/header_utils.rs\<close>: the routing keys, the headers that are
  forwarded in either direction, provider specific headers and the authorisation header.

  A header map is the list of its entries in iteration order, with lower-case names as
  \<open>HeaderName\<close> normalises them; a value is its bytes.  \<open>xxh3\<close>, the hash of the content key, is an
  argument.  A request builder is the list of the headers added to it.
\<close>

section \<open>Strings\<close>

definition to_ascii_lower :: "char \<Rightarrow> char" where
  "to_ascii_lower c = (let n = of_char c :: nat in if 65 \<le> n \<and> n \<le> 90 then char_of (n + 32) else c)"

definition eq_ignore_ascii_case :: "string \<Rightarrow> string \<Rightarrow> bool" where
  "eq_ignore_ascii_case a b \<longleftrightarrow> map to_ascii_lower a = map to_ascii_lower b"

definition str_contains :: "string \<Rightarrow> string \<Rightarrow> bool" where
  "str_contains s pat \<longleftrightarrow> list_ex (\<lambda>t. prefix pat t) (suffixes s)"

definition strip_prefix :: "string \<Rightarrow> string \<Rightarrow> string option" where
  "strip_prefix pat s = (if prefix pat s then Some (drop (length pat) s) else None)"

definition is_whitespace :: "nat \<Rightarrow> bool" where
  "is_whitespace c \<longleftrightarrow>
     (9 \<le> c \<and> c \<le> 13) \<or> c = 32 \<or> c = 133 \<or> c = 160 \<or> c = 5760 \<or> (8192 \<le> c \<and> c \<le> 8202) \<or>
     c = 8232 \<or> c = 8233 \<or> c = 8239 \<or> c = 8287 \<or> c = 12288"

definition trim :: "ustr \<Rightarrow> ustr" where
  "trim s = rev (dropWhile is_whitespace (rev (dropWhile is_whitespace s)))"

definition hex_digit :: "nat \<Rightarrow> char" where
  "hex_digit d = char_of (if d < 10 then 48 + d else 87 + d)"

fun show_hex :: "nat \<Rightarrow> string" where
  "show_hex n = (if n < 16 then [hex_digit n] else show_hex (n div 16) @ [hex_digit (n mod 16)])"

declare show_hex.simps [simp del]

section \<open>Header maps\<close>

type_synonym header_map = "(string \<times> string) list"

text \<open>A value is text when it has visible ASCII characters and tabs only.\<close>

definition to_str :: "string \<Rightarrow> string option" where
  "to_str v = (if list_all (\<lambda>c. let n = of_char c :: nat in (32 \<le> n \<and> n < 127) \<or> n = 9) v then Some v else None)"

definition header_get :: "header_map \<Rightarrow> string \<Rightarrow> string option" where
  "header_get h name = map_get h (map to_ascii_lower name)"

text \<open>\<open>insert\<close> replaces the value under the name, and drops further values under it.\<close>

fun header_insert :: "header_map \<Rightarrow> string \<Rightarrow> string \<Rightarrow> header_map" where
  "header_insert [] name v = [(name, v)]"
| "header_insert (e # h) name v =
     (if fst e = name then (name, v) # map_remove name h else e # header_insert h name v)"

definition HEADER_TARGET_WORKER :: string where "HEADER_TARGET_WORKER = ''x-smg-target-worker''"
definition HEADER_ROUTING_KEY :: string where "HEADER_ROUTING_KEY = ''x-smg-routing-key''"
definition HEADER_CC_SESSION_ID :: string where "HEADER_CC_SESSION_ID = ''x-claude-code-session-id''"
definition CONTENT_KEY_WINDOW :: nat where "CONTENT_KEY_WINDOW = 8192"

definition extract_header_value :: "header_map option \<Rightarrow> string \<Rightarrow> string option" where
  "extract_header_value headers name =
     do {
       h \<leftarrow> headers;
       v \<leftarrow> header_get h name;
       s \<leftarrow> to_str v;
       if s \<noteq> [] then Some s else None
     }"

definition extract_target_worker :: "header_map option \<Rightarrow> string option" where
  "extract_target_worker headers = extract_header_value headers HEADER_TARGET_WORKER"

definition or_else :: "'a option \<Rightarrow> 'a option \<Rightarrow> 'a option" where
  "or_else a b = (case a of Some x \<Rightarrow> Some x | None \<Rightarrow> b)"

definition extract_routing_key :: "header_map option \<Rightarrow> string option" where
  "extract_routing_key headers =
     or_else (extract_header_value headers HEADER_ROUTING_KEY)
             (extract_header_value headers HEADER_CC_SESSION_ID)"

definition content_window :: "ustr \<Rightarrow> ustr" where
  "content_window request_text = take CONTENT_KEY_WINDOW (trim request_text)"

definition synthesize_content_key :: "(nat list \<Rightarrow> u64) \<Rightarrow> ustr option \<Rightarrow> string option" where
  "synthesize_content_key xxh3 request_text =
     do {
       r \<leftarrow> request_text;
       if trim r = [] then None
       else Some (''c:'' @ show_hex (unat (xxh3 (as_bytes (content_window r)))))
     }"

definition resolve_routing_key :: "(nat list \<Rightarrow> u64) \<Rightarrow> header_map option \<Rightarrow> ustr option \<Rightarrow> string option" where
  "resolve_routing_key xxh3 headers request_text =
     or_else (extract_routing_key headers) (synthesize_content_key xxh3 request_text)"

section \<open>Forwarded headers\<close>

definition copy_request_headers :: "header_map \<Rightarrow> (string \<times> string) list" where
  "copy_request_headers h =
     List.map_filter (\<lambda>(name, v). map_option (\<lambda>s. (name, s)) (to_str v)) h"

definition should_forward_header_no_alloc :: "string \<Rightarrow> bool" where
  "should_forward_header_no_alloc name \<longleftrightarrow>
     \<not> (eq_ignore_ascii_case name ''connection'' \<or> eq_ignore_ascii_case name ''keep-alive'' \<or>
        eq_ignore_ascii_case name ''proxy-authenticate'' \<or> eq_ignore_ascii_case name ''proxy-authorization'' \<or>
        eq_ignore_ascii_case name ''te'' \<or> eq_ignore_ascii_case name ''trailers'' \<or>
        eq_ignore_ascii_case name ''transfer-encoding'' \<or> eq_ignore_ascii_case name ''upgrade'' \<or>
        eq_ignore_ascii_case name ''content-encoding'' \<or> eq_ignore_ascii_case name ''host'')"

definition preserve_response_headers :: "header_map \<Rightarrow> header_map" where
  "preserve_response_headers reqwest_headers =
     foldl (\<lambda>headers (name, v).
         if should_forward_header_no_alloc name then header_insert headers name v else headers)
       [] reqwest_headers"

definition skip_request_header :: "bool \<Rightarrow> string \<Rightarrow> bool" where
  "skip_request_header skip_content_headers key \<longleftrightarrow>
     eq_ignore_ascii_case key ''authorization'' \<or> eq_ignore_ascii_case key ''host'' \<or>
     eq_ignore_ascii_case key ''connection'' \<or> eq_ignore_ascii_case key ''transfer-encoding'' \<or>
     eq_ignore_ascii_case key ''keep-alive'' \<or> eq_ignore_ascii_case key ''te'' \<or>
     eq_ignore_ascii_case key ''trailers'' \<or> eq_ignore_ascii_case key ''accept-encoding'' \<or>
     eq_ignore_ascii_case key ''upgrade'' \<or>
     (skip_content_headers \<and>
       (eq_ignore_ascii_case key ''content-type'' \<or> eq_ignore_ascii_case key ''content-length''))"

definition apply_request_headers :: "header_map \<Rightarrow> (string \<times> string) list \<Rightarrow> bool \<Rightarrow> (string \<times> string) list" where
  "apply_request_headers headers request_builder skip_content_headers =
     (let rb = (case or_else (header_get headers ''authorization'') (header_get headers ''Authorization'') of
                  Some auth \<Rightarrow> request_builder @ [(''authorization'', auth)]
                | None \<Rightarrow> request_builder) in
      foldl (\<lambda>rb (key, v). if \<not> skip_request_header skip_content_headers key then rb @ [(key, v)] else rb) rb headers)"

datatype api_provider = Anthropic | Xai | OpenAi | Gemini | Generic

definition from_url :: "string \<Rightarrow> api_provider" where
  "from_url url =
     (if str_contains url ''anthropic'' then Anthropic
      else if str_contains url ''x.ai'' then Xai
      else if str_contains url ''openai.com'' then OpenAi
      else if str_contains url ''googleapis.com'' then Gemini
      else Generic)"

definition apply_provider_headers :: "(string \<times> string) list \<Rightarrow> string \<Rightarrow> string option \<Rightarrow> (string \<times> string) list" where
  "apply_provider_headers req url auth_header =
     (case from_url url of
        Anthropic \<Rightarrow>
          (case auth_header of
             None \<Rightarrow> req
           | Some auth \<Rightarrow>
               (case to_str auth of
                  None \<Rightarrow> req
                | Some auth_str \<Rightarrow>
                    let api_key = (case strip_prefix ''Bearer '' auth_str of Some k \<Rightarrow> k | None \<Rightarrow> auth_str) in
                    req @ [(''x-api-key'', api_key), (''anthropic-version'', ''2023-06-01'')]))
      | _ \<Rightarrow> (case auth_header of Some auth \<Rightarrow> req @ [(''authorization'', auth)] | None \<Rightarrow> req))"

text \<open>A header value may be any bytes but control characters other than tab.\<close>

definition header_value_from_str :: "string \<Rightarrow> string option" where
  "header_value_from_str s =
     (if list_all (\<lambda>c. let n = of_char c :: nat in (32 \<le> n \<and> n \<noteq> 127) \<or> n = 9) s then Some s else None)"

definition extract_auth_header :: "header_map option \<Rightarrow> string option \<Rightarrow> string option" where
  "extract_auth_header headers worker_api_key =
     or_else
       (do { h \<leftarrow> headers; or_else (header_get h ''authorization'') (header_get h ''Authorization'') })
       (do { k \<leftarrow> worker_api_key; header_value_from_str (''Bearer '' @ k) })"

definition REQUEST_ID_PREFIX :: string where "REQUEST_ID_PREFIX = ''x-request-id-''"

definition should_forward_request_header :: "string \<Rightarrow> bool" where
  "should_forward_request_header name \<longleftrightarrow>
     eq_ignore_ascii_case name ''authorization'' \<or> eq_ignore_ascii_case name ''x-request-id'' \<or>
     eq_ignore_ascii_case name ''x-correlation-id'' \<or> eq_ignore_ascii_case name ''traceparent'' \<or>
     eq_ignore_ascii_case name ''tracestate'' \<or> eq_ignore_ascii_case name ''x-smg-routing-key'' \<or>
     (length REQUEST_ID_PREFIX \<le> length name \<and>
      eq_ignore_ascii_case (take (length REQUEST_ID_PREFIX) name) REQUEST_ID_PREFIX)"

section \<open>The routing key\<close>

lemma dropWhile_append_first: "dropWhile P s \<noteq> [] \<Longrightarrow> dropWhile P (s @ r) = dropWhile P s @ r"
  by (induction s) auto

definition trim_end :: "ustr \<Rightarrow> ustr" where
  "trim_end s = rev (dropWhile is_whitespace (rev s))"

lemma trim_end_prefix: "prefix (trim_end s) s"
proof -
  have "rev s = takeWhile is_whitespace (rev s) @ dropWhile is_whitespace (rev s)" by simp
  then have "s = trim_end s @ rev (takeWhile is_whitespace (rev s))"
    unfolding trim_end_def by (metis rev_append rev_rev_ident)
  then show ?thesis by (metis prefixI)
qed

lemma trim_end_append: "prefix (trim_end s) (trim_end (s @ r))"
proof (cases "dropWhile is_whitespace (rev r) = []")
  case True
  then have "trim_end (s @ r) = trim_end s" by (simp add: trim_end_def dropWhile_append)
  then show ?thesis by simp
next
  case False
  then have "trim_end (s @ r) = s @ trim_end r"
    using dropWhile_append_first [OF False] by (simp add: trim_end_def)
  then show ?thesis using trim_end_prefix [of s] by (simp add: prefix_prefix)
qed

lemma trim_prefix_append:
  assumes "trim s \<noteq> []"
  shows "prefix (trim s) (trim (s @ r))"
proof -
  have "dropWhile is_whitespace s \<noteq> []" using assms unfolding trim_def by (metis dropWhile.simps(1) rev.simps(1))
  then have "trim (s @ r) = trim_end (dropWhile is_whitespace s @ r)"
    by (simp add: trim_def trim_end_def dropWhile_append_first)
  then show ?thesis using trim_end_append by (simp add: trim_def trim_end_def)
qed

lemma content_window_append:
  assumes "CONTENT_KEY_WINDOW \<le> length (trim s)"
  shows "content_window (s @ r) = content_window s" and "trim (s @ r) \<noteq> []" and "trim s \<noteq> []"
proof -
  have ne: "trim s \<noteq> []" using assms by (auto simp: CONTENT_KEY_WINDOW_def)
  then obtain q where q: "trim (s @ r) = trim s @ q" using trim_prefix_append by (auto simp: prefix_def)
  then show "content_window (s @ r) = content_window s" "trim (s @ r) \<noteq> []" "trim s \<noteq> []"
    using assms ne by (simp_all add: content_window_def)
qed

text \<open>
  C25: the routing key comes from the explicit header when that is usable, else from the session
  header, else from the content; and once a conversation fills the window of the content key, the
  key stays the same for every continuation of the text.
\<close>

theorem routing_key_ladder:
  "resolve_routing_key xxh3 headers request_text =
     (case extract_header_value headers HEADER_ROUTING_KEY of
        Some k \<Rightarrow> Some k
      | None \<Rightarrow> (case extract_header_value headers HEADER_CC_SESSION_ID of
          Some k \<Rightarrow> Some k
        | None \<Rightarrow> synthesize_content_key xxh3 request_text)) \<and>
   (CONTENT_KEY_WINDOW \<le> length (trim s) \<longrightarrow>
      synthesize_content_key xxh3 (Some (s @ more)) = synthesize_content_key xxh3 (Some s))"
  using content_window_append(1,2) [of s more] content_window_append(3) [of s]
  by (auto simp: resolve_routing_key_def extract_routing_key_def or_else_def synthesize_content_key_def
    split: option.splits)

theorem routing_key_ladder_witness:
  "resolve_routing_key (\<lambda>b. 0) (Some [(''x-smg-routing-key'', ''k1'')]) None = Some ''k1'' \<and>
   (CONTENT_KEY_WINDOW \<le> length (trim (replicate 8192 97)) \<and>
    synthesize_content_key (\<lambda>b. 0) (Some (replicate 8192 97 @ [98])) =
      synthesize_content_key (\<lambda>b. 0) (Some (replicate 8192 97)))"
proof -
  have "trim (replicate 8192 97) = replicate 8192 97"
    by (simp add: trim_def is_whitespace_def dropWhile_eq_self_iff)
  then have len: "CONTENT_KEY_WINDOW \<le> length (trim (replicate 8192 97))"
    by (simp add: CONTENT_KEY_WINDOW_def)
  have "extract_header_value (Some [(''x-smg-routing-key'', ''k1'')]) HEADER_ROUTING_KEY = Some ''k1''"
    by code_simp
  then show ?thesis
    using routing_key_ladder [of "\<lambda>b. 0" "Some [(''x-smg-routing-key'', ''k1'')]" None "replicate 8192 97" "[98]"] len
    by simp
qed

text \<open>
  Below the window the content key follows the growing text: a non-space character appended to a
  shorter text changes the bytes that are hashed.
\<close>

lemma content_window_grows:
  assumes "trim s \<noteq> []" "\<not> is_whitespace c" "length s < CONTENT_KEY_WINDOW"
  shows "content_window (s @ [c]) \<noteq> content_window s"
proof -
  have "dropWhile is_whitespace s \<noteq> []" using assms(1) unfolding trim_def by (metis dropWhile.simps(1) rev.simps(1))
  then have t: "trim (s @ [c]) = dropWhile is_whitespace s @ [c]"
    using assms(2) by (simp add: trim_def dropWhile_append_first)
  have "length (trim s) \<le> length (dropWhile is_whitespace s)"
    using prefix_length_le [OF trim_end_prefix, of "dropWhile is_whitespace s"] by (simp add: trim_def trim_end_def)
  moreover have "length (dropWhile is_whitespace s) \<le> length s" by (rule length_dropWhile_le)
  ultimately have "length (content_window s) < length (content_window (s @ [c]))"
    using assms(3) t by (simp add: content_window_def)
  then show ?thesis by auto
qed

section \<open>What is forwarded\<close>

lemma header_insert_get: "map_get (header_insert h name v) n = (if n = name then Some v else map_get h n)"
  by (induction h) auto

lemma header_insert_wf: "map_wf h \<Longrightarrow> map_wf (header_insert h name v)"
proof (induction h)
  case (Cons e h)
  have keys: "fst ` set (header_insert h name v) \<subseteq> insert name (fst ` set h)"
    by (induction h) (auto simp: map_remove_def)
  show ?case
    using Cons keys map_wf_remove [of h name] by (auto simp: map_wf_def map_remove_def)
qed (simp add: map_wf_def)

definition last_value :: "header_map \<Rightarrow> string \<Rightarrow> string option" where
  "last_value h name = map_get (rev h) name"

text \<open>
  Of the headers of a backend response exactly those that are not hop-by-hop (compared without
  case) are passed on, each name once and with the last of its values.
\<close>

theorem response_headers_forwarded:
  "map_wf (preserve_response_headers h) \<and>
   map_get (preserve_response_headers h) name =
     (if should_forward_header_no_alloc name then last_value h name else None)"
proof -
  have "map_wf acc \<Longrightarrow>
    map_wf (foldl (\<lambda>headers (name, v).
      if should_forward_header_no_alloc name then header_insert headers name v else headers) acc h) \<and>
    map_get (foldl (\<lambda>headers (name, v).
      if should_forward_header_no_alloc name then header_insert headers name v else headers) acc h) name =
    (case (if should_forward_header_no_alloc name then last_value h name else None) of
       Some v \<Rightarrow> Some v | None \<Rightarrow> map_get acc name)" for acc
  proof (induction h arbitrary: acc)
    case (Cons e h)
    then show ?case
      by (cases e) (auto simp: last_value_def map_get_append header_insert_get header_insert_wf split: option.splits)
  qed (simp add: last_value_def)
  from this [of "[]"] show ?thesis
    by (simp add: preserve_response_headers_def split: option.splits)
qed

lemma header_get_auth:
  "header_get h ''authorization'' = map_get h ''authorization''"
  "header_get h ''Authorization'' = map_get h ''authorization''"
proof -
  have lower: "map to_ascii_lower ''authorization'' = ''authorization''"
      "map to_ascii_lower ''Authorization'' = ''authorization''" by code_simp+
  show "header_get h ''authorization'' = map_get h ''authorization''"
    "header_get h ''Authorization'' = map_get h ''authorization''"
    unfolding header_get_def lower by (rule refl)+
qed

text \<open>
  A forwarded request gets the first authorisation header of the client, then the client's
  other headers in order without those the proxy must not pass on; no hop-by-hop header and at
  most one authorisation header are added.
\<close>

theorem request_headers_forwarded:
  "apply_request_headers h rb skip =
     rb @ (case map_get h ''authorization'' of Some a \<Rightarrow> [(''authorization'', a)] | None \<Rightarrow> []) @
     filter (\<lambda>e. \<not> skip_request_header skip (fst e)) h"
proof -
  have "foldl (\<lambda>rb (key, v). if \<not> skip_request_header skip key then rb @ [(key, v)] else rb) acc h =
      acc @ filter (\<lambda>e. \<not> skip_request_header skip (fst e)) h" for acc
    by (induction h arbitrary: acc) auto
  then show ?thesis
    by (simp add: apply_request_headers_def header_get_auth or_else_def split: option.splits)
qed

text \<open>
  The authorisation of a request is the client's own when it sends one, and otherwise the
  bearer token of the worker's key when that key is a legal header value; nothing else is used.
\<close>

theorem auth_passthrough:
  "extract_auth_header (Some h) key =
     (case map_get h ''authorization'' of
        Some a \<Rightarrow> Some a
      | None \<Rightarrow> Option.bind key (\<lambda>k. header_value_from_str (''Bearer '' @ k))) \<and>
   extract_auth_header None key = Option.bind key (\<lambda>k. header_value_from_str (''Bearer '' @ k))"
  by (auto simp: extract_auth_header_def header_get_auth or_else_def split: option.splits)

end
