(* ===== verification/Worker.thy ===== *)
theory Worker
  imports Circuit_Breaker Model_Card Header_Utils
begin

text \<open>
  Workers, \<open>src/gateway/src/core/worker.rs\<close> with the builders of \<open>worker_builder.rs\<close>: the data, the
  load counters and routing keys, the health state machine, the availability check, data-parallel
  workers and the load guard.

  A worker is a value with the atomics as fields; a method that changes one returns the worker.
  The load counter is a 64-bit word.  A health check takes the outcome of the probe (the network
  is not modelled); the URL parser is an argument, as is the host name of the protocol crate's
  unknown model.  Costs (floating-point labels), the gRPC client and the body wrapper are not
  modelled.
\<close>

section \<open>Data\<close>

datatype worker_error =
    HealthCheckFailed string string
  | WorkerNotFound string
  | InvalidConfiguration string
  | NetworkError string string
  | WorkerAtCapacity string
  | InvalidUrl string
  | ConnectionFailed string string

datatype connection_mode = Http | Grpc "u16 option"

fun mode_matches :: "connection_mode \<Rightarrow> connection_mode \<Rightarrow> bool" where
  "mode_matches Http Http = True"
| "mode_matches (Grpc p1) (Grpc None) = True"
| "mode_matches (Grpc p1) (Grpc p2) = (p1 = p2)"
| "mode_matches _ _ = False"

fun mode_display :: "connection_mode \<Rightarrow> string" where
  "mode_display Http = ''HTTP''"
| "mode_display (Grpc (Some p)) = ''gRPC(port:'' @ show_nat (unat p) @ '')''"
| "mode_display (Grpc None) = ''gRPC''"

datatype runtime_type = Sglang | Vllm | External

fun runtime_display :: "runtime_type \<Rightarrow> string" where
  "runtime_display Sglang = ''sglang''"
| "runtime_display Vllm = ''vllm''"
| "runtime_display External = ''external''"

definition runtime_from_str :: "string \<Rightarrow> string + runtime_type" where
  "runtime_from_str s =
     (if eq_ignore_ascii_case s ''sglang'' then Inr Sglang
      else if eq_ignore_ascii_case s ''vllm'' then Inr Vllm
      else if eq_ignore_ascii_case s ''external'' then Inr External
      else Inl (''Unknown runtime type: '' @ s))"

datatype worker_type = Regular | Prefill "u16 option" | Decode

fun worker_type_display :: "worker_type \<Rightarrow> string" where
  "worker_type_display Regular = ''Regular''"
| "worker_type_display (Prefill (Some port)) = ''Prefill(bootstrap:'' @ show_nat (unat port) @ '')''"
| "worker_type_display (Prefill None) = ''Prefill''"
| "worker_type_display Decode = ''Decode''"

record health_config =
  timeout_secs :: u64
  check_interval_secs :: u64
  hc_endpoint :: string
  hc_failure_threshold :: u32
  hc_success_threshold :: u32
  disable_health_check :: bool

definition health_config_default :: health_config where
  "health_config_default =
     \<lparr> timeout_secs = 5, check_interval_secs = 30, hc_endpoint = ''/health'',
       hc_failure_threshold = 3, hc_success_threshold = 2, disable_health_check = False \<rparr>"

record worker_metadata =
  wm_url :: string
  wm_worker_type :: worker_type
  wm_connection_mode :: connection_mode
  wm_runtime_type :: runtime_type
  labels :: "(string \<times> string) list"
  wm_health_config :: health_config
  wm_api_key :: "string option"
  wm_bootstrap_host :: string
  wm_bootstrap_port :: "u16 option"
  wm_models :: "model_card list"
  wm_default_provider :: "provider_type option"
  default_model_type :: model_type

definition find_model :: "worker_metadata \<Rightarrow> string \<Rightarrow> model_card option" where
  "find_model md model_id = List.find (\<lambda>m. card_matches m model_id) (wm_models md)"

definition md_supports_model :: "worker_metadata \<Rightarrow> string \<Rightarrow> bool" where
  "md_supports_model md model_id \<longleftrightarrow> wm_models md = [] \<or> find_model md model_id \<noteq> None"

definition md_supports_endpoint :: "worker_metadata \<Rightarrow> string \<Rightarrow> endpoint \<Rightarrow> bool" where
  "md_supports_endpoint md model_id e =
     (case find_model md model_id of
        Some model \<Rightarrow> card_supports_endpoint model e
      | None \<Rightarrow> type_supports_endpoint (default_model_type md) e)"

definition md_provider_for_model :: "worker_metadata \<Rightarrow> string \<Rightarrow> provider_type option" where
  "md_provider_for_model md model_id =
     or_else (Option.bind (find_model md model_id) provider) (wm_default_provider md)"

definition model_ids :: "worker_metadata \<Rightarrow> string list" where
  "model_ids md = map mc_id (wm_models md)"

section \<open>Routing keys in use\<close>

record worker_routing_key_load =
  rk_url :: string
  active_routing_keys :: "(string \<times> nat) list"

definition routing_key_load_new :: "string \<Rightarrow> worker_routing_key_load" where
  "routing_key_load_new url = \<lparr> rk_url = url, active_routing_keys = [] \<rparr>"

definition rk_value :: "worker_routing_key_load \<Rightarrow> nat" where
  "rk_value l = length (active_routing_keys l)"

definition rk_increment :: "string \<Rightarrow> worker_routing_key_load \<Rightarrow> worker_routing_key_load" where
  "rk_increment key l =
     l\<lparr> active_routing_keys := map_modify_or_insert key (\<lambda>n. n + 1) 1 (active_routing_keys l) \<rparr>"

definition rk_decrement :: "string \<Rightarrow> worker_routing_key_load \<Rightarrow> worker_routing_key_load" where
  "rk_decrement key l =
     (case map_get (active_routing_keys l) key of
        Some counter \<Rightarrow>
          if 0 < counter then
            (if counter - 1 = 0
             then l\<lparr> active_routing_keys := map_remove key (active_routing_keys l) \<rparr>
             else l\<lparr> active_routing_keys := map_and_modify key (\<lambda>n. n - 1) (active_routing_keys l) \<rparr>)
          else l
      | None \<Rightarrow> l)"

section \<open>Basic workers\<close>

record basic_worker =
  bw_metadata :: worker_metadata
  load_counter :: usize
  bw_routing_key_load :: worker_routing_key_load
  processed_counter :: usize
  bw_healthy :: bool
  consecutive_failures :: usize
  consecutive_successes :: usize
  bw_circuit_breaker :: circuit_breaker
  models_override :: "model_card list option"

text \<open>\<open>str::parse::<usize>\<close>: an optional plus sign, digits, and no overflow.\<close>

definition digit_value :: "char \<Rightarrow> nat option" where
  "digit_value c = (let n = of_char c :: nat in if 48 \<le> n \<and> n \<le> 57 then Some (n - 48) else None)"

fun parse_digits :: "nat \<Rightarrow> string \<Rightarrow> nat option" where
  "parse_digits acc [] = Some acc"
| "parse_digits acc (c # s) =
     (case digit_value c of
        None \<Rightarrow> None
      | Some d \<Rightarrow> if acc * 10 + d < 2 ^ 64 then parse_digits (acc * 10 + d) s else None)"

definition parse_usize :: "string \<Rightarrow> nat option" where
  "parse_usize s =
     (let digits = (case s of c # r \<Rightarrow> if c = CHR ''+'' then r else s | [] \<Rightarrow> []) in
      if digits = [] then None else parse_digits 0 digits)"

text \<open>\<open>rsplit_once\<close>: before and after the last occurrence of a character.\<close>

definition rsplit_once :: "char \<Rightarrow> string \<Rightarrow> (string \<times> string) option" where
  "rsplit_once c s =
     (let r = rev s; tl = takeWhile (\<lambda>d. d \<noteq> c) r in
      if tl = r then None else Some (rev (drop (Suc (length tl)) r), rev tl))"

definition normalised_url :: "basic_worker \<Rightarrow> worker_error + string" where
  "normalised_url w =
     (case rsplit_once (CHR ''@'') (wm_url (bw_metadata w)) of
        Some (base_url, rank_str) \<Rightarrow>
          if parse_usize rank_str \<noteq> None then Inr base_url else Inr (wm_url (bw_metadata w))
      | None \<Rightarrow> Inr (wm_url (bw_metadata w)))"

text \<open>
  \<open>url_parse\<close> stands for \<open>url::Url::parse\<close>: \<open>None\<close> an error, otherwise the optional host.
\<close>

definition parse_bootstrap_host_from_url :: "(string \<Rightarrow> string option option) \<Rightarrow> string \<Rightarrow> string" where
  "parse_bootstrap_host_from_url url_parse url =
     (let metadata_url =
        (case rsplit_once (CHR ''@'') url of
           Some (base_url, rank) \<Rightarrow> if parse_usize rank \<noteq> None then base_url else url
         | None \<Rightarrow> url) in
      case url_parse metadata_url of
        Some host \<Rightarrow> (case host of Some h \<Rightarrow> h | None \<Rightarrow> ''localhost'')
      | None \<Rightarrow>
          if \<not> str_contains metadata_url ''://'' then
            (case url_parse (''http://'' @ metadata_url) of
               Some host \<Rightarrow> (case host of Some h \<Rightarrow> h | None \<Rightarrow> ''localhost'')
             | None \<Rightarrow> ''localhost'')
          else ''localhost'')"

definition bw_set_healthy :: "bool \<Rightarrow> basic_worker \<Rightarrow> basic_worker" where
  "bw_set_healthy h w = w\<lparr> bw_healthy := h \<rparr>"

text \<open>\<open>probe\<close> is the outcome of \<open>http_health_check\<close> or \<open>grpc_health_check\<close>.\<close>

definition check_health_async ::
    "worker_error + bool \<Rightarrow> basic_worker \<Rightarrow> (worker_error + unit) \<times> basic_worker" where
  "check_health_async probe w =
     (let cfg = wm_health_config (bw_metadata w) in
      if disable_health_check cfg then
        (Inr (), if \<not> bw_healthy w then bw_set_healthy True w else w)
      else
        (case probe of
           Inl e \<Rightarrow> (Inl e, w)
         | Inr True \<Rightarrow>
             let successes = consecutive_successes w + 1;
                 w = w\<lparr> consecutive_failures := 0, consecutive_successes := successes \<rparr> in
             (Inr (),
              if \<not> bw_healthy w \<and> unat (hc_success_threshold cfg) \<le> unat successes
              then (bw_set_healthy True w)\<lparr> consecutive_successes := 0 \<rparr> else w)
         | Inr False \<Rightarrow>
             let failures = consecutive_failures w + 1;
                 w = w\<lparr> consecutive_successes := 0, consecutive_failures := failures \<rparr> in
             (Inl (HealthCheckFailed (wm_url (bw_metadata w))
                (''Health check failed (consecutive failures: '' @ show_nat (unat failures) @ '')'')),
              if bw_healthy w \<and> unat (hc_failure_threshold cfg) \<le> unat failures
              then (bw_set_healthy False w)\<lparr> consecutive_failures := 0 \<rparr> else w)))"

definition bw_increment_load :: "basic_worker \<Rightarrow> basic_worker" where
  "bw_increment_load w = w\<lparr> load_counter := load_counter w + 1 \<rparr>"

definition bw_decrement_load :: "basic_worker \<Rightarrow> basic_worker" where
  "bw_decrement_load w =
     (if load_counter w = 0 then w else w\<lparr> load_counter := load_counter w - 1 \<rparr>)"

definition bw_reset_load :: "basic_worker \<Rightarrow> basic_worker" where
  "bw_reset_load w = w\<lparr> load_counter := 0 \<rparr>"

definition bw_increment_processed :: "basic_worker \<Rightarrow> basic_worker" where
  "bw_increment_processed w = w\<lparr> processed_counter := processed_counter w + 1 \<rparr>"

definition bw_supports_model :: "basic_worker \<Rightarrow> string \<Rightarrow> bool" where
  "bw_supports_model w model_id =
     (case models_override w of
        Some models \<Rightarrow> list_ex (\<lambda>m. card_matches m model_id) models
      | None \<Rightarrow> md_supports_model (bw_metadata w) model_id)"

definition bw_set_models :: "model_card list \<Rightarrow> basic_worker \<Rightarrow> basic_worker" where
  "bw_set_models models w = w\<lparr> models_override := Some models \<rparr>"

definition bw_has_models_discovered :: "basic_worker \<Rightarrow> bool" where
  "bw_has_models_discovered w \<longleftrightarrow> models_override w \<noteq> None \<or> wm_models (bw_metadata w) \<noteq> []"

section \<open>Data-parallel workers and the worker trait\<close>

record dp_aware_worker =
  base_worker :: basic_worker
  dp_rank_field :: nat
  dp_size_field :: nat
  dp_base_url :: string
  dp_bootstrap_host :: string

definition with_base_worker ::
    "(string \<Rightarrow> string option option) \<Rightarrow> basic_worker \<Rightarrow> string \<Rightarrow> nat \<Rightarrow> nat \<Rightarrow> dp_aware_worker" where
  "with_base_worker url_parse bw u rank sz =
     \<lparr> base_worker = bw, dp_rank_field = rank, dp_size_field = sz, dp_base_url = u,
       dp_bootstrap_host = parse_bootstrap_host_from_url url_parse u \<rparr>"

text \<open>\<open>Arc<dyn Worker>\<close>: one of the two implementations.\<close>

datatype worker = Basic basic_worker | DPAware dp_aware_worker

fun base :: "worker \<Rightarrow> basic_worker" where
  "base (Basic w) = w"
| "base (DPAware d) = base_worker d"

fun on_base :: "(basic_worker \<Rightarrow> basic_worker) \<Rightarrow> worker \<Rightarrow> worker" where
  "on_base f (Basic w) = Basic (f w)"
| "on_base f (DPAware d) = DPAware (d\<lparr> base_worker := f (base_worker d) \<rparr>)"

definition metadata :: "worker \<Rightarrow> worker_metadata" where "metadata w = bw_metadata (base w)"
definition url :: "worker \<Rightarrow> string" where "url w = wm_url (metadata w)"
definition api_key :: "worker \<Rightarrow> string option" where "api_key w = wm_api_key (metadata w)"
definition get_worker_type :: "worker \<Rightarrow> worker_type" where "get_worker_type w = wm_worker_type (metadata w)"
definition get_connection_mode :: "worker \<Rightarrow> connection_mode" where
  "get_connection_mode w = wm_connection_mode (metadata w)"
definition is_healthy :: "worker \<Rightarrow> bool" where "is_healthy w = bw_healthy (base w)"
definition set_healthy :: "bool \<Rightarrow> worker \<Rightarrow> worker" where "set_healthy h = on_base (bw_set_healthy h)"
definition get_load :: "worker \<Rightarrow> usize" where "get_load w = load_counter (base w)"
definition increment_load :: "worker \<Rightarrow> worker" where "increment_load = on_base bw_increment_load"
definition decrement_load :: "worker \<Rightarrow> worker" where "decrement_load = on_base bw_decrement_load"
definition reset_load :: "worker \<Rightarrow> worker" where "reset_load = on_base bw_reset_load"
definition processed_requests :: "worker \<Rightarrow> usize" where "processed_requests w = processed_counter (base w)"
definition increment_processed :: "worker \<Rightarrow> worker" where "increment_processed = on_base bw_increment_processed"
definition get_routing_key_load :: "worker \<Rightarrow> worker_routing_key_load" where
  "get_routing_key_load w = bw_routing_key_load (base w)"

definition bootstrap_port :: "worker \<Rightarrow> u16 option" where "bootstrap_port w = wm_bootstrap_port (metadata w)"

fun bootstrap_host :: "worker \<Rightarrow> string" where
  "bootstrap_host (Basic w) = wm_bootstrap_host (bw_metadata w)"
| "bootstrap_host (DPAware d) = dp_bootstrap_host d"

text \<open>The circuit breaker of a worker, checked at the clock readings \<open>now\<close> and \<open>now'\<close>.\<close>

definition breaker_can_execute :: "u64 \<Rightarrow> u64 \<Rightarrow> worker \<Rightarrow> bool \<times> worker" where
  "breaker_can_execute now now' w =
     (let (ok, cb) = can_execute now now' (bw_circuit_breaker (base w)) in
      (ok, on_base (\<lambda>b. b\<lparr> bw_circuit_breaker := cb \<rparr>) w))"

definition is_available :: "u64 \<Rightarrow> u64 \<Rightarrow> worker \<Rightarrow> bool \<times> worker" where
  "is_available now now' w = (if is_healthy w then breaker_can_execute now now' w else (False, w))"

definition worker_record_outcome :: "u64 \<Rightarrow> u64 \<Rightarrow> bool \<Rightarrow> worker \<Rightarrow> worker" where
  "worker_record_outcome now now' success =
     on_base (\<lambda>b. b\<lparr> bw_circuit_breaker := record_outcome now now' success (bw_circuit_breaker b) \<rparr>)"

fun is_dp_aware :: "worker \<Rightarrow> bool" where
  "is_dp_aware (Basic w) = False"
| "is_dp_aware (DPAware d) = True"

fun base_url :: "worker \<Rightarrow> string" where
  "base_url (Basic w) = wm_url (bw_metadata w)"
| "base_url (DPAware d) = dp_base_url d"

fun dp_rank :: "worker \<Rightarrow> nat option" where
  "dp_rank (Basic w) = None"
| "dp_rank (DPAware d) = Some (dp_rank_field d)"

fun dp_size :: "worker \<Rightarrow> nat option" where
  "dp_size (Basic w) = None"
| "dp_size (DPAware d) = Some (dp_size_field d)"

fun prepare_request :: "worker \<Rightarrow> json \<Rightarrow> worker_error + json" where
  "prepare_request (Basic w) req = Inr req"
| "prepare_request (DPAware d) (JObject m) =
     Inr (JObject (map_insert ''data_parallel_rank'' (JNumber (int (dp_rank_field d))) m))"
| "prepare_request (DPAware d) _ =
     Inl (InvalidConfiguration ''Request must be a JSON object for DP-aware routing'')"

definition endpoint_url :: "worker \<Rightarrow> string \<Rightarrow> string" where
  "endpoint_url w route = base_url w @ route"

definition model_id :: "string \<Rightarrow> worker \<Rightarrow> string" where
  "model_id unknown_id w =
     (case or_else (case wm_models (metadata w) of [] \<Rightarrow> None | m # _ \<Rightarrow> Some (mc_id m))
                   (map_get (labels (metadata w)) ''model_id'') of
        Some i \<Rightarrow> i
      | None \<Rightarrow> unknown_id)"

definition DEFAULT_WORKER_PRIORITY :: nat where "DEFAULT_WORKER_PRIORITY = 50"

definition parse_u32 :: "string \<Rightarrow> nat option" where
  "parse_u32 s = (case parse_usize s of Some n \<Rightarrow> if n < 2 ^ 32 then Some n else None | None \<Rightarrow> None)"

definition priority :: "worker \<Rightarrow> nat" where
  "priority w =
     (case Option.bind (map_get (labels (metadata w)) ''priority'') parse_u32 of
        Some p \<Rightarrow> p | None \<Rightarrow> DEFAULT_WORKER_PRIORITY)"

definition tokenizer_path where
  "tokenizer_path w m = Option.bind (find_model (metadata w) m) mc_tokenizer_path"
definition reasoning_parser where
  "reasoning_parser w m = Option.bind (find_model (metadata w) m) mc_reasoning_parser"
definition tool_parser where
  "tool_parser w m = Option.bind (find_model (metadata w) m) mc_tool_parser"
definition chat_template where
  "chat_template w m = Option.bind (find_model (metadata w) m) mc_chat_template"
definition default_provider where "default_provider w = wm_default_provider (metadata w)"
definition provider_for_model where "provider_for_model w m = md_provider_for_model (metadata w) m"

definition is_classifier :: "worker \<Rightarrow> string \<Rightarrow> bool" where
  "is_classifier w m = (case find_model (metadata w) m of Some c \<Rightarrow> card_is_classifier c | None \<Rightarrow> False)"

definition id2label :: "worker \<Rightarrow> string \<Rightarrow> (u32 \<times> string) list option" where
  "id2label w m =
     (case find_model (metadata w) m of
        Some c \<Rightarrow> if card_is_classifier c then Some (mc_id2label c) else None
      | None \<Rightarrow> None)"

definition num_labels :: "worker \<Rightarrow> string \<Rightarrow> u32" where
  "num_labels w m = (case find_model (metadata w) m of Some c \<Rightarrow> mc_num_labels c | None \<Rightarrow> 0)"

definition get_label :: "worker \<Rightarrow> string \<Rightarrow> u32 \<Rightarrow> string" where
  "get_label w m class_idx =
     (case find_model (metadata w) m of
        Some c \<Rightarrow> card_get_label c class_idx | None \<Rightarrow> generic_label class_idx)"

text \<open>The data-parallel worker does not override these three: it has the trait's defaults.\<close>

fun supports_model :: "worker \<Rightarrow> string \<Rightarrow> bool" where
  "supports_model (Basic w) m = bw_supports_model w m"
| "supports_model (DPAware d) m = md_supports_model (bw_metadata (base_worker d)) m"

fun set_models :: "model_card list \<Rightarrow> worker \<Rightarrow> worker" where
  "set_models models (Basic w) = Basic (bw_set_models models w)"
| "set_models models (DPAware d) = DPAware d"

fun has_models_discovered :: "worker \<Rightarrow> bool" where
  "has_models_discovered (Basic w) = bw_has_models_discovered w"
| "has_models_discovered (DPAware d) = (wm_models (bw_metadata (base_worker d)) \<noteq> [])"

definition supports_endpoint :: "worker \<Rightarrow> string \<Rightarrow> endpoint \<Rightarrow> bool" where
  "supports_endpoint w m e = md_supports_endpoint (metadata w) m e"

section \<open>Load guards\<close>

text \<open>A guard on a worker: taking it counts the request and its routing key, dropping it undoes both.\<close>

definition guard_new :: "header_map option \<Rightarrow> worker \<Rightarrow> string option \<times> worker" where
  "guard_new headers w =
     (let w = increment_load w;
          routing_key = extract_routing_key headers;
          w = (case routing_key of
                 Some key \<Rightarrow> on_base (\<lambda>b. b\<lparr> bw_routing_key_load := rk_increment key (bw_routing_key_load b) \<rparr>) w
               | None \<Rightarrow> w) in
      (routing_key, w))"

definition guard_drop :: "string option \<Rightarrow> worker \<Rightarrow> worker" where
  "guard_drop routing_key w =
     (let w = decrement_load w in
      case routing_key of
        Some key \<Rightarrow> on_base (\<lambda>b. b\<lparr> bw_routing_key_load := rk_decrement key (bw_routing_key_load b) \<rparr>) w
      | None \<Rightarrow> w)"

section \<open>Builders\<close>

record basic_worker_builder =
  bb_url :: string
  bb_api_key :: "string option"
  bb_worker_type :: worker_type
  bb_connection_mode :: connection_mode
  bb_runtime_type :: runtime_type
  bb_labels :: "(string \<times> string) list"
  bb_models :: "model_card list"
  bb_health_config :: health_config
  bb_circuit_breaker_config :: circuit_breaker_config

definition builder_new_with_type :: "string \<Rightarrow> worker_type \<Rightarrow> basic_worker_builder" where
  "builder_new_with_type u t =
     \<lparr> bb_url = u, bb_api_key = None, bb_worker_type = t, bb_connection_mode = Http,
       bb_runtime_type = Sglang, bb_labels = [], bb_models = [],
       bb_health_config = health_config_default,
       bb_circuit_breaker_config = circuit_breaker_config_default \<rparr>"

definition builder_new :: "string \<Rightarrow> basic_worker_builder" where
  "builder_new u =
     \<lparr> bb_url = u, bb_api_key = None, bb_worker_type = Regular, bb_connection_mode = Http,
       bb_runtime_type = Sglang, bb_labels = [], bb_models = [],
       bb_health_config = health_config_default,
       bb_circuit_breaker_config = circuit_breaker_config_default \<rparr>"

definition builder_label :: "string \<Rightarrow> string \<Rightarrow> basic_worker_builder \<Rightarrow> basic_worker_builder" where
  "builder_label k v b = b\<lparr> bb_labels := map_insert k v (bb_labels b) \<rparr>"

definition builder_model :: "model_card \<Rightarrow> basic_worker_builder \<Rightarrow> basic_worker_builder" where
  "builder_model m b = b\<lparr> bb_models := bb_models b @ [m] \<rparr>"

definition build :: "(string \<Rightarrow> string option option) \<Rightarrow> u64 \<Rightarrow> basic_worker_builder \<Rightarrow> basic_worker" where
  "build url_parse now b =
     \<lparr> bw_metadata =
         \<lparr> wm_url = bb_url b, wm_worker_type = bb_worker_type b, wm_connection_mode = bb_connection_mode b,
           wm_runtime_type = bb_runtime_type b, labels = bb_labels b, wm_health_config = bb_health_config b,
           wm_api_key = bb_api_key b,
           wm_bootstrap_host = parse_bootstrap_host_from_url url_parse (bb_url b),
           wm_bootstrap_port = (case bb_worker_type b of Prefill p \<Rightarrow> p | _ \<Rightarrow> None),
           wm_models = bb_models b, wm_default_provider = None, default_model_type = LLM \<rparr>,
       load_counter = 0, bw_routing_key_load = routing_key_load_new (bb_url b), processed_counter = 0,
       bw_healthy = True, consecutive_failures = 0, consecutive_successes = 0,
       bw_circuit_breaker = with_config_and_label (bb_circuit_breaker_config b) (bb_url b) now,
       models_override = None \<rparr>"

text \<open>The data-parallel builder carries the same settings, with the base URL in place of the URL.\<close>

record dp_aware_worker_builder = basic_worker_builder +
  db_dp_rank :: nat
  db_dp_size :: nat

definition dp_build :: "(string \<Rightarrow> string option option) \<Rightarrow> u64 \<Rightarrow> dp_aware_worker_builder \<Rightarrow> dp_aware_worker" where
  "dp_build url_parse now b =
     (let worker_url = bb_url b @ ''@'' @ show_nat (db_dp_rank b);
          builder = (builder_new worker_url)\<lparr> bb_models := bb_models b, bb_worker_type := bb_worker_type b,
            bb_connection_mode := bb_connection_mode b, bb_runtime_type := bb_runtime_type b,
            bb_labels := bb_labels b, bb_health_config := bb_health_config b,
            bb_circuit_breaker_config := bb_circuit_breaker_config b \<rparr>;
          builder = (case bb_api_key b of Some k \<Rightarrow> builder\<lparr> bb_api_key := Some k \<rparr> | None \<Rightarrow> builder) in
      with_base_worker url_parse (build url_parse now builder) (bb_url b) (db_dp_rank b) (db_dp_size b))"

section \<open>The trait methods on the base worker\<close>

lemma base_on_base [simp]: "base (on_base f w) = f (base w)"
  by (cases w) simp_all

lemma on_base_comp [simp]: "on_base f (on_base g w) = on_base (\<lambda>b. f (g b)) w"
  by (cases w) simp_all

lemma on_base_id: "f (base w) = base w \<Longrightarrow> on_base f w = w"
  by (cases w) simp_all

lemma breaker_can_execute_keeps [simp]:
  "bw_healthy (base (snd (breaker_can_execute t t' w))) = bw_healthy (base w)"
  "bw_metadata (base (snd (breaker_can_execute t t' w))) = bw_metadata (base w)"
  "load_counter (base (snd (breaker_can_execute t t' w))) = load_counter (base w)"
  by (simp_all add: breaker_can_execute_def split: prod.splits)

lemma is_available_keeps [simp]:
  "is_healthy (snd (is_available t t' w)) = is_healthy w"
  "metadata (snd (is_available t t' w)) = metadata w"
  "url (snd (is_available t t' w)) = url w"
  "get_load (snd (is_available t t' w)) = get_load w"
  by (simp_all add: is_available_def is_healthy_def metadata_def url_def get_load_def)

section \<open>Health\<close>

text \<open>A sequence of probes.\<close>

definition probe_worker :: "bool list \<Rightarrow> basic_worker \<Rightarrow> basic_worker" where
  "probe_worker rs w = foldl (\<lambda>w r. snd (check_health_async (Inr r) w)) w rs"

lemma probe_worker_simps [simp]:
  "probe_worker [] w = w"
  "probe_worker (r # rs) w = probe_worker rs (snd (check_health_async (Inr r) w))"
  "probe_worker (rs @ rs') w = probe_worker rs' (probe_worker rs w)"
  by (simp_all add: probe_worker_def)

lemma check_health_cases:
  assumes "\<not> disable_health_check (wm_health_config (bw_metadata w))"
  shows "bw_healthy (snd (check_health_async (Inr True) w)) \<longleftrightarrow>
      bw_healthy w \<or> unat (hc_success_threshold (wm_health_config (bw_metadata w))) \<le> unat (consecutive_successes w + 1)"
    "bw_healthy (snd (check_health_async (Inr False) w)) \<longleftrightarrow>
      bw_healthy w \<and> unat (consecutive_failures w + 1) < unat (hc_failure_threshold (wm_health_config (bw_metadata w)))"
  using assms by (auto simp: check_health_async_def Let_def bw_set_healthy_def)

lemma check_health_keeps [simp]: "bw_metadata (snd (check_health_async p w)) = bw_metadata w"
  by (auto simp: check_health_async_def Let_def bw_set_healthy_def split: sum.splits bool.splits)

lemma probe_worker_keeps [simp]: "bw_metadata (probe_worker rs w) = bw_metadata w"
  by (induction rs arbitrary: w) simp_all

lemma check_health_counters:
  assumes "\<not> disable_health_check (wm_health_config (bw_metadata w))"
  shows "consecutive_failures (snd (check_health_async (Inr True) w)) = 0"
    "consecutive_successes (snd (check_health_async (Inr False) w)) = 0"
    "bw_healthy (snd (check_health_async (Inr False) w)) \<Longrightarrow>
       consecutive_failures (snd (check_health_async (Inr False) w)) = consecutive_failures w + 1"
    "\<not> bw_healthy (snd (check_health_async (Inr True) w)) \<Longrightarrow>
       consecutive_successes (snd (check_health_async (Inr True) w)) = consecutive_successes w + 1"
  using assms by (auto simp: check_health_async_def Let_def bw_set_healthy_def split: if_splits)

text \<open>
  The run of successes at the end of a history, and the two counters that matter: of failures while
  the worker is healthy and of successes while it is not.  Each equals the run at the end of the
  history, and stays below its 32 bit threshold, so it never wraps around.
\<close>

definition trailing_successes :: "bool list \<Rightarrow> nat" where
  "trailing_successes rs = trailing_failures (map Not rs)"

lemma trailing_successes_snoc: "trailing_successes (rs @ [r]) = (if r then Suc (trailing_successes rs) else 0)"
  by (simp add: trailing_successes_def trailing_failures_snoc)

lemma suffix_trailing_successes: "suffix (replicate n True) rs \<longleftrightarrow> n \<le> trailing_successes rs"
proof -
  have "suffix (replicate n True) rs \<longleftrightarrow> suffix (replicate n False) (map Not rs)"
    using map_mono_suffix [of "replicate n True" rs Not] map_mono_suffix [of "replicate n False" "map Not rs" Not]
    by (auto simp: comp_def)
  then show ?thesis using replicate_suffix_trailing [of n "map Not rs"] by (simp add: trailing_successes_def)
qed

definition counts_runs :: "nat \<Rightarrow> nat \<Rightarrow> bool list \<Rightarrow> basic_worker \<Rightarrow> bool" where
  "counts_runs f s rs w \<longleftrightarrow>
     (if bw_healthy w then unat (consecutive_failures w) = trailing_failures rs \<and> trailing_failures rs < f
      else unat (consecutive_successes w) = trailing_successes rs \<and> trailing_successes rs < s)"

lemma probe_step:
  assumes on: "\<not> disable_health_check (wm_health_config (bw_metadata w))" and c: "counts_runs f s rs w"
    and f: "f = max 1 (unat (hc_failure_threshold (wm_health_config (bw_metadata w))))"
    and s: "s = max 1 (unat (hc_success_threshold (wm_health_config (bw_metadata w))))"
  shows "counts_runs f s (rs @ [r]) (snd (check_health_async (Inr r) w))"
    "bw_healthy (snd (check_health_async (Inr r) w)) =
      (if bw_healthy w then trailing_failures (rs @ [r]) < f else s \<le> trailing_successes (rs @ [r]))"
proof -
  have lt: "unat x < 2 ^ 32" for x :: u32 using unsigned_less [of x] by simp
  have b: "f \<le> 2 ^ 32" "s \<le> 2 ^ 32" unfolding f s using lt by (simp_all add: less_imp_le)
  have inc: "bw_healthy w \<Longrightarrow> unat (consecutive_failures w + 1) = Suc (trailing_failures rs)"
      "\<not> bw_healthy w \<Longrightarrow> unat (consecutive_successes w + 1) = Suc (trailing_successes rs)"
    using c b unat_inc_bounded [of "consecutive_failures w" "2 ^ 32"] unat_inc_bounded [of "consecutive_successes w" "2 ^ 32"]
    by (simp_all add: counts_runs_def)
  note k = check_health_cases [OF on] check_health_counters [OF on]
  have pos: "0 < f" "0 < s" using f s by simp_all
  show health: "bw_healthy (snd (check_health_async (Inr r) w)) =
      (if bw_healthy w then trailing_failures (rs @ [r]) < f else s \<le> trailing_successes (rs @ [r]))"
    using inc k(1,2) pos f s by (cases r) (auto simp: trailing_failures_snoc trailing_successes_snoc)
  show "counts_runs f s (rs @ [r]) (snd (check_health_async (Inr r) w))"
  proof (cases "bw_healthy (snd (check_health_async (Inr r) w)) = bw_healthy w")
    case True
    then show ?thesis using health c inc k(3-6) pos
      by (cases r; cases "bw_healthy w") (auto simp: counts_runs_def trailing_failures_snoc trailing_successes_snoc)
  next
    case False
    then show ?thesis using health k(3,4) pos
      by (cases r; cases "bw_healthy w") (auto simp: counts_runs_def trailing_failures_snoc trailing_successes_snoc)
  qed
qed

lemma probes_count_runs:
  assumes on: "\<not> disable_health_check (wm_health_config (bw_metadata w))"
    and f: "f = max 1 (unat (hc_failure_threshold (wm_health_config (bw_metadata w))))"
    and s: "s = max 1 (unat (hc_success_threshold (wm_health_config (bw_metadata w))))"
    and w: "if bw_healthy w then consecutive_failures w = 0 else consecutive_successes w = 0"
  shows "counts_runs f s rs (probe_worker rs w)"
proof (induction rs rule: rev_induct)
  case Nil
  have "0 < f" "0 < s" using f s by simp_all
  then show ?case using w by (auto simp: counts_runs_def trailing_failures_def trailing_successes_def split: if_splits)
next
  case (snoc r rs)
  show ?case using probe_step(1) [OF _ snoc, of r] on f s by simp
qed

text \<open>
  C23: the health of a checked worker has hysteresis.  For a worker whose counter for its present state of
  health is zero, as when it is built and after every change of its health, and over every sequence
  of probes: the next probe changes the health exactly when it completes a run of failed probes as long as
  the failure threshold for a healthy worker, and of successful probes as long as the success
  threshold for an unhealthy one (a threshold of 0 acts as 1).  So after such a run of failures the
  worker is unhealthy and after such a run of successes it is healthy, whatever came before; a
  probe that ends with an error of its own changes nothing.
\<close>

theorem health_hysteresis:
  assumes "\<not> disable_health_check (wm_health_config (bw_metadata w))"
    and "f = max 1 (unat (hc_failure_threshold (wm_health_config (bw_metadata w))))"
    and "s = max 1 (unat (hc_success_threshold (wm_health_config (bw_metadata w))))"
    and "if bw_healthy w then consecutive_failures w = 0 else consecutive_successes w = 0"
  shows "(bw_healthy (probe_worker (rs @ [r]) w) \<noteq> bw_healthy (probe_worker rs w) \<longleftrightarrow>
       (if bw_healthy (probe_worker rs w) then suffix (replicate f False) (rs @ [r]) else suffix (replicate s True) (rs @ [r]))) \<and>
    \<not> bw_healthy (probe_worker (rs @ replicate f False) w) \<and>
    bw_healthy (probe_worker (rs @ replicate s True) w) \<and>
    snd (check_health_async (Inl e) (probe_worker rs w)) = probe_worker rs w"
proof -
  note runs = probes_count_runs [OF assms]
  have flip: "bw_healthy (probe_worker (rs @ [r]) w) =
      (if bw_healthy (probe_worker rs w) then \<not> suffix (replicate f False) (rs @ [r]) else suffix (replicate s True) (rs @ [r]))" for rs r
  proof -
    have "bw_healthy (probe_worker (rs @ [r]) w) =
        (if bw_healthy (probe_worker rs w) then trailing_failures (rs @ [r]) < f else s \<le> trailing_successes (rs @ [r]))"
      using probe_step(2) [OF _ runs, of rs r] assms(1-3) by simp
    then show ?thesis unfolding replicate_suffix_trailing suffix_trailing_successes not_le .
  qed
  have split: "replicate f False = replicate (f - 1) False @ [False]" "replicate s True = replicate (s - 1) True @ [True]"
  proof -
    have pos: "f = Suc (f - 1)" "s = Suc (s - 1)" using assms(2,3) by auto
    show "replicate f False = replicate (f - 1) False @ [False]" by (subst pos(1)) (simp add: replicate_append_same)
    show "replicate s True = replicate (s - 1) True @ [True]" by (subst pos(2)) (simp add: replicate_append_same)
  qed
  have mixed: "\<not> suffix (replicate s True) (xs @ [False])" "\<not> suffix (replicate f False) (xs @ [True])" for xs
    unfolding split by simp_all
  have "\<not> bw_healthy (probe_worker (rs @ replicate f False) w)"
  proof -
    have "rs @ replicate f False = (rs @ replicate (f - 1) False) @ [False]" by (simp add: split(1))
    moreover from this have "suffix (replicate f False) ((rs @ replicate (f - 1) False) @ [False])" by (metis suffix_def)
    ultimately show ?thesis using flip [of "rs @ replicate (f - 1) False" False] mixed(1) by (metis (full_types))
  qed
  moreover have "bw_healthy (probe_worker (rs @ replicate s True) w)"
  proof -
    have "rs @ replicate s True = (rs @ replicate (s - 1) True) @ [True]" by (simp add: split(2))
    moreover from this have "suffix (replicate s True) ((rs @ replicate (s - 1) True) @ [True])" by (metis suffix_def)
    ultimately show ?thesis using flip [of "rs @ replicate (s - 1) True" True] mixed(2) by (metis (full_types))
  qed
  ultimately show ?thesis using flip [of rs r] assms(1) by (auto simp: check_health_async_def)
qed

definition sample_worker :: "string \<Rightarrow> basic_worker" where
  "sample_worker u = build (\<lambda>u. None) 0 (builder_new u)"

theorem health_hysteresis_witness:
  "\<not> bw_healthy (probe_worker ([True] @ replicate 3 False) (sample_worker ''http://w1'')) \<and>
   \<not> bw_healthy (probe_worker [False, False, False, True] (sample_worker ''http://w1''))"
proof -
  let ?w = "sample_worker ''http://w1''"
  have cfg: "wm_health_config (bw_metadata (sample_worker u)) = health_config_default" for u
    by (simp add: sample_worker_def build_def builder_new_def)
  have "\<not> disable_health_check (wm_health_config (bw_metadata ?w))"
      "3 = max 1 (unat (hc_failure_threshold (wm_health_config (bw_metadata ?w))))"
      "2 = max 1 (unat (hc_success_threshold (wm_health_config (bw_metadata ?w))))"
      "if bw_healthy ?w then consecutive_failures ?w = 0 else consecutive_successes ?w = 0"
    unfolding cfg by (simp_all add: health_config_default_def sample_worker_def build_def Let_def)
  note h = health_hysteresis [OF this]
  have "\<not> bw_healthy (probe_worker ([] @ replicate 3 False) ?w)" using h [of "[]"] by blast
  then have u: "\<not> bw_healthy (probe_worker [False, False, False] ?w)" by (simp add: numeral_3_eq_3 del: probe_worker_simps)
  have "\<not> suffix (replicate 2 True) ([False, False, False] @ [True])" by (simp add: suffix_def numeral_2_eq_2 append_eq_Cons_conv)
  then have "\<not> bw_healthy (probe_worker ([False, False, False] @ [True]) ?w)"
    using h [of "[False, False, False]" True] u by presburger
  then show ?thesis using h [of "[True]"] by (simp del: probe_worker_simps)
qed

section \<open>Load guards\<close>

text \<open>Workers reached from a fresh one by taking and dropping guards, with the live guards' keys.\<close>

inductive guarded :: "worker \<Rightarrow> worker \<Rightarrow> string option list \<Rightarrow> bool" for w0 where
  guarded_init: "guarded w0 w0 []"
| guarded_new: "guarded w0 w live \<Longrightarrow> Suc (length live) < 2 ^ 64 \<Longrightarrow> guard_new headers w = (k, w') \<Longrightarrow>
    guarded w0 w' (k # live)"
| guarded_drop: "guarded w0 w live \<Longrightarrow> k \<in> set live \<Longrightarrow> guarded w0 (guard_drop k w) (remove1 k live)"

definition guard_inv :: "worker \<Rightarrow> string option list \<Rightarrow> bool" where
  "guard_inv w live \<longleftrightarrow>
     length live < 2 ^ 64 \<and> unat (get_load w) = length live \<and>
     map_wf (active_routing_keys (get_routing_key_load w)) \<and>
     (\<forall>k. map_get (active_routing_keys (get_routing_key_load w)) k =
        (if Some k \<in> set live then Some (count_list live (Some k)) else None))"

lemma count_list_remove1: "count_list (remove1 x xs) y = (if x = y \<and> x \<in> set xs then count_list xs y - 1 else count_list xs y)"
  by (induction xs) (auto simp: count_list_0_iff neq0_conv [symmetric] simp del: neq0_conv)

lemma in_set_remove1_count: "y \<in> set (remove1 x xs) \<longleftrightarrow> 0 < count_list (remove1 x xs) y"
  using count_list_0_iff [of "remove1 x xs" y] by auto

lemma guard_inv_new:
  assumes "guard_inv w live" "Suc (length live) < 2 ^ 64" "guard_new headers w = (k, w')"
  shows "guard_inv w' (k # live)"
proof -
  have inv: "unat (load_counter (base w)) = length live"
    using assms(1) by (simp add: guard_inv_def get_load_def)
  have "unat (load_counter (base w) + 1) = Suc (length live)"
    using unat_inc_bounded [of "load_counter (base w)"] inv assms(2) by (simp add: unat_word_ariths)
  moreover have "load_counter (base w') = load_counter (base w) + 1"
    using assms(3) by (auto simp: guard_new_def Let_def increment_load_def bw_increment_load_def split: option.splits)
  moreover have "bw_routing_key_load (base w') =
      (case k of Some key \<Rightarrow> rk_increment key (bw_routing_key_load (base w)) | None \<Rightarrow> bw_routing_key_load (base w))"
    using assms(3) by (auto simp: guard_new_def Let_def increment_load_def bw_increment_load_def split: option.splits)
  ultimately show ?thesis
    using assms by (auto simp: guard_inv_def get_load_def get_routing_key_load_def rk_increment_def split: option.splits)
qed

lemma guard_inv_drop:
  assumes "guard_inv w live" "k \<in> set live"
  shows "guard_inv (guard_drop k w) (remove1 k live)"
proof -
  let ?keys = "active_routing_keys (bw_routing_key_load (base w))"
  have inv: "unat (load_counter (base w)) = length live" "length live < 2 ^ 64" "map_wf ?keys"
      "\<And>k. map_get ?keys k = (if Some k \<in> set live then Some (count_list live (Some k)) else None)"
    using assms(1) by (auto simp: guard_inv_def get_load_def get_routing_key_load_def)
  have len: "0 < length live" using assms(2) by (cases live) auto
  then have nz: "load_counter (base w) \<noteq> 0" using inv(1) by auto
  have load: "load_counter (base (guard_drop k w)) = load_counter (base w) - 1"
    using nz by (auto simp: guard_drop_def Let_def decrement_load_def bw_decrement_load_def split: option.splits)
  have "unat (load_counter (base w) - 1) = length live - 1"
    using inv(1) len nz by (simp add: unat_minus_one)
  moreover have keys: "bw_routing_key_load (base (guard_drop k w)) =
      (case k of Some key \<Rightarrow> rk_decrement key (bw_routing_key_load (base w)) | None \<Rightarrow> bw_routing_key_load (base w))"
    by (auto simp: guard_drop_def Let_def decrement_load_def bw_decrement_load_def split: option.splits)
  moreover have "map_wf (active_routing_keys (bw_routing_key_load (base (guard_drop k w))))"
    unfolding keys using inv(3) by (auto simp: rk_decrement_def split: option.splits)
  moreover have "map_get (active_routing_keys (bw_routing_key_load (base (guard_drop k w)))) j =
      (if Some j \<in> set (remove1 k live) then Some (count_list (remove1 k live) (Some j)) else None)" for j
    unfolding keys in_set_remove1_count count_list_remove1
    using inv(4) assms(2) count_list_0_iff [of live "Some j"]
    by (cases k) (auto simp: rk_decrement_def split: option.splits if_splits)
  ultimately show ?thesis
    using load inv(2) assms(2) by (simp add: guard_inv_def get_load_def get_routing_key_load_def length_remove1)
qed

lemma guarded_inv:
  assumes "guarded w0 w live" and "get_load w0 = 0" and "active_routing_keys (get_routing_key_load w0) = []"
  shows "guard_inv w live"
  using assms(1)
proof induction
  case guarded_init
  then show ?case using assms(2,3) by (simp add: guard_inv_def)
next
  case (guarded_new w live headers k w')
  then show ?case using guard_inv_new by blast
next
  case (guarded_drop w live k)
  then show ?case using guard_inv_drop by blast
qed

text \<open>
  C18: however guards on a worker are taken and dropped, its load is the number of live guards, a
  routing key is active exactly while a live guard has it, counted once per such guard; when all
  guards are gone the load is zero and no key is active.
\<close>

theorem guards_count_requests:
  assumes "guarded w0 w live" and "get_load w0 = 0" and "active_routing_keys (get_routing_key_load w0) = []"
  shows "unat (get_load w) = length live \<and>
    (\<forall>k. map_get (active_routing_keys (get_routing_key_load w)) k =
       (if Some k \<in> set live then Some (count_list live (Some k)) else None)) \<and>
    (live = [] \<longrightarrow> rk_value (get_routing_key_load w) = 0)"
proof -
  note inv = guarded_inv [OF assms]
  have "active_routing_keys (get_routing_key_load w) = []" if "live = []"
    using inv that by (cases "active_routing_keys (get_routing_key_load w)") (auto simp: guard_inv_def split: if_splits)
  then show ?thesis using inv by (auto simp: guard_inv_def rk_value_def)
qed

theorem guards_count_requests_witness:
  "get_load (Basic (sample_worker ''w'')) = 0 \<and>
   (\<exists>w. guarded (Basic (sample_worker ''w'')) w [None] \<and> unat (get_load w) = 1)"
proof -
  let ?w = "Basic (sample_worker ''w'')"
  have fresh: "get_load ?w = 0" "active_routing_keys (get_routing_key_load ?w) = []"
    by (simp_all add: get_load_def get_routing_key_load_def sample_worker_def build_def routing_key_load_new_def)
  have "guarded ?w (increment_load ?w) [None]"
    by (rule guarded_new [OF guarded_init, where headers = None])
       (simp_all add: guard_new_def extract_routing_key_def extract_header_value_def or_else_def)
  from guards_count_requests [OF this fresh] this fresh show ?thesis by fastforce
qed

section \<open>Data-parallel URLs\<close>

lemma digit_value_char: "n < 10 \<Longrightarrow> digit_value (char_of (48 + n)) = Some n"
  by (simp add: digit_value_def)

lemma parse_digits_append:
  "parse_digits a (s @ s') = Option.bind (parse_digits a s) (\<lambda>b. parse_digits b s')"
  by (induction a s rule: parse_digits.induct) (auto split: option.splits)

lemma parse_show_nat: "n < 2 ^ 64 \<Longrightarrow> parse_digits 0 (show_nat n) = Some n"
proof (induction n rule: show_nat.induct)
  case (1 n)
  show ?case
  proof (cases "n < 10")
    case True
    then show ?thesis by (simp add: show_nat.simps [of n] digit_value_char)
  next
    case False
    have "parse_digits 0 (show_nat (n div 10)) = Some (n div 10)" using 1 False by (simp add: div_le_dividend le_less_trans)
    moreover have "n div 10 * 10 + n mod 10 = n" by simp
    ultimately show ?thesis
      using False 1(2) by (simp add: show_nat.simps [of n] parse_digits_append digit_value_char)
  qed
qed

lemma show_nat_chars: "c \<in> set (show_nat n) \<Longrightarrow> \<exists>d::nat. d < 10 \<and> c = char_of (48 + d)"
proof (induction n rule: show_nat.induct)
  case (1 n)
  show ?case
  proof (cases "n < 10")
    case False
    then have "c \<in> set (show_nat (n div 10)) \<or> c = char_of (48 + n mod 10)"
      using 1(2) by (auto simp: show_nat.simps [of n])
    then show ?thesis using 1(1) [OF False] mod_less_divisor [OF zero_less_numeral, of n] by blast
  qed (use 1(2) in \<open>auto simp: show_nat.simps [of n]\<close>)
qed

lemma show_nat_nonempty [simp]: "show_nat n \<noteq> []"
  by (simp add: show_nat.simps [of n])

lemma not_digit: "(of_char c :: nat) < 48 \<or> 57 < (of_char c :: nat) \<Longrightarrow> c \<notin> set (show_nat n)"
  using show_nat_chars [of c n] by auto

lemma parse_usize_show_nat: "n < 2 ^ 64 \<Longrightarrow> parse_usize (show_nat n) = Some n"
  using parse_show_nat [of n] not_digit [of "CHR ''+''" n]
  by (cases "show_nat n") (auto simp: parse_usize_def)

lemma rsplit_once_append: "c \<notin> set r \<Longrightarrow> rsplit_once c (s @ c # r) = Some (s, r)"
  by (simp add: rsplit_once_def Let_def takeWhile_append)

text \<open>
  The virtual URL of a data-parallel worker names its rank and leads back to the base URL: the
  worker built for a base URL and a rank probes the base URL, sends its requests there, and
  enters the rank into every request object.
\<close>

theorem dp_worker_roundtrip:
  assumes "db_dp_rank b < 2 ^ 64"
  shows "url (DPAware (dp_build p now b)) = bb_url b @ ''@'' @ show_nat (db_dp_rank b) \<and>
    normalised_url (base_worker (dp_build p now b)) = Inr (bb_url b) \<and>
    endpoint_url (DPAware (dp_build p now b)) route = bb_url b @ route \<and>
    (\<exists>m'. prepare_request (DPAware (dp_build p now b)) (JObject m) = Inr (JObject m') \<and>
       map_get m' ''data_parallel_rank'' = Some (JNumber (int (db_dp_rank b))))"
proof -
  have url: "wm_url (bw_metadata (base_worker (dp_build p now b))) = bb_url b @ CHR ''@'' # show_nat (db_dp_rank b)"
    by (simp add: dp_build_def Let_def with_base_worker_def build_def builder_new_def split: option.splits)
  have rest: "dp_base_url (dp_build p now b) = bb_url b" "dp_rank_field (dp_build p now b) = db_dp_rank b"
    by (simp_all add: dp_build_def Let_def with_base_worker_def)
  have "rsplit_once (CHR ''@'') (bb_url b @ CHR ''@'' # show_nat (db_dp_rank b)) = Some (bb_url b, show_nat (db_dp_rank b))"
    by (rule rsplit_once_append) (rule not_digit, simp)
  then show ?thesis
    using url rest parse_usize_show_nat [OF assms]
    by (simp add: url_def metadata_def normalised_url_def endpoint_url_def)
qed

theorem dp_worker_roundtrip_witness:
  "\<exists>b. db_dp_rank b < 2 ^ 64 \<and>
     normalised_url (base_worker (dp_build (\<lambda>u. None) 0 b)) = Inr ''http://h:80''"
proof -
  let ?b = "basic_worker_builder.extend (builder_new ''http://h:80'') (dp_aware_worker_builder.fields 3 4)"
  have "db_dp_rank ?b < 2 ^ 64" "bb_url ?b = ''http://h:80''"
    by (simp_all add: basic_worker_builder.defs dp_aware_worker_builder.defs builder_new_def)
  then show ?thesis using dp_worker_roundtrip [of ?b "\<lambda>u. None" 0] by metis
qed

end
