(* ===== verification/Hash_Ring.thy ===== *)
theory Hash_Ring
  imports Worker
begin

text \<open>
  The consistent hash ring of \<open>src/gateway/src/core/worker_registry.rs\<close>.

  \<open>blake3\<close> is an argument: a function from bytes to the bytes of the digest.  The entries are
  sorted by position; entries of the same position (for which the sources fix no order) stay in
  the order of insertion.  The lemmas show that the walk with its set of visited workers finds the
  first healthy worker clockwise, and that changing the set of workers moves only the keys it must.
\<close>

section \<open>Model\<close>

type_synonym blake3 = "byte list \<Rightarrow> byte list"

definition str_bytes :: "string \<Rightarrow> byte list" where
  "str_bytes s = map of_char s"

fun from_le_bytes :: "byte list \<Rightarrow> nat" where
  "from_le_bytes [] = 0"
| "from_le_bytes (b # bs) = b + 256 * from_le_bytes bs"

fun to_le_bytes :: "nat \<Rightarrow> nat \<Rightarrow> byte list" where
  "to_le_bytes 0 n = []"
| "to_le_bytes (Suc k) n = (n mod 256) # to_le_bytes k (n div 256)"

definition VIRTUAL_NODES_PER_WORKER :: nat where "VIRTUAL_NODES_PER_WORKER = 150"

record hash_ring =
  entries :: "(nat \<times> string) list"

text \<open>The position of a virtual node: the first eight bytes of the digest.\<close>

definition vnode_position :: "blake3 \<Rightarrow> string \<Rightarrow> nat \<Rightarrow> nat" where
  "vnode_position blake3 u vnode =
     from_le_bytes (take 8 (blake3 (str_bytes u @ str_bytes ''#'' @ to_le_bytes 8 vnode)))"

definition ring_entries :: "blake3 \<Rightarrow> string list \<Rightarrow> (nat \<times> string) list" where
  "ring_entries blake3 urls =
     foldl (\<lambda>es u. foldl (\<lambda>es vnode. es @ [(vnode_position blake3 u vnode, u)]) es [0..<VIRTUAL_NODES_PER_WORKER])
       [] urls"

definition hash_ring_new :: "blake3 \<Rightarrow> worker list \<Rightarrow> hash_ring" where
  "hash_ring_new blake3 workers =
     \<lparr> entries = sort_key fst (ring_entries blake3 (map url workers)) \<rparr>"

definition hash_position :: "blake3 \<Rightarrow> string \<Rightarrow> nat" where
  "hash_position blake3 s = from_le_bytes (take 8 (blake3 (str_bytes s)))"

definition partition_point :: "('a \<Rightarrow> bool) \<Rightarrow> 'a list \<Rightarrow> nat" where
  "partition_point p xs = length (takeWhile p xs)"

text \<open>The walk from \<open>start\<close>, for the remaining offsets, with the URLs already checked.\<close>

fun ring_walk :: "(nat \<times> string) list \<Rightarrow> nat \<Rightarrow> (string \<Rightarrow> bool) \<Rightarrow> nat list \<Rightarrow> string list \<Rightarrow> string option" where
  "ring_walk es start healthy [] checked = None"
| "ring_walk es start healthy (i # is) checked =
     (let u = snd (es ! ((start + i) mod length es)) in
      if u \<in> set checked then ring_walk es start healthy is checked
      else if healthy u then Some u
      else ring_walk es start healthy is (u # checked))"

definition find_healthy_url :: "blake3 \<Rightarrow> hash_ring \<Rightarrow> string \<Rightarrow> (string \<Rightarrow> bool) \<Rightarrow> string option" where
  "find_healthy_url blake3 ring key healthy =
     (if entries ring = [] then None
      else
        let key_pos = hash_position blake3 key;
            start = partition_point (\<lambda>e. fst e < key_pos) (entries ring) in
        ring_walk (entries ring) start healthy [0..<length (entries ring)] [])"

definition ring_is_empty :: "hash_ring \<Rightarrow> bool" where
  "ring_is_empty ring \<longleftrightarrow> entries ring = []"

definition ring_len :: "hash_ring \<Rightarrow> nat" where
  "ring_len ring = length (entries ring)"

definition worker_count :: "hash_ring \<Rightarrow> nat" where
  "worker_count ring = length (entries ring) div max VIRTUAL_NODES_PER_WORKER 1"

section \<open>The ring as a list from the key clockwise\<close>

definition clockwise :: "nat \<Rightarrow> (nat \<times> string) list \<Rightarrow> (nat \<times> string) list" where
  "clockwise pos es = filter (\<lambda>e. pos \<le> fst e) es @ filter (\<lambda>e. fst e < pos) es"

lemma ring_walk_find:
  "(\<forall>u\<in>set checked. \<not> healthy u) \<Longrightarrow>
   ring_walk es start healthy is checked =
     map_option snd (List.find (\<lambda>e. healthy (snd e)) (map (\<lambda>i. es ! ((start + i) mod length es)) is))"
  by (induction "is" arbitrary: checked) (auto simp: Let_def)

lemma sorted_key_split:
  "sorted (map fst es) \<Longrightarrow>
     takeWhile (\<lambda>e. fst e < pos) es = filter (\<lambda>e. fst e < (pos::nat)) es \<and>
     dropWhile (\<lambda>e. fst e < pos) es = filter (\<lambda>e. pos \<le> fst e) es"
proof (induction es)
  case (Cons e es)
  show ?case
  proof (cases "fst e < pos")
    case False
    then have "\<forall>x\<in>set es. pos \<le> fst x" using Cons.prems by auto
    then have "filter (\<lambda>e. fst e < pos) es = []" "filter (\<lambda>e. pos \<le> fst e) es = es"
      by (auto simp: filter_empty_conv filter_id_conv not_less)
    then show ?thesis using False by simp
  qed (use Cons in auto)
qed simp

lemma map_nth_rotate:
  assumes "start \<le> length es"
  shows "map (\<lambda>i. es ! ((start + i) mod length es)) [0..<length es] = drop start es @ take start es"
proof (rule nth_equalityI)
  fix i assume "i < length (map (\<lambda>i. es ! ((start + i) mod length es)) [0..<length es])"
  then have i: "i < length es" by simp
  show "map (\<lambda>i. es ! ((start + i) mod length es)) [0..<length es] ! i = (drop start es @ take start es) ! i"
  proof (cases "start + i < length es")
    case True
    then have "i < length es - start" by simp
    then show ?thesis using i True by (simp add: nth_append)
  next
    case False
    then have "(start + i) mod length es = start + i - length es"
      using i assms le_mod_geq [of "length es" "start + i"] by simp
    moreover have "\<not> i < length es - start" using False by simp
    ultimately show ?thesis using i assms by (simp add: nth_append add.commute)
  qed
qed (use assms in simp)

lemma find_healthy_url_eq:
  assumes "sorted (map fst (entries ring))"
  shows "find_healthy_url blake3 ring key healthy =
    map_option snd (List.find (\<lambda>e. healthy (snd e)) (clockwise (hash_position blake3 key) (entries ring)))"
proof (cases "entries ring = []")
  case False
  let ?es = "entries ring" and ?pos = "hash_position blake3 key"
  let ?start = "partition_point (\<lambda>e. fst e < ?pos) ?es"
  have "drop ?start ?es @ take ?start ?es = clockwise ?pos ?es"
    using sorted_key_split [OF assms, of ?pos]
    unfolding partition_point_def clockwise_def takeWhile_eq_take [symmetric] dropWhile_eq_drop [symmetric] by simp
  moreover have "?start \<le> length ?es" by (simp add: partition_point_def length_takeWhile_le)
  ultimately show ?thesis
    using False map_nth_rotate [of ?start ?es] by (simp add: find_healthy_url_def Let_def ring_walk_find)
qed (simp add: find_healthy_url_def clockwise_def)

lemma ring_entries_eq:
  "ring_entries blake3 urls = concat (map (\<lambda>u. map (\<lambda>v. (vnode_position blake3 u v, u)) [0..<VIRTUAL_NODES_PER_WORKER]) urls)"
proof -
  have inner: "foldl (\<lambda>es vnode. es @ [(vnode_position blake3 u vnode, u)]) es vs = es @ map (\<lambda>v. (vnode_position blake3 u v, u)) vs" for es u vs
    by (induction vs arbitrary: es) simp_all
  have "foldl (\<lambda>es u. foldl (\<lambda>es vnode. es @ [(vnode_position blake3 u vnode, u)]) es [0..<VIRTUAL_NODES_PER_WORKER]) es urls =
      es @ concat (map (\<lambda>u. map (\<lambda>v. (vnode_position blake3 u v, u)) [0..<VIRTUAL_NODES_PER_WORKER]) urls)" for es
    by (induction urls arbitrary: es) (simp_all add: inner)
  then show ?thesis by (simp add: ring_entries_def)
qed

lemma hash_ring_sorted: "sorted (map fst (entries (hash_ring_new blake3 ws)))"
  by (simp add: hash_ring_new_def)

lemma ring_urls: "snd ` set (entries (hash_ring_new blake3 ws)) = url ` set ws"
proof -
  have pos: "0 < VIRTUAL_NODES_PER_WORKER" by (simp add: VIRTUAL_NODES_PER_WORKER_def)
  have "set (entries (hash_ring_new blake3 ws)) =
      (\<Union>u\<in>url ` set ws. (\<lambda>v. (vnode_position blake3 u v, u)) ` {0..<VIRTUAL_NODES_PER_WORKER})"
    by (simp add: hash_ring_new_def ring_entries_eq)
  also have "snd ` \<dots> = (\<Union>u\<in>url ` set ws. {u})"
    unfolding image_UN image_image snd_conv using pos by (intro SUP_cong refl) auto
  finally show ?thesis by simp
qed

lemma find_None_iff: "List.find P xs = None \<longleftrightarrow> (\<forall>x\<in>set xs. \<not> P x)"
  by (induction xs) auto

lemma find_Some_prop: "List.find P xs = Some x \<Longrightarrow> x \<in> set xs \<and> P x"
  by (induction xs) (auto split: if_splits)

lemma find_filter: "List.find P (filter Q xs) = List.find (\<lambda>x. Q x \<and> P x) xs"
  by (induction xs) auto

lemma set_clockwise [simp]: "set (clockwise pos es) = set es"
  by (auto simp: clockwise_def)

text \<open>Keeping only some URLs keeps the other entries where they are.\<close>

lemma ring_filter:
  "clockwise pos (entries (hash_ring_new blake3 (filter (\<lambda>w. Q (url w)) ws))) =
   filter (\<lambda>e. Q (snd e)) (clockwise pos (entries (hash_ring_new blake3 ws)))"
proof -
  have "ring_entries blake3 (map url (filter (\<lambda>w. Q (url w)) ws)) = filter (\<lambda>e. Q (snd e)) (ring_entries blake3 (map url ws))"
    unfolding ring_entries_eq by (induction ws) (auto simp: filter_map comp_def)
  then show ?thesis
    by (simp add: hash_ring_new_def clockwise_def filter_sort [symmetric] conj_commute)
qed

lemma find_on_ring:
  assumes "find_healthy_url blake3 (hash_ring_new blake3 ws) key healthy = Some u"
  shows "u \<in> url ` set ws \<and> healthy u"
proof -
  from assms obtain p where "List.find (\<lambda>e. healthy (snd e))
      (clockwise (hash_position blake3 key) (entries (hash_ring_new blake3 ws))) = Some (p, u)"
    unfolding find_healthy_url_eq [OF hash_ring_sorted] by auto
  from find_Some_prop [OF this] show ?thesis
    unfolding ring_urls [of blake3 ws, symmetric] by (metis image_eqI set_clockwise snd_conv)
qed

lemma find_on_ring_None:
  "find_healthy_url blake3 (hash_ring_new blake3 ws) key healthy = None \<longleftrightarrow> (\<forall>u\<in>url ` set ws. \<not> healthy u)"
  unfolding find_healthy_url_eq [OF hash_ring_sorted] ring_urls [of blake3 ws, symmetric]
  by (simp only: option.map_disc_iff find_None_iff set_clockwise ball_simps)

lemma find_restrict:
  "find_healthy_url blake3 (hash_ring_new blake3 (filter (\<lambda>w. Q (url w)) ws)) key healthy =
   find_healthy_url blake3 (hash_ring_new blake3 ws) key (\<lambda>u. Q u \<and> healthy u)"
  by (simp add: find_healthy_url_eq [OF hash_ring_sorted] ring_filter find_filter)

lemma find_restrict_same:
  assumes "find_healthy_url blake3 (hash_ring_new blake3 ws) key healthy = Some u" and "Q u"
  shows "find_healthy_url blake3 (hash_ring_new blake3 ws) key (\<lambda>u. Q u \<and> healthy u) = Some u"
proof -
  have "List.find (\<lambda>e. healthy (snd e)) xs = Some (p, u) \<Longrightarrow>
      List.find (\<lambda>e. Q (snd e) \<and> healthy (snd e)) xs = Some (p, u)" for xs :: "(nat \<times> string) list" and p
    using assms(2) by (induction xs) (auto split: if_splits)
  then show ?thesis using assms(1) by (auto simp: find_healthy_url_eq [OF hash_ring_sorted])
qed

section \<open>Properties\<close>

text \<open>
  The ring finds a worker exactly when some worker on it is healthy, and what it returns is
  the healthy URL whose virtual node comes first clockwise from the key's position.
\<close>

theorem ring_lookup_correct:
  "let r = find_healthy_url blake3 (hash_ring_new blake3 ws) key healthy in
   (r = None \<longleftrightarrow> (\<forall>u\<in>url ` set ws. \<not> healthy u)) \<and>
   (\<forall>u. r = Some u \<longrightarrow> u \<in> url ` set ws \<and> healthy u) \<and>
   r = map_option snd (List.find (\<lambda>e. healthy (snd e))
         (clockwise (hash_position blake3 key) (entries (hash_ring_new blake3 ws))))"
  using find_on_ring_None [of blake3 ws key healthy] find_on_ring [of blake3 ws key healthy]
    find_healthy_url_eq [OF hash_ring_sorted, of blake3 blake3 ws key healthy]
  unfolding Let_def by blast

theorem ring_lookup_correct_witness:
  "find_healthy_url (\<lambda>b. b) (hash_ring_new (\<lambda>b. b) [Basic (sample_worker ''a'')]) ''k'' (\<lambda>u. True) \<noteq> None"
  using ring_lookup_correct [of "\<lambda>b. b" "[Basic (sample_worker ''a'')]" "''k''" "\<lambda>u. True"]
  unfolding Let_def by (metis image_eqI list.set_intros(1))

text \<open>
  C17: consistent hashing: removing a worker from the ring moves only the keys of that worker, and
  adding a worker moves keys to that worker only.
\<close>

theorem ring_minimal_disruption:
  assumes "find_healthy_url blake3 (hash_ring_new blake3 ws) key healthy = Some u"
  shows "(\<forall>v. v \<noteq> u \<longrightarrow>
      find_healthy_url blake3 (hash_ring_new blake3 (filter (\<lambda>w. url w \<noteq> v) ws)) key healthy = Some u) \<and>
    (\<forall>w. url w \<notin> url ` set ws \<longrightarrow>
      find_healthy_url blake3 (hash_ring_new blake3 (ws @ [w])) key healthy \<in> {Some u, Some (url w)})"
proof (intro conjI allI impI)
  fix v assume "v \<noteq> u"
  then show "find_healthy_url blake3 (hash_ring_new blake3 (filter (\<lambda>w. url w \<noteq> v) ws)) key healthy = Some u"
    using find_restrict_same [OF assms, of "\<lambda>u. u \<noteq> v"] find_restrict [of blake3 "\<lambda>u. u \<noteq> v"] by simp
next
  fix w assume new: "url w \<notin> url ` set ws"
  have ws: "filter (\<lambda>x. url x \<noteq> url w) (ws @ [w]) = ws"
  proof -
    have "\<forall>x\<in>set ws. url x \<noteq> url w" using new by (metis image_eqI)
    then show ?thesis by (simp add: filter_id_conv)
  qed
  obtain v where v: "find_healthy_url blake3 (hash_ring_new blake3 (ws @ [w])) key healthy = Some v"
    using find_on_ring_None [of blake3 "ws @ [w]" key healthy] find_on_ring [OF assms] by auto
  show "find_healthy_url blake3 (hash_ring_new blake3 (ws @ [w])) key healthy \<in> {Some u, Some (url w)}"
  proof (cases "v = url w")
    case False
    then have "find_healthy_url blake3 (hash_ring_new blake3 ws) key healthy = Some v"
      using find_restrict_same [OF v, of "\<lambda>u. u \<noteq> url w"] find_restrict [of blake3 "\<lambda>u. u \<noteq> url w" "ws @ [w]" key healthy] ws
      by simp
    then show ?thesis using assms v by simp
  qed (simp add: v)
qed

theorem ring_minimal_disruption_witness:
  "\<exists>u. find_healthy_url (\<lambda>b. b) (hash_ring_new (\<lambda>b. b) [Basic (sample_worker ''a'')]) ''k'' (\<lambda>u. True) = Some u \<and>
     find_healthy_url (\<lambda>b. b) (hash_ring_new (\<lambda>b. b) ([Basic (sample_worker ''a'')] @ [Basic (sample_worker ''b'')])) ''k'' (\<lambda>u. True)
       \<in> {Some u, Some (url (Basic (sample_worker ''b'')))}"
proof -
  obtain u where u: "find_healthy_url (\<lambda>b. b) (hash_ring_new (\<lambda>b. b) [Basic (sample_worker ''a'')]) ''k'' (\<lambda>u. True) = Some u"
    using find_on_ring_None [of "\<lambda>b. b" "[Basic (sample_worker ''a'')]" "''k''" "\<lambda>u. True"] by (metis image_eqI list.set_intros(1) not_None_eq)
  have "url (Basic (sample_worker ''b'')) \<notin> url ` set [Basic (sample_worker ''a'')]"
    by (simp add: url_def metadata_def sample_worker_def build_def builder_new_def)
  then show ?thesis using ring_minimal_disruption [OF u] u by blast
qed

end
