(* ===== verification/Policies.thy ===== *)
theory Policies
  imports Hash_Ring "HOL-Library.Multiset"
begin

text \<open>
  The load balancing interface of \<open>src/gateway/src/policies/mod.rs\<close> as a locale, and the simple
  policies \<open>random.rs\<close>, \<open>round_robin.rs\<close> and \<open>power_of_two.rs\<close> as its instances.

  A policy selects an index into a slice of workers.  Checking a worker asks its circuit breaker,
  which may move from open to half open, so a selection returns the workers as well.  The clock
  gives each worker's check its two readings; a random generator is a function from the size of
  the range to the number drawn, one argument per draw.
\<close>

section \<open>Shared helpers\<close>

type_synonym clock = "nat \<Rightarrow> u64 \<times> u64"

record select_worker_info =
  request_text :: "ustr option"
  tokens :: "u32 list option"
  headers :: "header_map option"
  info_hash_ring :: "hash_ring option"

definition check_at :: "clock \<Rightarrow> nat \<Rightarrow> worker \<Rightarrow> bool \<times> worker" where
  "check_at clk i w = is_available (fst (clk i)) (snd (clk i)) w"

fun healthy_from :: "clock \<Rightarrow> nat \<Rightarrow> worker list \<Rightarrow> nat list \<times> worker list" where
  "healthy_from clk i [] = ([], [])"
| "healthy_from clk i (w # ws) =
     (let (ok, w') = check_at clk i w; (is, ws') = healthy_from clk (Suc i) ws in
      (if ok then i # is else is, w' # ws'))"

definition get_healthy_worker_indices :: "clock \<Rightarrow> worker list \<Rightarrow> nat list \<times> worker list" where
  "get_healthy_worker_indices clk workers = healthy_from clk 0 workers"

definition normalize_model_key :: "string \<Rightarrow> string \<Rightarrow> string" where
  "normalize_model_key unknown_id m = (if m = [] then unknown_id else m)"

definition available :: "clock \<Rightarrow> worker list \<Rightarrow> nat \<Rightarrow> bool" where
  "available clk ws i \<longleftrightarrow> i < length ws \<and> fst (check_at clk i (ws ! i))"

section \<open>Policies\<close>

definition random_select :: "rng \<Rightarrow> clock \<Rightarrow> worker list \<Rightarrow> nat option \<times> worker list" where
  "random_select rng clk workers =
     (let (healthy_indices, workers) = get_healthy_worker_indices clk workers in
      if healthy_indices = [] then (None, workers)
      else (Some (healthy_indices ! rng (length healthy_indices)), workers))"

record round_robin_policy =
  rr_counter :: usize

definition round_robin_new :: round_robin_policy where
  "round_robin_new = \<lparr> rr_counter = 0 \<rparr>"

definition round_robin_select ::
    "clock \<Rightarrow> worker list \<Rightarrow> round_robin_policy \<Rightarrow> nat option \<times> worker list \<times> round_robin_policy" where
  "round_robin_select clk workers p =
     (let (healthy_indices, workers) = get_healthy_worker_indices clk workers in
      if healthy_indices = [] then (None, workers, p)
      else
        let count = rr_counter p;
            selected_idx = unat count mod length healthy_indices in
        (Some (healthy_indices ! selected_idx), workers, p\<lparr> rr_counter := count + 1 \<rparr>))"

definition round_robin_reset :: "round_robin_policy \<Rightarrow> round_robin_policy" where
  "round_robin_reset p = p\<lparr> rr_counter := 0 \<rparr>"

record power_of_two_policy =
  cached_loads :: "(string \<times> int) list"

definition power_of_two_new :: power_of_two_policy where
  "power_of_two_new = \<lparr> cached_loads = [] \<rparr>"

text \<open>Token loads when both are cached, request counts (read as signed) otherwise.\<close>

definition compare_loads :: "power_of_two_policy \<Rightarrow> worker \<Rightarrow> worker \<Rightarrow> int \<times> int" where
  "compare_loads p w1 w2 =
     (case (map_get (cached_loads p) (url w1), map_get (cached_loads p) (url w2)) of
        (Some t1, Some t2) \<Rightarrow> (t1, t2)
      | _ \<Rightarrow> (sint (get_load w1), sint (get_load w2)))"

definition power_of_two_select ::
    "rng \<Rightarrow> rng \<Rightarrow> clock \<Rightarrow> worker list \<Rightarrow> power_of_two_policy \<Rightarrow> nat option \<times> worker list" where
  "power_of_two_select rng1 rng2 clk workers p =
     (let (healthy_indices, workers) = get_healthy_worker_indices clk workers in
      if healthy_indices = [] then (None, workers)
      else if length healthy_indices = 1 then (Some (healthy_indices ! 0), workers)
      else
        let n = length healthy_indices;
            idx1 = rng1 n;
            idx2 = (idx1 + 1 + rng2 (n - 1)) mod n;
            worker_idx1 = healthy_indices ! idx1;
            worker_idx2 = healthy_indices ! idx2;
            (load1, load2) = compare_loads p (workers ! worker_idx1) (workers ! worker_idx2);
            selected_idx = (if load1 \<le> load2 then worker_idx1 else worker_idx2) in
        (Some selected_idx, workers[selected_idx := increment_processed (workers ! selected_idx)]))"

definition power_of_two_update_loads :: "(string \<times> int) list \<Rightarrow> power_of_two_policy \<Rightarrow> power_of_two_policy" where
  "power_of_two_update_loads loads p = p\<lparr> cached_loads := loads \<rparr>"

section \<open>The available workers\<close>

lemma healthy_from_Cons:
  "fst (healthy_from clk k (w # ws)) =
     (if fst (check_at clk k w) then [k] else []) @ fst (healthy_from clk (Suc k) ws)"
  "snd (healthy_from clk k (w # ws)) = snd (check_at clk k w) # snd (healthy_from clk (Suc k) ws)"
  by (simp_all add: split_beta)

lemma healthy_from_mem:
  "j \<in> set (fst (healthy_from clk k ws)) \<longleftrightarrow> k \<le> j \<and> j - k < length ws \<and> fst (check_at clk j (ws ! (j - k)))"
proof (induction ws arbitrary: k)
  case (Cons w ws)
  show ?case
  proof (cases "j = k")
    case False
    then have "k \<le> j \<longleftrightarrow> Suc k \<le> j" "k \<le> j \<Longrightarrow> j - k = Suc (j - Suc k)" by auto
    then show ?thesis using Cons [of "Suc k"] False by (auto simp: healthy_from_Cons simp del: healthy_from.simps)
  qed (use Cons [of "Suc k"] in \<open>auto simp: healthy_from_Cons simp del: healthy_from.simps\<close>)
qed simp

lemma healthy_from_distinct: "distinct (fst (healthy_from clk k ws))"
proof (induction ws arbitrary: k)
  case (Cons w ws)
  have "k \<notin> set (fst (healthy_from clk (Suc k) ws))" by (simp add: healthy_from_mem)
  then show ?case using Cons by (simp add: healthy_from_Cons del: healthy_from.simps)
qed simp

lemma healthy_from_workers:
  "length (snd (healthy_from clk k ws)) = length ws \<and>
   (i < length ws \<longrightarrow> snd (healthy_from clk k ws) ! i = snd (check_at clk (k + i) (ws ! i)))"
proof (induction ws arbitrary: k i)
  case (Cons w ws)
  show ?case
    using Cons [of "Suc k" "i - 1"] by (cases i) (simp_all add: healthy_from_Cons del: healthy_from.simps)
qed simp

lemma healthy_indices_set: "i \<in> set (fst (get_healthy_worker_indices clk ws)) \<longleftrightarrow> available clk ws i"
  by (simp add: get_healthy_worker_indices_def available_def healthy_from_mem)

lemma healthy_indices_distinct: "distinct (fst (get_healthy_worker_indices clk ws))"
  by (simp add: get_healthy_worker_indices_def healthy_from_distinct)

lemma checked_workers: "i < length ws \<Longrightarrow> snd (get_healthy_worker_indices clk ws) ! i = snd (check_at clk i (ws ! i))"
  using healthy_from_workers [of clk 0 ws i] by (simp add: get_healthy_worker_indices_def)

lemma length_checked [simp]: "length (snd (get_healthy_worker_indices clk ws)) = length ws"
  using healthy_from_workers [of clk 0 ws] by (simp add: get_healthy_worker_indices_def)

lemma healthy_indices_empty:
  "fst (get_healthy_worker_indices clk ws) = [] \<longleftrightarrow> (\<forall>i. \<not> available clk ws i)"
  using healthy_indices_set [of _ clk ws] by (cases "fst (get_healthy_worker_indices clk ws)") auto

lemma checked_worker_keeps:
  assumes "i < length ws"
  shows "url (snd (get_healthy_worker_indices clk ws) ! i) = url (ws ! i)"
    "get_load (snd (get_healthy_worker_indices clk ws) ! i) = get_load (ws ! i)"
    "is_healthy (snd (get_healthy_worker_indices clk ws) ! i) = is_healthy (ws ! i)"
  using assms by (simp_all add: checked_workers check_at_def)

section \<open>The interface\<close>

text \<open>
  What a caller relies on: a selected index is within the slice.  An availability-aware policy
  also promises that the selected worker passed its checks and that it finds one when there is
  one.  \<open>select\<close> stands for a policy at a state with its sources of randomness.
\<close>

locale load_balancing_policy =
  fixes select :: "clock \<Rightarrow> worker list \<Rightarrow> nat option \<times> worker list"
  assumes select_bound: "select clk ws = (Some i, ws') \<Longrightarrow> i < length ws"
begin

text \<open>The caller's step: index the slice with the selection; it never panics.\<close>

lemma selected_worker:
  assumes "select clk ws = (Some i, ws')"
  shows "ws ! i \<in> set ws"
  using select_bound [OF assms] by simp

lemma empty_slice: "fst (select clk []) = None"
  using select_bound [of clk "[]"] by (cases "select clk []"; cases "fst (select clk [])") auto

end

locale available_policy = load_balancing_policy +
  assumes select_available: "select clk ws = (Some i, ws') \<Longrightarrow> available clk ws i"
    and select_total: "available clk ws i \<Longrightarrow> fst (select clk ws) \<noteq> None"
begin

lemma select_None_iff: "fst (select clk ws) = None \<longleftrightarrow> (\<forall>i. \<not> available clk ws i)"
proof (cases "fst (select clk ws)")
  case None
  then show ?thesis using select_total [of clk ws] by auto
next
  case (Some i)
  then show ?thesis using select_available [of clk ws i "snd (select clk ws)"] by (cases "select clk ws") auto
qed

text \<open>The router's step: of the selected worker, health and breaker admit the request.\<close>

lemma selected_admits:
  assumes "select clk ws = (Some i, ws')"
  shows "is_healthy (ws ! i) \<and> fst (breaker_can_execute (fst (clk i)) (snd (clk i)) (ws ! i))"
  using select_available [OF assms] by (auto simp: available_def check_at_def is_available_def split: if_splits)

lemma sole_available:
  assumes "available clk ws i" "\<And>j. available clk ws j \<Longrightarrow> j = i"
  shows "fst (select clk ws) = Some i"
proof -
  obtain j where "fst (select clk ws) = Some j" using select_total [OF assms(1)] by auto
  moreover from this have "j = i" using assms(2) select_available [of clk ws j "snd (select clk ws)"] by (metis prod.collapse)
  ultimately show ?thesis by simp
qed

end

section \<open>The instances\<close>

lemma random_select_fst:
  "fst (random_select rng clk ws) =
     (let is = fst (get_healthy_worker_indices clk ws) in if is = [] then None else Some (is ! rng (length is)))"
  by (simp add: random_select_def Let_def split_beta)

lemma random_available:
  assumes "rng_ok rng"
  shows "fst (random_select rng clk ws) = Some i \<Longrightarrow> available clk ws i"
    and "available clk ws i \<Longrightarrow> fst (random_select rng clk ws) \<noteq> None"
  using rng_nth [OF assms, of "fst (get_healthy_worker_indices clk ws)"] healthy_indices_set [of _ clk ws]
  by (auto simp: random_select_fst Let_def healthy_indices_empty [symmetric] split: if_splits)

lemma round_robin_fst:
  "fst (round_robin_select clk ws p) =
     (let is = fst (get_healthy_worker_indices clk ws) in
      if is = [] then None else Some (is ! (unat (rr_counter p) mod length is)))"
  by (simp add: round_robin_select_def Let_def split_beta)

lemma round_robin_available:
  "fst (round_robin_select clk ws p) = Some i \<Longrightarrow> available clk ws i"
  "available clk ws i \<Longrightarrow> fst (round_robin_select clk ws p) \<noteq> None"
proof -
  let ?is = "fst (get_healthy_worker_indices clk ws)"
  assume "fst (round_robin_select clk ws p) = Some i"
  then have "?is \<noteq> []" "i = ?is ! (unat (rr_counter p) mod length ?is)"
    by (auto simp: round_robin_fst Let_def split: if_splits)
  then have "i \<in> set ?is" by simp
  then show "available clk ws i" by (simp add: healthy_indices_set)
next
  assume "available clk ws i"
  then show "fst (round_robin_select clk ws p) \<noteq> None"
    using healthy_indices_empty [of clk ws] by (auto simp: round_robin_fst Let_def)
qed

lemma two_choices:
  assumes "rng_ok rng1" "rng_ok rng2" "1 < n"
  shows "rng1 n < n" "(rng1 n + 1 + rng2 (n - 1)) mod n < n" "(rng1 n + 1 + rng2 (n - 1)) mod n \<noteq> rng1 n"
proof -
  show i: "rng1 n < n" and "(rng1 n + 1 + rng2 (n - 1)) mod n < n" using assms rng_okD [of rng1 n] by auto
  have j: "rng2 (n - 1) < n - 1" using assms(2,3) rng_okD [of rng2 "n - 1"] by simp
  show "(rng1 n + 1 + rng2 (n - 1)) mod n \<noteq> rng1 n"
  proof (cases "rng1 n + 1 + rng2 (n - 1) < n")
    case False
    then have "(rng1 n + 1 + rng2 (n - 1)) mod n = rng1 n + 1 + rng2 (n - 1) - n"
      using i j le_mod_geq [of n "rng1 n + 1 + rng2 (n - 1)"] by simp
    then show ?thesis using i j False by linarith
  qed simp
qed

lemma power_of_two_fst:
  "fst (power_of_two_select rng1 rng2 clk ws p) =
     (let is = fst (get_healthy_worker_indices clk ws); ws' = snd (get_healthy_worker_indices clk ws); n = length is in
      if is = [] then None else if n = 1 then Some (is ! 0)
      else
        let i = is ! rng1 n; j = is ! ((rng1 n + 1 + rng2 (n - 1)) mod n);
            (l1, l2) = compare_loads p (ws' ! i) (ws' ! j) in
        Some (if l1 \<le> l2 then i else j))"
  by (simp add: power_of_two_select_def Let_def split_beta)

lemma power_of_two_available:
  assumes "rng_ok rng1" "rng_ok rng2"
  shows "fst (power_of_two_select rng1 rng2 clk ws p) = Some i \<Longrightarrow> available clk ws i"
    and "available clk ws i \<Longrightarrow> fst (power_of_two_select rng1 rng2 clk ws p) \<noteq> None"
proof -
  let ?is = "fst (get_healthy_worker_indices clk ws)"
  assume sel: "fst (power_of_two_select rng1 rng2 clk ws p) = Some i"
  then have ne: "?is \<noteq> []" by (auto simp: power_of_two_fst)
  have "i \<in> set ?is"
  proof (cases "length ?is = 1")
    case True
    then show ?thesis using sel ne by (auto simp: power_of_two_fst)
  next
    case False
    then have "1 < length ?is" using ne by (cases ?is) auto
    then show ?thesis
      using sel False ne two_choices(1,2) [OF assms, of "length ?is"]
      by (auto simp: power_of_two_fst Let_def split: prod.splits if_splits)
  qed
  then show "available clk ws i" by (simp add: healthy_indices_set)
next
  assume "available clk ws i"
  then show "fst (power_of_two_select rng1 rng2 clk ws p) \<noteq> None"
    using healthy_indices_set [of i clk ws] by (auto simp: power_of_two_fst Let_def split: prod.splits)
qed

text \<open>
  A draw of the random policies is a function bounded by its range; the identity-free instance
  \<open>\<lambda>n. m mod n\<close> covers every draw.  The three policies implement the interface.
\<close>

definition draw :: "nat \<Rightarrow> rng" where
  "draw m n = m mod n"

lemma draw_ok: "rng_ok (draw m)"
  by (simp add: rng_ok_def draw_def)

lemma available_policyI:
  assumes "\<And>clk ws i. fst (select clk ws) = Some i \<Longrightarrow> available clk ws i"
    and "\<And>clk ws i. available clk ws i \<Longrightarrow> fst (select clk ws) \<noteq> None"
  shows "available_policy select"
proof
  fix clk ws i ws' assume sel: "select clk ws = (Some i, ws')"
  then show "available clk ws i" using assms(1) [of clk ws i] by simp
  then show "i < length ws" by (simp add: available_def)
qed (use assms(2) in blast)

interpretation random: available_policy "random_select (draw m)"
  by (rule available_policyI) (use random_available [OF draw_ok] in blast)+

interpretation round_robin: available_policy
    "\<lambda>clk ws. (fst (round_robin_select clk ws p), fst (snd (round_robin_select clk ws p)))"
  by (rule available_policyI) (use round_robin_available in auto)

interpretation power_of_two: available_policy "\<lambda>clk ws. power_of_two_select (draw m) (draw m') clk ws p"
  by (rule available_policyI) (use power_of_two_available [OF draw_ok draw_ok] in blast)+

section \<open>Properties\<close>

text \<open>
  The random, round-robin and power-of-two policies select a worker exactly when one is
  available, and the worker they select is within the slice, healthy, and admitted by its circuit
  breaker.
\<close>

theorem policies_select_available:
  assumes "sel \<in> {random_select (draw m), (\<lambda>clk ws. (fst (round_robin_select clk ws rr), fst (snd (round_robin_select clk ws rr)))),
      (\<lambda>clk ws. power_of_two_select (draw m) (draw m') clk ws p)}"
  shows "(fst (sel clk ws) = None \<longleftrightarrow> (\<forall>i. \<not> available clk ws i)) \<and>
    (\<forall>i. fst (sel clk ws) = Some i \<longrightarrow> i < length ws \<and> is_healthy (ws ! i) \<and>
       fst (breaker_can_execute (fst (clk i)) (snd (clk i)) (ws ! i)))"
proof -
  have "available_policy sel"
    using assms random.available_policy_axioms round_robin.available_policy_axioms power_of_two.available_policy_axioms
    by blast
  then show ?thesis
    using available_policy.select_None_iff [of sel clk ws] available_policy.selected_admits [of sel clk ws]
      load_balancing_policy.select_bound [OF available_policy.axioms(1), of sel clk ws]
    by (metis prod.collapse)
qed

theorem policies_select_available_witness:
  "fst (random_select (draw 7) (\<lambda>i. (0, 0)) [Basic (sample_worker ''a'')]) = None \<longleftrightarrow>
     (\<forall>i. \<not> available (\<lambda>i. (0, 0)) [Basic (sample_worker ''a'')] i)"
  using policies_select_available [of "random_select (draw 7)" 7 round_robin_new 0 power_of_two_new "\<lambda>i. (0, 0)" "[Basic (sample_worker ''a'')]"]
  by blast

text \<open>A sequence of requests through the round-robin policy.\<close>

fun round_robin_run :: "(clock \<times> worker list) list \<Rightarrow> round_robin_policy \<Rightarrow> nat option list \<times> round_robin_policy" where
  "round_robin_run [] p = ([], p)"
| "round_robin_run ((clk, ws) # reqs) p =
     (let (r, ws', p) = round_robin_select clk ws p; (rs, p) = round_robin_run reqs p in (r # rs, p))"

lemma round_robin_run_eq:
  assumes "\<forall>(clk, ws)\<in>set reqs. fst (get_healthy_worker_indices clk ws) = is" "is \<noteq> []"
    and "unat (rr_counter p) + length reqs < 2 ^ 64"
  shows "fst (round_robin_run reqs p) = map (\<lambda>k. Some (is ! ((unat (rr_counter p) + k) mod length is))) [0..<length reqs]"
  using assms
proof (induction reqs p rule: round_robin_run.induct)
  case (2 clk ws reqs p)
  let ?p = "p\<lparr>rr_counter := rr_counter p + 1\<rparr>"
  have "round_robin_select clk ws p =
      (Some (is ! (unat (rr_counter p) mod length is)), snd (get_healthy_worker_indices clk ws), ?p)"
    using 2(2,3) by (simp add: round_robin_select_def Let_def split_beta)
  then have run: "fst (round_robin_run ((clk, ws) # reqs) p) =
      Some (is ! (unat (rr_counter p) mod length is)) # fst (round_robin_run reqs ?p)"
    by (simp add: split_beta)
  have c: "unat (rr_counter ?p) = Suc (unat (rr_counter p))"
    using 2(4) by (simp add: unat_word_ariths)
  have "fst (round_robin_run reqs ?p) = map (\<lambda>k. Some (is ! ((unat (rr_counter ?p) + k) mod length is))) [0..<length reqs]"
    using 2 c \<open>round_robin_select clk ws p = _\<close> by (intro 2(1) [OF _ refl refl]) auto
  moreover have "[0..<length ((clk, ws) # reqs)] = 0 # map Suc [0..<length reqs]"
    by (simp add: map_Suc_upt upt_conv_Cons del: upt_Suc)
  ultimately show ?case unfolding run c by (simp add: comp_def del: upt_Suc)
qed simp

lemma rotation_rotate: "map (\<lambda>k. xs ! ((c + k) mod length xs)) [0..<length xs] = rotate c xs"
  by (rule nth_equalityI) (simp_all add: nth_rotate)

lemma mset_rotation: "mset (rotate c xs) = mset xs"
  unfolding rotate_drop_take mset_append by (metis append_take_drop_id mset_append union_commute)

text \<open>
  C24: round robin is fair: over as many consecutive requests as there are available workers, with
  the same workers available throughout (and before the counter wraps around), every available
  worker is selected exactly once.
\<close>

theorem round_robin_fair:
  assumes "\<forall>(clk, ws)\<in>set reqs. fst (get_healthy_worker_indices clk ws) = is"
    and "length reqs = length is" and "unat (rr_counter p) + length is < 2 ^ 64"
  shows "mset (fst (round_robin_run reqs p)) = mset (map Some is)"
proof (cases "is = []")
  case False
  have "fst (round_robin_run reqs p) = map Some (map (\<lambda>k. is ! ((unat (rr_counter p) + k) mod length is)) [0..<length is])"
    using round_robin_run_eq [OF assms(1) False, of p] assms(2,3) by simp
  then show ?thesis unfolding rotation_rotate by (simp add: mset_rotation)
qed (use assms(2) in simp)

theorem round_robin_fair_witness:
  "mset (fst (round_robin_run (replicate 2 (\<lambda>i. (0, 0), [Basic (sample_worker ''a''), Basic (sample_worker ''b'')])) round_robin_new)) =
     mset (map Some [0, 1])"
proof (rule round_robin_fair)
  show "\<forall>(clk, ws)\<in>set (replicate 2 (\<lambda>i. (0, 0), [Basic (sample_worker ''a''), Basic (sample_worker ''b'')])).
      fst (get_healthy_worker_indices clk ws) = [0, 1]"
    by (simp add: get_healthy_worker_indices_def check_at_def is_available_def breaker_can_execute_def is_healthy_def
      sample_worker_def build_def builder_new_def with_config_and_label_def can_execute_def state_def
      check_and_update_state_returning_def from_int_def Let_def)
qed (simp_all add: round_robin_new_def)

text \<open>
  The power-of-two policy never sends a request to the more loaded of its two candidates: with
  at least two workers available there is another available worker that is not less loaded than
  the selected one, by cached token loads if both have them and by request counts otherwise.
\<close>

theorem power_of_two_not_worse:
  assumes "fst (power_of_two_select (draw m) (draw m') clk ws p) = Some i"
    and "available clk ws a" and "available clk ws b" and "a \<noteq> b"
  shows "\<exists>j. available clk ws j \<and> j \<noteq> i \<and>
    (let (l1, l2) = compare_loads p (ws ! i) (ws ! j) in l1 \<le> l2)"
proof -
  let ?is = "fst (get_healthy_worker_indices clk ws)" and ?ws = "snd (get_healthy_worker_indices clk ws)"
  let ?n = "length ?is"
  have two: "1 < ?n"
  proof -
    have "{a, b} \<subseteq> set ?is" using assms(2,3) by (simp add: healthy_indices_set)
    then have "card {a, b} \<le> card (set ?is)" by (rule card_mono [rotated]) simp
    then show ?thesis using card_length [of ?is] assms(4) by simp
  qed
  define x where "x = draw m ?n"
  define y where "y = (x + 1 + draw m' (?n - 1)) mod ?n"
  have xy: "x < ?n" "y < ?n" "y \<noteq> x"
    unfolding x_def y_def by (rule two_choices [OF draw_ok draw_ok two])+
  have ne: "?is ! x \<noteq> ?is ! y" using xy healthy_indices_distinct [of clk ws] by (simp add: nth_eq_iff_index_eq)
  have av: "available clk ws (?is ! x)" "available clk ws (?is ! y)"
    using xy healthy_indices_set [of _ clk ws] by (metis nth_mem)+
  obtain l1 l2 where l: "compare_loads p (?ws ! (?is ! x)) (?ws ! (?is ! y)) = (l1, l2)" by fastforce
  have i: "i = (if l1 \<le> l2 then ?is ! x else ?is ! y)"
    using assms(1) two unfolding power_of_two_fst Let_def x_def [symmetric] y_def [symmetric] l by (auto split: if_splits)
  have same: "compare_loads p (?ws ! c) (?ws ! d) = compare_loads p (ws ! c) (ws ! d)"
    if "available clk ws c" "available clk ws d" for c d
    using that checked_worker_keeps [of c ws clk] checked_worker_keeps [of d ws clk]
    by (simp add: compare_loads_def available_def split: option.splits)
  have swap: "compare_loads p w v = (snd (compare_loads p v w), fst (compare_loads p v w))" for v w
    by (simp add: compare_loads_def split: option.splits)
  show ?thesis
  proof (cases "l1 \<le> l2")
    case True
    then show ?thesis using i l ne av same by (intro exI [of _ "?is ! y"]) auto
  next
    case False
    then show ?thesis using i l ne av same swap [of "ws ! (?is ! y)" "ws ! (?is ! x)"]
      by (intro exI [of _ "?is ! x"]) auto
  qed
qed

lemma sample_healthy:
  "fst (get_healthy_worker_indices (\<lambda>i. (0, 0)) [Basic (sample_worker a), Basic (sample_worker b)]) = [0, 1]"
  by (simp add: get_healthy_worker_indices_def check_at_def is_available_def breaker_can_execute_def is_healthy_def
    sample_worker_def build_def builder_new_def with_config_and_label_def can_execute_def state_def
    check_and_update_state_returning_def from_int_def Let_def)

lemma sample_single: "fst (get_healthy_worker_indices (\<lambda>i. (0, 0)) [Basic (sample_worker a)]) = [0]"
  by (simp add: get_healthy_worker_indices_def check_at_def is_available_def breaker_can_execute_def is_healthy_def
    sample_worker_def build_def builder_new_def with_config_and_label_def can_execute_def state_def
    check_and_update_state_returning_def from_int_def Let_def)

theorem power_of_two_not_worse_witness:
  "\<exists>i j. fst (power_of_two_select (draw 1) (draw 0) (\<lambda>i. (0, 0)) [Basic (sample_worker ''a''), Basic (sample_worker ''b'')] power_of_two_new) = Some i \<and>
     j \<noteq> i \<and> available (\<lambda>i. (0, 0)) [Basic (sample_worker ''a''), Basic (sample_worker ''b'')] j"
proof -
  let ?ws = "[Basic (sample_worker ''a''), Basic (sample_worker ''b'')]" and ?clk = "\<lambda>i. (0, 0) :: u64 \<times> u64"
  have av: "available ?clk ?ws 0" "available ?clk ?ws 1"
    by (simp_all add: healthy_indices_set [symmetric] sample_healthy)
  obtain i where i: "fst (power_of_two_select (draw 1) (draw 0) ?clk ?ws power_of_two_new) = Some i"
    using power_of_two_available(2) [OF draw_ok draw_ok av(1)] by blast
  from power_of_two_not_worse [OF i av] i show ?thesis by auto
qed

end
