(* ===== verification/Hash_Policies.thy ===== *)
theory Hash_Policies
  imports Policies
begin

text \<open>
  The policies on the hash ring: \<open>src/gateway/src/policies/consistent_hashing.rs\<close> and
  \<open>prefix_hash.rs\<close>.

  Both look at \<open>is_healthy\<close> only, so their selections change no worker.  \<open>blake3\<close> and \<open>xxh3\<close> are
  arguments.  The floating-point comparison of \<open>load_ok\<close> is on rational numbers with the rounding of
  each operation as an argument \<open>rd\<close>; the theorems hold for every rounding.
\<close>

section \<open>Model: consistent hashing\<close>

datatype ch_branch = CH_NoHealthyWorkers | TargetWorkerHit | TargetWorkerMiss | RoutingKeyHit | RandomFallback

text \<open>The map from URL to index of the healthy workers, collected in order.\<close>

definition healthy_url_to_idx :: "worker list \<Rightarrow> (string \<times> nat) list" where
  "healthy_url_to_idx workers =
     foldl (\<lambda>m i. map_insert (url (workers ! i)) i m) [] (indices_where is_healthy workers)"

definition find_by_consistent_hash ::
    "blake3 \<Rightarrow> worker list \<Rightarrow> select_worker_info \<Rightarrow> string \<Rightarrow> nat option" where
  "find_by_consistent_hash blake3 workers info key =
     (let m = healthy_url_to_idx workers in
      if m = [] then None
      else case info_hash_ring info of
        Some ring \<Rightarrow>
          do {
            u \<leftarrow> find_healthy_url blake3 ring key (\<lambda>u. contains_key m u);
            map_get m u
          }
      | None \<Rightarrow>
          let healthy_indices = sort (map snd m);
              hash_val = from_le_bytes (take 8 (blake3 (str_bytes key)));
              idx = hash_val mod length healthy_indices in
          Some (healthy_indices ! idx))"

definition implicit_key :: "select_worker_info \<Rightarrow> string option" where
  "implicit_key info =
     do {
       h \<leftarrow> headers info;
       v \<leftarrow> or_else (or_else (header_get h ''authorization'') (header_get h ''x-forwarded-for''))
             (header_get h ''cookie'');
       s \<leftarrow> to_str v;
       if s \<noteq> [] then Some s else None
     }"

definition ch_select_worker_impl ::
    "blake3 \<Rightarrow> rng \<Rightarrow> worker list \<Rightarrow> select_worker_info \<Rightarrow> nat option \<times> ch_branch" where
  "ch_select_worker_impl blake3 rng workers info =
     (if workers = [] then (None, CH_NoHealthyWorkers)
      else
        case extract_target_worker (headers info) of
          Some idx_str \<Rightarrow>
            (case parse_usize idx_str of
               Some idx \<Rightarrow>
                 if idx < length workers \<and> is_healthy (workers ! idx) then (Some idx, TargetWorkerHit)
                 else (None, TargetWorkerMiss)
             | None \<Rightarrow> (None, TargetWorkerMiss))
        | None \<Rightarrow>
            (case or_else (extract_routing_key (headers info)) (implicit_key info) of
               Some key \<Rightarrow>
                 (case find_by_consistent_hash blake3 workers info key of
                    Some idx \<Rightarrow> (Some idx, RoutingKeyHit)
                  | None \<Rightarrow> (None, CH_NoHealthyWorkers))
             | None \<Rightarrow>
                 let healthy_count = length (filter is_healthy workers) in
                 if healthy_count = 0 then (None, CH_NoHealthyWorkers)
                 else (Some (indices_where is_healthy workers ! rng healthy_count), RandomFallback)))"

definition ch_select_worker :: "blake3 \<Rightarrow> rng \<Rightarrow> worker list \<Rightarrow> select_worker_info \<Rightarrow> nat option" where
  "ch_select_worker blake3 rng workers info = fst (ch_select_worker_impl blake3 rng workers info)"

section \<open>Model: prefix hash\<close>

record prefix_hash_config =
  prefix_token_count :: nat
  load_factor :: rat

definition prefix_hash_config_default :: prefix_hash_config where
  "prefix_hash_config_default = \<lparr> prefix_token_count = 256, load_factor = 5 / 4 \<rparr>"

datatype ph_branch = PH_NoHealthyWorkers | NoTokens | RingHit | LoadBalanceWalk | FallbackLeastLoad

definition compute_prefix_hash :: "(nat list \<Rightarrow> u64) \<Rightarrow> prefix_hash_config \<Rightarrow> u32 list \<Rightarrow> u64" where
  "compute_prefix_hash xxh3 cfg toks =
     (let prefix_len = min (length toks) (prefix_token_count cfg) in
      xxh3 (concat (map (\<lambda>t. to_le_bytes 4 (unat t)) (take prefix_len toks))))"

definition load_ok :: "(rat \<Rightarrow> rat) \<Rightarrow> prefix_hash_config \<Rightarrow> nat \<Rightarrow> nat \<Rightarrow> nat \<Rightarrow> bool" where
  "load_ok rd cfg worker_load total_load num_workers =
     (if total_load = 0 \<or> num_workers = 0 then True
      else
        let avg_load = rd (rd (of_nat (total_load + 1)) / rd (of_nat num_workers));
            threshold = rd (avg_load * load_factor cfg) in
        rd (of_nat worker_load) \<le> threshold)"

text \<open>\<open>{:016x}\<close>.\<close>

definition show_hex16 :: "u64 \<Rightarrow> string" where
  "show_hex16 n = (let s = show_hex (unat n) in replicate (16 - length s) (CHR ''0'') @ s)"

definition find_worker_with_load_balance ::
    "blake3 \<Rightarrow> (rat \<Rightarrow> rat) \<Rightarrow> prefix_hash_config \<Rightarrow> worker list \<Rightarrow> select_worker_info \<Rightarrow> u64 \<Rightarrow> nat option \<times> ph_branch" where
  "find_worker_with_load_balance blake3 rd cfg workers info prefix_hash =
     (let healthy_workers = indices_where is_healthy workers;
          load_of = (\<lambda>i. unat (get_load (workers ! i))) in
      if healthy_workers = [] then (None, PH_NoHealthyWorkers)
      else
        let total_load = sum_list (map load_of healthy_workers);
            num_workers = length healthy_workers;
            m = healthy_url_to_idx workers;
            on_ring =
              (case info_hash_ring info of
                 None \<Rightarrow> None
               | Some ring \<Rightarrow>
                   do { u \<leftarrow> find_healthy_url blake3 ring (show_hex16 prefix_hash) (\<lambda>u. contains_key m u); map_get m u }) in
        case on_ring of
          Some idx \<Rightarrow>
            if load_ok rd cfg (load_of idx) total_load num_workers then (Some idx, RingHit)
            else
              (case min_by_key load_of (filter (\<lambda>i. load_ok rd cfg (load_of i) total_load num_workers) healthy_workers) of
                 Some i \<Rightarrow> (Some i, LoadBalanceWalk)
               | None \<Rightarrow> (Some idx, LoadBalanceWalk))
        | None \<Rightarrow> (min_by_key load_of healthy_workers, FallbackLeastLoad))"

definition ph_select_worker_impl ::
    "blake3 \<Rightarrow> (nat list \<Rightarrow> u64) \<Rightarrow> (rat \<Rightarrow> rat) \<Rightarrow> prefix_hash_config \<Rightarrow> worker list \<Rightarrow> select_worker_info \<Rightarrow> nat option \<times> ph_branch" where
  "ph_select_worker_impl blake3 xxh3 rd cfg workers info =
     (if workers = [] then (None, PH_NoHealthyWorkers)
      else
        case tokens info of
          Some t \<Rightarrow>
            if t \<noteq> [] then
              find_worker_with_load_balance blake3 rd cfg workers info (compute_prefix_hash xxh3 cfg t)
            else (None, NoTokens)
        | None \<Rightarrow> (None, NoTokens))"

definition ph_select_worker ::
    "blake3 \<Rightarrow> (nat list \<Rightarrow> u64) \<Rightarrow> (rat \<Rightarrow> rat) \<Rightarrow> prefix_hash_config \<Rightarrow> worker list \<Rightarrow> select_worker_info \<Rightarrow> nat option" where
  "ph_select_worker blake3 xxh3 rd cfg workers info = fst (ph_select_worker_impl blake3 xxh3 rd cfg workers info)"

section \<open>The map of healthy workers\<close>

definition healthy_urls :: "worker list \<Rightarrow> string set" where
  "healthy_urls ws = {url w | w. w \<in> set ws \<and> is_healthy w}"

lemma fold_url_map:
  "map_wf m \<Longrightarrow> map_wf (foldl (\<lambda>m i. map_insert (f i) i m) m is) \<and>
   (\<forall>u i. map_get (foldl (\<lambda>m i. map_insert (f i) i m) m is) u = Some i \<longrightarrow>
      (i \<in> set is \<and> f i = u) \<or> map_get m u = Some i) \<and>
   (\<forall>u. contains_key (foldl (\<lambda>m i. map_insert (f i) i m) m is) u \<longleftrightarrow> contains_key m u \<or> u \<in> f ` set is)"
proof (induction "is" arbitrary: m)
  case (Cons j js)
  from Cons.IH [of "map_insert (f j) j m"] Cons.prems show ?case by (auto split: if_splits)
qed simp

lemma healthy_map:
  "map_get (healthy_url_to_idx ws) u = Some i \<Longrightarrow> i < length ws \<and> is_healthy (ws ! i) \<and> url (ws ! i) = u"
  "contains_key (healthy_url_to_idx ws) u \<longleftrightarrow> u \<in> healthy_urls ws"
proof -
  note f = fold_url_map [of "[]" "\<lambda>i. url (ws ! i)" "indices_where is_healthy ws", folded healthy_url_to_idx_def]
  show "map_get (healthy_url_to_idx ws) u = Some i \<Longrightarrow> i < length ws \<and> is_healthy (ws ! i) \<and> url (ws ! i) = u"
    using f by (auto simp: set_indices_where)
  have "contains_key (healthy_url_to_idx ws) u \<longleftrightarrow> u \<in> (\<lambda>i. url (ws ! i)) ` {i. i < length ws \<and> is_healthy (ws ! i)}"
    using f by (simp add: set_indices_where)
  also have "\<dots> \<longleftrightarrow> (\<exists>i<length ws. is_healthy (ws ! i) \<and> url (ws ! i) = u)" by blast
  also have "\<dots> \<longleftrightarrow> u \<in> healthy_urls ws"
    unfolding healthy_urls_def mem_Collect_eq by (metis in_set_conv_nth)
  finally show "contains_key (healthy_url_to_idx ws) u \<longleftrightarrow> u \<in> healthy_urls ws" .
qed

lemma healthy_map_values: "i \<in> set (map snd (healthy_url_to_idx ws)) \<Longrightarrow> i < length ws \<and> is_healthy (ws ! i)"
proof -
  assume "i \<in> set (map snd (healthy_url_to_idx ws))"
  then obtain u where "(u, i) \<in> set (healthy_url_to_idx ws)" by auto
  moreover have "map_wf (healthy_url_to_idx ws)"
    unfolding healthy_url_to_idx_def by (rule conjunct1 [OF fold_url_map]) simp
  ultimately have "map_get (healthy_url_to_idx ws) u = Some i" by (simp add: map_get_eq)
  then show ?thesis using healthy_map(1) [of ws u i] by simp
qed

lemma healthy_map_empty: "healthy_url_to_idx ws = [] \<longleftrightarrow> healthy_urls ws = {}"
proof -
  have "healthy_url_to_idx ws = [] \<longleftrightarrow> (\<forall>u. \<not> contains_key (healthy_url_to_idx ws) u)"
    by (cases "healthy_url_to_idx ws") auto
  then show ?thesis by (auto simp: healthy_map(2))
qed

section \<open>Consistent hashing\<close>

lemma find_by_hash_sound:
  "find_by_consistent_hash blake3 ws info key = Some i \<Longrightarrow> i < length ws \<and> is_healthy (ws ! i)"
proof -
  let ?m = "healthy_url_to_idx ws"
  assume sel: "find_by_consistent_hash blake3 ws info key = Some i"
  have ne: "?m \<noteq> []" using sel by (auto simp: find_by_consistent_hash_def Let_def)
  show ?thesis
  proof (cases "info_hash_ring info")
    case None
    let ?is = "sort (map snd ?m)"
    have "i = ?is ! (from_le_bytes (take 8 (blake3 (str_bytes key))) mod length ?is)"
      using sel ne None by (auto simp: find_by_consistent_hash_def Let_def)
    moreover have "0 < length ?is" using ne by simp
    ultimately have "i \<in> set ?is" by (metis mod_less_divisor nth_mem)
    then have "i \<in> set (map snd ?m)" by simp
    then show ?thesis by (rule healthy_map_values)
  next
    case (Some ring)
    then obtain u where "map_get ?m u = Some i"
      using sel ne by (auto simp: find_by_consistent_hash_def Let_def Option.bind_eq_Some_conv)
    then show ?thesis using healthy_map(1) by blast
  qed
qed

lemma contains_healthy: "contains_key (healthy_url_to_idx ws) = (\<lambda>u. u \<in> healthy_urls ws)"
  by (rule ext) (rule healthy_map(2))

lemma find_by_hash_ring:
  assumes "info_hash_ring info = Some (hash_ring_new blake3 pool)"
  shows "find_by_consistent_hash blake3 ws info key =
    Option.bind (find_healthy_url blake3 (hash_ring_new blake3 pool) key (\<lambda>u. u \<in> healthy_urls ws))
      (map_get (healthy_url_to_idx ws))"
proof (cases "healthy_url_to_idx ws = []")
  case True
  then have "find_healthy_url blake3 (hash_ring_new blake3 pool) key (\<lambda>u. u \<in> healthy_urls ws) = None"
    by (simp add: find_on_ring_None healthy_map_empty)
  then show ?thesis using True by (simp add: find_by_consistent_hash_def)
qed (simp add: find_by_consistent_hash_def Let_def assms contains_healthy)

lemma find_by_hash_url:
  assumes "info_hash_ring info = Some (hash_ring_new blake3 pool)"
  shows "map_option (\<lambda>i. url (ws ! i)) (find_by_consistent_hash blake3 ws info key) =
    find_healthy_url blake3 (hash_ring_new blake3 pool) key (\<lambda>u. u \<in> healthy_urls ws)"
proof (cases "find_healthy_url blake3 (hash_ring_new blake3 pool) key (\<lambda>u. u \<in> healthy_urls ws)")
  case None
  then show ?thesis by (simp add: find_by_hash_ring [OF assms])
next
  case (Some u)
  then have "contains_key (healthy_url_to_idx ws) u" using find_on_ring [OF Some] by (simp add: healthy_map(2))
  then obtain i where "map_get (healthy_url_to_idx ws) u = Some i" by (auto simp: contains_key_get)
  then show ?thesis using Some healthy_map(1) [of ws u i] by (simp add: find_by_hash_ring [OF assms])
qed

lemma find_by_hash_stable:
  assumes "info_hash_ring info = Some (hash_ring_new blake3 pool)"
    and "find_by_consistent_hash blake3 ws info key = Some i"
    and "url (ws ! i) \<in> healthy_urls ws'" and "healthy_urls ws' \<subseteq> healthy_urls ws"
  shows "\<exists>j. find_by_consistent_hash blake3 ws' info key = Some j \<and> j < length ws' \<and>
    is_healthy (ws' ! j) \<and> url (ws' ! j) = url (ws ! i)"
proof -
  have "find_healthy_url blake3 (hash_ring_new blake3 pool) key (\<lambda>u. u \<in> healthy_urls ws) = Some (url (ws ! i))"
    using find_by_hash_url [OF assms(1), of ws key] assms(2) by simp
  then have "find_healthy_url blake3 (hash_ring_new blake3 pool) key (\<lambda>u. u \<in> healthy_urls ws' \<and> u \<in> healthy_urls ws) = Some (url (ws ! i))"
    using find_restrict_same [of blake3 pool key "\<lambda>u. u \<in> healthy_urls ws" "url (ws ! i)" "\<lambda>u. u \<in> healthy_urls ws'"] assms(3) by simp
  moreover have "(\<lambda>u. u \<in> healthy_urls ws' \<and> u \<in> healthy_urls ws) = (\<lambda>u. u \<in> healthy_urls ws')" using assms(4) by auto
  ultimately have "map_option (\<lambda>j. url (ws' ! j)) (find_by_consistent_hash blake3 ws' info key) = Some (url (ws ! i))"
    using find_by_hash_url [OF assms(1), of ws' key] by simp
  then show ?thesis using find_by_hash_sound by fastforce
qed

text \<open>
  Session affinity: with the ring of a pool, a routing key goes to the same worker URL for
  every slice of workers with the same healthy URLs, in whatever order, and it stays there while
  other workers come, go or turn unhealthy as long as that worker stays healthy and the healthy
  workers are among those it was chosen from.
\<close>

theorem consistent_hash_affinity:
  assumes "info_hash_ring info = Some (hash_ring_new blake3 pool)"
    and "find_by_consistent_hash blake3 ws info key = Some i"
    and "url (ws ! i) \<in> healthy_urls ws'" and "healthy_urls ws' \<subseteq> healthy_urls ws"
  shows "\<exists>j. find_by_consistent_hash blake3 ws' info key = Some j \<and> j < length ws' \<and>
    is_healthy (ws' ! j) \<and> url (ws' ! j) = url (ws ! i)"
  using find_by_hash_stable [OF assms] .

lemma sample_info_find:
  assumes "ws \<noteq> []" "\<forall>w\<in>set ws. is_healthy w"
  shows "\<exists>i. find_by_consistent_hash blake3 ws \<lparr> request_text = None, tokens = None, headers = None,
    info_hash_ring = Some (hash_ring_new blake3 ws) \<rparr> key = Some i"
proof -
  let ?info = "\<lparr> request_text = None, tokens = None, headers = None, info_hash_ring = Some (hash_ring_new blake3 ws) \<rparr>"
  have "find_healthy_url blake3 (hash_ring_new blake3 ws) key (\<lambda>u. u \<in> healthy_urls ws) \<noteq> None"
    using assms unfolding find_on_ring_None by (cases ws) (auto simp: healthy_urls_def)
  then show ?thesis using find_by_hash_url [of ?info blake3 ws ws key] by auto
qed

theorem consistent_hash_affinity_witness:
  "\<exists>i j. find_by_consistent_hash (\<lambda>b. b) [Basic (sample_worker ''a'')]
      \<lparr> request_text = None, tokens = None, headers = None, info_hash_ring = Some (hash_ring_new (\<lambda>b. b) [Basic (sample_worker ''a'')]) \<rparr> ''k'' = Some i \<and>
    find_by_consistent_hash (\<lambda>b. b) [Basic (sample_worker ''a''), Basic (sample_worker ''a'')]
      \<lparr> request_text = None, tokens = None, headers = None, info_hash_ring = Some (hash_ring_new (\<lambda>b. b) [Basic (sample_worker ''a'')]) \<rparr> ''k'' = Some j"
proof -
  let ?w = "Basic (sample_worker ''a'')"
  let ?info = "\<lparr> request_text = None, tokens = None, headers = None, info_hash_ring = Some (hash_ring_new (\<lambda>b. b) [?w]) \<rparr>"
  have h: "is_healthy ?w" by (simp add: is_healthy_def sample_worker_def build_def)
  then obtain i where i: "find_by_consistent_hash (\<lambda>b. b) [?w] ?info ''k'' = Some i"
    using sample_info_find [of "[?w]" "\<lambda>b. b" "''k''"] by auto
  have urls: "healthy_urls [?w] = {url ?w}" "healthy_urls [?w, ?w] = {url ?w}" using h by (auto simp: healthy_urls_def)
  have "url ([?w] ! i) \<in> healthy_urls [?w, ?w]" using find_by_hash_sound [OF i] urls by simp
  from consistent_hash_affinity [OF _ i this] i urls show ?thesis by force
qed

section \<open>Prefix hash\<close>

lemma take_min_length: "take (min (length xs) n) xs = take n xs"
  by (simp add: min_def)

definition worker_load :: "worker list \<Rightarrow> nat \<Rightarrow> nat" where
  "worker_load ws i = unat (get_load (ws ! i))"

definition healthy_load_ok :: "(rat \<Rightarrow> rat) \<Rightarrow> prefix_hash_config \<Rightarrow> worker list \<Rightarrow> nat \<Rightarrow> bool" where
  "healthy_load_ok rd cfg ws i =
     (let hs = indices_where is_healthy ws in
      load_ok rd cfg (worker_load ws i) (sum_list (map (worker_load ws) hs)) (length hs))"

lemma load_ok_mono:
  assumes "mono rd" "l \<le> l'" "load_ok rd cfg l' t n"
  shows "load_ok rd cfg l t n"
proof -
  have "rd (of_nat l) \<le> rd (of_nat l')" using assms(1,2) by (simp add: monoD)
  then show ?thesis using assms(3) by (auto simp: load_ok_def Let_def)
qed

text \<open>Under exact arithmetic the least load is at most the average, so it passes the check.\<close>

lemma least_load_ok:
  assumes "1 \<le> load_factor cfg" "\<forall>j\<in>set hs. l \<le> f j" "hs \<noteq> []"
  shows "load_ok (\<lambda>x. x) cfg l (sum_list (map f hs)) (length hs)"
proof -
  have "length hs * l \<le> sum_list (map f hs)"
    using assms(2) sum_list_mono [of hs "\<lambda>_. l" f] by (simp add: sum_list_triv)
  then have "(of_nat (length hs * l) :: rat) \<le> of_nat (sum_list (map f hs))" by (rule of_nat_mono)
  then have "(of_nat l :: rat) \<le> of_nat (sum_list (map f hs) + 1) / of_nat (length hs)"
    using assms(3) by (simp add: field_simps)
  also have "\<dots> \<le> of_nat (sum_list (map f hs) + 1) / of_nat (length hs) * load_factor cfg"
    using mult_left_mono [OF assms(1), of "of_nat (sum_list (map f hs) + 1) / of_nat (length hs)"] by simp
  finally show ?thesis by (auto simp: load_ok_def Let_def)
qed

lemma ph_choice_cases:
  assumes "\<exists>w\<in>set ws. is_healthy w"
  shows "\<exists>i. fst (find_worker_with_load_balance blake3 rd cfg ws info h) = Some i \<and>
    i < length ws \<and> is_healthy (ws ! i) \<and>
    (healthy_load_ok rd cfg ws i \<or> (\<forall>j\<in>set (indices_where is_healthy ws). \<not> healthy_load_ok rd cfg ws j) \<or>
     (\<forall>j\<in>set (indices_where is_healthy ws). worker_load ws i \<le> worker_load ws j))"
proof -
  let ?hs = "indices_where is_healthy ws"
  let ?m = "healthy_url_to_idx ws"
  let ?ok = "\<lambda>i. load_ok rd cfg (unat (get_load (ws ! i))) (sum_list (map (\<lambda>i. unat (get_load (ws ! i))) ?hs)) (length ?hs)"
  let ?ring = "case info_hash_ring info of None \<Rightarrow> None
     | Some ring \<Rightarrow> Option.bind (find_healthy_url blake3 ring (show_hex16 h) (\<lambda>u. contains_key ?m u)) (map_get ?m)"
  have ok: "healthy_load_ok rd cfg ws i = ?ok i" for i
    by (simp add: healthy_load_ok_def worker_load_def [abs_def] Let_def)
  have ne: "?hs \<noteq> []" using assms by (simp add: indices_where_empty)
  have hs: "i \<in> set ?hs \<longleftrightarrow> i < length ws \<and> is_healthy (ws ! i)" for i by (simp add: set_indices_where)
  show ?thesis
  proof (cases ?ring)
    case None
    obtain i where i: "min_by_key (\<lambda>i. unat (get_load (ws ! i))) ?hs = Some i"
      using min_by_key_exists [OF ne] by blast
    then have "fst (find_worker_with_load_balance blake3 rd cfg ws info h) = Some i"
      using None ne by (simp add: find_worker_with_load_balance_def Let_def)
    moreover note min_by_key_Some [OF i]
    ultimately show ?thesis using hs by (auto simp: worker_load_def)
  next
    case (Some idx)
    then have idx: "idx \<in> set ?hs" using healthy_map(1) hs
      by (auto simp: Option.bind_eq_Some_conv split: option.splits)
    show ?thesis
    proof (cases "?ok idx")
      case True
      then show ?thesis using Some ne idx hs by (auto simp: find_worker_with_load_balance_def Let_def ok)
    next
      case False
      show ?thesis
      proof (cases "min_by_key (\<lambda>i. unat (get_load (ws ! i))) (filter ?ok ?hs)")
        case None
        then have "\<forall>j\<in>set ?hs. \<not> ?ok j" by (simp add: min_by_key_None filter_empty_conv)
        then show ?thesis using Some None False ne idx hs by (auto simp: find_worker_with_load_balance_def Let_def ok)
      next
        case (Some i)
        from min_by_key_Some [OF this] have "i \<in> set ?hs" "?ok i" by auto
        then show ?thesis using Some False ne hs \<open>?ring = Some idx\<close>
          by (auto simp: find_worker_with_load_balance_def Let_def ok)
      qed
    qed
  qed
qed

text \<open>
  For a request with tokens, and as soon as a worker is healthy, the prefix-hash policy
  selects a healthy worker whose load passes the load check unless that of every healthy worker
  fails it; with exact arithmetic and a load factor of at least one it always passes.  Requests
  that agree on the first \<open>prefix_token_count\<close> tokens get the same worker.
\<close>

theorem prefix_hash_bounded_load:
  assumes "tokens info = Some t" "t \<noteq> []" "\<exists>w\<in>set ws. is_healthy w" "mono rd"
  shows "\<exists>i. ph_select_worker blake3 xxh3 rd cfg ws info = Some i \<and> i < length ws \<and> is_healthy (ws ! i) \<and>
    (healthy_load_ok rd cfg ws i \<or>
       (\<forall>j. j < length ws \<and> is_healthy (ws ! j) \<longrightarrow> \<not> healthy_load_ok rd cfg ws j)) \<and>
    (rd = (\<lambda>x. x) \<and> 1 \<le> load_factor cfg \<longrightarrow> healthy_load_ok rd cfg ws i) \<and>
    (\<forall>t'. t' \<noteq> [] \<and> take (prefix_token_count cfg) t' = take (prefix_token_count cfg) t \<longrightarrow>
       ph_select_worker blake3 xxh3 rd cfg ws (info\<lparr> tokens := Some t' \<rparr>) = Some i)"
proof -
  let ?h = "compute_prefix_hash xxh3 cfg t"
  let ?hs = "indices_where is_healthy ws"
  have hs: "i \<in> set ?hs \<longleftrightarrow> i < length ws \<and> is_healthy (ws ! i)" for i by (simp add: set_indices_where)
  have ne: "ws \<noteq> []" "?hs \<noteq> []" using assms(3) by (auto simp: indices_where_empty)
  from ph_choice_cases [OF assms(3), of blake3 rd cfg info ?h] obtain i where
    i: "fst (find_worker_with_load_balance blake3 rd cfg ws info ?h) = Some i" "i \<in> set ?hs" and
    l: "healthy_load_ok rd cfg ws i \<or> (\<forall>j\<in>set ?hs. \<not> healthy_load_ok rd cfg ws j) \<or>
        (\<forall>j\<in>set ?hs. worker_load ws i \<le> worker_load ws j)" using hs by blast
  have sel: "ph_select_worker blake3 xxh3 rd cfg ws (info\<lparr> tokens := Some t' \<rparr>) = Some i"
    if "t' \<noteq> []" "take (prefix_token_count cfg) t' = take (prefix_token_count cfg) t" for t'
  proof -
    have "compute_prefix_hash xxh3 cfg t' = ?h" using that(2) by (simp add: compute_prefix_hash_def Let_def take_min_length)
    then show ?thesis using ne that(1) i(1)
      by (simp add: ph_select_worker_def ph_select_worker_impl_def find_worker_with_load_balance_def)
  qed
  moreover have "ph_select_worker blake3 xxh3 rd cfg ws info = Some i"
    using ne assms(1,2) i(1) by (simp add: ph_select_worker_def ph_select_worker_impl_def)
  moreover have ok: "healthy_load_ok rd cfg ws i \<or> (\<forall>j\<in>set ?hs. \<not> healthy_load_ok rd cfg ws j)"
    using l load_ok_mono [OF assms(4), of "worker_load ws i"] by (auto simp: healthy_load_ok_def Let_def)
  moreover have "healthy_load_ok rd cfg ws i" if "rd = (\<lambda>x. x)" "1 \<le> load_factor cfg"
  proof -
    obtain k where k: "min_by_key (worker_load ws) ?hs = Some k" using min_by_key_exists [OF ne(2)] by blast
    then have "k \<in> set ?hs" "healthy_load_ok rd cfg ws k"
      using min_by_key_Some [OF k] least_load_ok [OF that(2), of ?hs "worker_load ws k" "worker_load ws"] ne that(1)
      by (simp_all add: healthy_load_ok_def)
    then show ?thesis using ok by blast
  qed
  ultimately show ?thesis using i(2) hs by blast
qed

theorem prefix_hash_bounded_load_witness:
  "\<exists>i. ph_select_worker (\<lambda>b. b) (\<lambda>b. of_nat (length b)) (\<lambda>x. x) prefix_hash_config_default
      [Basic (sample_worker ''a''), Basic (sample_worker ''b'')]
      \<lparr> request_text = None, tokens = Some [1, 2], headers = None, info_hash_ring = None \<rparr> = Some i \<and> i < 2"
proof -
  let ?ws = "[Basic (sample_worker ''a''), Basic (sample_worker ''b'')]"
  let ?info = "\<lparr> request_text = None, tokens = Some [1, 2], headers = None, info_hash_ring = None \<rparr>"
  have "\<exists>w\<in>set ?ws. is_healthy w" by (simp add: is_healthy_def sample_worker_def build_def)
  moreover have "mono (\<lambda>x::rat. x)" by (simp add: mono_def)
  ultimately show ?thesis
    using prefix_hash_bounded_load [of ?info "[1, 2]" ?ws "\<lambda>x. x" "\<lambda>b. b" "\<lambda>b. of_nat (length b)" prefix_hash_config_default]
    by force
qed

section \<open>The interface\<close>

text \<open>Both policies keep the contract of a policy: they select within the slice, and healthy workers only.\<close>

lemma ch_select_sound:
  assumes "rng_ok rng" "ch_select_worker blake3 rng ws info = Some i"
  shows "i < length ws \<and> is_healthy (ws ! i)"
proof -
  let ?hs = "indices_where is_healthy ws"
  have len: "length (filter is_healthy ws) = length ?hs"
    by (rule length_indices_where [symmetric])
  have rnd: "i = ?hs ! rng (length ?hs) \<Longrightarrow> ?hs \<noteq> [] \<Longrightarrow> i \<in> set ?hs" using rng_nth [OF assms(1)] by simp
  show ?thesis
    using assms(2) rnd find_by_hash_sound [of blake3 ws info _ i]
    by (auto simp: ch_select_worker_def ch_select_worker_impl_def Let_def len set_indices_where
        split: if_splits option.splits)
qed

lemma ph_select_sound:
  assumes "ph_select_worker blake3 xxh3 rd cfg ws info = Some i"
  shows "i < length ws \<and> is_healthy (ws ! i)"
proof -
  obtain t where t: "tokens info = Some t" "t \<noteq> []" "ws \<noteq> []"
    using assms by (auto simp: ph_select_worker_def ph_select_worker_impl_def split: if_splits option.splits)
  then have sel: "fst (find_worker_with_load_balance blake3 rd cfg ws info (compute_prefix_hash xxh3 cfg t)) = Some i"
    using assms by (simp add: ph_select_worker_def ph_select_worker_impl_def)
  then have "\<exists>w\<in>set ws. is_healthy w"
    by (auto simp: find_worker_with_load_balance_def Let_def indices_where_empty split: if_splits)
  from ph_choice_cases [OF this, of blake3 rd cfg info "compute_prefix_hash xxh3 cfg t"] sel show ?thesis by auto
qed

interpretation consistent_hashing: load_balancing_policy
  "\<lambda>clk ws. (ch_select_worker blake3 (draw m) ws info, ws)"
  by unfold_locales (use ch_select_sound [OF draw_ok] in auto)

interpretation prefix_hash: load_balancing_policy
  "\<lambda>clk ws. (ph_select_worker blake3 xxh3 rd cfg ws info, ws)"
  by unfold_locales (use ph_select_sound in auto)

end
