(* ===== verification/Manual_Policy.thy ===== *)
theory Manual_Policy
  imports Policies
begin

text \<open>
  The sticky-session policy, \<open>src/gateway/src/policies/manual.rs\<close>: the table from routing ids to
  candidate workers, the assignment of new sessions, the eviction of idle sessions and the
  persisted table.

  The table is shared by all instances of the policy in a process, so it is an argument of the
  constructor.  Instants and durations are natural numbers of nanoseconds.  The file and its JSON
  syntax are outside: \<open>read\<close> is the parsed content of a file (\<open>None\<close> if it is missing or malformed),
  and a snapshot is the list of entries handed to the serialiser.
\<close>

section \<open>Model\<close>

datatype manual_branch = NoHealthyWorkers | OccupiedHit | OccupiedMiss | Vacant | NoRoutingId

datatype manual_assignment_mode = Random | MinLoad | MinGroup

definition MAX_CANDIDATE_WORKERS :: nat where
  "MAX_CANDIDATE_WORKERS = 2"

record manual_config =
  eviction_interval_secs :: u64
  max_idle_secs :: u64
  mc_assignment_mode :: manual_assignment_mode
  routing_map_file :: "string option"

definition manual_config_default :: manual_config where
  "manual_config_default = \<lparr> eviction_interval_secs = 60, max_idle_secs = 4 * 3600,
     mc_assignment_mode = Random, routing_map_file = None \<rparr>"

record manual_node =
  candi_worker_urls :: "string list"
  last_access :: nat

text \<open>\<open>while len >= MAX { remove(0) }\<close>.\<close>

primrec drop_oldest :: "string list \<Rightarrow> string list" where
  "drop_oldest [] = []"
| "drop_oldest (u # us) = (if MAX_CANDIDATE_WORKERS \<le> length (u # us) then drop_oldest us else u # us)"

definition push_bounded :: "string \<Rightarrow> manual_node \<Rightarrow> manual_node" where
  "push_bounded u node = node\<lparr> candi_worker_urls := drop_oldest (candi_worker_urls node) @ [u] \<rparr>"

type_synonym routing_table = "(string \<times> manual_node) list"

record manual_policy =
  routing_map :: routing_table
  assignment_mode :: manual_assignment_mode

subsection \<open>Persistence and eviction\<close>

definition load_routing_map :: "(string \<Rightarrow> (string \<times> string list) list option) \<Rightarrow> nat \<Rightarrow> string \<Rightarrow> routing_table \<Rightarrow> routing_table" where
  "load_routing_map read now path m =
     (case read path of
        None \<Rightarrow> m
      | Some table \<Rightarrow>
          foldl (\<lambda>m (key, urls). map_insert key \<lparr> candi_worker_urls = urls, last_access = now \<rparr> m) m
            (filter (\<lambda>e. snd e \<noteq> []) table))"

definition snapshot_routing_map :: "routing_table \<Rightarrow> (string \<times> string list) list" where
  "snapshot_routing_map m = map (\<lambda>e. (fst e, candi_worker_urls (snd e))) m"

definition manual_with_config ::
    "(string \<Rightarrow> (string \<times> string list) list option) \<Rightarrow> nat \<Rightarrow> routing_table \<Rightarrow> manual_config \<Rightarrow> manual_policy" where
  "manual_with_config read now shared cfg =
     \<lparr> routing_map =
         (case routing_map_file cfg of Some path \<Rightarrow> load_routing_map read now path shared | None \<Rightarrow> shared),
       assignment_mode = mc_assignment_mode cfg \<rparr>"

text \<open>One run of the periodic task: drop the idle sessions, then write the snapshot if configured.\<close>

definition manual_evict ::
    "manual_config \<Rightarrow> nat \<Rightarrow> manual_policy \<Rightarrow> manual_policy \<times> (string \<times> string list) list option" where
  "manual_evict cfg now p =
     (if 0 < eviction_interval_secs cfg \<and> 0 < max_idle_secs cfg then
        let max_idle = unat (max_idle_secs cfg) * 1000000000;
            m = filter (\<lambda>e. now - last_access (snd e) < max_idle) (routing_map p) in
        (p\<lparr> routing_map := m \<rparr>,
         if routing_map_file cfg = None then None else Some (snapshot_routing_map m))
      else (p, None))"

subsection \<open>Selection\<close>

definition find_worker_index_by_url :: "worker list \<Rightarrow> string \<Rightarrow> nat option" where
  "find_worker_index_by_url workers u = position (\<lambda>w. url w = u) workers"

fun find_healthy_worker :: "string list \<Rightarrow> worker list \<Rightarrow> nat list \<Rightarrow> nat option" where
  "find_healthy_worker [] workers healthy_indices = None"
| "find_healthy_worker (u # urls) workers healthy_indices =
     (case find_worker_index_by_url workers u of
        Some idx \<Rightarrow>
          if idx \<in> set healthy_indices then Some idx
          else find_healthy_worker urls workers healthy_indices
      | None \<Rightarrow> find_healthy_worker urls workers healthy_indices)"

definition manual_random_select :: "rng \<Rightarrow> nat list \<Rightarrow> nat" where
  "manual_random_select rng healthy_indices = healthy_indices ! rng (length healthy_indices)"

text \<open>The loop of \<open>select_min_by\<close> keeps the least value so far and the indices that have it.\<close>

definition min_step :: "('k \<Rightarrow> nat) \<Rightarrow> nat option \<times> 'k list \<Rightarrow> 'k \<Rightarrow> nat option \<times> 'k list" where
  "min_step get_value st idx =
     (let v = get_value idx in
      case fst st of
        None \<Rightarrow> (Some v, [idx])
      | Some m \<Rightarrow> if v < m then (Some v, [idx]) else if v = m then (Some m, snd st @ [idx]) else st)"

definition select_min_by :: "rng \<Rightarrow> 'k list \<Rightarrow> ('k \<Rightarrow> nat) \<Rightarrow> 'k" where
  "select_min_by rng indices get_value =
     (let candidates = snd (foldl (min_step get_value) (None, []) indices) in
      if length candidates = 1 then candidates ! 0 else candidates ! rng (length candidates))"

definition min_load_select :: "rng \<Rightarrow> worker list \<Rightarrow> nat list \<Rightarrow> nat" where
  "min_load_select rng workers healthy_indices =
     select_min_by rng healthy_indices (\<lambda>idx. unat (get_load (workers ! idx)))"

definition min_group_select :: "rng \<Rightarrow> worker list \<Rightarrow> nat list \<Rightarrow> nat" where
  "min_group_select rng workers healthy_indices =
     select_min_by rng healthy_indices (\<lambda>idx. rk_value (get_routing_key_load (workers ! idx)))"

definition select_new_worker :: "rng \<Rightarrow> manual_assignment_mode \<Rightarrow> worker list \<Rightarrow> nat list \<Rightarrow> nat" where
  "select_new_worker rng mode workers healthy_indices =
     (case mode of
        Random \<Rightarrow> manual_random_select rng healthy_indices
      | MinLoad \<Rightarrow> min_load_select rng workers healthy_indices
      | MinGroup \<Rightarrow> min_group_select rng workers healthy_indices)"

definition select_by_routing_id ::
    "rng \<Rightarrow> nat \<Rightarrow> worker list \<Rightarrow> string \<Rightarrow> nat list \<Rightarrow> manual_policy \<Rightarrow> (nat \<times> manual_branch) \<times> manual_policy" where
  "select_by_routing_id rng now workers routing_id healthy_indices p =
     (case map_get (routing_map p) routing_id of
        Some node \<Rightarrow>
          let node = node\<lparr> last_access := now \<rparr> in
          (case find_healthy_worker (candi_worker_urls node) workers healthy_indices of
             Some idx \<Rightarrow> ((idx, OccupiedHit), p\<lparr> routing_map := map_insert routing_id node (routing_map p) \<rparr>)
           | None \<Rightarrow>
               let selected_idx = select_new_worker rng (assignment_mode p) workers healthy_indices;
                   node = push_bounded (url (workers ! selected_idx)) node in
               ((selected_idx, OccupiedMiss), p\<lparr> routing_map := map_insert routing_id node (routing_map p) \<rparr>))
      | None \<Rightarrow>
          let selected_idx = select_new_worker rng (assignment_mode p) workers healthy_indices;
              node = \<lparr> candi_worker_urls = [url (workers ! selected_idx)], last_access = now \<rparr> in
          ((selected_idx, Vacant), p\<lparr> routing_map := map_insert routing_id node (routing_map p) \<rparr>))"

definition manual_select_worker_impl ::
    "(nat list \<Rightarrow> u64) \<Rightarrow> rng \<Rightarrow> nat \<Rightarrow> clock \<Rightarrow> worker list \<Rightarrow> select_worker_info \<Rightarrow> manual_policy \<Rightarrow>
      (nat option \<times> manual_branch) \<times> worker list \<times> manual_policy" where
  "manual_select_worker_impl xxh3 rng now clk workers info p =
     (let (healthy_indices, workers) = get_healthy_worker_indices clk workers in
      if healthy_indices = [] then ((None, NoHealthyWorkers), workers, p)
      else
        case resolve_routing_key xxh3 (headers info) (request_text info) of
          Some routing_id \<Rightarrow>
            let ((idx, branch), p) = select_by_routing_id rng now workers routing_id healthy_indices p in
            ((Some idx, branch), workers, p)
        | None \<Rightarrow> ((Some (min_load_select rng workers healthy_indices), NoRoutingId), workers, p))"

definition manual_select ::
    "(nat list \<Rightarrow> u64) \<Rightarrow> rng \<Rightarrow> nat \<Rightarrow> clock \<Rightarrow> worker list \<Rightarrow> select_worker_info \<Rightarrow> manual_policy \<Rightarrow>
      nat option \<times> worker list \<times> manual_policy" where
  "manual_select xxh3 rng now clk workers info p =
     (let ((result, branch), workers, p) = manual_select_worker_impl xxh3 rng now clk workers info p in
      (result, workers, p))"

section \<open>Selection of the least value\<close>

lemma min_step_inv:
  assumes "fst st = None \<longleftrightarrow> xs = []"
    and "\<forall>m. fst st = Some m \<longrightarrow> (\<forall>x\<in>set xs. m \<le> f x) \<and> snd st \<noteq> [] \<and> (\<forall>c\<in>set (snd st). c \<in> set xs \<and> f c = m)"
  shows "\<exists>m cs. foldl (min_step f) st ys = (if xs @ ys = [] then st else (Some m, cs)) \<and>
    (xs @ ys \<noteq> [] \<longrightarrow> (\<forall>x\<in>set (xs @ ys). m \<le> f x) \<and> cs \<noteq> [] \<and> (\<forall>c\<in>set cs. c \<in> set (xs @ ys) \<and> f c = m))"
  using assms
proof (induction ys arbitrary: st xs)
  case Nil
  show ?case by (cases "xs = []"; cases st; cases "fst st") (use Nil in auto)
next
  case (Cons y ys)
  let ?st = "min_step f st y"
  have "fst ?st = None \<longleftrightarrow> xs @ [y] = []"
    by (auto simp: min_step_def Let_def split: option.splits)
  moreover have "\<forall>m. fst ?st = Some m \<longrightarrow> (\<forall>x\<in>set (xs @ [y]). m \<le> f x) \<and> snd ?st \<noteq> [] \<and>
      (\<forall>c\<in>set (snd ?st). c \<in> set (xs @ [y]) \<and> f c = m)"
    using Cons.prems by (cases "fst st") (auto simp: min_step_def Let_def)
  ultimately show ?case using Cons.IH [of ?st "xs @ [y]"] by simp
qed

lemma select_min_by_least:
  assumes "rng_ok rng" "xs \<noteq> []"
  shows "select_min_by rng xs f \<in> set xs \<and> (\<forall>x\<in>set xs. f (select_min_by rng xs f) \<le> f x)"
proof -
  obtain m cs where cs: "snd (foldl (min_step f) (None, []) xs) = cs" "cs \<noteq> []" and
    m: "\<forall>x\<in>set xs. m \<le> f x" "\<forall>c\<in>set cs. c \<in> set xs \<and> f c = m"
    using min_step_inv [of "(None, [])" "[]" f xs] assms(2) by auto
  have "select_min_by rng xs f \<in> set cs"
    using cs rng_nth [OF assms(1), of cs] by (simp add: select_min_by_def Let_def)
  then show ?thesis using m by auto
qed

lemma select_new_worker_healthy:
  assumes "rng_ok rng" "is \<noteq> []"
  shows "select_new_worker rng mode ws is \<in> set is"
  using assms select_min_by_least [OF assms]
  by (cases mode) (auto simp: select_new_worker_def manual_random_select_def rng_nth min_load_select_def min_group_select_def)

lemma find_healthy_worker_Some:
  "find_healthy_worker us ws is = Some i \<Longrightarrow> i \<in> set is"
  by (induction us) (auto split: option.splits if_splits)

section \<open>Candidates\<close>

text \<open>A URL is usable when the first worker that has it passes the checks.\<close>

definition usable :: "clock \<Rightarrow> worker list \<Rightarrow> string \<Rightarrow> bool" where
  "usable clk ws u \<longleftrightarrow> (case find_worker_index_by_url ws u of None \<Rightarrow> False | Some i \<Rightarrow> available clk ws i)"

lemma index_by_url_checked:
  "find_worker_index_by_url (snd (get_healthy_worker_indices clk ws)) u = find_worker_index_by_url ws u"
  unfolding find_worker_index_by_url_def by (rule position_cong) (simp_all add: checked_worker_keeps)

lemma find_healthy_worker_first:
  "find_healthy_worker us (snd (get_healthy_worker_indices clk ws)) (fst (get_healthy_worker_indices clk ws)) =
     Option.bind (find (usable clk ws) us) (find_worker_index_by_url ws)"
  by (induction us) (auto simp: index_by_url_checked usable_def healthy_indices_set split: option.splits)

lemma index_by_url: "find_worker_index_by_url ws u = Some i \<Longrightarrow> i < length ws \<and> url (ws ! i) = u"
  unfolding find_worker_index_by_url_def using position_Some by fastforce

lemma find_after_unusable:
  "\<forall>v\<in>set pre. \<not> P v \<Longrightarrow> P u \<Longrightarrow> find P (pre @ u # post) = Some u"
  by (induction pre) auto

lemma find_splits:
  "find P xs = Some x \<Longrightarrow> \<exists>pre post. xs = pre @ x # post \<and> (\<forall>v\<in>set pre. \<not> P v)"
proof (induction xs)
  case (Cons a xs)
  show ?case
  proof (cases "P a")
    case True
    then show ?thesis using Cons.prems by (intro exI [of _ "[]"] exI [of _ xs]) auto
  next
    case False
    then obtain pre post where "xs = pre @ x # post" "\<forall>v\<in>set pre. \<not> P v" using Cons by auto
    then show ?thesis using False by (intro exI [of _ "a # pre"] exI [of _ post]) auto
  qed
qed simp

lemma drop_oldest_sub: "set (drop_oldest us) \<subseteq> set us"
  by (induction us) auto

lemma length_drop_oldest: "length (drop_oldest us) < MAX_CANDIDATE_WORKERS"
  by (induction us) (auto simp: MAX_CANDIDATE_WORKERS_def Suc_le_eq)

text \<open>
  What a routed request leaves in the table: the selected URL is a candidate, no candidate before
  it was usable, and the session has been accessed.
\<close>

lemma manual_select_entry:
  assumes "manual_select xxh3 rng now clk ws info p = (Some i, ws', p')"
    and key: "resolve_routing_key xxh3 (headers info) (request_text info) = Some k"
    and "rng_ok rng"
  shows "\<exists>node pre post. map_get (routing_map p') k = Some node \<and> last_access node = now \<and>
    candi_worker_urls node = pre @ url (ws ! i) # post \<and> (\<forall>v\<in>set pre. \<not> usable clk ws v) \<and> available clk ws i"
proof -
  let ?is = "fst (get_healthy_worker_indices clk ws)" and ?ws = "snd (get_healthy_worker_indices clk ws)"
  let ?new = "select_new_worker rng (assignment_mode p) ?ws ?is"
  have ne: "?is \<noteq> []"
    using assms(1) by (auto simp: manual_select_def manual_select_worker_impl_def split_beta Let_def)
  have sel: "(i, snd (fst (select_by_routing_id rng now ?ws k ?is p))) = fst (select_by_routing_id rng now ?ws k ?is p)"
    and p': "p' = snd (select_by_routing_id rng now ?ws k ?is p)"
    using assms(1) ne key by (auto simp: manual_select_def manual_select_worker_impl_def split_beta Let_def)
  have av: "available clk ws ?new" using select_new_worker_healthy [OF assms(3) ne] healthy_indices_set by blast
  then have url: "url (?ws ! ?new) = url (ws ! ?new)" by (simp add: available_def checked_worker_keeps)
  show ?thesis
  proof (cases "map_get (routing_map p) k")
    case None
    then have "i = ?new" and "map_get (routing_map p') k = Some \<lparr> candi_worker_urls = [url (ws ! ?new)], last_access = now \<rparr>"
      using sel p' by (simp_all add: select_by_routing_id_def Let_def url)
    then show ?thesis using av by (intro exI [of _ "[]"] exI) auto
  next
    case (Some node)
    let ?us = "candi_worker_urls node"
    show ?thesis
    proof (cases "find (usable clk ws) ?us")
      case None
      then have "i = ?new" and
        "map_get (routing_map p') k = Some (push_bounded (url (ws ! ?new)) (node\<lparr> last_access := now \<rparr>))"
        using sel p' Some by (simp_all add: select_by_routing_id_def find_healthy_worker_first Let_def url)
      moreover have "\<forall>v\<in>set (drop_oldest ?us). \<not> usable clk ws v"
        using None drop_oldest_sub by (auto simp: find_None_iff)
      ultimately show ?thesis using av by (auto simp: push_bounded_def)
    next
      case (Some u)
      have u: "usable clk ws u" using Some by (auto simp: find_Some_iff)
      then obtain j where j: "find_worker_index_by_url ws u = Some j" "available clk ws j"
        by (auto simp: usable_def split: option.splits)
      then have "i = j" "map_get (routing_map p') k = Some (node\<lparr> last_access := now \<rparr>)"
        using sel p' \<open>map_get (routing_map p) k = Some node\<close> Some
        by (simp_all add: select_by_routing_id_def find_healthy_worker_first Let_def)
      then show ?thesis using find_splits [OF Some] index_by_url [OF j(1)] j(2) by auto
    qed
  qed
qed

section \<open>Histories\<close>

datatype manual_event =
    Route rng nat clock "worker list" select_worker_info
  | Evict manual_config nat

fun manual_step :: "(nat list \<Rightarrow> u64) \<Rightarrow> manual_policy \<Rightarrow> manual_event \<Rightarrow> manual_policy" where
  "manual_step xxh3 p (Route rng now clk ws info) = snd (snd (manual_select xxh3 rng now clk ws info p))"
| "manual_step xxh3 p (Evict cfg now) = fst (manual_evict cfg now p)"

text \<open>An event spares a session accessed at \<open>t\<close>: a request of another key, or an eviction before it is idle.\<close>

fun spares :: "(nat list \<Rightarrow> u64) \<Rightarrow> string \<Rightarrow> nat \<Rightarrow> manual_event \<Rightarrow> bool" where
  "spares xxh3 k t (Route rng now clk ws info) \<longleftrightarrow> resolve_routing_key xxh3 (headers info) (request_text info) \<noteq> Some k"
| "spares xxh3 k t (Evict cfg now) \<longleftrightarrow>
     max_idle_secs cfg = 0 \<or> now - t < unat (max_idle_secs cfg) * 1000000000"

lemma select_by_routing_id_other:
  "k' \<noteq> k \<Longrightarrow> map_get (routing_map (snd (select_by_routing_id rng now ws k is p))) k' = map_get (routing_map p) k'"
  by (auto simp: select_by_routing_id_def Let_def split: option.splits)

lemma manual_step_spares:
  assumes "spares xxh3 k (last_access node) ev" "map_get (routing_map p) k = Some node"
  shows "map_get (routing_map (manual_step xxh3 p ev)) k = Some node"
proof (cases ev)
  case (Route rng now clk ws info)
  then show ?thesis using assms select_by_routing_id_other [of k]
    by (auto simp: manual_select_def manual_select_worker_impl_def Let_def split_beta split: option.splits)
next
  case (Evict cfg now)
  then show ?thesis using assms
    by (auto simp: manual_evict_def Let_def word_gt_0 intro!: map_get_filter)
qed

lemma manual_run_spares:
  "\<forall>ev\<in>set evs. spares xxh3 k (last_access node) ev \<Longrightarrow> map_get (routing_map p) k = Some node \<Longrightarrow>
   map_get (routing_map (foldl (manual_step xxh3) p evs)) k = Some node"
  by (induction evs arbitrary: p) (auto intro: manual_step_spares)

lemma manual_select_candidate:
  assumes "map_get (routing_map p) k = Some node" "find (usable clk ws) (candi_worker_urls node) = Some u"
    and "resolve_routing_key xxh3 (headers info) (request_text info) = Some k"
  shows "\<exists>j. fst (manual_select xxh3 rng now clk ws info p) = Some j \<and> available clk ws j \<and> url (ws ! j) = u"
proof -
  have "usable clk ws u" using assms(2) by (auto simp: find_Some_iff)
  then obtain j where j: "find_worker_index_by_url ws u = Some j" "available clk ws j"
    by (auto simp: usable_def split: option.splits)
  moreover have "fst (get_healthy_worker_indices clk ws) \<noteq> []" using j(2) healthy_indices_empty by blast
  ultimately have "fst (manual_select xxh3 rng now clk ws info p) = Some j"
    using assms by (simp add: manual_select_def manual_select_worker_impl_def split_beta Let_def
      select_by_routing_id_def find_healthy_worker_first)
  then show ?thesis using j index_by_url by blast
qed

section \<open>Properties\<close>

text \<open>
  C21: sessions are sticky as long as their worker is usable and no earlier candidate comes back.  When a
  request of a routing key went to a worker, its URL is among the candidates of the session and
  those before it were not usable then.  After any number of requests of other keys on any workers
  and of evictions before the session is idle, the next request of that key goes to the first
  candidate of the session that is usable then, whatever workers joined or left; so it goes to the
  same worker when that is usable and no candidate before it has become usable, and moves back to such a
  candidate otherwise.
\<close>

theorem manual_sticky:
  assumes sel: "manual_select xxh3 (draw m) now clk ws info p = (Some i, ws', p')"
    and key: "resolve_routing_key xxh3 (headers info) (request_text info) = Some k"
      "resolve_routing_key xxh3 (headers info') (request_text info') = Some k"
    and evs: "\<forall>ev\<in>set evs. spares xxh3 k now ev"
  shows "\<exists>node pre post. map_get (routing_map p') k = Some node \<and>
    candi_worker_urls node = pre @ url (ws ! i) # post \<and> (\<forall>v\<in>set pre. \<not> usable clk ws v) \<and>
    (\<forall>v. find (usable clk' ws2) (candi_worker_urls node) = Some v \<longrightarrow>
       (\<exists>j. fst (manual_select xxh3 rng now' clk' ws2 info' (foldl (manual_step xxh3) p' evs)) = Some j \<and>
          available clk' ws2 j \<and> url (ws2 ! j) = v)) \<and>
    (usable clk' ws2 (url (ws ! i)) \<and> (\<forall>v\<in>set pre. \<not> usable clk' ws2 v) \<longrightarrow>
       (\<exists>j. fst (manual_select xxh3 rng now' clk' ws2 info' (foldl (manual_step xxh3) p' evs)) = Some j \<and>
          available clk' ws2 j \<and> url (ws2 ! j) = url (ws ! i)))"
proof -
  from manual_select_entry [OF sel key(1) draw_ok] obtain node pre post where
    n: "map_get (routing_map p') k = Some node" "last_access node = now"
      "candi_worker_urls node = pre @ url (ws ! i) # post" "\<forall>v\<in>set pre. \<not> usable clk ws v" by blast
  have "map_get (routing_map (foldl (manual_step xxh3) p' evs)) k = Some node"
    using manual_run_spares [of evs xxh3 k node p'] evs n(1,2) by simp
  note next_request = manual_select_candidate [OF this _ key(2)]
  have "find (usable clk' ws2) (candi_worker_urls node) = Some (url (ws ! i))"
    if "usable clk' ws2 (url (ws ! i)) \<and> (\<forall>v\<in>set pre. \<not> usable clk' ws2 v)"
    unfolding n(3) using that by (intro find_after_unusable) auto
  then show ?thesis using n next_request by (intro exI [of _ node] exI [of _ pre] exI [of _ post]) simp
qed

lemma sample_key:
  "resolve_routing_key xxh3 (Some [(''x-smg-routing-key'', ''k1'')]) t = Some ''k1''"
proof -
  have "extract_header_value (Some [(''x-smg-routing-key'', ''k1'')]) HEADER_ROUTING_KEY = Some ''k1''"
    by code_simp
  then show ?thesis by (simp add: resolve_routing_key_def extract_routing_key_def or_else_def)
qed

lemma sample_url: "url (Basic (sample_worker a)) = a"
  by (simp add: url_def metadata_def sample_worker_def build_def builder_new_def)

theorem manual_sticky_witness:
  "\<exists>j. fst (manual_select (\<lambda>b. 0) (draw 5) 9 (\<lambda>i. (0, 0)) [Basic (sample_worker ''b''), Basic (sample_worker ''a'')]
      \<lparr> request_text = None, tokens = None, headers = Some [(''x-smg-routing-key'', ''k1'')], info_hash_ring = None \<rparr>
      (foldl (manual_step (\<lambda>b. 0))
        (snd (snd (manual_select (\<lambda>b. 0) (draw 0) 1 (\<lambda>i. (0, 0)) [Basic (sample_worker ''a'')]
          \<lparr> request_text = None, tokens = None, headers = Some [(''x-smg-routing-key'', ''k1'')], info_hash_ring = None \<rparr>
          (manual_with_config (\<lambda>f. None) 0 [] manual_config_default))))
        [Evict manual_config_default 5])) = Some j \<and> j = 1"
proof -
  let ?info = "\<lparr> request_text = None, tokens = None, headers = Some [(''x-smg-routing-key'', ''k1'')], info_hash_ring = None \<rparr>"
  let ?a = "Basic (sample_worker ''a'')" and ?b = "Basic (sample_worker ''b'')" and ?clk = "\<lambda>i. (0, 0) :: u64 \<times> u64"
  let ?p = "manual_with_config (\<lambda>f. None) 0 [] manual_config_default"
  have sel: "manual_select (\<lambda>b. 0) (draw 0) 1 ?clk [?a] ?info ?p =
      (Some 0, snd (get_healthy_worker_indices ?clk [?a]),
       ?p\<lparr> routing_map := [(''k1'', \<lparr> candi_worker_urls = [''a''], last_access = 1 \<rparr>)] \<rparr>)"
    using checked_worker_keeps(1) [of 0 "[?a]" ?clk]
    by (simp add: manual_select_def manual_select_worker_impl_def sample_single sample_key split_beta
        select_by_routing_id_def manual_with_config_def manual_config_default_def select_new_worker_def
        manual_random_select_def draw_def sample_url Let_def)
  have av: "available ?clk [?a] 0" "available ?clk [?b, ?a] 1" "available ?clk [?b, ?a] 0"
    by (simp_all add: healthy_indices_set [symmetric] sample_healthy sample_single)
  have u: "usable ?clk [?a] ''a''" "usable ?clk [?b, ?a] ''a''"
    using av by (simp_all add: usable_def find_worker_index_by_url_def sample_url)
  have "\<exists>j. fst (manual_select (\<lambda>b. 0) (draw 5) 9 ?clk [?b, ?a] ?info
      (foldl (manual_step (\<lambda>b. 0)) (?p\<lparr> routing_map := [(''k1'', \<lparr> candi_worker_urls = [''a''], last_access = 1 \<rparr>)] \<rparr>)
        [Evict manual_config_default 5])) = Some j \<and>
    available ?clk [?b, ?a] j \<and> url ([?b, ?a] ! j) = url ([?a] ! 0)"
  proof -
    have ev: "\<forall>ev\<in>set [Evict manual_config_default 5]. spares (\<lambda>b. 0) ''k1'' 1 ev" by (simp add: manual_config_default_def)
    have k: "resolve_routing_key (\<lambda>b. 0) (headers ?info) (request_text ?info) = Some ''k1''" by (simp add: sample_key)
    from manual_sticky [OF sel k k ev, of ?clk "[?b, ?a]" "draw 5" 9] obtain node pre post where
      n: "map_get (routing_map (?p\<lparr> routing_map := [(''k1'', \<lparr> candi_worker_urls = [''a''], last_access = 1 \<rparr>)] \<rparr>)) ''k1'' = Some node"
        "candi_worker_urls node = pre @ url ([?a] ! 0) # post" and
      r: "usable ?clk [?b, ?a] (url ([?a] ! 0)) \<and> (\<forall>v\<in>set pre. \<not> usable ?clk [?b, ?a] v) \<longrightarrow>
       (\<exists>j. fst (manual_select (\<lambda>b. 0) (draw 5) 9 ?clk [?b, ?a] ?info
          (foldl (manual_step (\<lambda>b. 0)) (?p\<lparr> routing_map := [(''k1'', \<lparr> candi_worker_urls = [''a''], last_access = 1 \<rparr>)] \<rparr>)
            [Evict manual_config_default 5])) = Some j \<and> available ?clk [?b, ?a] j \<and> url ([?b, ?a] ! j) = url ([?a] ! 0))"
      by blast
    have "pre = []" using n by (cases pre) auto
    then show ?thesis using r u(2) by (simp add: sample_url)
  qed
  then obtain j where "fst (manual_select (\<lambda>b. 0) (draw 5) 9 ?clk [?b, ?a] ?info
      (foldl (manual_step (\<lambda>b. 0)) (snd (snd (manual_select (\<lambda>b. 0) (draw 0) 1 ?clk [?a] ?info ?p)))
        [Evict manual_config_default 5])) = Some j" "j < 2" "url ([?b, ?a] ! j) = ''a''"
    unfolding sel by (auto simp: available_def sample_url)
  then show ?thesis by (auto simp: less_2_cases_iff sample_url)
qed

text \<open>A table is well formed when every session has a candidate.\<close>

definition manual_wf :: "manual_policy \<Rightarrow> bool" where
  "manual_wf p \<longleftrightarrow> map_wf (routing_map p) \<and>
     (\<forall>k node. map_get (routing_map p) k = Some node \<longrightarrow> candi_worker_urls node \<noteq> [])"

lemma load_get:
  "map_get (foldl (\<lambda>m (key, urls). map_insert key \<lparr> candi_worker_urls = urls, last_access = now \<rparr> m) m xs) k =
     (case map_get (rev xs) k of Some urls \<Rightarrow> Some \<lparr> candi_worker_urls = urls, last_access = now \<rparr> | None \<Rightarrow> map_get m k)"
proof (induction xs arbitrary: m)
  case (Cons x xs)
  then show ?case by (cases x) (auto simp: map_get_append split: option.splits)
qed simp

lemma load_wf: "map_wf m \<Longrightarrow> map_wf (foldl (\<lambda>m (key, urls). map_insert key \<lparr> candi_worker_urls = urls, last_access = now \<rparr> m) m xs)"
  by (induction xs arbitrary: m) auto

lemma manual_with_config_wf: "manual_wf (manual_with_config read now [] cfg)"
proof -
  have "map_wf (load_routing_map read now path [])" for path
    by (auto simp: load_routing_map_def load_wf split: option.splits)
  moreover have "candi_worker_urls node \<noteq> []" if get: "map_get (load_routing_map read now path []) k = Some node" for path k node
  proof -
    obtain xs where xs: "map_get (rev (filter (\<lambda>e. snd e \<noteq> []) xs)) k = Some (candi_worker_urls node)"
      using get by (auto simp: load_routing_map_def load_get split: option.splits)
    show ?thesis using map_get_in_set [OF xs] by auto
  qed
  ultimately show ?thesis
    by (auto simp: manual_wf_def manual_with_config_def split: option.splits)
qed

lemma manual_select_wf: "manual_wf p \<Longrightarrow> manual_wf (snd (snd (manual_select xxh3 rng now clk ws info p)))"
proof -
  assume wf: "manual_wf p"
  have "manual_wf (snd (select_by_routing_id rng now ws' k is p))" for ws' k "is"
    using wf by (auto simp: manual_wf_def select_by_routing_id_def push_bounded_def Let_def split: option.splits if_splits)
  then show ?thesis using wf
    by (auto simp: manual_select_def manual_select_worker_impl_def Let_def split_beta split: option.splits)
qed

lemma manual_evict_wf: "manual_wf p \<Longrightarrow> manual_wf (fst (manual_evict cfg now p))"
  by (auto simp: manual_wf_def manual_evict_def Let_def map_wf_def distinct_map_filter
      dest: map_get_filter_Some [unfolded map_wf_def])

lemma manual_run_wf: "manual_wf p \<Longrightarrow> manual_wf (foldl (manual_step xxh3) p evs)"
proof (induction evs arbitrary: p)
  case (Cons ev evs)
  then show ?case by (cases ev) (simp_all add: manual_select_wf manual_evict_wf)
qed simp

lemma snapshot_get: "map_get (snapshot_routing_map m) k = map_option candi_worker_urls (map_get m k)"
  unfolding snapshot_routing_map_def by (induction m) auto

text \<open>
  C26: a restart keeps the sessions.  Take any history of the policy, its next periodic snapshot, and
  a policy started from that file: every session that the eviction kept has its candidates back,
  and no other session appears.
\<close>

theorem manual_restart_restores:
  assumes "manual_evict cfg now (foldl (manual_step xxh3) (manual_with_config read0 t0 [] cfg0) evs) = (p, Some snapshot)"
    and "routing_map_file cfg = Some path" and "read path = Some snapshot"
  shows "map_option candi_worker_urls (map_get (routing_map (manual_with_config read t [] cfg)) k) =
    map_option candi_worker_urls (map_get (routing_map p) k)"
proof -
  have wf: "manual_wf p"
    using manual_evict_wf [OF manual_run_wf [OF manual_with_config_wf]] assms(1) by (metis fst_conv)
  have snap: "snapshot = snapshot_routing_map (routing_map p)"
    using assms(1) by (auto simp: manual_evict_def Let_def split: if_splits)
  have "filter (\<lambda>e. snd e \<noteq> []) snapshot = snapshot"
  proof (rule filter_True, rule ballI)
    fix e assume "e \<in> set snapshot"
    then obtain k' node where "(k', node) \<in> set (routing_map p)" "e = (k', candi_worker_urls node)"
      by (auto simp: snap snapshot_routing_map_def)
    then show "snd e \<noteq> []" using wf by (auto simp: manual_wf_def map_get_iff)
  qed
  moreover have "map_wf snapshot" using wf by (simp add: snap snapshot_routing_map_def manual_wf_def map_wf_def comp_def)
  ultimately show ?thesis
    using assms(2,3) snapshot_get [of "routing_map p" k]
    by (auto simp: manual_with_config_def load_routing_map_def load_get map_get_rev snap split: option.splits)
qed

theorem manual_restart_restores_witness:
  "\<exists>p snapshot. manual_evict (manual_config_default\<lparr> routing_map_file := Some ''f'' \<rparr>) 7
      (foldl (manual_step (\<lambda>b. 0)) (manual_with_config (\<lambda>f. Some [(''k'', [''a'', ''b''])]) 3 [] (manual_config_default\<lparr> routing_map_file := Some ''f'' \<rparr>)) []) = (p, Some snapshot) \<and>
    map_option candi_worker_urls (map_get (routing_map (manual_with_config (\<lambda>f. Some snapshot) 11 []
      (manual_config_default\<lparr> routing_map_file := Some ''f'' \<rparr>))) ''k'') = Some [''a'', ''b'']"
proof -
  let ?cfg = "manual_config_default\<lparr> routing_map_file := Some ''f'' \<rparr>"
  let ?p0 = "manual_with_config (\<lambda>f. Some [(''k'', [''a'', ''b''])]) 3 [] ?cfg"
  let ?m = "[(''k'', \<lparr> candi_worker_urls = [''a'', ''b''], last_access = 3 \<rparr>)]"
  have p0: "routing_map ?p0 = ?m" by (simp add: manual_with_config_def load_routing_map_def)
  have ev: "manual_evict ?cfg 7 (foldl (manual_step (\<lambda>b. 0)) ?p0 []) = (?p0\<lparr> routing_map := ?m \<rparr>, Some [(''k'', [''a'', ''b''])])"
    by (simp add: manual_evict_def p0 snapshot_routing_map_def Let_def) (simp add: manual_config_default_def)
  from manual_restart_restores [OF ev, of "''f''" "\<lambda>f. Some [(''k'', [''a'', ''b''])]" 11 "''k''"]
  show ?thesis using ev by simp
qed

section \<open>The interface\<close>

lemma select_by_routing_id_healthy:
  assumes "rng_ok rng" "is \<noteq> []"
  shows "fst (fst (select_by_routing_id rng now ws k is p)) \<in> set is"
  using select_new_worker_healthy [OF assms] find_healthy_worker_Some
  by (auto simp: select_by_routing_id_def Let_def split: option.splits)

lemma manual_select_available:
  assumes "rng_ok rng"
  shows "fst (manual_select xxh3 rng now clk ws info p) = Some i \<Longrightarrow> available clk ws i"
    and "available clk ws i \<Longrightarrow> fst (manual_select xxh3 rng now clk ws info p) \<noteq> None"
proof -
  let ?is = "fst (get_healthy_worker_indices clk ws)" and ?ws = "snd (get_healthy_worker_indices clk ws)"
  assume sel: "fst (manual_select xxh3 rng now clk ws info p) = Some i"
  then have ne: "?is \<noteq> []"
    by (auto simp: manual_select_def manual_select_worker_impl_def split_beta Let_def)
  have "i \<in> set ?is"
  proof (cases "resolve_routing_key xxh3 (headers info) (request_text info)")
    case None
    then show ?thesis
      using sel ne select_min_by_least [OF assms ne]
      by (auto simp: manual_select_def manual_select_worker_impl_def min_load_select_def split_beta Let_def)
  next
    case (Some k)
    then show ?thesis
      using sel ne select_by_routing_id_healthy [OF assms ne]
      by (auto simp: manual_select_def manual_select_worker_impl_def split_beta Let_def)
  qed
  then show "available clk ws i" by (simp add: healthy_indices_set)
next
  assume "available clk ws i"
  then show "fst (manual_select xxh3 rng now clk ws info p) \<noteq> None"
    using healthy_indices_empty [of clk ws]
    by (auto simp: manual_select_def manual_select_worker_impl_def split_beta Let_def split: option.splits)
qed

interpretation manual: available_policy
  "\<lambda>clk ws. (fst (manual_select xxh3 (draw m) now clk ws info p), fst (snd (manual_select xxh3 (draw m) now clk ws info p)))"
  by (rule available_policyI) (use manual_select_available [OF draw_ok] in auto)

text \<open>A request without a key, and a new session under \<open>MinLoad\<close>, go to a least loaded available worker.\<close>

lemma manual_least_loaded:
  assumes "rng_ok rng" "available clk ws j"
    and "resolve_routing_key xxh3 (headers info) (request_text info) = None \<or>
      (\<exists>k. resolve_routing_key xxh3 (headers info) (request_text info) = Some k \<and>
         map_get (routing_map p) k = None \<and> assignment_mode p = MinLoad)"
  shows "\<exists>i. fst (manual_select xxh3 rng now clk ws info p) = Some i \<and> available clk ws i \<and>
    unat (get_load (ws ! i)) \<le> unat (get_load (ws ! j))"
proof -
  let ?is = "fst (get_healthy_worker_indices clk ws)" and ?ws = "snd (get_healthy_worker_indices clk ws)"
  let ?i = "min_load_select rng ?ws ?is"
  have ne: "?is \<noteq> []" and j: "j \<in> set ?is" using assms(2) by (auto simp: healthy_indices_set [symmetric])
  have i: "?i \<in> set ?is" "unat (get_load (?ws ! ?i)) \<le> unat (get_load (?ws ! j))"
    using select_min_by_least [OF assms(1) ne, of "\<lambda>idx. unat (get_load (?ws ! idx))"] j
    by (simp_all add: min_load_select_def)
  have "fst (manual_select xxh3 rng now clk ws info p) = Some ?i"
    using assms(3) ne
    by (auto simp: manual_select_def manual_select_worker_impl_def select_by_routing_id_def select_new_worker_def split_beta Let_def)
  moreover have "available clk ws ?i" using i(1) by (simp add: healthy_indices_set)
  ultimately show ?thesis using i(2) assms(2) by (auto simp: available_def checked_worker_keeps)
qed

end
