(* ===== verification/Cache_Aware.thy ===== *)
theory Cache_Aware
  imports Radix_Evict Policies
begin

text \<open>
  The cache-aware policy, \<open>src/gateway/src/policies/cache_aware.rs\<close>: one radix tree per pool and
  model, selection by the longest cached prefix while the load is balanced, by the shortest queue
  otherwise.

  A call that may panic returns an option; the invariant shows that none does.  The epoch counter
  is a global of \<open>tree.rs\<close>, so it is handed from tree to tree.  \<open>f32\<close> arithmetic is on rational
  numbers with the rounding of each operation as an argument \<open>rd\<close>.  The mesh is a service outside:
  what is sent to it is part of the result, what it has stored is an argument.
\<close>

section \<open>Model\<close>

record cache_aware_config =
  cache_threshold :: rat
  balance_abs_threshold :: nat
  balance_rel_threshold :: rat
  ca_eviction_interval_secs :: u64
  max_tree_size :: nat

definition cache_aware_config_default :: cache_aware_config where
  "cache_aware_config_default = \<lparr> cache_threshold = 1 / 2, balance_abs_threshold = 32,
     balance_rel_threshold = 11 / 10, ca_eviction_interval_secs = 30, max_tree_size = 10000 \<rparr>"

fun pool_tag :: "worker_type \<Rightarrow> string" where
  "pool_tag Regular = ''regular''"
| "pool_tag (Prefill p) = ''prefill''"
| "pool_tag Decode = ''decode''"

definition make_tree_key :: "string \<Rightarrow> string \<Rightarrow> string" where
  "make_tree_key pool model = pool @ ''::'' @ model"

definition tree_key_for_worker :: "string \<Rightarrow> worker \<Rightarrow> string" where
  "tree_key_for_worker unknown_id w =
     make_tree_key (pool_tag (get_worker_type w)) (normalize_model_key unknown_id (model_id unknown_id w))"

datatype tree_operation = Insert ustr tenant_id | Remove tenant_id

record cache_aware_policy =
  ca_config :: cache_aware_config
  trees :: "(string \<times> radix_tree) list"
  mesh_enabled :: bool
  ca_epoch :: nat

definition ca_with_config :: "nat \<Rightarrow> cache_aware_config \<Rightarrow> cache_aware_policy" where
  "ca_with_config epoch cfg = \<lparr> ca_config = cfg, trees = [], mesh_enabled = False, ca_epoch = epoch \<rparr>"

text \<open>Work on the tree of a key, if there is one; \<open>entry(key).or_insert_with(Tree::new)\<close>.\<close>

definition on_tree :: "string \<Rightarrow> (radix_tree \<Rightarrow> radix_tree option) \<Rightarrow> cache_aware_policy \<Rightarrow> cache_aware_policy option" where
  "on_tree key f p =
     (case map_get (trees p) key of
        None \<Rightarrow> Some p
      | Some tree \<Rightarrow>
          do {
            tree \<leftarrow> f (tree\<lparr> epoch_counter := ca_epoch p \<rparr>);
            Some (p\<lparr> trees := map_insert key tree (trees p), ca_epoch := epoch_counter tree \<rparr>)
          })"

definition ensure_tree :: "string \<Rightarrow> cache_aware_policy \<Rightarrow> cache_aware_policy" where
  "ensure_tree key p = p\<lparr> trees := map_or_insert key (tree_new (ca_epoch p)) (trees p) \<rparr>"

subsection \<open>Workers come and go\<close>

definition group_by_tree :: "string \<Rightarrow> worker list \<Rightarrow> (string \<times> worker list) list" where
  "group_by_tree unknown_id workers =
     foldl (\<lambda>g w. map_modify_or_insert (tree_key_for_worker unknown_id w) (\<lambda>l. l @ [w]) [w] g) [] workers"

definition ca_init_workers :: "string \<Rightarrow> worker list \<Rightarrow> cache_aware_policy \<Rightarrow> cache_aware_policy option" where
  "ca_init_workers unknown_id workers =
     for_each (\<lambda>(key, ws) p. for_each (\<lambda>w. on_tree key (insert [] (url w))) ws (ensure_tree key p))
       (group_by_tree unknown_id workers)"

definition ca_add_worker :: "string \<Rightarrow> worker \<Rightarrow> cache_aware_policy \<Rightarrow> cache_aware_policy option" where
  "ca_add_worker unknown_id w p =
     (let key = tree_key_for_worker unknown_id w in on_tree key (insert [] (url w)) (ensure_tree key p))"

definition ca_remove_worker :: "string \<Rightarrow> worker \<Rightarrow> cache_aware_policy \<Rightarrow> cache_aware_policy option" where
  "ca_remove_worker unknown_id w = on_tree (tree_key_for_worker unknown_id w) (remove_tenant (url w))"

definition ca_remove_worker_by_url :: "string \<Rightarrow> cache_aware_policy \<Rightarrow> cache_aware_policy option" where
  "ca_remove_worker_by_url u p = for_each (\<lambda>key. on_tree key (remove_tenant u)) (map_keys (trees p)) p"

definition evict_cache :: "nat \<Rightarrow> cache_aware_policy \<Rightarrow> cache_aware_policy option" where
  "evict_cache max_size p = for_each (\<lambda>key. on_tree key (evict_tenant_by_size max_size)) (map_keys (trees p)) p"

text \<open>One run of the background task.\<close>

definition ca_periodic_eviction :: "cache_aware_policy \<Rightarrow> cache_aware_policy option" where
  "ca_periodic_eviction p =
     (if 0 < ca_eviction_interval_secs (ca_config p) then evict_cache (max_tree_size (ca_config p)) p else Some p)"

subsection \<open>Mesh\<close>

fun apply_tree_operation :: "tree_operation \<Rightarrow> radix_tree \<Rightarrow> radix_tree option" where
  "apply_tree_operation (Insert inp t) tree = insert inp t tree"
| "apply_tree_operation (Remove t) tree = remove_tenant t tree"

definition restore_tree_state_from_mesh ::
    "(string \<Rightarrow> tree_operation list option) \<Rightarrow> cache_aware_policy \<Rightarrow> cache_aware_policy option" where
  "restore_tree_state_from_mesh get_tree_state p =
     (if mesh_enabled p then
        for_each (\<lambda>key p.
          case get_tree_state key of
            None \<Rightarrow> Some p
          | Some ops \<Rightarrow> for_each (\<lambda>op. on_tree key (apply_tree_operation op)) ops p)
          (map_keys (trees p)) p
      else Some p)"

definition ca_set_mesh_sync ::
    "(string \<Rightarrow> tree_operation list option) option \<Rightarrow> cache_aware_policy \<Rightarrow> cache_aware_policy option" where
  "ca_set_mesh_sync mesh p =
     (case mesh of
        None \<Rightarrow> Some (p\<lparr> mesh_enabled := False \<rparr>)
      | Some get_tree_state \<Rightarrow> restore_tree_state_from_mesh get_tree_state (p\<lparr> mesh_enabled := True \<rparr>))"

definition normalize_mesh_model_id :: "string \<Rightarrow> string \<Rightarrow> string" where
  "normalize_mesh_model_id unknown_id tree_key = (if tree_key = [] then unknown_id else tree_key)"

definition apply_remote_tree_operation ::
    "string \<Rightarrow> string \<Rightarrow> tree_operation \<Rightarrow> cache_aware_policy \<Rightarrow> cache_aware_policy option" where
  "apply_remote_tree_operation unknown_id mesh_key op p =
     (let key = normalize_mesh_model_id unknown_id mesh_key in
      on_tree key (apply_tree_operation op) (ensure_tree key p))"

definition sync_ops :: "string \<Rightarrow> string \<Rightarrow> tree_operation \<Rightarrow> cache_aware_policy \<Rightarrow> (string \<times> tree_operation) list" where
  "sync_ops unknown_id key op p =
     (if mesh_enabled p then [(normalize_mesh_model_id unknown_id key, op)] else [])"

subsection \<open>Selection\<close>

type_synonym ca_result = "nat option \<times> worker list \<times> cache_aware_policy \<times> (string \<times> tree_operation) list"

definition min_of :: "nat list \<Rightarrow> nat option" where
  "min_of xs = (if xs = [] then None else Some (Min (set xs)))"

text \<open>A healthy worker of least load, ties broken by the draw.\<close>

definition choose_min_load :: "rng \<Rightarrow> worker list \<Rightarrow> nat list \<Rightarrow> nat option" where
  "choose_min_load rng workers healthy_indices =
     (let loads = map (\<lambda>idx. (idx, unat (get_load (workers ! idx)))) healthy_indices in
      do {
        min_load \<leftarrow> min_of (map snd loads);
        rng_choose rng (map fst (filter (\<lambda>e. snd e = min_load) loads))
      })"

definition count_processed :: "nat \<Rightarrow> worker list \<Rightarrow> worker list" where
  "count_processed idx workers = workers[idx := increment_processed (workers ! idx)]"

definition select_worker_min_load ::
    "string \<Rightarrow> rng \<Rightarrow> worker list \<Rightarrow> ustr option \<Rightarrow> nat list \<Rightarrow> string \<Rightarrow> cache_aware_policy \<Rightarrow> ca_result option" where
  "select_worker_min_load unknown_id rng workers inp healthy_indices tree_key p =
     (case choose_min_load rng workers healthy_indices of
        None \<Rightarrow> Some (None, workers, p, [])
      | Some idx \<Rightarrow>
          let u = url (workers ! idx) in
          do {
            (p', ops) \<leftarrow>
              (case inp of
                 None \<Rightarrow> Some (p, [])
               | Some s \<Rightarrow>
                   if contains_key (trees p) tree_key then
                     do { p' \<leftarrow> on_tree tree_key (insert s u) p; Some (p', sync_ops unknown_id tree_key (Insert s u) p) }
                   else Some (p, []));
            Some (Some idx, count_processed idx workers, p', ops)
          })"

text \<open>Least and greatest load of all workers, healthy or not.\<close>

definition load_range :: "worker list \<Rightarrow> nat \<times> nat" where
  "load_range workers =
     (let (mn, mx) = foldl (\<lambda>(mn, mx) w. let l = unat (get_load w) in (min mn l, max mx l)) (usize_max, 0) workers in
      (if mn = usize_max then 0 else mn, mx))"

definition is_imbalanced :: "(rat \<Rightarrow> rat) \<Rightarrow> cache_aware_config \<Rightarrow> nat \<Rightarrow> nat \<Rightarrow> bool" where
  "is_imbalanced rd cfg min_load max_load \<longleftrightarrow>
     balance_abs_threshold cfg < max_load - min_load \<and>
     rd (rd (of_nat min_load) * balance_rel_threshold cfg) < rd (of_nat max_load)"

definition match_rate :: "(rat \<Rightarrow> rat) \<Rightarrow> prefix_match_result \<Rightarrow> rat" where
  "match_rate rd result =
     (if input_char_count result = 0 then 0
      else rd (rd (of_nat (matched_char_count result)) / rd (of_nat (input_char_count result))))"

text \<open>The first worker with the URL of a tenant, if it is healthy.\<close>

definition tenant_index :: "worker list \<Rightarrow> tenant_id \<Rightarrow> nat option" where
  "tenant_index workers t =
     (case position (\<lambda>w. url w = t) workers of
        None \<Rightarrow> None
      | Some idx \<Rightarrow> if is_healthy (workers ! idx) then Some idx else None)"

text \<open>
  The balanced path, on the tree of the pool.  \<open>healthy_indices\<close> is not empty here, so a miss
  always finds a worker of least load.
\<close>

definition select_by_cache ::
    "string \<Rightarrow> (rat \<Rightarrow> rat) \<Rightarrow> rng \<Rightarrow> worker list \<Rightarrow> ustr \<Rightarrow> nat list \<Rightarrow> string \<Rightarrow> radix_tree \<Rightarrow> cache_aware_policy \<Rightarrow> ca_result option" where
  "select_by_cache unknown_id rd rng workers inp healthy_indices tree_key tree p =
     do {
       (result, tree) \<leftarrow> prefix_match_with_counts inp (tree\<lparr> epoch_counter := ca_epoch p \<rparr>);
       let p = p\<lparr> trees := map_insert tree_key tree (trees p), ca_epoch := epoch_counter tree \<rparr>;
       let hit = cache_threshold (ca_config p) < match_rate rd result;
       let selected_idx =
         (if hit then tenant_index workers (pm_tenant result)
          else choose_min_load rng workers healthy_indices);
       case selected_idx of
         Some idx \<Rightarrow>
           do {
             p' \<leftarrow> on_tree tree_key (insert inp (url (workers ! idx))) p;
             Some (Some idx, count_processed idx workers, p', sync_ops unknown_id tree_key (Insert inp (url (workers ! idx))) p)
           }
       | None \<Rightarrow>
           if hit then
             do {
               p' \<leftarrow> on_tree tree_key (remove_tenant (pm_tenant result)) p;
               Some (Some (healthy_indices ! 0), workers, p', sync_ops unknown_id tree_key (Remove (pm_tenant result)) p)
             }
           else Some (Some (healthy_indices ! 0), workers, p, [])
     }"

definition ca_select_worker ::
    "string \<Rightarrow> (rat \<Rightarrow> rat) \<Rightarrow> rng \<Rightarrow> clock \<Rightarrow> worker list \<Rightarrow> select_worker_info \<Rightarrow> cache_aware_policy \<Rightarrow> ca_result option" where
  "ca_select_worker unknown_id rd rng clk workers info p =
     (let (healthy_indices, workers) = get_healthy_worker_indices clk workers in
      if healthy_indices = [] then Some (None, workers, p, [])
      else
        let tree_key = tree_key_for_worker unknown_id (workers ! (healthy_indices ! 0));
            (min_load, max_load) = load_range workers in
        if is_imbalanced rd (ca_config p) min_load max_load then
          select_worker_min_load unknown_id rng workers (request_text info) healthy_indices tree_key p
        else
          let inp = (case request_text info of None \<Rightarrow> [] | Some s \<Rightarrow> s) in
          case map_get (trees p) tree_key of
            Some tree \<Rightarrow> select_by_cache unknown_id rd rng workers inp healthy_indices tree_key tree p
          | None \<Rightarrow> Some (Some (healthy_indices ! rng (length healthy_indices)), workers, p, []))"

section \<open>The interface of the tree\<close>

text \<open>
  What the policy needs of a tree: every call returns and keeps the tree consistent; inserting,
  removing and evicting change what a tenant holds as their names say; a match finds the longest
  prefix any tenant holds and a tenant that holds it.
\<close>

locale prefix_index =
  fixes ok :: "'tree \<Rightarrow> bool"
    and holds :: "'tree \<Rightarrow> tenant_id \<Rightarrow> ustr \<Rightarrow> bool"
    and ins :: "ustr \<Rightarrow> tenant_id \<Rightarrow> 'tree \<Rightarrow> 'tree option"
    and rem :: "tenant_id \<Rightarrow> 'tree \<Rightarrow> 'tree option"
    and evict :: "nat \<Rightarrow> 'tree \<Rightarrow> 'tree option"
    and find_prefix :: "ustr \<Rightarrow> 'tree \<Rightarrow> ((tenant_id \<times> nat) \<times> 'tree) option"
  assumes ins_law: "ok tree \<Longrightarrow> \<exists>tree'. ins inp t tree = Some tree' \<and> ok tree' \<and>
      (\<forall>t' s. holds tree' t' s \<longleftrightarrow> holds tree t' s \<or> (t' = t \<and> prefix s inp))"
    and rem_law: "ok tree \<Longrightarrow> \<exists>tree'. rem t tree = Some tree' \<and> ok tree' \<and>
      (\<forall>t' s. holds tree' t' s \<longleftrightarrow> t' \<noteq> t \<and> holds tree t' s)"
    and evict_law: "ok tree \<Longrightarrow> \<exists>tree'. evict n tree = Some tree' \<and> ok tree' \<and>
      (\<forall>t s. holds tree' t s \<longrightarrow> holds tree t s)"
    and find_law: "ok tree \<Longrightarrow> \<exists>t k tree'. find_prefix inp tree = Some ((t, k), tree') \<and> ok tree' \<and>
      k \<le> length inp \<and> (0 < k \<longrightarrow> holds tree t (take k inp)) \<and>
      (\<forall>t' s. prefix s inp \<longrightarrow> holds tree t' s \<longrightarrow> length s \<le> k) \<and>
      (\<forall>t' s. s \<noteq> [] \<longrightarrow> holds tree' t' s = holds tree t' s)"
begin

text \<open>A lookup followed by the insertion of the text for the worker that serves it.\<close>

lemma find_then_ins:
  assumes "ok tree"
  shows "\<exists>t k tree1 tree2. find_prefix inp tree = Some ((t, k), tree1) \<and> ins inp u tree1 = Some tree2 \<and> ok tree2 \<and>
    (\<forall>t' s. s \<noteq> [] \<longrightarrow> (holds tree2 t' s \<longleftrightarrow> holds tree t' s \<or> (t' = u \<and> prefix s inp)))"
  using find_law [OF assms, of inp] ins_law by meson

text \<open>A lookup followed by the removal of a stale tenant.\<close>

lemma find_then_rem:
  assumes "ok tree"
  shows "\<exists>t k tree1 tree2. find_prefix inp tree = Some ((t, k), tree1) \<and> rem t tree1 = Some tree2 \<and> ok tree2 \<and>
    (\<forall>t' s. s \<noteq> [] \<longrightarrow> (holds tree2 t' s \<longleftrightarrow> t' \<noteq> t \<and> holds tree t' s))"
  using find_law [OF assms, of inp] rem_law by meson

text \<open>After a text has been served, looking it up again matches it whole.\<close>

lemma ins_then_find:
  assumes "ok tree"
  shows "\<exists>tree1 t tree2. ins inp u tree = Some tree1 \<and> find_prefix inp tree1 = Some ((t, length inp), tree2) \<and>
    (inp \<noteq> [] \<longrightarrow> holds tree1 t inp)"
proof -
  obtain tree1 where t1: "ins inp u tree = Some tree1" "ok tree1" "holds tree1 u inp"
    using ins_law [OF assms, of inp u] by auto
  from find_law [OF t1(2), of inp] obtain t k tree2 where
    f: "find_prefix inp tree1 = Some ((t, k), tree2)" "k \<le> length inp" "0 < k \<longrightarrow> holds tree1 t (take k inp)"
      "length inp \<le> k" using t1(3) by blast
  then have "k = length inp" by simp
  then show ?thesis using t1 f by auto
qed

end

lemma empty_tree_match:
  assumes "tree_ok tree" "tenants (root tree) = []"
  shows "\<exists>t tree'. prefix_match_with_counts inp tree = Some (\<lparr> pm_tenant = t, matched_char_count = 0, input_char_count = length inp \<rparr>, tree') \<and>
    tree_ok tree' \<and> (\<forall>t' s. s \<noteq> [] \<longrightarrow> \<not> owns t' (root tree') s) \<and> (\<forall>t' s. \<not> owns t' (root tree) s)"
proof -
  have wf: "wf_node (root tree)" using assms(1) by (simp add: tree_ok_def)
  have cs: "children (root tree) = []"
  proof (rule ccontr)
    assume "children (root tree) \<noteq> []"
    then obtain c m where "(c, m) \<in> set (children (root tree))" by (cases "children (root tree)") auto
    from wf_node_child [OF wf this] assms(2) show False
      by (cases "tenants m") (auto simp: child_ok_def has_tenant_def)
  qed
  obtain nt cs ts lt where rt: "root tree = Node nt cs ts lt" by (cases "root tree")
  have e: "cs = []" "ts = []" using rt cs assms(2) by simp_all
  obtain t rt' where touch: "touch_matched (epoch_counter tree) (root tree) = (t, rt')" by fastforce
  then have rt': "node_text rt' = nt" "children rt' = []" "tenants rt' = [] \<or> tenants rt' = [(t, epoch_counter tree)]"
    using rt e by (auto simp: touch_matched_def select_tenant_def set_last_tenant_def set_access_def has_tenant_def Let_def
        split: option.splits if_splits prod.splits)
  have "match_from (length inp) inp (root tree) 0 (epoch_counter tree) = Some (t, 0, rt')"
    using touch cs by (cases inp) simp_all
  moreover have "tree_ok (tree\<lparr> root := rt', epoch_counter := Suc (epoch_counter tree) \<rparr>)"
  proof -
    obtain lt' where n: "rt' = Node nt [] (tenants rt') lt'" using rt'(1,2) by (cases rt') auto
    have len: "nt_char_count nt = 0" "text_ok nt" "nt_text nt = []" using assms(1) rt by (auto simp: tree_ok_def text_ok_def)
    then have u: "used t' rt' = 0" for t' by (subst n) simp
    have "used t' (root tree) = 0" for t' using rt e by simp
    moreover have "wf_node rt'" by (subst n) (use rt'(3) len in \<open>auto simp: map_wf_def\<close>)
    ultimately show ?thesis using assms(1) u len(3) rt'(1) by (simp add: tree_ok_def)
  qed
  moreover have "\<not> owns t' rt' s" if "s \<noteq> []" for t' s using that rt'(2) by (cases s) (simp_all add: owns.simps)
  moreover have "\<not> owns t' (root tree) s" for t' s using rt e by (cases s) (simp_all add: has_tenant_def owns.simps)
  ultimately show ?thesis by (simp add: prefix_match_with_counts_def)
qed

interpretation radix: prefix_index tree_ok "\<lambda>tree t s. owns t (root tree) s" insert remove_tenant evict_tenant_by_size
  "\<lambda>inp tree. map_option (\<lambda>(r, tree). ((pm_tenant r, matched_char_count r), tree)) (prefix_match_with_counts inp tree)"
proof
  fix tree :: radix_tree and inp :: ustr and t :: tenant_id and n :: nat
  assume ok: "tree_ok tree"
  show "\<exists>tree'. insert inp t tree = Some tree' \<and> tree_ok tree' \<and>
      (\<forall>t' s. owns t' (root tree') s \<longleftrightarrow> owns t' (root tree) s \<or> (t' = t \<and> prefix s inp))"
    by (rule insert_spec [OF ok])
  show "\<exists>tree'. remove_tenant t tree = Some tree' \<and> tree_ok tree' \<and>
      (\<forall>t' s. owns t' (root tree') s \<longleftrightarrow> t' \<noteq> t \<and> owns t' (root tree) s)"
    using remove_tenant_spec [OF ok] by blast
  show "\<exists>tree'. evict_tenant_by_size n tree = Some tree' \<and> tree_ok tree' \<and>
      (\<forall>t s. owns t (root tree') s \<longrightarrow> owns t (root tree) s)"
    using evict_spec [OF ok] by blast
  show "\<exists>t k tree'. map_option (\<lambda>(r, tree). ((pm_tenant r, matched_char_count r), tree)) (prefix_match_with_counts inp tree) =
        Some ((t, k), tree') \<and> tree_ok tree' \<and> k \<le> length inp \<and> (0 < k \<longrightarrow> owns t (root tree) (take k inp)) \<and>
      (\<forall>t' s. prefix s inp \<longrightarrow> owns t' (root tree) s \<longrightarrow> length s \<le> k) \<and>
      (\<forall>t' s. s \<noteq> [] \<longrightarrow> owns t' (root tree') s = owns t' (root tree) s)"
  proof (cases "tenants (root tree) = []")
    case True
    from empty_tree_match [OF ok this, of inp] show ?thesis by fastforce
  next
    case False
    from prefix_match_spec [OF ok this, of inp] show ?thesis by fastforce
  qed
qed

section \<open>The invariant\<close>

definition ca_ok :: "cache_aware_policy \<Rightarrow> bool" where
  "ca_ok p \<longleftrightarrow> map_wf (trees p) \<and> (\<forall>key tree. map_get (trees p) key = Some tree \<longrightarrow> tree_ok tree)"

text \<open>Worker \<open>t\<close> is taken to have the text \<open>s\<close> cached in the pool \<open>key\<close>.\<close>

definition cached :: "cache_aware_policy \<Rightarrow> string \<Rightarrow> tenant_id \<Rightarrow> ustr \<Rightarrow> bool" where
  "cached p key t s \<longleftrightarrow> (case map_get (trees p) key of None \<Rightarrow> False | Some tree \<Rightarrow> owns t (root tree) s)"

lemma tree_ok_epoch [simp]: "tree_ok (tree\<lparr> epoch_counter := e \<rparr>) = tree_ok tree"
  by (simp add: tree_ok_def)

lemma ca_ok_tree: "ca_ok p \<Longrightarrow> map_get (trees p) key = Some tree \<Longrightarrow> tree_ok tree"
  by (simp add: ca_ok_def)

lemma ca_ok_with_config: "ca_ok (ca_with_config e cfg)"
  by (simp add: ca_ok_def ca_with_config_def)

lemma ca_ok_put: "ca_ok p \<Longrightarrow> tree_ok tree \<Longrightarrow> ca_ok (p\<lparr> trees := map_insert key tree (trees p), ca_epoch := e \<rparr>)"
  by (simp add: ca_ok_def)

lemma ca_ok_ensure: "ca_ok p \<Longrightarrow> ca_ok (ensure_tree key p)"
  by (auto simp: ca_ok_def ensure_tree_def tree_new_ok split: option.splits)

lemma cached_ensure: "cached (ensure_tree key p) key' t s = cached p key' t s"
proof -
  have "\<not> owns t (root (tree_new e)) s" for e
    by (cases s) (simp_all add: owns.simps tree_new_def has_tenant_def)
  then show ?thesis by (auto simp: cached_def ensure_tree_def split: option.splits)
qed

text \<open>A total tree operation lifts to a total operation on the policy.\<close>

lemma on_tree_lift:
  assumes "ca_ok p" and "\<And>tree. tree_ok tree \<Longrightarrow> \<exists>tree'. f tree = Some tree' \<and> tree_ok tree' \<and>
      (\<forall>t s. owns t (root tree') s \<longleftrightarrow> Q t s (owns t (root tree) s))"
  shows "\<exists>p'. on_tree key f p = Some p' \<and> ca_ok p' \<and> map_keys (trees p') = map_keys (trees p) \<and>
    (\<forall>key' t s. cached p' key' t s \<longleftrightarrow>
       (if key' = key \<and> contains_key (trees p) key then Q t s (cached p key t s) else cached p key' t s))"
proof (cases "map_get (trees p) key")
  case None
  then show ?thesis using assms(1) by (simp add: on_tree_def contains_key_get)
next
  case (Some tree)
  then obtain tree' where t: "f (tree\<lparr> epoch_counter := ca_epoch p \<rparr>) = Some tree'" "tree_ok tree'"
      "\<forall>t s. owns t (root tree') s \<longleftrightarrow> Q t s (owns t (root tree) s)"
    using assms(2) [of "tree\<lparr> epoch_counter := ca_epoch p \<rparr>"] ca_ok_tree [OF assms(1) Some] by auto
  have "map fst (map_insert key tree' m) = map fst m" if "contains_key m key" for m
    using that by (induction m) auto
  then show ?thesis
    using Some t ca_ok_put [OF assms(1) t(2), of "epoch_counter tree'" key]
    by (auto simp: on_tree_def cached_def contains_key_get map_keys_def)
qed

lemma on_tree_insert:
  assumes "ca_ok p"
  shows "\<exists>p'. on_tree key (insert inp u) p = Some p' \<and> ca_ok p' \<and> map_keys (trees p') = map_keys (trees p) \<and>
    (\<forall>key' t s. cached p' key' t s \<longleftrightarrow>
       cached p key' t s \<or> (key' = key \<and> contains_key (trees p) key \<and> t = u \<and> prefix s inp))"
proof -
  have "tree_ok tree \<Longrightarrow> \<exists>tree'. insert inp u tree = Some tree' \<and> tree_ok tree' \<and>
      (\<forall>t s. owns t (root tree') s \<longleftrightarrow> owns t (root tree) s \<or> (t = u \<and> prefix s inp))" for tree
    by (rule radix.ins_law)
  from on_tree_lift [OF assms, of "insert inp u" "\<lambda>t s old. old \<or> (t = u \<and> prefix s inp)", OF this]
  obtain p' where "on_tree key (insert inp u) p = Some p'" "ca_ok p'" "map_keys (trees p') = map_keys (trees p)"
    "\<And>key' t s. cached p' key' t s \<longleftrightarrow>
       (if key' = key \<and> contains_key (trees p) key then cached p key t s \<or> (t = u \<and> prefix s inp) else cached p key' t s)"
    by blast
  then show ?thesis by auto
qed

lemma on_tree_remove:
  assumes "ca_ok p"
  shows "\<exists>p'. on_tree key (remove_tenant u) p = Some p' \<and> ca_ok p' \<and> map_keys (trees p') = map_keys (trees p) \<and>
    (\<forall>key' t s. cached p' key' t s \<longleftrightarrow> cached p key' t s \<and> \<not> (key' = key \<and> t = u))"
proof -
  have "tree_ok tree \<Longrightarrow> \<exists>tree'. remove_tenant u tree = Some tree' \<and> tree_ok tree' \<and>
      (\<forall>t s. owns t (root tree') s \<longleftrightarrow> t \<noteq> u \<and> owns t (root tree) s)" for tree
    by (rule radix.rem_law)
  from on_tree_lift [OF assms, of "remove_tenant u" "\<lambda>t s old. t \<noteq> u \<and> old", OF this]
  obtain p' where "on_tree key (remove_tenant u) p = Some p'" "ca_ok p'" "map_keys (trees p') = map_keys (trees p)"
    "\<And>key' t s. cached p' key' t s \<longleftrightarrow>
       (if key' = key \<and> contains_key (trees p) key then t \<noteq> u \<and> cached p key t s else cached p key' t s)"
    by blast
  moreover have "cached p key t s \<Longrightarrow> contains_key (trees p) key" for t s
    by (auto simp: cached_def contains_key_get split: option.splits)
  ultimately show ?thesis by auto
qed

lemma for_each_remove:
  assumes "ca_ok p"
  shows "\<exists>p'. for_each (\<lambda>key. on_tree key (remove_tenant u)) keys p = Some p' \<and> ca_ok p' \<and>
    (\<forall>key t s. cached p' key t s \<longleftrightarrow> cached p key t s \<and> \<not> (key \<in> set keys \<and> t = u))"
  using assms
proof (induction keys arbitrary: p)
  case (Cons key keys)
  obtain p1 where p1: "on_tree key (remove_tenant u) p = Some p1" "ca_ok p1"
      "\<forall>key' t s. cached p1 key' t s \<longleftrightarrow> cached p key' t s \<and> \<not> (key' = key \<and> t = u)"
    using on_tree_remove [OF Cons.prems] by blast
  obtain p2 where p2: "for_each (\<lambda>key. on_tree key (remove_tenant u)) keys p1 = Some p2" "ca_ok p2"
      "\<forall>key t s. cached p2 key t s \<longleftrightarrow> cached p1 key t s \<and> \<not> (key \<in> set keys \<and> t = u)"
    using Cons.IH [OF p1(2)] by blast
  have "cached p2 key' t s \<longleftrightarrow> cached p key' t s \<and> \<not> (key' \<in> set (key # keys) \<and> t = u)" for key' t s
    using p1(3) p2(3) by auto
  then show ?case using p1(1) p2(1,2) by auto
qed simp

lemma cached_key: "cached p key t s \<Longrightarrow> key \<in> set (map_keys (trees p))"
  by (force simp: cached_def map_keys_def dest: map_get_in_set split: option.splits)

lemma remove_by_url_spec:
  assumes "ca_ok p"
  shows "\<exists>p'. ca_remove_worker_by_url u p = Some p' \<and> ca_ok p' \<and>
    (\<forall>key t s. cached p' key t s \<longleftrightarrow> t \<noteq> u \<and> cached p key t s)"
proof -
  obtain p' where "ca_remove_worker_by_url u p = Some p'" "ca_ok p'"
      "\<And>key t s. cached p' key t s \<longleftrightarrow> cached p key t s \<and> \<not> (key \<in> set (map_keys (trees p)) \<and> t = u)"
    unfolding ca_remove_worker_by_url_def using for_each_remove [OF assms, of u "map_keys (trees p)"] by blast
  moreover have "cached p key t s \<Longrightarrow> key \<in> set (map_keys (trees p))" for key t s by (rule cached_key)
  ultimately show ?thesis by auto
qed

definition bounded_tree :: "nat \<Rightarrow> radix_tree \<Rightarrow> bool" where
  "bounded_tree n tree \<longleftrightarrow> (\<forall>t. count_of (get_used_size_per_tenant tree) t \<le> n)"

lemma on_tree_evict:
  assumes "ca_ok p"
  shows "\<exists>p'. on_tree key (evict_tenant_by_size n) p = Some p' \<and> ca_ok p' \<and> map_keys (trees p') = map_keys (trees p) \<and>
    (\<forall>tree. map_get (trees p') key = Some tree \<longrightarrow> bounded_tree n tree) \<and>
    (\<forall>key'. key' \<noteq> key \<longrightarrow> map_get (trees p') key' = map_get (trees p) key') \<and>
    (\<forall>key t s. cached p' key t s \<longrightarrow> cached p key t s)"
proof (cases "map_get (trees p) key")
  case None
  then show ?thesis using assms by (simp add: on_tree_def)
next
  case (Some tree)
  let ?tree = "tree\<lparr> epoch_counter := ca_epoch p \<rparr>"
  have ok: "tree_ok ?tree" using ca_ok_tree [OF assms Some] by simp
  obtain tree' where t: "evict_tenant_by_size n ?tree = Some tree'" "tree_ok tree'" "bounded_tree n tree'"
      "\<forall>t s. owns t (root tree') s \<longrightarrow> owns t (root tree) s"
    using evict_spec [OF ok, of n] by (auto simp: bounded_tree_def)
  have keys: "map fst (map_insert key tree' m) = map fst m" if "contains_key m key" for m
    using that by (induction m) auto
  have "contains_key (trees p) key" using Some by (simp add: contains_key_get)
  then show ?thesis using Some t ca_ok_put [OF assms t(2), of "epoch_counter tree'" key] keys
    by (auto simp: on_tree_def cached_def map_keys_def split: option.splits if_splits)
qed

lemma for_each_evict:
  assumes "ca_ok p"
  shows "\<exists>p'. for_each (\<lambda>key. on_tree key (evict_tenant_by_size n)) keys p = Some p' \<and> ca_ok p' \<and>
    map_keys (trees p') = map_keys (trees p) \<and>
    (\<forall>key tree. map_get (trees p') key = Some tree \<and> (key \<in> set keys \<or>
        (\<forall>tree. map_get (trees p) key = Some tree \<longrightarrow> bounded_tree n tree)) \<longrightarrow> bounded_tree n tree) \<and>
    (\<forall>key t s. cached p' key t s \<longrightarrow> cached p key t s)"
  using assms
proof (induction keys arbitrary: p)
  case Nil
  then show ?case by auto
next
  case (Cons key keys)
  obtain p1 where p1: "on_tree key (evict_tenant_by_size n) p = Some p1" "ca_ok p1" "map_keys (trees p1) = map_keys (trees p)"
      "\<forall>tree. map_get (trees p1) key = Some tree \<longrightarrow> bounded_tree n tree"
      "\<forall>key'. key' \<noteq> key \<longrightarrow> map_get (trees p1) key' = map_get (trees p) key'"
      "\<forall>key t s. cached p1 key t s \<longrightarrow> cached p key t s"
    using on_tree_evict [OF Cons.prems] by blast
  obtain p2 where p2: "for_each (\<lambda>key. on_tree key (evict_tenant_by_size n)) keys p1 = Some p2" "ca_ok p2"
      "map_keys (trees p2) = map_keys (trees p1)"
      "\<And>key tree. map_get (trees p2) key = Some tree \<Longrightarrow> key \<in> set keys \<or>
        (\<forall>tree. map_get (trees p1) key = Some tree \<longrightarrow> bounded_tree n tree) \<Longrightarrow> bounded_tree n tree"
      "\<forall>key t s. cached p2 key t s \<longrightarrow> cached p1 key t s"
    using Cons.IH [OF p1(2)] by blast
  have "bounded_tree n tree" if "map_get (trees p2) key' = Some tree"
    "key' \<in> set (key # keys) \<or> (\<forall>tree. map_get (trees p) key' = Some tree \<longrightarrow> bounded_tree n tree)" for key' tree
    using p2(4) [OF that(1)] p1(4,5) that(2) by (cases "key' = key") auto
  then show ?case using p1(1,3,6) p2(1,2,3,5) by auto
qed

lemma evict_cache_spec:
  assumes "ca_ok p"
  shows "\<exists>p'. evict_cache n p = Some p' \<and> ca_ok p' \<and> (\<forall>key tree. map_get (trees p') key = Some tree \<longrightarrow> bounded_tree n tree) \<and>
    (\<forall>key t s. cached p' key t s \<longrightarrow> cached p key t s)"
proof -
  obtain p' where p': "evict_cache n p = Some p'" "ca_ok p'" "map_keys (trees p') = map_keys (trees p)"
      "\<And>key tree. map_get (trees p') key = Some tree \<Longrightarrow> key \<in> set (map_keys (trees p)) \<Longrightarrow> bounded_tree n tree"
      "\<forall>key t s. cached p' key t s \<longrightarrow> cached p key t s"
    unfolding evict_cache_def using for_each_evict [OF assms, of n "map_keys (trees p)"] by blast
  have "key \<in> set (map_keys (trees p))" if "map_get (trees p') key = Some tree" for key tree
    using map_get_in_set [OF that] p'(3) [symmetric] by (force simp: map_keys_def)
  then show ?thesis using p' by blast
qed

lemma on_tree_ok:
  assumes "ca_ok p" "\<And>tree. tree_ok tree \<Longrightarrow> \<exists>tree'. f tree = Some tree' \<and> tree_ok tree'"
  shows "\<exists>p'. on_tree key f p = Some p' \<and> ca_ok p'"
proof (cases "map_get (trees p) key")
  case (Some tree)
  then obtain tree' where "f (tree\<lparr> epoch_counter := ca_epoch p \<rparr>) = Some tree'" "tree_ok tree'"
    using assms(2) [of "tree\<lparr> epoch_counter := ca_epoch p \<rparr>"] ca_ok_tree [OF assms(1) Some] by auto
  then show ?thesis using Some ca_ok_put [OF assms(1)] by (auto simp: on_tree_def)
qed (use assms(1) in \<open>simp add: on_tree_def\<close>)

lemma apply_tree_operation_ok: "tree_ok tree \<Longrightarrow> \<exists>tree'. apply_tree_operation op tree = Some tree' \<and> tree_ok tree'"
  using radix.ins_law [of tree] radix.rem_law [of tree] by (cases op) (simp, blast)+

lemma init_workers_ok: "ca_ok p \<Longrightarrow> \<exists>p'. ca_init_workers unknown_id ws p = Some p' \<and> ca_ok p'"
  unfolding ca_init_workers_def
proof (rule for_each_inv [where P = ca_ok], unfold split_beta)
  fix x :: "string \<times> worker list" and p
  assume "ca_ok p"
  then show "\<exists>p'. for_each (\<lambda>w. on_tree (fst x) (insert [] (url w))) (snd x) (ensure_tree (fst x) p) = Some p' \<and> ca_ok p'"
    using on_tree_insert by (intro for_each_inv [where P = ca_ok]) (blast intro: ca_ok_ensure)+
qed

lemma restore_ok: "ca_ok p \<Longrightarrow> \<exists>p'. restore_tree_state_from_mesh g p = Some p' \<and> ca_ok p'"
proof -
  have "\<exists>p'. (case g key of None \<Rightarrow> Some p | Some ops \<Rightarrow> for_each (\<lambda>op. on_tree key (apply_tree_operation op)) ops p) = Some p' \<and> ca_ok p'"
    if "ca_ok p" for key p
  proof (cases "g key")
    case (Some ops)
    have "\<exists>p'. for_each (\<lambda>op. on_tree key (apply_tree_operation op)) ops p = Some p' \<and> ca_ok p'"
      by (rule for_each_inv [where P = ca_ok]) (blast intro: on_tree_ok apply_tree_operation_ok that)+
    then show ?thesis using Some by simp
  qed (use that in simp)
  then show "ca_ok p \<Longrightarrow> ?thesis"
    unfolding restore_tree_state_from_mesh_def by (auto intro!: for_each_inv [where P = ca_ok])
qed

section \<open>Selection\<close>

lemma choose_min_load_spec:
  assumes "rng_ok rng" "is \<noteq> []"
  shows "\<exists>i. choose_min_load rng ws is = Some i \<and> i \<in> set is \<and>
    (\<forall>j\<in>set is. unat (get_load (ws ! i)) \<le> unat (get_load (ws ! j)))"
proof -
  let ?load = "\<lambda>i. unat (get_load (ws ! i))"
  let ?m = "Min (?load ` set is)"
  let ?cs = "filter (\<lambda>i. ?load i = ?m) is"
  have "?m \<in> ?load ` set is" using assms(2) by (intro Min_in) auto
  then have ne: "?cs \<noteq> []" by (auto simp: filter_empty_conv)
  have cs: "map fst (filter (\<lambda>e. snd e = ?m) (map (\<lambda>idx. (idx, ?load idx)) is)) = ?cs"
    by (simp add: filter_map comp_def)
  have "choose_min_load rng ws is = rng_choose rng ?cs"
    using assms(2) cs by (simp add: choose_min_load_def min_of_def Let_def comp_def)
  moreover obtain i where i: "rng_choose rng ?cs = Some i" using ne by (cases "rng_choose rng ?cs") auto
  ultimately show ?thesis using rng_choose_Some [OF assms(1) i] by auto
qed

text \<open>The pool after a request was served by \<open>u\<close>, and after the removal of a stale tenant.\<close>

definition served :: "string \<Rightarrow> tenant_id \<Rightarrow> ustr \<Rightarrow> cache_aware_policy \<Rightarrow> cache_aware_policy \<Rightarrow> bool" where
  "served key u inp p p' \<longleftrightarrow>
     (\<forall>t s. s \<noteq> [] \<longrightarrow> (cached p' key t s \<longleftrightarrow> cached p key t s \<or> (t = u \<and> prefix s inp)))"

definition dropped :: "string \<Rightarrow> tenant_id \<Rightarrow> cache_aware_policy \<Rightarrow> cache_aware_policy \<Rightarrow> bool" where
  "dropped key u p p' \<longleftrightarrow> (\<forall>t s. s \<noteq> [] \<longrightarrow> (cached p' key t s \<longleftrightarrow> t \<noteq> u \<and> cached p key t s))"

definition longest_cached :: "cache_aware_policy \<Rightarrow> string \<Rightarrow> ustr \<Rightarrow> tenant_id \<Rightarrow> nat \<Rightarrow> bool" where
  "longest_cached p key inp owner k \<longleftrightarrow>
     k \<le> length inp \<and> (0 < k \<longrightarrow> cached p key owner (take k inp)) \<and>
     (\<forall>t s. prefix s inp \<longrightarrow> cached p key t s \<longrightarrow> length s \<le> k)"

definition hit_rate :: "(rat \<Rightarrow> rat) \<Rightarrow> ustr \<Rightarrow> nat \<Rightarrow> rat" where
  "hit_rate rd inp k = (if inp = [] then 0 else rd (rd (of_nat k) / rd (of_nat (length inp))))"

lemma match_in_pool:
  assumes "ca_ok p" "map_get (trees p) key = Some tree"
  shows "\<exists>r tree'. prefix_match_with_counts inp (tree\<lparr> epoch_counter := ca_epoch p \<rparr>) = Some (r, tree') \<and>
    input_char_count r = length inp \<and> longest_cached p key inp (pm_tenant r) (matched_char_count r) \<and>
    (let p1 = p\<lparr> trees := map_insert key tree' (trees p), ca_epoch := epoch_counter tree' \<rparr> in
     ca_ok p1 \<and> contains_key (trees p1) key \<and> (\<forall>t s. s \<noteq> [] \<longrightarrow> cached p1 key t s = cached p key t s))"
proof -
  let ?tree = "tree\<lparr> epoch_counter := ca_epoch p \<rparr>"
  have ok: "tree_ok ?tree" using ca_ok_tree [OF assms] by simp
  obtain r tree' where m: "prefix_match_with_counts inp ?tree = Some (r, tree')" "tree_ok tree'"
      "matched_char_count r \<le> length inp"
      "0 < matched_char_count r \<longrightarrow> owns (pm_tenant r) (root tree) (take (matched_char_count r) inp)"
      "\<forall>t' s. prefix s inp \<longrightarrow> owns t' (root tree) s \<longrightarrow> length s \<le> matched_char_count r"
      "\<forall>t' s. s \<noteq> [] \<longrightarrow> owns t' (root tree') s = owns t' (root tree) s"
    using radix.find_law [OF ok, of inp] by auto
  have "input_char_count r = length inp"
    using m(1) by (auto simp: prefix_match_with_counts_def Option.bind_eq_Some_conv)
  then show ?thesis
    using m assms(2) ca_ok_put [OF assms(1) m(2)] by (auto simp: longest_cached_def cached_def Let_def)
qed

lemma select_by_cache_spec:
  assumes ok: "ca_ok p" "map_get (trees p) key = Some tree" and "rng_ok rng" "is \<noteq> []"
  shows "\<exists>owner k i ws' p' ops. select_by_cache unknown_id rd rng ws inp is key tree p = Some (Some i, ws', p', ops) \<and>
    ca_ok p' \<and> longest_cached p key inp owner k \<and>
    (if cache_threshold (ca_config p) < hit_rate rd inp k then
       (case tenant_index ws owner of
          Some j \<Rightarrow> i = j \<and> served key owner inp p p'
        | None \<Rightarrow> i = is ! 0 \<and> dropped key owner p p')
     else i \<in> set is \<and> (\<forall>j\<in>set is. unat (get_load (ws ! i)) \<le> unat (get_load (ws ! j))) \<and> served key (url (ws ! i)) inp p p')"
proof -
  obtain r tree' where m: "prefix_match_with_counts inp (tree\<lparr> epoch_counter := ca_epoch p \<rparr>) = Some (r, tree')"
      "input_char_count r = length inp" "longest_cached p key inp (pm_tenant r) (matched_char_count r)"
      "let p1 = p\<lparr> trees := map_insert key tree' (trees p), ca_epoch := epoch_counter tree' \<rparr> in
       ca_ok p1 \<and> contains_key (trees p1) key \<and> (\<forall>t s. s \<noteq> [] \<longrightarrow> cached p1 key t s = cached p key t s)"
    using match_in_pool [OF ok, of inp] by blast
  define p1 where "p1 = p\<lparr> trees := map_insert key tree' (trees p), ca_epoch := epoch_counter tree' \<rparr>"
  have p1: "ca_ok p1" "contains_key (trees p1) key" "\<forall>t s. s \<noteq> [] \<longrightarrow> cached p1 key t s = cached p key t s"
      "ca_config p1 = ca_config p"
    using m(4) by (simp_all add: p1_def [symmetric] Let_def) (simp add: p1_def)
  let ?hit = "cache_threshold (ca_config p) < hit_rate rd inp (matched_char_count r)"
  have rate: "match_rate rd r = hit_rate rd inp (matched_char_count r)" using m(2) by (simp add: match_rate_def hit_rate_def)
  have ins: "\<exists>p'. on_tree key (insert inp u) p1 = Some p' \<and> ca_ok p' \<and> served key u inp p p'" for u
    using on_tree_insert [OF p1(1), of key inp u] p1(2,3) by (auto simp: served_def)
  have rem: "\<exists>p'. on_tree key (remove_tenant u) p1 = Some p' \<and> ca_ok p' \<and> dropped key u p p'" for u
    using on_tree_remove [OF p1(1), of key u] p1(3) by (auto simp: dropped_def)
  have sel: "select_by_cache unknown_id rd rng ws inp is key tree p =
      (case (if ?hit then tenant_index ws (pm_tenant r) else choose_min_load rng ws is) of
         Some idx \<Rightarrow> Option.bind (on_tree key (insert inp (url (ws ! idx))) p1)
           (\<lambda>p'. Some (Some idx, count_processed idx ws, p', sync_ops unknown_id key (Insert inp (url (ws ! idx))) p1))
       | None \<Rightarrow>
           if ?hit then Option.bind (on_tree key (remove_tenant (pm_tenant r)) p1)
             (\<lambda>p'. Some (Some (is ! 0), ws, p', sync_ops unknown_id key (Remove (pm_tenant r)) p1))
           else Some (Some (is ! 0), ws, p1, []))"
    unfolding select_by_cache_def p1_def using m(1) rate by (simp add: Let_def)
  show ?thesis
  proof (cases ?hit)
    case False
    obtain i where i: "choose_min_load rng ws is = Some i" "i \<in> set is"
        "\<forall>j\<in>set is. unat (get_load (ws ! i)) \<le> unat (get_load (ws ! j))"
      using choose_min_load_spec [OF assms(3,4)] by blast
    obtain p' where p': "on_tree key (insert inp (url (ws ! i))) p1 = Some p'" "ca_ok p'" "served key (url (ws ! i)) inp p p'"
      using ins by blast
    show ?thesis
      using False i p' m(3) sel by (intro exI [of _ "pm_tenant r"] exI [of _ "matched_char_count r"] exI [of _ i]) simp
  next
    case True
    show ?thesis
    proof (cases "tenant_index ws (pm_tenant r)")
      case None
      obtain p' where p': "on_tree key (remove_tenant (pm_tenant r)) p1 = Some p'" "ca_ok p'" "dropped key (pm_tenant r) p p'"
        using rem by blast
      show ?thesis
        using True None p' m(3) sel by (intro exI [of _ "pm_tenant r"] exI [of _ "matched_char_count r"] exI [of _ "is ! 0"]) simp
    next
      case (Some j)
      have u: "url (ws ! j) = pm_tenant r"
        using Some position_Some by (fastforce simp: tenant_index_def split: option.splits if_splits)
      obtain p' where p': "on_tree key (insert inp (pm_tenant r)) p1 = Some p'" "ca_ok p'" "served key (pm_tenant r) inp p p'"
        using ins by blast
      show ?thesis
        using True Some p' m(3) sel u by (intro exI [of _ "pm_tenant r"] exI [of _ "matched_char_count r"] exI [of _ j]) simp
    qed
  qed
qed

text \<open>The checks change neither keys, nor loads, nor the workers found by URL.\<close>

lemma available_healthy: "available clk ws i \<Longrightarrow> i < length ws \<and> is_healthy (ws ! i)"
  by (auto simp: available_def check_at_def is_available_def split: if_splits)

lemma tree_key_checked:
  "i < length ws \<Longrightarrow> tree_key_for_worker u (snd (get_healthy_worker_indices clk ws) ! i) = tree_key_for_worker u (ws ! i)"
  by (simp add: checked_workers check_at_def tree_key_for_worker_def get_worker_type_def model_id_def)

lemma load_range_loads:
  "load_range ws = (let (mn, mx) = foldl (\<lambda>(mn, mx) l. (min mn l, max mx l)) (usize_max, 0) (map (\<lambda>w. unat (get_load w)) ws) in
     (if mn = usize_max then 0 else mn, mx))"
  by (simp add: load_range_def foldl_map Let_def case_prod_unfold)

lemma load_range_checked: "load_range (snd (get_healthy_worker_indices clk ws)) = load_range ws"
proof -
  have "map (\<lambda>w. unat (get_load w)) (snd (get_healthy_worker_indices clk ws)) = map (\<lambda>w. unat (get_load w)) ws"
    by (rule nth_equalityI) (simp_all add: checked_worker_keeps)
  then show ?thesis by (simp add: load_range_loads)
qed

lemma tenant_index_checked: "tenant_index (snd (get_healthy_worker_indices clk ws)) t = tenant_index ws t"
proof -
  have "position (\<lambda>w. url w = t) (snd (get_healthy_worker_indices clk ws)) = position (\<lambda>w. url w = t) ws"
    by (rule position_cong) (simp_all add: checked_worker_keeps)
  then show ?thesis
    by (auto simp: tenant_index_def checked_worker_keeps dest!: position_Some split: option.splits)
qed

lemma tenant_index_Some: "tenant_index ws t = Some i \<Longrightarrow> i < length ws \<and> is_healthy (ws ! i) \<and> url (ws ! i) = t"
  using position_Some by (fastforce simp: tenant_index_def split: option.splits if_splits)

text \<open>The pool a request belongs to.\<close>

definition request_pool :: "string \<Rightarrow> clock \<Rightarrow> worker list \<Rightarrow> string" where
  "request_pool unknown_id clk ws = tree_key_for_worker unknown_id (ws ! (fst (get_healthy_worker_indices clk ws) ! 0))"

definition balanced :: "(rat \<Rightarrow> rat) \<Rightarrow> cache_aware_config \<Rightarrow> worker list \<Rightarrow> bool" where
  "balanced rd cfg ws \<longleftrightarrow> \<not> is_imbalanced rd cfg (fst (load_range ws)) (snd (load_range ws))"

lemma ca_select_branches:
  assumes "available clk ws a"
  shows "ca_select_worker unknown_id rd rng clk ws info p =
    (let is = fst (get_healthy_worker_indices clk ws); ws' = snd (get_healthy_worker_indices clk ws);
         key = request_pool unknown_id clk ws in
     if balanced rd (ca_config p) ws then
       case map_get (trees p) key of
         Some tree \<Rightarrow> select_by_cache unknown_id rd rng ws' (case request_text info of None \<Rightarrow> [] | Some s \<Rightarrow> s) is key tree p
       | None \<Rightarrow> Some (Some (is ! rng (length is)), ws', p, [])
     else select_worker_min_load unknown_id rng ws' (request_text info) is key p)"
proof -
  let ?is = "fst (get_healthy_worker_indices clk ws)"
  have ne: "?is \<noteq> []" using assms healthy_indices_empty by blast
  then have "available clk ws (?is ! 0)" using healthy_indices_set by (metis length_greater_0_conv nth_mem)
  then have key: "tree_key_for_worker unknown_id (snd (get_healthy_worker_indices clk ws) ! (?is ! 0)) = request_pool unknown_id clk ws"
    by (simp add: request_pool_def tree_key_checked available_def)
  show ?thesis
    using ne unfolding ca_select_worker_def Let_def split_beta key load_range_checked balanced_def
    by (simp add: key load_range_checked)
qed

lemma min_load_path:
  assumes "ca_ok p" "rng_ok rng" "is \<noteq> []"
  shows "\<exists>i ws' p' ops. select_worker_min_load unknown_id rng ws inp is key p = Some (Some i, ws', p', ops) \<and> ca_ok p' \<and>
    i \<in> set is \<and> (\<forall>j\<in>set is. unat (get_load (ws ! i)) \<le> unat (get_load (ws ! j)))"
proof -
  obtain i where i: "choose_min_load rng ws is = Some i" "i \<in> set is"
      "\<forall>j\<in>set is. unat (get_load (ws ! i)) \<le> unat (get_load (ws ! j))"
    using choose_min_load_spec [OF assms(2,3)] by blast
  show ?thesis
  proof (cases "inp = None \<or> \<not> contains_key (trees p) key")
    case True
    then show ?thesis using i assms(1) by (cases inp) (auto simp: select_worker_min_load_def Let_def)
  next
    case False
    then obtain s where s: "inp = Some s" by auto
    obtain p' where "on_tree key (insert s (url (ws ! i))) p = Some p'" "ca_ok p'" using on_tree_insert [OF assms(1)] by blast
    then show ?thesis using False s i by (auto simp: select_worker_min_load_def Let_def)
  qed
qed

text \<open>
  Every selection returns: \<open>None\<close> exactly when no worker is available, otherwise a healthy worker of
  the slice, and under imbalance one of least load among the available ones.
\<close>

lemma ca_select_spec:
  assumes "ca_ok p" "rng_ok rng"
  shows "\<exists>r ws' p' ops. ca_select_worker unknown_id rd rng clk ws info p = Some (r, ws', p', ops) \<and> ca_ok p' \<and>
    (r = None \<longleftrightarrow> (\<forall>i. \<not> available clk ws i)) \<and>
    (\<forall>i. r = Some i \<longrightarrow> i < length ws \<and> is_healthy (ws ! i) \<and>
       (\<not> balanced rd (ca_config p) ws \<longrightarrow>
          available clk ws i \<and> (\<forall>j. available clk ws j \<longrightarrow> unat (get_load (ws ! i)) \<le> unat (get_load (ws ! j)))))"
proof (cases "\<exists>a. available clk ws a")
  case False
  then have "fst (get_healthy_worker_indices clk ws) = []" by (simp add: healthy_indices_empty)
  then show ?thesis using False assms(1) by (simp add: ca_select_worker_def split_beta Let_def)
next
  case True
  let ?is = "fst (get_healthy_worker_indices clk ws)" and ?ws = "snd (get_healthy_worker_indices clk ws)"
  let ?key = "request_pool unknown_id clk ws"
  obtain a where a: "available clk ws a" using True by blast
  note sel = ca_select_branches [OF a, of unknown_id rd rng info p, unfolded Let_def]
  have ne: "?is \<noteq> []" using True by (simp add: healthy_indices_empty)
  have av: "i \<in> set ?is \<longleftrightarrow> available clk ws i" for i by (simp add: healthy_indices_set)
  have first: "available clk ws (?is ! 0)" using ne av by (metis length_greater_0_conv nth_mem)
  show ?thesis
  proof (cases "balanced rd (ca_config p) ws")
    case False
    obtain i ws' p' ops where "select_worker_min_load unknown_id rng ?ws (request_text info) ?is ?key p = Some (Some i, ws', p', ops)"
        "ca_ok p'" "i \<in> set ?is" "\<forall>j\<in>set ?is. unat (get_load (?ws ! i)) \<le> unat (get_load (?ws ! j))"
      using min_load_path [OF assms ne] by blast
    then show ?thesis
      using False sel a av available_healthy [of clk ws] by (auto simp: checked_worker_keeps)
  next
    case True
    show ?thesis
    proof (cases "map_get (trees p) ?key")
      case None
      have "?is ! rng (length ?is) \<in> set ?is" by (rule rng_nth [OF assms(2) ne])
      then show ?thesis using None True sel a av assms(1) available_healthy by (auto simp: Let_def)
    next
      case (Some tree)
      obtain i ws' p' ops owner where i: "ca_select_worker unknown_id rd rng clk ws info p = Some (Some i, ws', p', ops)"
          "ca_ok p'" "i \<in> set ?is \<or> tenant_index ?ws owner = Some i \<or> i = ?is ! 0"
        using select_by_cache_spec [OF assms(1) Some assms(2) ne, of unknown_id rd ?ws "case request_text info of None \<Rightarrow> [] | Some s \<Rightarrow> s"]
          True Some sel by (fastforce split: if_splits option.splits)
      then have "i < length ws \<and> is_healthy (ws ! i)"
        using av first available_healthy [of clk ws i] tenant_index_Some [of ws owner i] by (auto simp: tenant_index_checked)
      then show ?thesis using i True a by auto
    qed
  qed
qed

section \<open>Properties\<close>

datatype ca_event =
    InitWorkers "worker list"
  | AddWorker worker
  | RemoveWorker worker
  | RemoveUrl string
  | Evict nat
  | PeriodicEviction
  | SetMesh "(string \<Rightarrow> tree_operation list option) option"
  | RemoteOperation string tree_operation
  | SelectWorker nat clock "worker list" select_worker_info

text \<open>An event of the policy's life; a selection draws its random numbers from a seed.\<close>

fun ca_step :: "string \<Rightarrow> (rat \<Rightarrow> rat) \<Rightarrow> ca_event \<Rightarrow> cache_aware_policy \<Rightarrow> cache_aware_policy option" where
  "ca_step unknown_id rd (InitWorkers ws) p = ca_init_workers unknown_id ws p"
| "ca_step unknown_id rd (AddWorker w) p = ca_add_worker unknown_id w p"
| "ca_step unknown_id rd (RemoveWorker w) p = ca_remove_worker unknown_id w p"
| "ca_step unknown_id rd (RemoveUrl u) p = ca_remove_worker_by_url u p"
| "ca_step unknown_id rd (Evict n) p = evict_cache n p"
| "ca_step unknown_id rd PeriodicEviction p = ca_periodic_eviction p"
| "ca_step unknown_id rd (SetMesh mesh) p = ca_set_mesh_sync mesh p"
| "ca_step unknown_id rd (RemoteOperation key op) p = apply_remote_tree_operation unknown_id key op p"
| "ca_step unknown_id rd (SelectWorker m clk ws info) p =
     map_option (\<lambda>r. fst (snd (snd r))) (ca_select_worker unknown_id rd (draw m) clk ws info p)"

lemma ca_step_ok: "ca_ok p \<Longrightarrow> \<exists>p'. ca_step unknown_id rd ev p = Some p' \<and> ca_ok p'"
proof (cases ev)
  case (AddWorker w)
  assume "ca_ok p"
  from on_tree_insert [OF ca_ok_ensure [OF this]] show ?thesis
    unfolding AddWorker by (fastforce simp: ca_add_worker_def Let_def)
next
  case (RemoveWorker w)
  then show "ca_ok p \<Longrightarrow> ?thesis" using on_tree_remove by (fastforce simp: ca_remove_worker_def)
next
  case (RemoveUrl u)
  then show "ca_ok p \<Longrightarrow> ?thesis" using remove_by_url_spec [of p u] by auto
next
  case (Evict n)
  then show "ca_ok p \<Longrightarrow> ?thesis" using evict_cache_spec [of p n] by auto
next
  case PeriodicEviction
  then show "ca_ok p \<Longrightarrow> ?thesis" using evict_cache_spec [of p "max_tree_size (ca_config p)"] by (auto simp: ca_periodic_eviction_def)
next
  case (SetMesh mesh)
  have "ca_ok p \<Longrightarrow> ca_ok (p\<lparr> mesh_enabled := b \<rparr>)" for b by (simp add: ca_ok_def)
  then show "ca_ok p \<Longrightarrow> ?thesis" using SetMesh restore_ok by (cases mesh) (auto simp: ca_set_mesh_sync_def)
next
  case (RemoteOperation key op)
  then show "ca_ok p \<Longrightarrow> ?thesis"
    using on_tree_ok [OF ca_ok_ensure apply_tree_operation_ok] by (simp add: apply_remote_tree_operation_def Let_def)
next
  case (SelectWorker m clk ws info)
  then show "ca_ok p \<Longrightarrow> ?thesis" using ca_select_spec [OF _ draw_ok, of p unknown_id rd m clk ws info] by auto
qed (simp add: init_workers_ok)

text \<open>
  C16: from its construction on, no sequence of registrations, removals, evictions, mesh operations
  and selections makes the cache-aware policy panic or loop; its trees stay consistent, and then
  removing a worker by URL leaves nothing of it in any pool and changes nothing of the others,
  and an eviction run leaves every worker within the configured size in every pool.
\<close>

theorem cache_aware_runs:
  "\<exists>p. for_each (ca_step unknown_id rd) evs (ca_with_config e cfg) = Some p \<and> ca_ok p \<and>
    (\<exists>p'. ca_remove_worker_by_url u p = Some p' \<and> (\<forall>key t s. cached p' key t s \<longleftrightarrow> t \<noteq> u \<and> cached p key t s)) \<and>
    (\<exists>p'. evict_cache n p = Some p' \<and> (\<forall>key tree. map_get (trees p') key = Some tree \<longrightarrow> bounded_tree n tree))"
proof -
  obtain p where "for_each (ca_step unknown_id rd) evs (ca_with_config e cfg) = Some p" "ca_ok p"
    using for_each_inv [of evs ca_ok "ca_step unknown_id rd", OF ca_step_ok ca_ok_with_config] by blast
  then show ?thesis using remove_by_url_spec [of p u] evict_cache_spec [of p n] by blast
qed

theorem cache_aware_runs_witness:
  "\<exists>p. for_each (ca_step ''unknown'' (\<lambda>x. x)) [AddWorker (Basic (sample_worker ''a'')),
      SelectWorker 3 (\<lambda>i. (0, 0)) [Basic (sample_worker ''a'')] \<lparr> request_text = Some [104, 105], tokens = None, headers = None, info_hash_ring = None \<rparr>,
      PeriodicEviction] (ca_with_config 0 cache_aware_config_default) = Some p"
  using cache_aware_runs [of "''unknown''" "\<lambda>x. x" "[AddWorker (Basic (sample_worker ''a'')),
      SelectWorker 3 (\<lambda>i. (0, 0)) [Basic (sample_worker ''a'')] \<lparr> request_text = Some [104, 105], tokens = None, headers = None, info_hash_ring = None \<rparr>,
      PeriodicEviction]" 0 cache_aware_config_default "''a''" 5]
  by blast



text \<open>
  C27: selection of the cache-aware policy.  In every consistent state a selection returns; it
  yields no worker exactly when none is available, and otherwise a healthy worker of the slice;
  when the load is imbalanced, an available worker of least load.
\<close>

theorem cache_aware_selects:
  assumes "ca_ok p"
  shows "\<exists>r ws' p' ops. ca_select_worker unknown_id rd (draw m) clk ws info p = Some (r, ws', p', ops) \<and> ca_ok p' \<and>
    (r = None \<longleftrightarrow> (\<forall>i. \<not> available clk ws i)) \<and>
    (\<forall>i. r = Some i \<longrightarrow> i < length ws \<and> is_healthy (ws ! i) \<and>
       (\<not> balanced rd (ca_config p) ws \<longrightarrow>
          available clk ws i \<and> (\<forall>j. available clk ws j \<longrightarrow> unat (get_load (ws ! i)) \<le> unat (get_load (ws ! j)))))"
  by (rule ca_select_spec [OF assms draw_ok])

theorem cache_aware_selects_witness:
  "\<exists>r ws' p' ops. ca_select_worker ''unknown'' (\<lambda>x. x) (draw 3) (\<lambda>i. (0, 0)) [Basic (sample_worker ''a'')]
      \<lparr> request_text = Some [104, 105], tokens = None, headers = None, info_hash_ring = None \<rparr>
      (ca_with_config 0 cache_aware_config_default) = Some (r, ws', p', ops) \<and> ca_ok p'"
  using cache_aware_selects [OF ca_ok_with_config, of "''unknown''" "\<lambda>x. x" 3 "\<lambda>i. (0, 0)" "[Basic (sample_worker ''a'')]"
      "\<lparr> request_text = Some [104, 105], tokens = None, headers = None, info_hash_ring = None \<rparr>" 0 cache_aware_config_default]
  by blast

section \<open>The interface\<close>

text \<open>The state after a history; selection in any such state keeps the contract of a policy.\<close>

definition ca_after :: "string \<Rightarrow> (rat \<Rightarrow> rat) \<Rightarrow> ca_event list \<Rightarrow> nat \<Rightarrow> cache_aware_config \<Rightarrow> cache_aware_policy" where
  "ca_after unknown_id rd evs e cfg = the (for_each (ca_step unknown_id rd) evs (ca_with_config e cfg))"

lemma ca_after_ok: "ca_ok (ca_after unknown_id rd evs e cfg)"
  using for_each_inv [of evs ca_ok "ca_step unknown_id rd", OF ca_step_ok ca_ok_with_config, of e cfg]
  by (auto simp: ca_after_def)

lemma ca_select_bound:
  assumes "ca_ok p" "ca_select_worker unknown_id rd (draw m) clk ws info p = Some (Some i, ws', p', ops)"
  shows "i < length ws"
  using ca_select_spec [OF assms(1) draw_ok, of unknown_id rd m clk ws info] assms(2) by auto

interpretation cache_aware: load_balancing_policy
  "\<lambda>clk ws. case ca_select_worker unknown_id rd (draw m) clk ws info (ca_after unknown_id rd evs e cfg) of
     None \<Rightarrow> (None, ws) | Some (r, ws', p', ops) \<Rightarrow> (r, ws')"
  by unfold_locales (auto dest: ca_select_bound [OF ca_after_ok] split: option.splits)

end
