(* ===== verification/Bucket_Policy.thy ===== *)
theory Bucket_Policy
  imports Policies
begin

text \<open>
  The bucket policy, \<open>src/gateway/src/policies/bucket.rs\<close>: requests are assigned by their length to
  the prefill worker of a length range, the ranges follow the load of a sliding time window, and
  an imbalance switches to the least loaded worker.

  Character counts and their sums are natural numbers; the properties bound them below
  \<open>usize::MAX\<close>, where \<open>usize\<close> arithmetic agrees.  The one subtraction that can underflow makes the
  initialisation an option.  System times are natural numbers of nanoseconds.  Locks are taken for
  the whole of a call and are left out.
\<close>

section \<open>Model: buckets\<close>

record bucket_config =
  bc_balance_abs_threshold :: nat
  bc_balance_rel_threshold :: rat
  bucket_adjust_interval_secs :: nat

definition bucket_config_default :: bucket_config where
  "bucket_config_default = \<lparr> bc_balance_abs_threshold = 32, bc_balance_rel_threshold = 10001 / 10000,
     bucket_adjust_interval_secs = 5 \<rparr>"

record sequencer_request =
  req_id :: string
  req_char_cnt :: nat
  req_timestamp :: nat
  req_url :: string

record boundary =
  bd_url :: string
  bd_lo :: nat
  bd_hi :: nat

definition boundary_new :: "string \<Rightarrow> nat \<Rightarrow> nat \<Rightarrow> boundary" where
  "boundary_new u lo hi = \<lparr> bd_url = u, bd_lo = lo, bd_hi = hi \<rparr>"

record bucket =
  l_max :: nat
  bucket_cnt :: nat
  prefill_worker_urls :: "string list"
  load_total :: nat
  period :: nat
  bucket_load :: nat
  boundaries :: "boundary list"
  request_list :: "sequencer_request list"
  t_req_loads :: "(string \<times> nat) list"
  chars_per_url :: "(string \<times> nat) list"

definition bucket_new :: "nat \<Rightarrow> bucket" where
  "bucket_new p = \<lparr> l_max = 4096, bucket_cnt = 0, prefill_worker_urls = [], load_total = 0, period = p,
     bucket_load = 0, boundaries = [], request_list = [], t_req_loads = [], chars_per_url = [] \<rparr>"

text \<open>The ranges of the workers in order; \<open>None\<close> when \<open>(i + 1) * gap - 1\<close> underflows.\<close>

definition init_boundaries :: "nat \<Rightarrow> string list \<Rightarrow> boundary list option" where
  "init_boundaries gap urls =
     (let worker_cnt = length urls in
      if gap = 0 \<and> 1 < worker_cnt then None
      else Some (map (\<lambda>i. boundary_new (urls ! i) (i * gap)
             (if i = worker_cnt - 1 then usize_max else (i + 1) * gap - 1)) [0..<worker_cnt]))"

definition init_prefill_worker_urls :: "string list \<Rightarrow> bucket \<Rightarrow> bucket option" where
  "init_prefill_worker_urls urls b =
     (let b = b\<lparr> bucket_cnt := length urls, prefill_worker_urls := urls,
                chars_per_url := foldl (\<lambda>m u. map_insert u 0 m) [] urls \<rparr> in
      if urls = [] then Some (b\<lparr> boundaries := [] \<rparr>)
      else
        let gap = l_max b div length urls in
        do {
          bs \<leftarrow> init_boundaries gap urls;
          Some (b\<lparr> l_max := usize_max, boundaries := bs \<rparr>)
        })"

definition expired :: "nat \<Rightarrow> nat \<Rightarrow> sequencer_request \<Rightarrow> bool" where
  "expired now p req \<longleftrightarrow> (if req_timestamp req \<le> now then p * 1000000 < now - req_timestamp req else True)"

text \<open>Drop the expired requests at the front, with their loads; the sum of what was dropped.\<close>

fun drop_expired :: "nat \<Rightarrow> bucket \<Rightarrow> sequencer_request list \<Rightarrow> nat \<Rightarrow> bucket \<times> nat" where
  "drop_expired now b [] removed_load = (b\<lparr> request_list := [] \<rparr>, removed_load)"
| "drop_expired now b (req # reqs) removed_load =
     (if \<not> expired now (period b) req then (b\<lparr> request_list := req # reqs \<rparr>, removed_load)
      else drop_expired now
        (b\<lparr> t_req_loads := map_remove (req_id req) (t_req_loads b),
           chars_per_url := map_and_modify (req_url req) (\<lambda>count. count - req_char_cnt req) (chars_per_url b) \<rparr>)
        reqs (removed_load + req_char_cnt req))"

definition post_process_request :: "string \<Rightarrow> nat \<Rightarrow> nat \<Rightarrow> string \<Rightarrow> bucket \<Rightarrow> bucket" where
  "post_process_request new_id now char_cnt u b =
     (let b = b\<lparr> chars_per_url := map_modify_or_insert u (\<lambda>c. c + char_cnt) char_cnt (chars_per_url b) \<rparr>;
          (b, removed_load) = drop_expired now b (request_list b) 0;
          b = b\<lparr> load_total := load_total b - removed_load \<rparr>;
          b = b\<lparr> t_req_loads := map_insert new_id char_cnt (t_req_loads b) \<rparr>;
          b = b\<lparr> request_list := request_list b @
                 [\<lparr> req_id = new_id, req_char_cnt = char_cnt, req_timestamp = now, req_url = u \<rparr>] \<rparr> in
      b\<lparr> load_total := min usize_max (load_total b + char_cnt) \<rparr>)"

text \<open>Binary search for the range of a length.\<close>

function search_boundary :: "boundary list \<Rightarrow> nat \<Rightarrow> nat \<Rightarrow> nat \<Rightarrow> string option" where
  "search_boundary bs char_count left right =
     (if left < right then
        let mid = left + (right - left) div 2 in
        if char_count < bd_lo (bs ! mid) then search_boundary bs char_count left mid
        else if bd_hi (bs ! mid) < char_count then search_boundary bs char_count (mid + 1) right
        else Some (bd_url (bs ! mid))
      else None)"
  by pat_completeness auto
termination
  by (relation "measure (\<lambda>(bs, c, left, right). right - left)") auto

declare search_boundary.simps [simp del]

definition find_boundary :: "nat \<Rightarrow> bucket \<Rightarrow> string option" where
  "find_boundary char_count b = search_boundary (boundaries b) char_count 0 (length (boundaries b))"

definition get_total_load :: "bucket \<Rightarrow> nat" where
  "get_total_load b = load_total b"

definition update_workers_cnt :: "bucket \<Rightarrow> bucket" where
  "update_workers_cnt b =
     (let current_urls = map_keys (chars_per_url b);
          new_urls = prefill_worker_urls b;
          added = foldl (\<lambda>m u. map_insert u 0 m) (chars_per_url b) (filter (\<lambda>u. u \<notin> set current_urls) (remdups new_urls));
          char_map = foldl (\<lambda>m u. if map_get m u = Some 0 then map_remove u m else m) added
            (filter (\<lambda>u. u \<notin> set new_urls) current_urls) in
      b\<lparr> bucket_cnt := length new_urls, chars_per_url := char_map \<rparr>)"

text \<open>
  The inner loop: accumulate loads up to the target; the load that reached it, if any, and the
  index there (or past the end).
\<close>

fun accumulate :: "nat \<Rightarrow> nat list \<Rightarrow> nat \<Rightarrow> nat \<Rightarrow> nat option \<times> nat" where
  "accumulate target [] acc idx = (None, idx)"
| "accumulate target (l # ls) acc idx =
     (if target \<le> acc + l then (Some l, idx) else accumulate target ls (acc + l) (idx + 1))"

fun layout :: "nat \<Rightarrow> nat list \<Rightarrow> string list \<Rightarrow> nat \<Rightarrow> nat \<Rightarrow> boundary list" where
  "layout target hist [] upper idx = []"
| "layout target hist (u # us) upper idx =
     (if length hist \<le> idx \<and> us = [] then [boundary_new u upper usize_max]
      else
        case accumulate target (drop idx hist) 0 idx of
          (Some load, idx) \<Rightarrow>
            if us = [] then [boundary_new u upper usize_max]
            else
              let real_load = upper + target in
              if load \<le> upper then boundary_new u upper real_load # layout target hist us (real_load + 1) (idx + 1)
              else boundary_new u upper load # layout target hist us (load + 1) (idx + 1)
        | (None, idx) \<Rightarrow>
            if us = [] then [boundary_new u upper usize_max]
            else
              let right_bound_value = upper + target in
              boundary_new u upper right_bound_value # layout target hist us (right_bound_value + 1) idx)"

definition adjust_boundary :: "bucket \<Rightarrow> bucket" where
  "adjust_boundary b =
     (if t_req_loads b = [] then b
      else
        let b = update_workers_cnt b; worker_cnt = bucket_cnt b in
        if worker_cnt = 0 then b
        else
          let new_load = get_total_load b div worker_cnt; old_load = bucket_load b in
          if new_load \<le> 2 * old_load \<and> old_load \<le> 2 * new_load \<and> old_load \<noteq> 0 then b
          else
            b\<lparr> bucket_load := new_load,
               boundaries := layout new_load (sort (map snd (t_req_loads b))) (prefill_worker_urls b) 0 0 \<rparr>)"

section \<open>Model: the policy\<close>

record bucket_policy =
  bp_config :: bucket_config
  buckets :: "(string \<times> bucket) list"

definition bp_with_config :: "bucket_config \<Rightarrow> bucket_policy" where
  "bp_with_config cfg = \<lparr> bp_config = cfg, buckets = [] \<rparr>"

text \<open>One round of the adjustment thread.\<close>

definition bp_adjust :: "bucket_policy \<Rightarrow> bucket_policy" where
  "bp_adjust p = p\<lparr> buckets := map (\<lambda>(m, b). (m, adjust_boundary b)) (buckets p) \<rparr>"

definition bucket_entry :: "string \<Rightarrow> bucket_policy \<Rightarrow> bucket" where
  "bucket_entry m p =
     (case map_get (buckets p) m of
        Some b \<Rightarrow> b
      | None \<Rightarrow> bucket_new (bucket_adjust_interval_secs (bp_config p) * 1000))"

definition put_bucket :: "string \<Rightarrow> bucket \<Rightarrow> bucket_policy \<Rightarrow> bucket_policy" where
  "put_bucket m b p = p\<lparr> buckets := map_insert m b (buckets p) \<rparr>"

definition group_by_model :: "string \<Rightarrow> worker list \<Rightarrow> (string \<times> worker list) list" where
  "group_by_model unknown_id workers =
     foldl (\<lambda>g w. map_modify_or_insert (normalize_model_key unknown_id (model_id unknown_id w)) (\<lambda>l. l @ [w]) [w] g) [] workers"

definition bp_init_prefill_worker_urls :: "string \<Rightarrow> worker list \<Rightarrow> bucket_policy \<Rightarrow> bucket_policy option" where
  "bp_init_prefill_worker_urls unknown_id workers =
     for_each (\<lambda>(m, ws) p. do { b \<leftarrow> init_prefill_worker_urls (map url ws) (bucket_entry m p); Some (put_bucket m b p) })
       (group_by_model unknown_id workers)"

definition add_prefill_url :: "string \<Rightarrow> worker \<Rightarrow> bucket_policy \<Rightarrow> bucket_policy option" where
  "add_prefill_url unknown_id w p =
     (let m = normalize_model_key unknown_id (model_id unknown_id w);
          b = bucket_entry m p;
          urls = (if url w \<in> set (prefill_worker_urls b) then prefill_worker_urls b else prefill_worker_urls b @ [url w]);
          b = b\<lparr> prefill_worker_urls := urls, chars_per_url := map_or_insert (url w) 0 (chars_per_url b) \<rparr> in
      do { b \<leftarrow> init_prefill_worker_urls urls b; Some (put_bucket m b p) })"

definition remove_prefill_url :: "string \<Rightarrow> worker \<Rightarrow> bucket_policy \<Rightarrow> bucket_policy option" where
  "remove_prefill_url unknown_id w p =
     (let m = normalize_model_key unknown_id (model_id unknown_id w) in
      case map_get (buckets p) m of
        None \<Rightarrow> Some p
      | Some b \<Rightarrow>
          let urls = filter (\<lambda>u. u \<noteq> url w) (prefill_worker_urls b);
              b = b\<lparr> prefill_worker_urls := urls, chars_per_url := map_remove (url w) (chars_per_url b),
                     bucket_cnt := length urls \<rparr> in
          if 0 < length urls then do { b \<leftarrow> init_prefill_worker_urls urls b; Some (put_bucket m b p) }
          else Some (put_bucket m b p))"

definition max_or_0 :: "nat list \<Rightarrow> nat" where
  "max_or_0 xs = (if xs = [] then 0 else Max (set xs))"

definition min_or_0 :: "nat list \<Rightarrow> nat" where
  "min_or_0 xs = (if xs = [] then 0 else Min (set xs))"

definition bp_is_imbalanced :: "(rat \<Rightarrow> rat) \<Rightarrow> bucket_config \<Rightarrow> nat list \<Rightarrow> bool" where
  "bp_is_imbalanced rd cfg loads \<longleftrightarrow>
     (let max_load = max_or_0 loads; min_load = min_or_0 loads;
          rel_threshold = rd (bc_balance_rel_threshold cfg * rd (of_nat min_load)) in
      bc_balance_abs_threshold cfg < max_load - min_load \<and> rel_threshold < rd (of_nat max_load))"

definition choose_prefill_url ::
    "(rat \<Rightarrow> rat) \<Rightarrow> rng \<Rightarrow> worker list \<Rightarrow> nat list \<Rightarrow> nat \<Rightarrow> bucket_config \<Rightarrow> bucket \<Rightarrow> string" where
  "choose_prefill_url rd rng workers healthy_indices char_count cfg b =
     (let choiced_url = find_boundary char_count b;
          snapshot = chars_per_url b;
          random_url = url (workers ! (healthy_indices ! rng (length healthy_indices))) in
      if bp_is_imbalanced rd cfg (map snd snapshot) then
        (case min_by_key snd snapshot of Some e \<Rightarrow> fst e | None \<Rightarrow> random_url)
      else
        (case choiced_url of
           Some u \<Rightarrow> if u \<noteq> [] then u else random_url
         | None \<Rightarrow> random_url))"

definition bp_select_worker ::
    "string \<Rightarrow> (rat \<Rightarrow> rat) \<Rightarrow> rng \<Rightarrow> string \<Rightarrow> nat \<Rightarrow> clock \<Rightarrow> worker list \<Rightarrow> select_worker_info \<Rightarrow> bucket_policy \<Rightarrow>
      nat option \<times> worker list \<times> bucket_policy" where
  "bp_select_worker unknown_id rd rng new_id now clk workers info p =
     (let (healthy_indices, workers) = get_healthy_worker_indices clk workers in
      if healthy_indices = [] then (None, workers, p)
      else
        let char_count = (case request_text info of None \<Rightarrow> 0 | Some s \<Rightarrow> length s);
            m = normalize_model_key unknown_id (model_id unknown_id (workers ! (healthy_indices ! 0)));
            (prefill_url, p) =
              (case map_get (buckets p) m of
                 Some b \<Rightarrow>
                   let u = choose_prefill_url rd rng workers healthy_indices char_count (bp_config p) b in
                   (u, put_bucket m (post_process_request new_id now char_count u b) p)
               | None \<Rightarrow> (url (workers ! (healthy_indices ! rng (length healthy_indices))), p)) in
        (position (\<lambda>w. url w = prefill_url) workers, workers, p))"

section \<open>Binary search\<close>

text \<open>Ranges in order without overlap.\<close>

definition ordered :: "boundary list \<Rightarrow> bool" where
  "ordered bs \<longleftrightarrow> (\<forall>i<length bs. bd_lo (bs ! i) \<le> bd_hi (bs ! i)) \<and>
     (\<forall>i j. i < j \<and> j < length bs \<longrightarrow> bd_hi (bs ! i) < bd_lo (bs ! j))"

text \<open>The reference: look at the ranges one by one.\<close>

definition linear_boundary :: "boundary list \<Rightarrow> nat \<Rightarrow> string option" where
  "linear_boundary bs c = map_option bd_url (find (\<lambda>bd. bd_lo bd \<le> c \<and> c \<le> bd_hi bd) bs)"

lemma search_boundary_None:
  assumes "ordered bs" "right \<le> length bs" "search_boundary bs c left right = None"
    and "left \<le> i" "i < right"
  shows "\<not> (bd_lo (bs ! i) \<le> c \<and> c \<le> bd_hi (bs ! i))"
  using assms
proof (induction bs c left right rule: search_boundary.induct)
  case (1 bs c left right)
  let ?mid = "left + (right - left) div 2"
  have mid: "left < right" "?mid < right" "left \<le> ?mid" using 1(7,6) by auto
  have order: "j < k \<Longrightarrow> k < length bs \<Longrightarrow> bd_hi (bs ! j) < bd_lo (bs ! k)" "j < length bs \<Longrightarrow> bd_lo (bs ! j) \<le> bd_hi (bs ! j)" for j k
    using 1(3) by (auto simp: ordered_def)
  consider (lo) "c < bd_lo (bs ! ?mid)" | (hi) "\<not> c < bd_lo (bs ! ?mid)" "bd_hi (bs ! ?mid) < c"
    using 1(5) mid(1) by (subst (asm) search_boundary.simps) (auto simp: Let_def split: if_splits)
  then show ?case
  proof cases
    case lo
    then have rec: "search_boundary bs c left ?mid = None" using 1(5) mid(1) by (subst (asm) search_boundary.simps) (simp add: Let_def)
    show ?thesis
    proof (cases "i < ?mid")
      case True
      then show ?thesis using 1(1) [OF mid(1) refl lo 1(3) _ rec 1(6)] 1(4) mid(2) by simp
    next
      case False
      then have "bd_lo (bs ! ?mid) \<le> bd_lo (bs ! i)"
        using order(1) [of ?mid i] order(2) [of ?mid] 1(4,7) mid(2) by (cases "i = ?mid") force+
      then show ?thesis using lo by simp
    qed
  next
    case hi
    then have rec: "search_boundary bs c (?mid + 1) right = None" using 1(5) mid(1) by (subst (asm) search_boundary.simps) (simp add: Let_def)
    show ?thesis
    proof (cases "?mid < i")
      case True
      then show ?thesis using 1(2) [OF mid(1) refl hi(1,2) 1(3,4) rec _ 1(7)] by simp
    next
      case False
      then have "bd_hi (bs ! i) \<le> bd_hi (bs ! ?mid)"
        using order(1) [of i ?mid] order(2) [of ?mid] 1(4) mid(2) by (cases "i = ?mid") force+
      then show ?thesis using hi(2) by simp
    qed
  qed
qed

lemma search_boundary_Some:
  assumes "search_boundary bs c left right = Some u"
  shows "\<exists>i. left \<le> i \<and> i < right \<and> bd_lo (bs ! i) \<le> c \<and> c \<le> bd_hi (bs ! i) \<and> bd_url (bs ! i) = u"
  using assms
proof (induction bs c left right rule: search_boundary.induct)
  case (1 bs c left right)
  let ?mid = "left + (right - left) div 2"
  have lr: "left < right" using 1(3) by (subst (asm) search_boundary.simps) (auto split: if_splits)
  consider (lo) "c < bd_lo (bs ! ?mid)" "search_boundary bs c left ?mid = Some u"
    | (hi) "\<not> c < bd_lo (bs ! ?mid)" "bd_hi (bs ! ?mid) < c" "search_boundary bs c (?mid + 1) right = Some u"
    | (here) "bd_lo (bs ! ?mid) \<le> c" "c \<le> bd_hi (bs ! ?mid)" "bd_url (bs ! ?mid) = u"
    using 1(3) lr by (subst (asm) search_boundary.simps) (auto simp: Let_def split: if_splits)
  then show ?case
  proof cases
    case lo
    from 1(1) [OF lr refl lo] obtain i where "left \<le> i" "i < ?mid" "bd_lo (bs ! i) \<le> c \<and> c \<le> bd_hi (bs ! i) \<and> bd_url (bs ! i) = u" by blast
    then show ?thesis using lr by (intro exI [of _ i]) auto
  next
    case hi
    from 1(2) [OF lr refl hi] obtain i where "?mid + 1 \<le> i" "i < right" "bd_lo (bs ! i) \<le> c \<and> c \<le> bd_hi (bs ! i) \<and> bd_url (bs ! i) = u" by blast
    then show ?thesis by (intro exI [of _ i]) auto
  next
    case here
    then show ?thesis using lr by (intro exI [of _ ?mid]) auto
  qed
qed

lemma ordered_unique:
  assumes "ordered bs" "i < length bs" "j < length bs" "bd_lo (bs ! i) \<le> c" "c \<le> bd_hi (bs ! i)"
    "bd_lo (bs ! j) \<le> c" "c \<le> bd_hi (bs ! j)"
  shows "i = j"
proof (rule ccontr)
  assume "i \<noteq> j"
  then consider "i < j" | "j < i" by linarith
  then show False
    using assms unfolding ordered_def by cases (metis leD le_less_trans less_le_trans)+
qed

lemma find_boundary_linear:
  assumes "ordered (boundaries b)"
  shows "find_boundary c b = linear_boundary (boundaries b) c"
proof (cases "find_boundary c b")
  case None
  then have "\<forall>i<length (boundaries b). \<not> (bd_lo (boundaries b ! i) \<le> c \<and> c \<le> bd_hi (boundaries b ! i))"
    using search_boundary_None [OF assms le_refl, of c 0] by (auto simp: find_boundary_def)
  then have "find (\<lambda>bd. bd_lo bd \<le> c \<and> c \<le> bd_hi bd) (boundaries b) = None"
    by (auto simp: find_None_iff in_set_conv_nth)
  then show ?thesis using None by (simp add: linear_boundary_def)
next
  case (Some u)
  let ?bs = "boundaries b"
  obtain i where i: "i < length ?bs" "bd_lo (?bs ! i) \<le> c" "c \<le> bd_hi (?bs ! i)" "bd_url (?bs ! i) = u"
    using search_boundary_Some [OF Some [unfolded find_boundary_def]] by auto
  have "\<forall>j<i. \<not> (bd_lo (?bs ! j) \<le> c \<and> c \<le> bd_hi (?bs ! j))"
    using ordered_unique [OF assms _ i(1) _ _ i(2,3)] i(1) by (metis less_irrefl less_trans)
  then have "find (\<lambda>bd. bd_lo bd \<le> c \<and> c \<le> bd_hi bd) ?bs = Some (?bs ! i)"
    unfolding find_Some_iff using i(1-3) by blast
  then show ?thesis using Some i(4) by (simp add: linear_boundary_def)
qed

section \<open>The ranges tile the lengths\<close>

text \<open>From \<open>a\<close> on, each range starts where the one before it ended, and the last one is open.\<close>

fun tiles :: "nat \<Rightarrow> boundary list \<Rightarrow> bool" where
  "tiles a [] \<longleftrightarrow> False"
| "tiles a (bd # bs) \<longleftrightarrow> bd_lo bd = a \<and> a \<le> bd_hi bd \<and>
     (if bs = [] then bd_hi bd = usize_max else tiles (bd_hi bd + 1) bs)"

lemma tiles_lower: "tiles a bs \<Longrightarrow> bd \<in> set bs \<Longrightarrow> a \<le> bd_lo bd \<and> bd_lo bd \<le> bd_hi bd"
proof (induction bs arbitrary: a)
  case (Cons x xs)
  then show ?case by (cases "xs = []") (force split: if_splits)+
qed simp

lemma tiles_ordered: "tiles a bs \<Longrightarrow> ordered bs"
proof (induction bs arbitrary: a)
  case (Cons x xs)
  have x: "bd_lo x \<le> bd_hi x" using Cons.prems by simp
  show ?case
  proof (cases "xs = []")
    case False
    then have t: "tiles (bd_hi x + 1) xs" using Cons.prems by simp
    have "bd_hi x < bd_lo (xs ! j)" if "j < length xs" for j using tiles_lower [OF t, of "xs ! j"] that by simp
    then show ?thesis using Cons.IH [OF t] x by (auto simp: ordered_def nth_Cons split: nat.splits)
  qed (use x in \<open>simp add: ordered_def\<close>)
qed simp

lemma tiles_cover: "tiles a bs \<Longrightarrow> a \<le> c \<Longrightarrow> c \<le> usize_max \<Longrightarrow> \<exists>bd\<in>set bs. bd_lo bd \<le> c \<and> c \<le> bd_hi bd"
proof (induction bs arbitrary: a)
  case (Cons x xs)
  then show ?case by (cases "c \<le> bd_hi x") (auto split: if_splits)
qed simp

lemma tiles_find:
  assumes "tiles 0 (boundaries b)" "c \<le> usize_max"
  shows "\<exists>bd\<in>set (boundaries b). bd_lo bd \<le> c \<and> c \<le> bd_hi bd \<and> find_boundary c b = Some (bd_url bd)"
proof -
  obtain bd where "find (\<lambda>bd. bd_lo bd \<le> c \<and> c \<le> bd_hi bd) (boundaries b) = Some bd"
    using tiles_cover [OF assms(1) _ assms(2)] by (cases "find (\<lambda>bd. bd_lo bd \<le> c \<and> c \<le> bd_hi bd) (boundaries b)") (auto simp: find_None_iff)
  moreover from this have "bd \<in> set (boundaries b)" "bd_lo bd \<le> c \<and> c \<le> bd_hi bd" by (auto simp: find_Some_iff)
  ultimately show ?thesis using find_boundary_linear [OF tiles_ordered [OF assms(1)], of c] by (auto simp: linear_boundary_def)
qed

subsection \<open>Initial ranges\<close>

lemma tiles_upt:
  assumes "0 < gap" "i < n" "(n - 1) * gap \<le> usize_max"
  shows "tiles (i * gap) (map (\<lambda>i. boundary_new (f i) (i * gap) (if i = n - 1 then usize_max else (i + 1) * gap - 1)) [i..<n])"
  using assms
proof (induction "n - i" arbitrary: i)
  case (Suc k)
  have le: "i * gap \<le> (n - 1) * gap" using Suc.prems(2) by (intro mult_right_mono) auto
  show ?case
  proof (cases "i = n - 1")
    case True
    then have "[i..<n] = [i]" using Suc.prems(2) by (metis Suc_diff_1 Suc_pred' gr_implies_not0 not_gr_zero upt_rec upt_Suc_append upt_conv_Nil le_refl append_Nil)
    then show ?thesis using True le Suc.prems(3) by (simp add: boundary_new_def)
  next
    case False
    then have lt: "Suc i < n" using Suc.prems(2) by simp
    have "tiles (Suc i * gap) (map (\<lambda>i. boundary_new (f i) (i * gap) (if i = n - 1 then usize_max else (i + 1) * gap - 1)) [Suc i..<n])"
      using Suc.hyps(2) lt Suc.prems by (intro Suc.hyps(1)) auto
    moreover have "(i + 1) * gap - 1 + 1 = Suc i * gap" using Suc.prems(1) by simp
    moreover have "[i..<n] = i # [Suc i..<n]" "[Suc i..<n] \<noteq> []" using lt by (simp_all add: upt_rec)
    ultimately show ?thesis using False Suc.prems(1) by (simp add: boundary_new_def)
  qed
qed simp

lemma init_boundaries_tile:
  assumes "urls \<noteq> []" "length urls \<le> l" "l \<le> usize_max"
  shows "\<exists>bs. init_boundaries (l div length urls) urls = Some bs \<and> tiles 0 bs \<and> map bd_url bs = urls"
proof -
  let ?n = "length urls" and ?gap = "l div length urls"
  have gap: "0 < ?gap" using assms(1,2) by (simp add: div_greater_zero_iff)
  have "(?n - 1) * ?gap \<le> ?n * ?gap" by (intro mult_right_mono) auto
  also have "\<dots> \<le> l" by simp
  finally have "(?n - 1) * ?gap \<le> usize_max" using assms(3) by simp
  from tiles_upt [OF gap _ this, of 0 "\<lambda>i. urls ! i"] assms(1) gap
  show ?thesis by (simp add: init_boundaries_def Let_def boundary_new_def comp_def map_nth)
qed

subsection \<open>Adjusted ranges\<close>

lemma accumulate_load: "accumulate target ls acc idx = (Some load, idx') \<Longrightarrow> load \<in> set ls"
  by (induction target ls acc idx rule: accumulate.induct) (auto split: if_splits)

lemma layout_Cons:
  assumes "us \<noteq> []"
  shows "\<exists>hi idx'. layout target hist (u # us) upper idx = boundary_new u upper hi # layout target hist us (hi + 1) idx' \<and>
    upper \<le> hi \<and> (hi = upper + target \<or> hi \<in> set hist)"
proof -
  obtain found idx' where acc: "accumulate target (drop idx hist) 0 idx = (found, idx')" by fastforce
  show ?thesis
  proof (cases found)
    case None
    then show ?thesis using assms acc by (auto simp: Let_def)
  next
    case (Some load)
    then have "load \<in> set hist" using acc accumulate_load set_drop_subset by fastforce
    then show ?thesis using Some assms acc by (auto simp: Let_def)
  qed
qed

lemma layout_single: "layout target hist [u] upper idx = [boundary_new u upper usize_max]"
  by (auto simp: Let_def split: option.splits prod.splits)

lemma layout_ne: "layout target hist us upper idx = [] \<longleftrightarrow> us = []"
proof (cases us)
  case (Cons u vs)
  then show ?thesis using layout_Cons [of vs target hist u upper idx] layout_single by (cases "vs = []") auto
qed simp

lemma layout_tiles:
  assumes "us \<noteq> []" "\<forall>l\<in>set hist. l \<le> M" "max upper (M + 1) + (length us - 1) * (target + 1) \<le> usize_max"
  shows "tiles upper (layout target hist us upper idx) \<and> map bd_url (layout target hist us upper idx) = us"
  using assms
proof (induction us arbitrary: upper idx)
  case (Cons u us)
  show ?case
  proof (cases "us = []")
    case True
    then show ?thesis using Cons.prems(3) by (simp add: layout_single boundary_new_def del: layout.simps)
  next
    case False
    then obtain hi idx' where l: "layout target hist (u # us) upper idx = boundary_new u upper hi # layout target hist us (hi + 1) idx'"
        "upper \<le> hi" "hi = upper + target \<or> hi \<in> set hist"
      using layout_Cons by blast
    have "max (hi + 1) (M + 1) \<le> max upper (M + 1) + (target + 1)" using l(3) Cons.prems(2) by auto
    moreover have "length us - 1 + 1 = length us" using False by (cases us) auto
    then have "(length us - 1) * (target + 1) + (target + 1) = length us * (target + 1)" by (metis add_mult_distrib mult_1)
    moreover have "max upper (M + 1) + length us * (target + 1) \<le> usize_max" using Cons.prems(3) by simp
    ultimately have "max (hi + 1) (M + 1) + (length us - 1) * (target + 1) \<le> usize_max" by linarith
    from Cons.IH [OF False Cons.prems(2) this, of idx'] show ?thesis
      using l False by (simp add: boundary_new_def layout_ne del: layout.simps)
  qed
qed simp

section \<open>Histories of a bucket\<close>

datatype bucket_event = InitUrls "string list" | PostProcess string nat nat string | AdjustBoundary

fun bucket_step :: "bucket_event \<Rightarrow> bucket \<Rightarrow> bucket option" where
  "bucket_step (InitUrls urls) b = init_prefill_worker_urls urls b"
| "bucket_step (PostProcess new_id now char_cnt u) b = Some (post_process_request new_id now char_cnt u b)"
| "bucket_step AdjustBoundary b = Some (adjust_boundary b)"

fun event_chars :: "bucket_event \<Rightarrow> nat" where
  "event_chars (PostProcess new_id now char_cnt u) = char_cnt"
| "event_chars ev = 0"

fun event_fits :: "bucket_event \<Rightarrow> bool" where
  "event_fits (InitUrls urls) \<longleftrightarrow> length urls \<le> 4096"
| "event_fits ev \<longleftrightarrow> True"

text \<open>The invariant, with the characters seen so far.\<close>

definition bucket_inv :: "nat \<Rightarrow> bucket \<Rightarrow> bool" where
  "bucket_inv seen b \<longleftrightarrow>
     4096 \<le> l_max b \<and> l_max b \<le> usize_max \<and> length (prefill_worker_urls b) \<le> 4096 \<and>
     map bd_url (boundaries b) = prefill_worker_urls b \<and> (prefill_worker_urls b \<noteq> [] \<longrightarrow> tiles 0 (boundaries b)) \<and>
     load_total b \<le> seen \<and> (\<forall>e\<in>set (t_req_loads b). snd e \<le> seen)"

lemma bucket_inv_new: "bucket_inv 0 (bucket_new p)"
  by (simp add: bucket_inv_def bucket_new_def usize_max_def)

lemma init_inv:
  assumes "bucket_inv seen b" "length urls \<le> 4096"
  shows "\<exists>b'. init_prefill_worker_urls urls b = Some b' \<and> bucket_inv seen b' \<and> prefill_worker_urls b' = urls"
proof (cases "urls = []")
  case True
  then show ?thesis using assms by (simp add: init_prefill_worker_urls_def bucket_inv_def Let_def)
next
  case False
  have l: "length urls \<le> l_max b" "l_max b \<le> usize_max" "4096 \<le> usize_max" using assms by (auto simp: bucket_inv_def usize_max_def)
  obtain bs where "init_boundaries (l_max b div length urls) urls = Some bs" "tiles 0 bs" "map bd_url bs = urls"
    using init_boundaries_tile [OF False l(1,2)] by blast
  then show ?thesis using False assms l(3) by (simp add: init_prefill_worker_urls_def bucket_inv_def Let_def)
qed

lemma drop_expired_fields:
  "l_max (fst (drop_expired now b reqs k)) = l_max b"
  "prefill_worker_urls (fst (drop_expired now b reqs k)) = prefill_worker_urls b"
  "boundaries (fst (drop_expired now b reqs k)) = boundaries b"
  "load_total (fst (drop_expired now b reqs k)) = load_total b"
  "period (fst (drop_expired now b reqs k)) = period b"
  "set (t_req_loads (fst (drop_expired now b reqs k))) \<subseteq> set (t_req_loads b)"
  by (induction now b reqs k rule: drop_expired.induct) (auto simp: map_remove_def)

lemma post_inv:
  assumes "bucket_inv seen b"
  shows "bucket_inv (seen + char_cnt) (post_process_request new_id now char_cnt u b)"
proof -
  define b1 where "b1 = b\<lparr> chars_per_url := map_modify_or_insert u (\<lambda>c. c + char_cnt) char_cnt (chars_per_url b) \<rparr>"
  define b2 where "b2 = fst (drop_expired now b1 (request_list b1) 0)"
  have f: "l_max b2 = l_max b" "prefill_worker_urls b2 = prefill_worker_urls b" "boundaries b2 = boundaries b"
      "load_total b2 = load_total b" "set (t_req_loads b2) \<subseteq> set (t_req_loads b)"
    using drop_expired_fields(1-4) [of now b1 "request_list b1" 0] drop_expired_fields(6) [of now b1 "request_list b1" 0]
    by (simp_all add: b2_def) (simp_all add: b1_def)
  have "snd e \<le> seen + char_cnt" if "e \<in> set (map_insert new_id char_cnt (t_req_loads b2))" for e
    using that set_map_insert [of new_id char_cnt "t_req_loads b2"] f(5) assms by (force simp: bucket_inv_def)
  moreover have "min usize_max (load_total b - k + char_cnt) \<le> seen + char_cnt" for k
    using assms by (intro min.coboundedI2) (auto simp: bucket_inv_def)
  ultimately show ?thesis
    using assms f unfolding post_process_request_def b1_def [symmetric]
    by (simp add: bucket_inv_def Let_def split_beta b2_def [symmetric])
qed

lemma adjust_inv:
  assumes "bucket_inv seen b" "2 * seen + 4096 \<le> usize_max"
  shows "bucket_inv seen (adjust_boundary b)"
proof -
  define b1 where "b1 = update_workers_cnt b"
  have f: "l_max b1 = l_max b" "prefill_worker_urls b1 = prefill_worker_urls b" "boundaries b1 = boundaries b"
      "load_total b1 = load_total b" "t_req_loads b1 = t_req_loads b" "bucket_cnt b1 = length (prefill_worker_urls b)"
    by (simp_all add: b1_def update_workers_cnt_def Let_def)
  let ?urls = "prefill_worker_urls b" and ?hist = "sort (map snd (t_req_loads b))"
  let ?t = "load_total b div length ?urls"
  have "tiles 0 (layout ?t ?hist ?urls 0 0) \<and> map bd_url (layout ?t ?hist ?urls 0 0) = ?urls" if "?urls \<noteq> []"
  proof (rule layout_tiles [OF that])
    show "\<forall>l\<in>set ?hist. l \<le> seen" using assms(1) by (auto simp: bucket_inv_def)
    have "(length ?urls - 1) * (?t + 1) \<le> length ?urls * ?t + length ?urls - 1"
      using that by (cases ?urls) (auto simp: algebra_simps)
    also have "\<dots> \<le> seen + 4095" using that assms(1) times_div_less_eq_dividend [of "length ?urls" "load_total b"]
      by (cases ?urls) (auto simp: bucket_inv_def)
    finally show "max 0 (seen + 1) + (length ?urls - 1) * (?t + 1) \<le> usize_max" using assms(2) by simp
  qed
  then show ?thesis
    using assms(1) f unfolding adjust_boundary_def b1_def [symmetric]
    by (auto simp: bucket_inv_def get_total_load_def Let_def)
qed

lemma bucket_inv_mono: "bucket_inv seen b \<Longrightarrow> seen \<le> seen' \<Longrightarrow> bucket_inv seen' b"
  by (auto simp: bucket_inv_def)

lemma bucket_step_inv:
  assumes "bucket_inv seen b" "event_fits ev" "2 * seen + 4096 \<le> usize_max"
  shows "\<exists>b'. bucket_step ev b = Some b' \<and> bucket_inv (seen + event_chars ev) b'"
proof (cases ev)
  case (InitUrls urls)
  then show ?thesis using init_inv [OF assms(1), of urls] assms(2) by auto
next
  case (PostProcess new_id now char_cnt u)
  then show ?thesis using post_inv [OF assms(1)] by simp
next
  case AdjustBoundary
  then show ?thesis using adjust_inv [OF assms(1,3)] by simp
qed

lemma bucket_run_inv:
  assumes "bucket_inv seen b" "\<forall>ev\<in>set evs. event_fits ev" "2 * (seen + sum_list (map event_chars evs)) + 4096 \<le> usize_max"
  shows "\<exists>b'. for_each bucket_step evs b = Some b' \<and> bucket_inv (seen + sum_list (map event_chars evs)) b'"
  using assms
proof (induction evs arbitrary: seen b)
  case (Cons ev evs)
  obtain b1 where b1: "bucket_step ev b = Some b1" "bucket_inv (seen + event_chars ev) b1"
    using bucket_step_inv [OF Cons.prems(1), of ev] Cons.prems(2,3) by auto
  then show ?case using Cons.IH [OF b1(2)] Cons.prems(2,3) by (simp add: add.assoc)
qed auto

section \<open>Properties\<close>

text \<open>
  C22: the length ranges partition all lengths.  After any history of worker lists (of at most 4096
  workers), requests and boundary adjustments whose characters fit the machine word, the ranges
  belong to the workers in order, every length lies in exactly one range, and the binary search
  ends and returns the worker of that range.
\<close>

theorem bucket_ranges_partition:
  assumes "\<forall>ev\<in>set evs. event_fits ev" "2 * sum_list (map event_chars evs) + 4096 \<le> usize_max"
  shows "\<exists>b. for_each bucket_step evs (bucket_new p) = Some b \<and> map bd_url (boundaries b) = prefill_worker_urls b \<and>
    (\<forall>c. prefill_worker_urls b \<noteq> [] \<and> c \<le> usize_max \<longrightarrow>
       (\<exists>!i. i < length (boundaries b) \<and> bd_lo (boundaries b ! i) \<le> c \<and> c \<le> bd_hi (boundaries b ! i)) \<and>
       find_boundary c b = linear_boundary (boundaries b) c \<and>
       (\<exists>bd\<in>set (boundaries b). bd_lo bd \<le> c \<and> c \<le> bd_hi bd \<and> find_boundary c b = Some (bd_url bd)))"
proof -
  obtain b where b: "for_each bucket_step evs (bucket_new p) = Some b" "bucket_inv (sum_list (map event_chars evs)) b"
    using bucket_run_inv [OF bucket_inv_new, of evs] assms by auto
  have "(\<exists>!i. i < length (boundaries b) \<and> bd_lo (boundaries b ! i) \<le> c \<and> c \<le> bd_hi (boundaries b ! i))"
    if t: "tiles 0 (boundaries b)" and c: "c \<le> usize_max" for c
  proof -
    obtain i where "i < length (boundaries b)" "bd_lo (boundaries b ! i) \<le> c" "c \<le> bd_hi (boundaries b ! i)"
      using tiles_cover [OF t _ c] by (auto simp: in_set_conv_nth)
    then show ?thesis using ordered_unique [OF tiles_ordered [OF t]] by blast
  qed
  then show ?thesis
    using b tiles_find [of b] find_boundary_linear [of b] tiles_ordered [of 0 "boundaries b"] by (auto simp: bucket_inv_def)
qed

theorem bucket_ranges_partition_witness:
  "\<exists>b. for_each bucket_step [InitUrls [''a'', ''b''], PostProcess ''r1'' 5 100 ''a'', AdjustBoundary] (bucket_new 5000) = Some b \<and>
    map bd_url (boundaries b) = prefill_worker_urls b"
  using bucket_ranges_partition [of "[InitUrls [''a'', ''b''], PostProcess ''r1'' 5 100 ''a'', AdjustBoundary]" 5000]
  by (auto simp: usize_max_def)

subsection \<open>The sliding window\<close>

lemma drop_expired_window:
  "request_list (fst (drop_expired now b reqs k)) = dropWhile (expired now (period b)) reqs"
  "snd (drop_expired now b reqs k) = k + sum_list (map req_char_cnt (takeWhile (expired now (period b)) reqs))"
  by (induction now b reqs k rule: drop_expired.induct) auto

lemma drop_expired_loads:
  assumes "t_req_loads b = map (\<lambda>r. (req_id r, req_char_cnt r)) reqs" "distinct (map req_id reqs)"
  shows "t_req_loads (fst (drop_expired now b reqs k)) =
    map (\<lambda>r. (req_id r, req_char_cnt r)) (dropWhile (expired now (period b)) reqs)"
  using assms
proof (induction now b reqs k rule: drop_expired.induct)
  case (2 now b req reqs k)
  have "map_remove (req_id req) (t_req_loads b) = map (\<lambda>r. (req_id r, req_char_cnt r)) reqs"
    using "2.prems" by (auto simp: map_remove_def filter_id_conv) (metis imageI)
  then show ?case using 2 by auto
qed simp

lemma expired_later: "req_timestamp r \<le> t \<Longrightarrow> t \<le> now \<Longrightarrow> expired t p r \<Longrightarrow> expired now p r"
  by (auto simp: expired_def)

lemma dropWhile_expired:
  assumes "sorted (map req_timestamp reqs)" "\<forall>r\<in>set reqs. req_timestamp r \<le> now"
  shows "dropWhile (expired now p) reqs = filter (\<lambda>r. \<not> expired now p r) reqs"
  using assms
proof (induction reqs)
  case (Cons r reqs)
  show ?case
  proof (cases "expired now p r")
    case False
    have "\<not> expired now p r'" if "r' \<in> set reqs" for r'
      using Cons.prems that False by (force simp: expired_def split: if_splits)
    then have "filter (\<lambda>r. \<not> expired now p r) reqs = reqs" by (simp add: filter_id_conv)
    then show ?thesis using False by simp
  qed (use Cons in auto)
qed simp

text \<open>The requests of a history, and the time of its last request.\<close>

fun event_request :: "bucket_event \<Rightarrow> sequencer_request list" where
  "event_request (PostProcess new_id now char_cnt u) = [\<lparr> req_id = new_id, req_char_cnt = char_cnt, req_timestamp = now, req_url = u \<rparr>]"
| "event_request ev = []"

definition history_requests :: "bucket_event list \<Rightarrow> sequencer_request list" where
  "history_requests evs = concat (map event_request evs)"

definition in_window :: "nat \<Rightarrow> sequencer_request list \<Rightarrow> sequencer_request list" where
  "in_window p reqs = (if reqs = [] then [] else filter (\<lambda>r. \<not> expired (req_timestamp (last reqs)) p r) reqs)"

definition window_inv :: "nat \<Rightarrow> sequencer_request list \<Rightarrow> bucket \<Rightarrow> bool" where
  "window_inv p reqs b \<longleftrightarrow> period b = p \<and> request_list b = in_window p reqs \<and>
     load_total b = sum_list (map req_char_cnt (in_window p reqs)) \<and>
     t_req_loads b = map (\<lambda>r. (req_id r, req_char_cnt r)) (in_window p reqs)"

lemma window_step:
  assumes "sorted (map req_timestamp (reqs @ [r]))"
  shows "in_window p (reqs @ [r]) = dropWhile (expired (req_timestamp r) p) (in_window p reqs) @ [r]"
proof -
  have s: "sorted (map req_timestamp reqs)" "\<forall>q\<in>set reqs. req_timestamp q \<le> req_timestamp r"
    using assms by (auto simp: sorted_append)
  have r: "\<not> expired (req_timestamp r) p r" by (simp add: expired_def)
  show ?thesis
  proof (cases "reqs = []")
    case False
    have last: "\<forall>q\<in>set reqs. req_timestamp q \<le> req_timestamp (last reqs)"
    proof -
      obtain qs q0 where "reqs = qs @ [q0]" using False by (metis rev_exhaust)
      then show ?thesis using s(1) by (auto simp: sorted_append)
    qed
    have "dropWhile (expired (req_timestamp r) p) (in_window p reqs) = filter (\<lambda>q. \<not> expired (req_timestamp r) p q) (in_window p reqs)"
      using s by (intro dropWhile_expired) (auto simp: in_window_def sorted_filter)
    also have "\<dots> = filter (\<lambda>q. \<not> expired (req_timestamp r) p q) reqs"
    proof -
      have "\<not> expired (req_timestamp r) p q \<Longrightarrow> \<not> expired (req_timestamp (last reqs)) p q" if "q \<in> set reqs" for q
        using expired_later [of q "req_timestamp (last reqs)" "req_timestamp r" p] last s(2) False that by auto
      then show ?thesis using False by (auto simp: in_window_def intro!: filter_cong)
    qed
    finally show ?thesis using False r by (simp add: in_window_def)
  qed (use r in \<open>simp add: in_window_def\<close>)
qed

lemma sum_takeWhile_dropWhile:
  "sum_list (map f (dropWhile P xs)) = sum_list (map f xs) - (sum_list (map f (takeWhile P xs)) :: nat)"
proof -
  have "sum_list (map f xs) = sum_list (map f (takeWhile P xs)) + sum_list (map f (dropWhile P xs))"
    by (metis map_append sum_list_append takeWhile_dropWhile_id)
  then show ?thesis by simp
qed

lemma in_window_sub: "set (in_window p reqs) \<subseteq> set reqs" "distinct (map req_id reqs) \<Longrightarrow> distinct (map req_id (in_window p reqs))"
  by (auto simp: in_window_def distinct_map_filter)

lemma window_sum_le: "sum_list (map req_char_cnt (in_window p reqs)) \<le> sum_list (map req_char_cnt reqs)"
proof -
  have "sum_list (map req_char_cnt (filter P reqs)) \<le> sum_list (map req_char_cnt reqs)" for P by (induction reqs) auto
  then show ?thesis by (simp add: in_window_def)
qed

lemma map_insert_fresh: "k \<notin> fst ` set m \<Longrightarrow> map_insert k v m = m @ [(k, v)]"
  by (induction m) auto

lemma post_window:
  assumes inv: "window_inv p reqs b"
    and "r = \<lparr> req_id = new_id, req_char_cnt = char_cnt, req_timestamp = now, req_url = u \<rparr>"
    and "sorted (map req_timestamp (reqs @ [r]))" "distinct (map req_id (reqs @ [r]))"
      "sum_list (map req_char_cnt (reqs @ [r])) \<le> usize_max"
  shows "window_inv p (reqs @ [r]) (post_process_request new_id now char_cnt u b)"
proof -
  define b1 where "b1 = b\<lparr> chars_per_url := map_modify_or_insert u (\<lambda>c. c + char_cnt) char_cnt (chars_per_url b) \<rparr>"
  define b2 where "b2 = fst (drop_expired now b1 (request_list b1) 0)"
  let ?old = "in_window p reqs" and ?new = "dropWhile (expired now p) (in_window p reqs)"
  have b1: "period b1 = p" "request_list b1 = ?old" "load_total b1 = sum_list (map req_char_cnt ?old)"
      "t_req_loads b1 = map (\<lambda>r. (req_id r, req_char_cnt r)) ?old"
    using inv by (simp_all add: b1_def window_inv_def)
  have d: "distinct (map req_id ?old)" "new_id \<notin> req_id ` set ?old" using assms(2,4) in_window_sub(1) [of p reqs] in_window_sub(2) [of reqs p] by auto
  have w: "in_window p (reqs @ [r]) = ?new @ [r]" using window_step [OF assms(3), of p] assms(2) by simp
  have f: "period b2 = p" "load_total b2 = sum_list (map req_char_cnt ?old)" "request_list b2 = ?new"
      "snd (drop_expired now b1 (request_list b1) 0) = sum_list (map req_char_cnt (takeWhile (expired now p) ?old))"
      "t_req_loads b2 = map (\<lambda>r. (req_id r, req_char_cnt r)) ?new"
    using drop_expired_fields(4,5) [of now b1 "request_list b1" 0] drop_expired_window [of now b1 "request_list b1" 0]
      drop_expired_loads [of b1 ?old now 0] b1 d(1)
    by (simp_all add: b2_def)
  have loads: "map_insert new_id char_cnt (t_req_loads b2) = t_req_loads b2 @ [(new_id, char_cnt)]"
    using d(2) f(5) by (intro map_insert_fresh) (auto dest: set_dropWhileD)
  have "sum_list (map req_char_cnt ?new) + char_cnt \<le> usize_max"
    using window_sum_le [of p "reqs @ [r]"] assms(2,5) w by simp
  then show ?thesis
    using f loads w assms(2) unfolding post_process_request_def b1_def [symmetric]
    by (simp add: window_inv_def Let_def split_beta b2_def [symmetric] sum_takeWhile_dropWhile [symmetric])
qed

lemma other_window:
  "window_inv p reqs b \<Longrightarrow> bucket_step (InitUrls urls) b = Some b' \<Longrightarrow> window_inv p reqs b'"
  "window_inv p reqs b \<Longrightarrow> window_inv p reqs (adjust_boundary b)"
  by (auto simp: window_inv_def init_prefill_worker_urls_def adjust_boundary_def update_workers_cnt_def Let_def
      Option.bind_eq_Some_conv split: if_splits)

lemma window_run:
  assumes "window_inv p reqs b" "for_each bucket_step evs b = Some b'"
    and "sorted (map req_timestamp (reqs @ history_requests evs))" "distinct (map req_id (reqs @ history_requests evs))"
      "sum_list (map req_char_cnt (reqs @ history_requests evs)) \<le> usize_max"
  shows "window_inv p (reqs @ history_requests evs) b'"
  using assms
proof (induction evs arbitrary: reqs b)
  case (Cons ev evs)
  obtain b1 where b1: "bucket_step ev b = Some b1" "for_each bucket_step evs b1 = Some b'"
    using Cons.prems(2) by (auto simp: Option.bind_eq_Some_conv)
  have h: "history_requests (ev # evs) = event_request ev @ history_requests evs" by (simp add: history_requests_def)
  have "window_inv p (reqs @ event_request ev) b1"
  proof (cases ev)
    case (PostProcess new_id now char_cnt u)
    let ?r = "\<lparr> req_id = new_id, req_char_cnt = char_cnt, req_timestamp = now, req_url = u \<rparr>"
    have "sorted (map req_timestamp (reqs @ [?r]))" "distinct (map req_id (reqs @ [?r]))"
        "sum_list (map req_char_cnt (reqs @ [?r])) \<le> usize_max"
      using Cons.prems(3-5) [unfolded h] PostProcess by (auto simp: sorted_append)
    from post_window [OF Cons.prems(1) refl this] show ?thesis using b1(1) PostProcess by auto
  qed (use b1(1) Cons.prems(1) other_window in auto)
  from Cons.IH [OF this b1(2)] Cons.prems(3-5) show ?case by (simp only: h append_assoc)
qed (simp add: history_requests_def)

text \<open>
  The load of a bucket is that of its time window.  After any history with distinct request ids,
  a clock that does not run backwards and characters that fit the machine word, the bucket holds
  exactly the requests of the last period, in order, and its total is their characters.
\<close>

theorem bucket_window_exact:
  assumes "for_each bucket_step evs (bucket_new p) = Some b"
    and "sorted (map req_timestamp (history_requests evs))" "distinct (map req_id (history_requests evs))"
      "sum_list (map req_char_cnt (history_requests evs)) \<le> usize_max"
  shows "request_list b = in_window p (history_requests evs) \<and>
    get_total_load b = sum_list (map req_char_cnt (in_window p (history_requests evs))) \<and>
    t_req_loads b = map (\<lambda>r. (req_id r, req_char_cnt r)) (in_window p (history_requests evs))"
proof -
  have "window_inv p [] (bucket_new p)" by (simp add: window_inv_def bucket_new_def in_window_def)
  from window_run [OF this assms(1)] assms(2-4) show ?thesis by (simp add: window_inv_def get_total_load_def)
qed

theorem bucket_window_exact_witness:
  "get_total_load (the (for_each bucket_step [PostProcess ''r1'' 0 100 ''a'', PostProcess ''r2'' 9000000 50 ''b''] (bucket_new 5))) = 50"
proof -
  let ?evs = "[PostProcess ''r1'' 0 100 ''a'', PostProcess ''r2'' 9000000 50 ''b'']"
  obtain b where b: "for_each bucket_step ?evs (bucket_new 5) = Some b" by simp
  have "get_total_load b = sum_list (map req_char_cnt (in_window 5 (history_requests ?evs)))"
    using bucket_window_exact [OF b] by (simp add: history_requests_def usize_max_def)
  then show ?thesis unfolding b by (simp add: in_window_def history_requests_def expired_def)
qed

section \<open>The interface\<close>

lemma bp_select_bound:
  assumes "fst (bp_select_worker unknown_id rd rng new_id now clk ws info p) = Some i"
  shows "i < length ws"
proof -
  obtain u where "position (\<lambda>w. url w = u) (snd (get_healthy_worker_indices clk ws)) = Some i"
    using assms by (auto simp: bp_select_worker_def Let_def split_beta split: if_splits)
  then show ?thesis using position_Some by fastforce
qed

interpretation bucket: load_balancing_policy
  "\<lambda>clk ws. (fst (bp_select_worker unknown_id rd rng new_id now clk ws info p),
     fst (snd (bp_select_worker unknown_id rd rng new_id now clk ws info p)))"
  by unfold_locales (auto intro: bp_select_bound)

end
