(* ===== verification/Policy_Registry.thy ===== *)
theory Policy_Registry
  imports Hash_Policies Manual_Policy Cache_Aware Bucket_Policy
begin

text \<open>
  The policies as objects, \<open>src/gateway/src/policies/factory.rs\<close>, and the registry that assigns
  them to models, \<open>src/gateway/src/policies/registry.rs\<close>.

  An \<open>Arc\<close> of a policy is a reference into a heap of policy objects, so that \<open>Arc::ptr_eq\<close> is
  equality of references and a model that uses the default policy shares its state.  The heap also
  holds what the code keeps per process: the epoch counter of the radix trees and the session table
  all manual policies share.  Policy names are ASCII strings.
\<close>

section \<open>Model: policy objects\<close>

type_synonym pref = nat

datatype policy =
    RandomPolicy
  | RoundRobinPolicy round_robin_policy
  | PowerOfTwoPolicy power_of_two_policy
  | CacheAwarePolicy cache_aware_policy
  | BucketPolicy bucket_policy
  | ManualPolicy manual_config
  | ConsistentHashingPolicy
  | PrefixHashPolicy prefix_hash_config

fun policy_name :: "policy \<Rightarrow> string" where
  "policy_name RandomPolicy = ''random''"
| "policy_name (RoundRobinPolicy p) = ''round_robin''"
| "policy_name (PowerOfTwoPolicy p) = ''power_of_two''"
| "policy_name (CacheAwarePolicy p) = ''cache_aware''"
| "policy_name (BucketPolicy p) = ''bucket''"
| "policy_name (ManualPolicy cfg) = ''manual''"
| "policy_name ConsistentHashingPolicy = ''consistent_hashing''"
| "policy_name (PrefixHashPolicy cfg) = ''prefix_hash''"

fun needs_request_text :: "policy \<Rightarrow> bool" where
  "needs_request_text (CacheAwarePolicy p) = True"
| "needs_request_text (BucketPolicy p) = True"
| "needs_request_text _ = False"

fun update_loads :: "(string \<times> int) list \<Rightarrow> policy \<Rightarrow> policy" where
  "update_loads loads (PowerOfTwoPolicy p) = PowerOfTwoPolicy (power_of_two_update_loads loads p)"
| "update_loads loads p = p"

fun reset_policy :: "policy \<Rightarrow> policy" where
  "reset_policy (RoundRobinPolicy p) = RoundRobinPolicy (round_robin_reset p)"
| "reset_policy p = p"

record policy_heap =
  objs :: "policy list"
  tree_epoch :: nat
  sessions :: routing_table

definition heap_empty :: policy_heap where
  "heap_empty = \<lparr> objs = [], tree_epoch = 0, sessions = [] \<rparr>"

definition alloc :: "policy \<Rightarrow> policy_heap \<Rightarrow> pref \<times> policy_heap" where
  "alloc p h = (length (objs h), h\<lparr> objs := objs h @ [p] \<rparr>)"

subsection \<open>Factory\<close>

datatype policy_config =
    PC_Random
  | PC_RoundRobin
  | PC_CacheAware rat nat rat u64 nat
  | PC_PowerOfTwo u64
  | PC_Bucket nat rat nat
  | PC_Manual u64 u64 manual_assignment_mode "string option"
  | PC_ConsistentHashing
  | PC_PrefixHash nat rat

text \<open>Constructing a manual policy loads the persisted sessions into the shared table.\<close>

type_synonym file_read = "string \<Rightarrow> (string \<times> string list) list option"

definition new_manual :: "file_read \<Rightarrow> nat \<Rightarrow> manual_config \<Rightarrow> policy_heap \<Rightarrow> pref \<times> policy_heap" where
  "new_manual read now cfg h =
     alloc (ManualPolicy cfg) (h\<lparr> sessions := routing_map (manual_with_config read now (sessions h) cfg) \<rparr>)"

definition new_cache_aware :: "cache_aware_config \<Rightarrow> policy_heap \<Rightarrow> pref \<times> policy_heap" where
  "new_cache_aware cfg h = alloc (CacheAwarePolicy (ca_with_config (tree_epoch h) cfg)) h"

fun create_from_config :: "file_read \<Rightarrow> nat \<Rightarrow> policy_config \<Rightarrow> policy_heap \<Rightarrow> pref \<times> policy_heap" where
  "create_from_config read now PC_Random h = alloc RandomPolicy h"
| "create_from_config read now PC_RoundRobin h = alloc (RoundRobinPolicy round_robin_new) h"
| "create_from_config read now (PC_PowerOfTwo secs) h = alloc (PowerOfTwoPolicy power_of_two_new) h"
| "create_from_config read now (PC_CacheAware threshold abs_t rel_t secs sz) h =
     new_cache_aware \<lparr> cache_threshold = threshold, balance_abs_threshold = abs_t, balance_rel_threshold = rel_t,
       ca_eviction_interval_secs = secs, max_tree_size = sz \<rparr> h"
| "create_from_config read now (PC_Bucket abs_t rel_t secs) h =
     alloc (BucketPolicy (bp_with_config \<lparr> bc_balance_abs_threshold = abs_t, bc_balance_rel_threshold = rel_t,
       bucket_adjust_interval_secs = secs \<rparr>)) h"
| "create_from_config read now (PC_Manual secs idle mode file) h =
     new_manual read now \<lparr> eviction_interval_secs = secs, max_idle_secs = idle, mc_assignment_mode = mode,
       routing_map_file = file \<rparr> h"
| "create_from_config read now PC_ConsistentHashing h = alloc ConsistentHashingPolicy h"
| "create_from_config read now (PC_PrefixHash n f) h =
     alloc (PrefixHashPolicy \<lparr> prefix_token_count = n, load_factor = f \<rparr>) h"

definition create_by_name :: "file_read \<Rightarrow> nat \<Rightarrow> string \<Rightarrow> policy_heap \<Rightarrow> (pref \<times> policy_heap) option" where
  "create_by_name read now name h =
     (let n = map to_ascii_lower name in
      if n = ''random'' then Some (alloc RandomPolicy h)
      else if n \<in> {''round_robin'', ''roundrobin''} then Some (alloc (RoundRobinPolicy round_robin_new) h)
      else if n \<in> {''power_of_two'', ''poweroftwo''} then Some (alloc (PowerOfTwoPolicy power_of_two_new) h)
      else if n \<in> {''cache_aware'', ''cacheaware''} then Some (new_cache_aware cache_aware_config_default h)
      else if n = ''bucket'' then Some (alloc (BucketPolicy (bp_with_config bucket_config_default)) h)
      else if n = ''manual'' then Some (new_manual read now manual_config_default h)
      else if n \<in> {''consistent_hashing'', ''consistenthashing''} then Some (alloc ConsistentHashingPolicy h)
      else if n \<in> {''prefix_hash'', ''prefixhash''} then Some (alloc (PrefixHashPolicy prefix_hash_config_default) h)
      else None)"

subsection \<open>Selection through an object\<close>

text \<open>
  Code outside the crate, and what one call reads from its environment: two random generators, the
  time, a fresh id and the clock readings of the breakers.
\<close>

record runtime =
  rt_blake3 :: blake3
  rt_xxh3 :: "nat list \<Rightarrow> u64"
  rt_f32 :: "rat \<Rightarrow> rat"
  rt_f64 :: "rat \<Rightarrow> rat"
  rt_unknown :: string

record moment =
  m_rng1 :: rng
  m_rng2 :: rng
  m_now :: nat
  m_fresh :: string
  m_clock :: clock

definition put_obj :: "pref \<Rightarrow> policy \<Rightarrow> policy_heap \<Rightarrow> policy_heap" where
  "put_obj r p h = h\<lparr> objs := (objs h)[r := p] \<rparr>"

type_synonym select_result = "nat option \<times> worker list \<times> policy_heap \<times> (string \<times> tree_operation) list"

definition select_worker ::
    "runtime \<Rightarrow> moment \<Rightarrow> worker list \<Rightarrow> select_worker_info \<Rightarrow> pref \<Rightarrow> policy_heap \<Rightarrow> select_result option" where
  "select_worker rt mo workers info r h =
     (case objs h ! r of
        RandomPolicy \<Rightarrow>
          let (i, ws) = random_select (m_rng1 mo) (m_clock mo) workers in Some (i, ws, h, [])
      | RoundRobinPolicy p \<Rightarrow>
          let (i, ws, p) = round_robin_select (m_clock mo) workers p in Some (i, ws, put_obj r (RoundRobinPolicy p) h, [])
      | PowerOfTwoPolicy p \<Rightarrow>
          let (i, ws) = power_of_two_select (m_rng1 mo) (m_rng2 mo) (m_clock mo) workers p in Some (i, ws, h, [])
      | CacheAwarePolicy p \<Rightarrow>
          do {
            (i, ws, p, ops) \<leftarrow> ca_select_worker (rt_unknown rt) (rt_f32 rt) (m_rng1 mo) (m_clock mo) workers info
              (p\<lparr> ca_epoch := tree_epoch h \<rparr>);
            Some (i, ws, (put_obj r (CacheAwarePolicy p) h)\<lparr> tree_epoch := ca_epoch p \<rparr>, ops)
          }
      | BucketPolicy p \<Rightarrow>
          let (i, ws, p) = bp_select_worker (rt_unknown rt) (rt_f32 rt) (m_rng1 mo) (m_fresh mo) (m_now mo) (m_clock mo) workers info p in
          Some (i, ws, put_obj r (BucketPolicy p) h, [])
      | ManualPolicy cfg \<Rightarrow>
          let (i, ws, p) = manual_select (rt_xxh3 rt) (m_rng1 mo) (m_now mo) (m_clock mo) workers info
                \<lparr> routing_map = sessions h, assignment_mode = mc_assignment_mode cfg \<rparr> in
          Some (i, ws, h\<lparr> sessions := routing_map p \<rparr>, [])
      | ConsistentHashingPolicy \<Rightarrow> Some (ch_select_worker (rt_blake3 rt) (m_rng1 mo) workers info, workers, h, [])
      | PrefixHashPolicy cfg \<Rightarrow>
          Some (ph_select_worker (rt_blake3 rt) (rt_xxh3 rt) (rt_f64 rt) cfg workers info, workers, h, []))"

section \<open>Model: registry\<close>

type_synonym mesh_store = "string \<Rightarrow> tree_operation list option"

record policy_registry =
  model_policies :: "(string \<times> pref) list"
  model_worker_counts :: "(string \<times> nat) list"
  default_policy :: pref
  prefill_policy :: "pref option"
  decode_policy :: "pref option"
  pr_mesh_sync :: "mesh_store option"
  heap :: policy_heap

datatype policy_message = SyncPolicyState string string | RemovePolicyState string

definition policy_registry_new :: "file_read \<Rightarrow> nat \<Rightarrow> policy_config \<Rightarrow> policy_heap \<Rightarrow> policy_registry" where
  "policy_registry_new read now cfg h =
     (let (r, h) = create_from_config read now cfg h in
      \<lparr> model_policies = [], model_worker_counts = [], default_policy = r, prefill_policy = None,
        decode_policy = None, pr_mesh_sync = None, heap = h \<rparr>)"

definition pr_set_mesh_sync :: "mesh_store option \<Rightarrow> policy_registry \<Rightarrow> policy_registry" where
  "pr_set_mesh_sync mesh pr = pr\<lparr> pr_mesh_sync := mesh \<rparr>"

text \<open>The object behind a reference.\<close>

abbreviation obj :: "policy_registry \<Rightarrow> pref \<Rightarrow> policy" where
  "obj pr r \<equiv> objs (heap pr) ! r"

definition create_policy_from_type ::
    "file_read \<Rightarrow> nat \<Rightarrow> string \<Rightarrow> policy_registry \<Rightarrow> (pref \<times> policy_registry) option" where
  "create_policy_from_type read now policy_type pr =
     (if policy_type = ''cache_aware'' then
        do {
          p \<leftarrow> ca_set_mesh_sync (pr_mesh_sync pr) (ca_with_config (tree_epoch (heap pr)) cache_aware_config_default);
          let (r, h) = alloc (CacheAwarePolicy p) (heap pr);
          Some (r, pr\<lparr> heap := h\<lparr> tree_epoch := ca_epoch p \<rparr> \<rparr>)
        }
      else
        case create_by_name read now policy_type (heap pr) of
          Some (r, h) \<Rightarrow> Some (r, pr\<lparr> heap := h \<rparr>)
        | None \<Rightarrow> Some (default_policy pr, pr))"

definition determine_policy_for_model ::
    "file_read \<Rightarrow> nat \<Rightarrow> string option \<Rightarrow> policy_registry \<Rightarrow> (pref \<times> policy_registry) option" where
  "determine_policy_for_model read now policy_hint pr =
     (case policy_hint of
        Some policy_type \<Rightarrow> create_policy_from_type read now policy_type pr
      | None \<Rightarrow> Some (default_policy pr, pr))"

definition get_policy :: "string \<Rightarrow> policy_registry \<Rightarrow> pref option" where
  "get_policy m pr = map_get (model_policies pr) m"

definition get_default_policy :: "policy_registry \<Rightarrow> pref" where
  "get_default_policy pr = default_policy pr"

definition get_policy_or_default :: "string \<Rightarrow> policy_registry \<Rightarrow> pref" where
  "get_policy_or_default m pr = (case get_policy m pr of Some r \<Rightarrow> r | None \<Rightarrow> get_default_policy pr)"

definition on_worker_added ::
    "file_read \<Rightarrow> nat \<Rightarrow> string \<Rightarrow> string option \<Rightarrow> policy_registry \<Rightarrow>
      (pref \<times> policy_registry \<times> policy_message list) option" where
  "on_worker_added read now m policy_hint pr =
     (let pr = pr\<lparr> model_worker_counts := map_modify_or_insert m (\<lambda>c. c + 1) 1 (model_worker_counts pr) \<rparr> in
      case map_get (model_policies pr) m of
        Some r \<Rightarrow> Some (r, pr, [])
      | None \<Rightarrow>
          do {
            (r, pr) \<leftarrow> determine_policy_for_model read now policy_hint pr;
            Some (r, pr\<lparr> model_policies := map_insert m r (model_policies pr) \<rparr>,
              if pr_mesh_sync pr = None then [] else [SyncPolicyState m (policy_name (obj pr r))])
          })"

definition on_worker_removed :: "string \<Rightarrow> policy_registry \<Rightarrow> policy_registry \<times> policy_message list" where
  "on_worker_removed m pr =
     (case map_get (model_worker_counts pr) m of
        None \<Rightarrow> (pr, [])
      | Some c \<Rightarrow>
          let c = c - 1 in
          if c = 0 then
            (pr\<lparr> model_worker_counts := map_remove m (model_worker_counts pr),
                 model_policies := map_remove m (model_policies pr) \<rparr>,
             if pr_mesh_sync pr = None then [] else [RemovePolicyState m])
          else (pr\<lparr> model_worker_counts := map_insert m c (model_worker_counts pr) \<rparr>, []))"

definition get_all_mappings :: "policy_registry \<Rightarrow> (string \<times> string) list" where
  "get_all_mappings pr = map (\<lambda>(m, r). (m, policy_name (obj pr r))) (model_policies pr)"

definition get_worker_counts :: "policy_registry \<Rightarrow> (string \<times> nat) list" where
  "get_worker_counts pr = model_worker_counts pr"

definition clear :: "policy_registry \<Rightarrow> policy_registry" where
  "clear pr = pr\<lparr> model_policies := [], model_worker_counts := [] \<rparr>"

definition set_prefill_policy :: "pref \<Rightarrow> policy_registry \<Rightarrow> policy_registry" where
  "set_prefill_policy r pr = (if prefill_policy pr = None then pr\<lparr> prefill_policy := Some r \<rparr> else pr)"

definition set_decode_policy :: "pref \<Rightarrow> policy_registry \<Rightarrow> policy_registry" where
  "set_decode_policy r pr = (if decode_policy pr = None then pr\<lparr> decode_policy := Some r \<rparr> else pr)"

definition get_prefill_policy :: "policy_registry \<Rightarrow> pref" where
  "get_prefill_policy pr = (case prefill_policy pr of Some r \<Rightarrow> r | None \<Rightarrow> get_default_policy pr)"

definition get_decode_policy :: "policy_registry \<Rightarrow> pref" where
  "get_decode_policy pr = (case decode_policy pr of Some r \<Rightarrow> r | None \<Rightarrow> get_default_policy pr)"

definition is_power_of_two :: "policy_registry \<Rightarrow> pref \<Rightarrow> bool" where
  "is_power_of_two pr r \<longleftrightarrow> policy_name (obj pr r) = ''power_of_two''"

definition get_all_power_of_two_policies :: "policy_registry \<Rightarrow> pref list" where
  "get_all_power_of_two_policies pr =
     (let found = (if is_power_of_two pr (default_policy pr) then [default_policy pr] else []);
          found = (case prefill_policy pr of
                     Some r \<Rightarrow> if is_power_of_two pr r \<and> r \<noteq> default_policy pr then found @ [r] else found
                   | None \<Rightarrow> found);
          found = (case decode_policy pr of
                     Some r \<Rightarrow> if is_power_of_two pr r \<and> r \<noteq> default_policy pr \<and> prefill_policy pr \<noteq> Some r
                               then found @ [r] else found
                   | None \<Rightarrow> found) in
      foldl (\<lambda>found (m, r). if is_power_of_two pr r \<and> r \<notin> set found then found @ [r] else found) found (model_policies pr))"

subsection \<open>Dispatch to cache-aware and bucket policies\<close>

definition on_cache_aware ::
    "(cache_aware_policy \<Rightarrow> cache_aware_policy option) \<Rightarrow> pref \<Rightarrow> policy_registry \<Rightarrow> policy_registry option" where
  "on_cache_aware f r pr =
     (case obj pr r of
        CacheAwarePolicy p \<Rightarrow>
          do {
            p \<leftarrow> f (p\<lparr> ca_epoch := tree_epoch (heap pr) \<rparr>);
            Some (pr\<lparr> heap := (put_obj r (CacheAwarePolicy p) (heap pr))\<lparr> tree_epoch := ca_epoch p \<rparr> \<rparr>)
          }
      | _ \<Rightarrow> Some pr)"

definition if_set :: "(pref \<Rightarrow> policy_registry \<Rightarrow> policy_registry option) \<Rightarrow> pref option \<Rightarrow> policy_registry \<Rightarrow> policy_registry option" where
  "if_set f r pr = (case r of Some r \<Rightarrow> f r pr | None \<Rightarrow> Some pr)"

definition init_cache_aware_policy :: "string \<Rightarrow> string \<Rightarrow> worker list \<Rightarrow> policy_registry \<Rightarrow> policy_registry option" where
  "init_cache_aware_policy unknown_id m workers pr =
     if_set (on_cache_aware (ca_init_workers unknown_id workers)) (get_policy m pr) pr"

definition remove_worker_from_cache_aware :: "string \<Rightarrow> string \<Rightarrow> policy_registry \<Rightarrow> policy_registry option" where
  "remove_worker_from_cache_aware m u pr =
     if_set (on_cache_aware (ca_remove_worker_by_url u)) (get_policy m pr) pr"

definition init_pd_cache_aware_policies ::
    "string \<Rightarrow> worker list \<Rightarrow> worker list \<Rightarrow> policy_registry \<Rightarrow> policy_registry option" where
  "init_pd_cache_aware_policies unknown_id prefill_workers decode_workers pr =
     do {
       pr \<leftarrow> (if prefill_workers = [] then Some pr
             else if_set (on_cache_aware (ca_init_workers unknown_id prefill_workers)) (prefill_policy pr) pr);
       if decode_workers = [] then Some pr
       else if_set (on_cache_aware (ca_init_workers unknown_id decode_workers)) (decode_policy pr) pr
     }"

definition remove_pd_worker_from_cache_aware :: "string \<Rightarrow> worker \<Rightarrow> policy_registry \<Rightarrow> policy_registry option" where
  "remove_pd_worker_from_cache_aware unknown_id w pr =
     (case get_worker_type w of
        Prefill port \<Rightarrow> if_set (on_cache_aware (ca_remove_worker unknown_id w)) (prefill_policy pr) pr
      | Decode \<Rightarrow> if_set (on_cache_aware (ca_remove_worker unknown_id w)) (decode_policy pr) pr
      | Regular \<Rightarrow> Some pr)"

definition on_bucket :: "(bucket_policy \<Rightarrow> bucket_policy option) \<Rightarrow> pref \<Rightarrow> policy_registry \<Rightarrow> policy_registry option" where
  "on_bucket f r pr =
     (case obj pr r of
        BucketPolicy p \<Rightarrow> do { p \<leftarrow> f p; Some (pr\<lparr> heap := put_obj r (BucketPolicy p) (heap pr) \<rparr>) }
      | _ \<Rightarrow> Some pr)"

definition init_pd_bucket_policies :: "string \<Rightarrow> worker list \<Rightarrow> policy_registry \<Rightarrow> policy_registry option" where
  "init_pd_bucket_policies unknown_id prefill_workers pr =
     (if prefill_workers = [] then Some pr
      else if_set (on_bucket (bp_init_prefill_worker_urls unknown_id prefill_workers)) (prefill_policy pr) pr)"

definition pr_apply_remote_tree_operation ::
    "string \<Rightarrow> string \<Rightarrow> tree_operation \<Rightarrow> policy_registry \<Rightarrow> policy_registry option" where
  "pr_apply_remote_tree_operation unknown_id m op pr =
     (let apply = on_cache_aware (apply_remote_tree_operation unknown_id m op) in
      do {
        pr \<leftarrow> if_set apply (get_policy m pr) pr;
        pr \<leftarrow> apply (default_policy pr) pr;
        pr \<leftarrow> if_set apply (prefill_policy pr) pr;
        if_set apply (decode_policy pr) pr
      })"

section \<open>The heap\<close>

definition bp_ok :: "bucket_policy \<Rightarrow> bool" where
  "bp_ok p \<longleftrightarrow> (\<forall>e\<in>set (buckets p). 4096 \<le> l_max (snd e))"

fun obj_ok :: "policy \<Rightarrow> bool" where
  "obj_ok (CacheAwarePolicy p) = ca_ok p"
| "obj_ok (BucketPolicy p) = bp_ok p"
| "obj_ok _ = True"

definition heap_ok :: "policy_heap \<Rightarrow> bool" where
  "heap_ok h \<longleftrightarrow> (\<forall>p\<in>set (objs h). obj_ok p)"

definition names :: "policy_heap \<Rightarrow> string list" where
  "names h = map policy_name (objs h)"

lemma ca_ok_epoch [simp]: "ca_ok (p\<lparr> ca_epoch := e \<rparr>) = ca_ok p"
  by (simp add: ca_ok_def)

lemma heap_okD: "heap_ok h \<Longrightarrow> r < length (objs h) \<Longrightarrow> obj_ok (objs h ! r)"
  by (simp add: heap_ok_def)

lemma heap_ok_more [simp]:
  "heap_ok (h\<lparr> tree_epoch := e \<rparr>) = heap_ok h" "heap_ok (h\<lparr> sessions := s \<rparr>) = heap_ok h"
  "names (h\<lparr> tree_epoch := e \<rparr>) = names h" "names (h\<lparr> sessions := s \<rparr>) = names h"
  by (simp_all add: heap_ok_def names_def)

lemma put_obj_more [simp]: "tree_epoch (put_obj r p h) = tree_epoch h" "sessions (put_obj r p h) = sessions h"
  by (simp_all add: put_obj_def)

lemma heap_ok_put: "heap_ok h \<Longrightarrow> obj_ok p \<Longrightarrow> heap_ok (put_obj r p h)"
  using set_update_subset_insert [of "objs h" r p] by (auto simp: heap_ok_def put_obj_def)

lemma names_put:
  assumes "policy_name p = policy_name (objs h ! r)"
  shows "names (put_obj r p h) = names h"
proof (rule nth_equalityI)
  fix i assume "i < length (names (put_obj r p h))"
  then show "names (put_obj r p h) ! i = names h ! i"
    using assms by (cases "i = r") (simp_all add: names_def put_obj_def)
qed (simp add: names_def put_obj_def)

lemma length_names [simp]: "length (names h) = length (objs h)"
  by (simp add: names_def)

lemma names_nth: "r < length (objs h) \<Longrightarrow> policy_name (objs h ! r) = names h ! r"
  by (simp add: names_def)

lemma alloc_simps [simp]:
  "fst (alloc p h) = length (objs h)" "names (snd (alloc p h)) = names h @ [policy_name p]"
  "heap_ok (snd (alloc p h)) \<longleftrightarrow> heap_ok h \<and> obj_ok p"
  "objs (snd (alloc p h)) = objs h @ [p]"
  by (auto simp: alloc_def names_def heap_ok_def)

fun config_name :: "policy_config \<Rightarrow> string" where
  "config_name PC_Random = ''random''"
| "config_name PC_RoundRobin = ''round_robin''"
| "config_name (PC_CacheAware a b c d e) = ''cache_aware''"
| "config_name (PC_PowerOfTwo a) = ''power_of_two''"
| "config_name (PC_Bucket a b c) = ''bucket''"
| "config_name (PC_Manual a b c d) = ''manual''"
| "config_name PC_ConsistentHashing = ''consistent_hashing''"
| "config_name (PC_PrefixHash a b) = ''prefix_hash''"

lemma create_from_config_spec:
  "fst (create_from_config read now cfg h) = length (objs h)"
  "names (snd (create_from_config read now cfg h)) = names h @ [config_name cfg]"
  "heap_ok (snd (create_from_config read now cfg h)) = heap_ok h"
  by (cases cfg; simp add: new_cache_aware_def new_manual_def ca_ok_with_config bp_ok_def bp_with_config_def)+

text \<open>A creation yields a fresh reference and leaves the other objects as they are.\<close>

definition creates :: "policy_heap \<Rightarrow> (pref \<times> policy_heap) option \<Rightarrow> bool" where
  "creates h res \<longleftrightarrow> (\<forall>r h'. res = Some (r, h') \<longrightarrow> r = length (objs h) \<and> (heap_ok h \<longrightarrow> heap_ok h') \<and> (\<exists>n. names h' = names h @ [n]))"

lemma creates_if: "creates h x \<Longrightarrow> creates h y \<Longrightarrow> creates h (if b then x else y)"
  by simp

lemma creates_alloc: "obj_ok p \<Longrightarrow> creates h (Some (alloc p h))"
  using alloc_simps [of p h] by (cases "alloc p h") (simp add: creates_def)

lemma creates_manual: "creates h (Some (new_manual read now cfg h))"
  by (auto simp: creates_def new_manual_def alloc_def names_def heap_ok_def)

lemma create_by_name_creates: "creates h (create_by_name read now name h)"
  unfolding create_by_name_def Let_def new_cache_aware_def
  by (intro creates_if creates_alloc creates_manual) (simp_all add: ca_ok_with_config bp_ok_def bp_with_config_def creates_def)

section \<open>Selection through an object\<close>

definition moment_ok :: "moment \<Rightarrow> bool" where
  "moment_ok mo \<longleftrightarrow> rng_ok (m_rng1 mo) \<and> rng_ok (m_rng2 mo)"

lemma post_process_l_max: "l_max (post_process_request new_id now c u b) = l_max b"
  by (simp add: post_process_request_def Let_def split_beta drop_expired_fields)

lemma bp_select_ok:
  assumes "bp_ok p"
  shows "bp_ok (snd (snd (bp_select_worker unknown_id rd rng new_id now clk ws info p)))"
proof -
  have "bp_ok (put_bucket m (post_process_request new_id now c u b) p)" if "map_get (buckets p) m = Some b" for m c u b
  proof -
    have "4096 \<le> l_max b" using assms map_get_in_set [OF that] by (auto simp: bp_ok_def)
    then show ?thesis
      using assms set_map_insert [of m "post_process_request new_id now c u b" "buckets p"]
      by (auto simp: bp_ok_def put_bucket_def post_process_l_max)
  qed
  then show ?thesis using assms
    by (auto simp: bp_select_worker_def Let_def split_beta split: option.splits)
qed

text \<open>Policies that look at availability, and find a worker whenever one is available.\<close>

definition total_policies :: "string list" where
  "total_policies = [''random'', ''round_robin'', ''power_of_two'', ''cache_aware'', ''manual'']"

definition selected_ok :: "string \<Rightarrow> clock \<Rightarrow> worker list \<Rightarrow> nat option \<Rightarrow> bool" where
  "selected_ok name clk ws i \<longleftrightarrow>
     (\<forall>j. i = Some j \<longrightarrow> j < length ws \<and> (name \<noteq> ''bucket'' \<longrightarrow> is_healthy (ws ! j))) \<and>
     (name \<in> set total_policies \<longrightarrow> (i = None \<longleftrightarrow> (\<forall>j. \<not> available clk ws j)))"

lemma available_selected_ok:
  assumes "\<And>j. i = Some j \<Longrightarrow> available clk ws j" "\<And>j. available clk ws j \<Longrightarrow> i \<noteq> None"
  shows "selected_ok name clk ws i"
  using assms available_healthy by (cases i) (auto simp: selected_ok_def available_def)

lemma select_worker_spec:
  assumes ok: "heap_ok h" and r: "r < length (objs h)" and mo: "moment_ok mo"
  shows "\<exists>i ws' h' ops. select_worker rt mo ws info r h = Some (i, ws', h', ops) \<and> heap_ok h' \<and> names h' = names h \<and>
    selected_ok (names h ! r) (m_clock mo) ws i"
proof -
  have rng: "rng_ok (m_rng1 mo)" "rng_ok (m_rng2 mo)" using mo by (simp_all add: moment_ok_def)
  have n: "names h ! r = policy_name (objs h ! r)" using r by (simp add: names_def)
  show ?thesis
  proof (cases "objs h ! r")
    case RandomPolicy
    have "selected_ok name (m_clock mo) ws (fst (random_select (m_rng1 mo) (m_clock mo) ws))" for name
      by (rule available_selected_ok) (use random_available [OF rng(1)] in auto)
    then show ?thesis using RandomPolicy ok by (simp add: select_worker_def split_beta)
  next
    case (RoundRobinPolicy p)
    have "selected_ok name (m_clock mo) ws (fst (round_robin_select (m_clock mo) ws p))" for name
      by (rule available_selected_ok) (use round_robin_available in auto)
    then show ?thesis using RoundRobinPolicy ok by (simp add: select_worker_def split_beta heap_ok_put names_put)
  next
    case (PowerOfTwoPolicy p)
    have "selected_ok name (m_clock mo) ws (fst (power_of_two_select (m_rng1 mo) (m_rng2 mo) (m_clock mo) ws p))" for name
      by (rule available_selected_ok) (use power_of_two_available [OF rng] in auto)
    then show ?thesis using PowerOfTwoPolicy ok by (simp add: select_worker_def split_beta)
  next
    case (CacheAwarePolicy p)
    then have "ca_ok p" using heap_okD [OF ok r] by simp
    then have "ca_ok (p\<lparr> ca_epoch := tree_epoch h \<rparr>)" by simp
    from ca_select_spec [OF this rng(1), of "rt_unknown rt" "rt_f32 rt" "m_clock mo" ws info]
    obtain i ws' p' ops where sel: "ca_select_worker (rt_unknown rt) (rt_f32 rt) (m_rng1 mo) (m_clock mo) ws info
          (p\<lparr> ca_epoch := tree_epoch h \<rparr>) = Some (i, ws', p', ops)" "ca_ok p'"
        "i = None \<longleftrightarrow> (\<forall>j. \<not> available (m_clock mo) ws j)" "\<forall>j. i = Some j \<longrightarrow> j < length ws \<and> is_healthy (ws ! j)"
      by blast
    from sel(3,4) have "selected_ok (names h ! r) (m_clock mo) ws i" unfolding selected_ok_def by blast
    with sel(1,2) show ?thesis using CacheAwarePolicy ok by (auto simp: select_worker_def heap_ok_put names_put)
  next
    case (BucketPolicy p)
    then have "bp_ok p" using heap_okD [OF ok r] by simp
    then show ?thesis
      using BucketPolicy ok bp_select_ok bp_select_bound
      by (auto simp: select_worker_def split_beta heap_ok_put names_put n selected_ok_def total_policies_def)
  next
    case (ManualPolicy cfg)
    let ?p = "\<lparr> routing_map = sessions h, assignment_mode = mc_assignment_mode cfg \<rparr>"
    have "selected_ok name (m_clock mo) ws (fst (manual_select (rt_xxh3 rt) (m_rng1 mo) (m_now mo) (m_clock mo) ws info ?p))" for name
      by (rule available_selected_ok) (use manual_select_available [OF rng(1)] in auto)
    then show ?thesis using ManualPolicy ok by (simp add: select_worker_def split_beta)
  next
    case ConsistentHashingPolicy
    then show ?thesis using ok n ch_select_sound [OF rng(1), of "rt_blake3 rt" ws info]
      by (simp add: select_worker_def selected_ok_def total_policies_def)
  next
    case (PrefixHashPolicy cfg)
    then show ?thesis using ok n ph_select_sound [of "rt_blake3 rt" "rt_xxh3 rt" "rt_f64 rt" cfg ws info]
      by (simp add: select_worker_def selected_ok_def total_policies_def)
  qed
qed

section \<open>The registry's invariant\<close>

definition refs :: "policy_registry \<Rightarrow> pref set" where
  "refs pr = {default_policy pr} \<union> set_option (prefill_policy pr) \<union> set_option (decode_policy pr) \<union> snd ` set (model_policies pr)"

definition pr_ok :: "policy_registry \<Rightarrow> bool" where
  "pr_ok pr \<longleftrightarrow> heap_ok (heap pr) \<and> (\<forall>r\<in>refs pr. r < length (objs (heap pr))) \<and>
     map_wf (model_policies pr) \<and> map_wf (model_worker_counts pr) \<and>
     (\<forall>m. contains_key (model_policies pr) m \<longleftrightarrow> contains_key (model_worker_counts pr) m) \<and>
     (\<forall>m c. map_get (model_worker_counts pr) m = Some c \<longrightarrow> 0 < c)"

lemma refs_simps [simp]: "refs (pr\<lparr> heap := h \<rparr>) = refs pr" "refs (pr\<lparr> model_worker_counts := cs \<rparr>) = refs pr"
  by (simp_all add: refs_def)

lemma set_pd_simps [simp]:
  "model_policies (set_prefill_policy r pr) = model_policies pr" "model_worker_counts (set_prefill_policy r pr) = model_worker_counts pr"
  "heap (set_prefill_policy r pr) = heap pr"
  "model_policies (set_decode_policy r pr) = model_policies pr" "model_worker_counts (set_decode_policy r pr) = model_worker_counts pr"
  "heap (set_decode_policy r pr) = heap pr"
  by (simp_all add: set_prefill_policy_def set_decode_policy_def)

lemma refs_set: "refs (set_prefill_policy r pr) \<subseteq> {r} \<union> refs pr" "refs (set_decode_policy r pr) \<subseteq> {r} \<union> refs pr"
  by (auto simp: refs_def set_prefill_policy_def set_decode_policy_def)

text \<open>An operation that works on the objects only: no assignment changes and no object changes its kind.\<close>

definition touches :: "policy_registry \<Rightarrow> policy_registry \<Rightarrow> bool" where
  "touches pr pr' \<longleftrightarrow> pr' = pr\<lparr> heap := heap pr' \<rparr> \<and> names (heap pr') = names (heap pr)"

lemma touches_refl [simp]: "touches pr pr"
  by (simp add: touches_def)

lemma touches_trans: "touches pr pr' \<Longrightarrow> touches pr' pr'' \<Longrightarrow> touches pr pr''"
  unfolding touches_def by (metis policy_registry.surjective policy_registry.update_convs(7))

lemma touches_simps:
  assumes "touches pr pr'"
  shows "model_policies pr' = model_policies pr" "model_worker_counts pr' = model_worker_counts pr"
    "default_policy pr' = default_policy pr" "prefill_policy pr' = prefill_policy pr"
    "decode_policy pr' = decode_policy pr" "pr_mesh_sync pr' = pr_mesh_sync pr"
    "length (objs (heap pr')) = length (objs (heap pr))" "refs pr' = refs pr"
proof -
  have e: "pr' = pr\<lparr> heap := heap pr' \<rparr>" "names (heap pr') = names (heap pr)" using assms by (simp_all add: touches_def)
  show "length (objs (heap pr')) = length (objs (heap pr))" using e(2) by (metis length_names)
  show "model_policies pr' = model_policies pr" "model_worker_counts pr' = model_worker_counts pr"
    "default_policy pr' = default_policy pr" "prefill_policy pr' = prefill_policy pr"
    "decode_policy pr' = decode_policy pr" "pr_mesh_sync pr' = pr_mesh_sync pr" "refs pr' = refs pr"
    by (subst e(1), simp add: refs_def)+
qed

lemma touches_ok: "pr_ok pr \<Longrightarrow> touches pr pr' \<Longrightarrow> heap_ok (heap pr') \<Longrightarrow> pr_ok pr'"
  by (simp add: pr_ok_def touches_simps)

text \<open>A total operation on the right kind of object.\<close>

lemma on_cache_aware_spec:
  assumes "pr_ok pr" "r < length (objs (heap pr))" "\<And>p. ca_ok p \<Longrightarrow> \<exists>p'. f p = Some p' \<and> ca_ok p'"
  shows "\<exists>pr'. on_cache_aware f r pr = Some pr' \<and> pr_ok pr' \<and> touches pr pr'"
proof (cases "obj pr r")
  case (CacheAwarePolicy p)
  have ok: "heap_ok (heap pr)" using assms(1) by (simp add: pr_ok_def)
  have "ca_ok (p\<lparr> ca_epoch := tree_epoch (heap pr) \<rparr>)" using heap_okD [OF ok assms(2)] CacheAwarePolicy by simp
  then obtain p' where p': "f (p\<lparr> ca_epoch := tree_epoch (heap pr) \<rparr>) = Some p'" "ca_ok p'" using assms(3) by blast
  let ?h = "(put_obj r (CacheAwarePolicy p') (heap pr))\<lparr> tree_epoch := ca_epoch p' \<rparr>"
  have "touches pr (pr\<lparr> heap := ?h \<rparr>)" "heap_ok ?h"
    using CacheAwarePolicy ok p' by (simp_all add: touches_def names_put heap_ok_put)
  then show ?thesis using touches_ok [OF assms(1)] CacheAwarePolicy p' by (simp add: on_cache_aware_def)
qed (use assms(1) in \<open>simp_all add: on_cache_aware_def\<close>)

lemma if_set_spec:
  assumes "pr_ok pr" "set_option r \<subseteq> refs pr"
    and "\<And>r. r < length (objs (heap pr)) \<Longrightarrow> \<exists>pr'. f r pr = Some pr' \<and> pr_ok pr' \<and> touches pr pr'"
  shows "\<exists>pr'. if_set f r pr = Some pr' \<and> pr_ok pr' \<and> touches pr pr'"
proof (cases r)
  case (Some r')
  then have "r' < length (objs (heap pr))" using assms(1,2) by (auto simp: pr_ok_def)
  then show ?thesis using assms(3) Some by (simp add: if_set_def)
qed (use assms(1) in \<open>simp add: if_set_def\<close>)

lemma get_policy_refs: "set_option (get_policy m pr) \<subseteq> refs pr"
  by (force simp: get_policy_def refs_def dest: map_get_in_set)

lemma pd_refs: "set_option (prefill_policy pr) \<subseteq> refs pr" "set_option (decode_policy pr) \<subseteq> refs pr" "default_policy pr \<in> refs pr"
  by (auto simp: refs_def)

lemma ca_total:
  assumes "ca_ok p"
  shows "\<exists>p'. ca_init_workers unknown_id ws p = Some p' \<and> ca_ok p'"
    "\<exists>p'. ca_remove_worker unknown_id w p = Some p' \<and> ca_ok p'"
    "\<exists>p'. ca_remove_worker_by_url u p = Some p' \<and> ca_ok p'"
    "\<exists>p'. apply_remote_tree_operation unknown_id m op p = Some p' \<and> ca_ok p'"
    "\<exists>p'. ca_set_mesh_sync mesh p = Some p' \<and> ca_ok p'"
  using ca_step_ok [OF assms, of unknown_id "\<lambda>x. x" "InitWorkers ws"] ca_step_ok [OF assms, of unknown_id "\<lambda>x. x" "RemoveWorker w"]
    ca_step_ok [OF assms, of unknown_id "\<lambda>x. x" "RemoveUrl u"] ca_step_ok [OF assms, of unknown_id "\<lambda>x. x" "RemoteOperation m op"]
    ca_step_ok [OF assms, of unknown_id "\<lambda>x. x" "SetMesh mesh"]
  by simp_all

lemma group_by_model_length:
  "(\<forall>e\<in>set g. length (snd e) \<le> n) \<Longrightarrow>
   (\<forall>e\<in>set (foldl (\<lambda>g w. map_modify_or_insert (k w) (\<lambda>l. l @ [w]) [w] g) g ws). length (snd e) \<le> n + length ws)"
proof (induction ws arbitrary: g n)
  case (Cons w ws)
  have sub: "e \<in> set (map_modify_or_insert (k w) (\<lambda>l. l @ [w]) [w] g) \<Longrightarrow>
      e = (k w, [w]) \<or> (\<exists>e'\<in>set g. length (snd e) \<le> Suc (length (snd e')))" for e
    using set_map_insert by (fastforce simp: map_modify_or_insert_def map_and_modify_def split: if_splits option.splits)
  have "\<forall>e\<in>set (map_modify_or_insert (k w) (\<lambda>l. l @ [w]) [w] g). length (snd e) \<le> Suc n"
    using sub Cons.prems by fastforce
  from Cons.IH [OF this] show ?case by simp
qed simp

lemma bp_init_total:
  assumes "bp_ok p" "length ws \<le> 4096"
  shows "\<exists>p'. bp_init_prefill_worker_urls unknown_id ws p = Some p' \<and> bp_ok p'"
proof -
  have init: "\<exists>b'. init_prefill_worker_urls urls b = Some b' \<and> 4096 \<le> l_max b'" if "4096 \<le> l_max b" "length urls \<le> 4096" for urls b
  proof -
    have "0 < l_max b div length urls \<or> urls = []" using that by (cases urls) (auto simp: div_greater_zero_iff)
    then show ?thesis using that by (auto simp: init_prefill_worker_urls_def init_boundaries_def Let_def usize_max_def)
  qed
  have entry: "4096 \<le> l_max (bucket_entry m p)" if "bp_ok p" for m p
    using that map_get_in_set by (force simp: bucket_entry_def bucket_new_def bp_ok_def split: option.splits)
  have put: "bp_ok (put_bucket m b p)" if "bp_ok p" "4096 \<le> l_max b" for m b p
    using that set_map_insert [of m b "buckets p"] by (auto simp: bp_ok_def put_bucket_def)
  have step: "\<exists>p'. (case e of (m, ws) \<Rightarrow> \<lambda>p. do { b \<leftarrow> init_prefill_worker_urls (map url ws) (bucket_entry m p); Some (put_bucket m b p) }) p
      = Some p' \<and> bp_ok p'" if small: "length (snd e) \<le> 4096" and okp: "bp_ok p" for e p
  proof (cases e)
    case (Pair m ws)
    then obtain b' where "init_prefill_worker_urls (map url ws) (bucket_entry m p) = Some b'" "4096 \<le> l_max b'"
      using init [OF entry [OF okp], of "map url ws"] small by auto
    then show ?thesis using Pair put [OF okp] by simp
  qed
  have run: "\<exists>p'. for_each (\<lambda>(m, ws) p. do { b \<leftarrow> init_prefill_worker_urls (map url ws) (bucket_entry m p); Some (put_bucket m b p) }) es p
      = Some p' \<and> bp_ok p'" if "\<forall>e\<in>set es. length (snd e) \<le> 4096" "bp_ok p" for es p
    using that
  proof (induction es arbitrary: p)
    case (Cons e es)
    then show ?case using step [of e p] by fastforce
  qed simp
  have "\<forall>e\<in>set (group_by_model unknown_id ws). length (snd e) \<le> 4096"
    using group_by_model_length [of "[]" 0 "\<lambda>w. normalize_model_key unknown_id (model_id unknown_id w)" ws] assms(2)
    by (auto simp: group_by_model_def)
  then show ?thesis using run assms(1) by (simp add: bp_init_prefill_worker_urls_def)
qed

lemma on_bucket_spec:
  assumes "pr_ok pr" "r < length (objs (heap pr))" "\<And>p. bp_ok p \<Longrightarrow> \<exists>p'. f p = Some p' \<and> bp_ok p'"
  shows "\<exists>pr'. on_bucket f r pr = Some pr' \<and> pr_ok pr' \<and> touches pr pr'"
proof (cases "obj pr r")
  case (BucketPolicy p)
  have ok: "heap_ok (heap pr)" using assms(1) by (simp add: pr_ok_def)
  obtain p' where p': "f p = Some p'" "bp_ok p'" using assms(3) heap_okD [OF ok assms(2)] BucketPolicy by auto
  have "touches pr (pr\<lparr> heap := put_obj r (BucketPolicy p') (heap pr) \<rparr>)" "heap_ok (put_obj r (BucketPolicy p') (heap pr))"
    using BucketPolicy ok p' by (simp_all add: touches_def names_put heap_ok_put)
  then show ?thesis using touches_ok [OF assms(1)] BucketPolicy p' by (simp add: on_bucket_def)
qed (use assms(1) in \<open>simp_all add: on_bucket_def\<close>)

text \<open>Every dispatch returns, keeps the invariant and changes objects only.\<close>

lemma dispatch_spec:
  assumes ok: "pr_ok pr"
  shows "\<exists>pr'. init_cache_aware_policy unknown_id m ws pr = Some pr' \<and> pr_ok pr' \<and> touches pr pr'"
    "\<exists>pr'. remove_worker_from_cache_aware m u pr = Some pr' \<and> pr_ok pr' \<and> touches pr pr'"
    "\<exists>pr'. remove_pd_worker_from_cache_aware unknown_id w pr = Some pr' \<and> pr_ok pr' \<and> touches pr pr'"
    "length ws \<le> 4096 \<Longrightarrow> \<exists>pr'. init_pd_bucket_policies unknown_id ws pr = Some pr' \<and> pr_ok pr' \<and> touches pr pr'"
proof -
  show "\<exists>pr'. init_cache_aware_policy unknown_id m ws pr = Some pr' \<and> pr_ok pr' \<and> touches pr pr'"
    unfolding init_cache_aware_policy_def
    by (rule if_set_spec [OF ok get_policy_refs], rule on_cache_aware_spec [OF ok]) (use ca_total in auto)
  show "\<exists>pr'. remove_worker_from_cache_aware m u pr = Some pr' \<and> pr_ok pr' \<and> touches pr pr'"
    unfolding remove_worker_from_cache_aware_def
    by (rule if_set_spec [OF ok get_policy_refs], rule on_cache_aware_spec [OF ok]) (use ca_total in auto)
  have "\<exists>pr'. if_set (on_cache_aware (ca_remove_worker unknown_id w)) r pr = Some pr' \<and> pr_ok pr' \<and> touches pr pr'"
    if "set_option r \<subseteq> refs pr" for r
    by (rule if_set_spec [OF ok that], rule on_cache_aware_spec [OF ok]) (use ca_total in auto)
  then show "\<exists>pr'. remove_pd_worker_from_cache_aware unknown_id w pr = Some pr' \<and> pr_ok pr' \<and> touches pr pr'"
    using ok pd_refs [of pr] by (simp add: remove_pd_worker_from_cache_aware_def split: worker_type.splits)
  show "\<exists>pr'. init_pd_bucket_policies unknown_id ws pr = Some pr' \<and> pr_ok pr' \<and> touches pr pr'" if "length ws \<le> 4096"
  proof (cases "ws = []")
    case False
    have "\<exists>pr'. if_set (on_bucket (bp_init_prefill_worker_urls unknown_id ws)) (prefill_policy pr) pr = Some pr' \<and> pr_ok pr' \<and> touches pr pr'"
      by (rule if_set_spec [OF ok pd_refs(1)], rule on_bucket_spec [OF ok]) (use bp_init_total that in auto)
    then show ?thesis using False by (simp add: init_pd_bucket_policies_def)
  qed (use ok in \<open>simp add: init_pd_bucket_policies_def\<close>)
qed

lemma init_pd_spec:
  assumes "pr_ok pr"
  shows "\<exists>pr'. init_pd_cache_aware_policies unknown_id ws ws' pr = Some pr' \<and> pr_ok pr' \<and> touches pr pr'"
proof -
  have init: "\<exists>pr'. (if ws = [] then Some pr else if_set (on_cache_aware (ca_init_workers unknown_id ws)) r pr) = Some pr' \<and> pr_ok pr' \<and> touches pr pr'"
    if "pr_ok pr" "set_option r \<subseteq> refs pr" for r ws pr
  proof (cases "ws = []")
    case False
    have "\<exists>pr'. if_set (on_cache_aware (ca_init_workers unknown_id ws)) r pr = Some pr' \<and> pr_ok pr' \<and> touches pr pr'"
      by (rule if_set_spec [OF that], rule on_cache_aware_spec [OF that(1)]) (use ca_total in auto)
    then show ?thesis using False by simp
  qed (use that in simp)
  obtain pr1 where 1: "(if ws = [] then Some pr else if_set (on_cache_aware (ca_init_workers unknown_id ws)) (prefill_policy pr) pr) = Some pr1"
      "pr_ok pr1" "touches pr pr1" using init [OF assms pd_refs(1)] by blast
  obtain pr2 where 2: "(if ws' = [] then Some pr1 else if_set (on_cache_aware (ca_init_workers unknown_id ws')) (decode_policy pr1) pr1) = Some pr2"
      "pr_ok pr2" "touches pr1 pr2" using init [OF 1(2) pd_refs(2)] by blast
  show ?thesis using 1 2 touches_trans [OF 1(3) 2(3)] by (simp add: init_pd_cache_aware_policies_def)
qed

lemma remote_spec:
  assumes "pr_ok pr"
  shows "\<exists>pr'. pr_apply_remote_tree_operation unknown_id m op pr = Some pr' \<and> pr_ok pr' \<and> touches pr pr'"
proof -
  let ?f = "on_cache_aware (apply_remote_tree_operation unknown_id m op)"
  have f: "\<exists>pr'. ?f r pr = Some pr' \<and> pr_ok pr' \<and> touches pr pr'" if "pr_ok pr" "r < length (objs (heap pr))" for r pr
    by (rule on_cache_aware_spec [OF that]) (use ca_total in auto)
  have g: "\<exists>pr'. if_set ?f r pr = Some pr' \<and> pr_ok pr' \<and> touches pr pr'" if "pr_ok pr" "set_option r \<subseteq> refs pr" for r pr
    by (rule if_set_spec [OF that], rule f [OF that(1)])
  obtain pr1 where 1: "if_set ?f (get_policy m pr) pr = Some pr1" "pr_ok pr1" "touches pr pr1"
    using g [OF assms get_policy_refs] by blast
  have "default_policy pr1 < length (objs (heap pr1))" using 1(2) pd_refs(3) [of pr1] by (simp add: pr_ok_def)
  then obtain pr2 where 2: "?f (default_policy pr1) pr1 = Some pr2" "pr_ok pr2" "touches pr1 pr2" using f [OF 1(2)] by blast
  obtain pr3 where 3: "if_set ?f (prefill_policy pr2) pr2 = Some pr3" "pr_ok pr3" "touches pr2 pr3" using g [OF 2(2) pd_refs(1)] by blast
  obtain pr4 where 4: "if_set ?f (decode_policy pr3) pr3 = Some pr4" "pr_ok pr4" "touches pr3 pr4" using g [OF 3(2) pd_refs(2)] by blast
  show ?thesis
    using 1 2 3 4 touches_trans [OF 1(3) touches_trans [OF 2(3) touches_trans [OF 3(3) 4(3)]]]
    by (simp add: pr_apply_remote_tree_operation_def Let_def)
qed

section \<open>Histories\<close>

datatype pr_event =
    WorkerAdded nat string "string option"
  | WorkerRemoved string
  | InitCacheAware string "worker list"
  | RemoveFromCacheAware string string
  | InitPd "worker list" "worker list"
  | RemovePd worker
  | InitBuckets "worker list"
  | RemoteTreeOperation string tree_operation
  | SetPrefill nat policy_config
  | SetDecode nat policy_config
  | SetMeshSync "mesh_store option"
  | UpdateLoads "(string \<times> int) list"
  | SelectFor moment string "worker list" select_worker_info
  | Clear

text \<open>A policy created by the factory and handed to the registry.\<close>

definition create_and :: "file_read \<Rightarrow> nat \<Rightarrow> policy_config \<Rightarrow> (pref \<Rightarrow> policy_registry \<Rightarrow> policy_registry) \<Rightarrow> policy_registry \<Rightarrow> policy_registry" where
  "create_and read now cfg f pr = (let (r, h) = create_from_config read now cfg (heap pr) in f r (pr\<lparr> heap := h \<rparr>))"

fun pr_step :: "runtime \<Rightarrow> file_read \<Rightarrow> pr_event \<Rightarrow> policy_registry \<Rightarrow> policy_registry option" where
  "pr_step rt read (WorkerAdded now m hint) pr = map_option (\<lambda>(r, pr, msgs). pr) (on_worker_added read now m hint pr)"
| "pr_step rt read (WorkerRemoved m) pr = Some (fst (on_worker_removed m pr))"
| "pr_step rt read (InitCacheAware m ws) pr = init_cache_aware_policy (rt_unknown rt) m ws pr"
| "pr_step rt read (RemoveFromCacheAware m u) pr = remove_worker_from_cache_aware m u pr"
| "pr_step rt read (InitPd ws ws') pr = init_pd_cache_aware_policies (rt_unknown rt) ws ws' pr"
| "pr_step rt read (RemovePd w) pr = remove_pd_worker_from_cache_aware (rt_unknown rt) w pr"
| "pr_step rt read (InitBuckets ws) pr = init_pd_bucket_policies (rt_unknown rt) ws pr"
| "pr_step rt read (RemoteTreeOperation m op) pr = pr_apply_remote_tree_operation (rt_unknown rt) m op pr"
| "pr_step rt read (SetPrefill now cfg) pr = Some (create_and read now cfg set_prefill_policy pr)"
| "pr_step rt read (SetDecode now cfg) pr = Some (create_and read now cfg set_decode_policy pr)"
| "pr_step rt read (SetMeshSync mesh) pr = Some (pr_set_mesh_sync mesh pr)"
| "pr_step rt read (UpdateLoads loads) pr =
     Some (foldl (\<lambda>pr r. pr\<lparr> heap := put_obj r (update_loads loads (obj pr r)) (heap pr) \<rparr>) pr (get_all_power_of_two_policies pr))"
| "pr_step rt read (SelectFor mo m ws info) pr =
     map_option (\<lambda>(i, ws, h, ops). pr\<lparr> heap := h \<rparr>) (select_worker rt mo ws info (get_policy_or_default m pr) (heap pr))"
| "pr_step rt read Clear pr = Some (clear pr)"

text \<open>Bucket ranges have room for 4096 workers, and the generators draw within their range.\<close>

fun event_ok :: "pr_event \<Rightarrow> bool" where
  "event_ok (InitBuckets ws) = (length ws \<le> 4096)"
| "event_ok (SelectFor mo m ws info) = moment_ok mo"
| "event_ok _ = True"

text \<open>The number of live workers of a model, read off the history.\<close>

fun live_step :: "string \<Rightarrow> nat \<Rightarrow> pr_event \<Rightarrow> nat" where
  "live_step m n (WorkerAdded now m' hint) = (if m' = m then n + 1 else n)"
| "live_step m n (WorkerRemoved m') = (if m' = m then n - 1 else n)"
| "live_step m n Clear = 0"
| "live_step m n _ = n"

definition live :: "string \<Rightarrow> pr_event list \<Rightarrow> nat" where
  "live m evs = foldl (live_step m) 0 evs"

definition count_at :: "string \<Rightarrow> policy_registry \<Rightarrow> nat" where
  "count_at m pr = (case map_get (model_worker_counts pr) m of None \<Rightarrow> 0 | Some c \<Rightarrow> c)"

text \<open>What one event does to the assignments.\<close>

definition assigns :: "string \<Rightarrow> pr_event \<Rightarrow> policy_registry \<Rightarrow> policy_registry \<Rightarrow> bool" where
  "assigns m ev pr pr' \<longleftrightarrow> count_at m pr' = live_step m (count_at m pr) ev \<and>
     (0 < count_at m pr \<longrightarrow> 0 < count_at m pr' \<longrightarrow> get_policy m pr' = get_policy m pr) \<and>
     take (length (objs (heap pr))) (names (heap pr')) = names (heap pr)"

lemma pr_ok_count: "pr_ok pr \<Longrightarrow> get_policy m pr \<noteq> None \<longleftrightarrow> 0 < count_at m pr"
proof -
  assume ok: "pr_ok pr"
  then have "get_policy m pr \<noteq> None \<longleftrightarrow> map_get (model_worker_counts pr) m \<noteq> None"
    by (simp add: pr_ok_def contains_key_get get_policy_def)
  then show ?thesis using ok by (auto simp: pr_ok_def count_at_def split: option.splits)
qed

lemma touches_assigns: "touches pr pr' \<Longrightarrow> live_step m (count_at m pr) ev = count_at m pr \<Longrightarrow> assigns m ev pr pr'"
  by (simp add: assigns_def count_at_def get_policy_def touches_simps) (simp add: touches_def)

lemma removed_spec:
  assumes "pr_ok pr"
  shows "pr_ok (fst (on_worker_removed m' pr)) \<and> assigns m (WorkerRemoved m') pr (fst (on_worker_removed m' pr))"
proof -
  have sub: "refs (pr\<lparr> model_worker_counts := cs, model_policies := map_remove m' (model_policies pr) \<rparr>) \<subseteq> refs pr" for cs
    by (auto simp: refs_def map_remove_def)
  show ?thesis
  proof (cases "map_get (model_worker_counts pr) m'")
    case None
    then show ?thesis using assms by (auto simp: on_worker_removed_def assigns_def count_at_def)
  next
    case (Some c)
    then have c: "0 < c" using assms by (simp add: pr_ok_def)
    show ?thesis
    proof (cases "c = 1")
      case True
      then show ?thesis using Some assms sub
        by (auto simp: on_worker_removed_def Let_def pr_ok_def assigns_def count_at_def get_policy_def subset_iff)
    next
      case False
      have "contains_key (model_worker_counts pr) m'" using Some by (simp add: contains_key_get)
      moreover have "1 < c" using False c by simp
      ultimately show ?thesis using Some assms
        by (auto simp: on_worker_removed_def Let_def pr_ok_def assigns_def count_at_def get_policy_def)
    qed
  qed
qed

lemma determine_spec:
  assumes "heap_ok (heap pr)" "default_policy pr < length (objs (heap pr))"
  shows "\<exists>r h. determine_policy_for_model read now hint pr = Some (r, pr\<lparr> heap := h \<rparr>) \<and> heap_ok h \<and> r < length (objs h) \<and>
    take (length (objs (heap pr))) (names h) = names (heap pr)"
proof (cases hint)
  case None
  then show ?thesis using assms by (intro exI [of _ "default_policy pr"] exI [of _ "heap pr"]) (simp add: determine_policy_for_model_def)
next
  case (Some ty)
  show ?thesis
  proof (cases "ty = ''cache_aware''")
    case True
    obtain p where p: "ca_set_mesh_sync (pr_mesh_sync pr) (ca_with_config (tree_epoch (heap pr)) cache_aware_config_default) = Some p" "ca_ok p"
      using ca_total(5) [OF ca_ok_with_config] by blast
    show ?thesis
      using Some True p assms(1)
      by (intro exI [of _ "length (objs (heap pr))"] exI [of _ "(snd (alloc (CacheAwarePolicy p) (heap pr)))\<lparr> tree_epoch := ca_epoch p \<rparr>"])
        (simp add: determine_policy_for_model_def create_policy_from_type_def split_beta)
  next
    case False
    show ?thesis
    proof (cases "create_by_name read now ty (heap pr)")
      case None
      then show ?thesis using Some False assms
        by (intro exI [of _ "default_policy pr"] exI [of _ "heap pr"]) (simp add: determine_policy_for_model_def create_policy_from_type_def)
    next
      case (Some res)
      obtain r h where rh: "res = (r, h)" by fastforce
      then obtain n where n: "r = length (objs (heap pr))" "heap_ok h" "names h = names (heap pr) @ [n]"
        using create_by_name_creates [of "heap pr" read now ty] assms(1) Some by (auto simp: creates_def)
      then have "length (objs h) = Suc (length (objs (heap pr)))" by (metis length_append_singleton length_names)
      then show ?thesis using Some rh n False \<open>hint = Some ty\<close>
        by (intro exI [of _ r] exI [of _ h]) (simp add: determine_policy_for_model_def create_policy_from_type_def)
    qed
  qed
qed

lemma more_heap: "take (length (objs h)) (names h') = names h \<Longrightarrow> length (objs h) \<le> length (objs h')"
  by (metis length_names length_take min.absorb_iff2 min.commute)

lemma added_spec:
  assumes "pr_ok pr"
  shows "\<exists>r pr' msgs. on_worker_added read now m' hint pr = Some (r, pr', msgs) \<and> get_policy m' pr' = Some r \<and> pr_ok pr' \<and>
    (\<forall>m. assigns m (WorkerAdded now m' hint) pr pr') \<and> (hint = None \<longrightarrow> get_policy m' pr = None \<longrightarrow> r = default_policy pr)"
proof -
  let ?cs = "map_modify_or_insert m' (\<lambda>c. c + 1) 1 (model_worker_counts pr)"
  let ?pr = "pr\<lparr> model_worker_counts := ?cs \<rparr>"
  have counts: "count_at m (pr'\<lparr> model_worker_counts := ?cs \<rparr>) = (if m' = m then count_at m pr + 1 else count_at m pr)" for m pr'
    by (auto simp: count_at_def split: option.splits)
  have pos: "\<forall>m c. map_get ?cs m = Some c \<longrightarrow> 0 < c" using assms by (auto simp: pr_ok_def split: if_splits option.splits)
  show ?thesis
  proof (cases "map_get (model_policies pr) m'")
    case (Some r)
    then have "contains_key (model_policies pr) m'" by (simp add: contains_key_get)
    then have "contains_key (model_worker_counts pr) m'" using assms unfolding pr_ok_def by blast
    then have "pr_ok ?pr" using assms pos by (auto simp: pr_ok_def)
    then show ?thesis using Some counts [of _ pr]
      by (simp add: on_worker_added_def Let_def get_policy_def assigns_def)
  next
    case None
    have hp: "heap_ok (heap ?pr)" "default_policy ?pr < length (objs (heap ?pr))"
      using assms pd_refs(3) [of pr] by (simp_all add: pr_ok_def)
    from determine_spec [OF this, of read now hint] obtain r h where
      d: "determine_policy_for_model read now hint ?pr = Some (r, ?pr\<lparr> heap := h \<rparr>)" "heap_ok h" "r < length (objs h)"
        "take (length (objs (heap pr))) (names h) = names (heap pr)" by auto
    let ?pr' = "?pr\<lparr> heap := h, model_policies := map_insert m' r (model_policies pr) \<rparr>"
    have len: "length (objs (heap pr)) \<le> length (objs h)" by (rule more_heap [OF d(4)])
    have sub: "refs ?pr' \<subseteq> refs pr \<union> {r}"
      using set_map_insert [of m' r "model_policies pr"] by (auto simp: refs_def)
    have "q < length (objs h)" if q: "q \<in> refs ?pr'" for q
    proof (cases "q = r")
      case False
      then have "q \<in> refs pr" using q sub by blast
      then have "q < length (objs (heap pr))" using assms by (simp add: pr_ok_def)
      then show ?thesis using len by simp
    qed (use d(3) in simp)
    then have ok: "pr_ok ?pr'" using assms pos d(2) unfolding pr_ok_def by simp
    have "count_at m' pr = 0" using None pr_ok_count [OF assms, of m'] by (simp add: get_policy_def)
    then have "assigns m (WorkerAdded now m' hint) pr ?pr'" for m
      using d(4) counts [of m pr] by (auto simp: assigns_def count_at_def get_policy_def)
    moreover have "hint = None \<longrightarrow> r = default_policy pr" using d(1) by (auto simp: determine_policy_for_model_def)
    ultimately show ?thesis using None d(1) ok by (simp add: on_worker_added_def Let_def get_policy_def)
  qed
qed

lemma create_and_spec:
  assumes "pr_ok pr" "f = set_prefill_policy \<or> f = set_decode_policy"
  shows "pr_ok (create_and read now cfg f pr) \<and> count_at m (create_and read now cfg f pr) = count_at m pr \<and>
    get_policy m (create_and read now cfg f pr) = get_policy m pr \<and>
    take (length (objs (heap pr))) (names (heap (create_and read now cfg f pr))) = names (heap pr)"
proof -
  obtain r h where c: "create_from_config read now cfg (heap pr) = (r, h)" by fastforce
  then have rh: "r = length (objs (heap pr))" "names h = names (heap pr) @ [config_name cfg]" "heap_ok h = heap_ok (heap pr)"
    using create_from_config_spec [of read now cfg "heap pr"] by simp_all
  then have "length (objs h) = Suc (length (objs (heap pr)))" by (metis length_append_singleton length_names)
  then show ?thesis
    using assms c rh refs_set [of r "pr\<lparr> heap := h \<rparr>"]
    by (auto simp: create_and_def pr_ok_def count_at_def get_policy_def less_Suc_eq)
qed

lemma update_loads_name [simp]: "policy_name (update_loads loads p) = policy_name p" "obj_ok (update_loads loads p) = obj_ok p"
  by (cases p; simp)+

lemma update_all_touches:
  assumes "\<forall>r\<in>set rs. r < length (objs (heap pr))" "heap_ok (heap pr)"
  shows "touches pr (foldl (\<lambda>pr r. pr\<lparr> heap := put_obj r (update_loads loads (obj pr r)) (heap pr) \<rparr>) pr rs) \<and>
    heap_ok (heap (foldl (\<lambda>pr r. pr\<lparr> heap := put_obj r (update_loads loads (obj pr r)) (heap pr) \<rparr>) pr rs))"
  using assms
proof (induction rs arbitrary: pr)
  case (Cons r rs)
  let ?pr = "pr\<lparr> heap := put_obj r (update_loads loads (obj pr r)) (heap pr) \<rparr>"
  have "touches pr ?pr" by (simp add: touches_def names_put)
  moreover have "heap_ok (heap ?pr)" using Cons.prems heap_okD [of "heap pr" r] by (simp add: heap_ok_put)
  ultimately show ?case
    using Cons.IH [of ?pr] Cons.prems touches_trans [of pr ?pr] touches_simps(7) [of pr ?pr] by simp
qed simp

section \<open>Power-of-two policies\<close>

lemma p2_fold:
  "distinct found \<Longrightarrow> distinct (foldl (\<lambda>found (m, r). if P r \<and> r \<notin> set found then found @ [r] else found) found xs) \<and>
   set (foldl (\<lambda>found (m, r). if P r \<and> r \<notin> set found then found @ [r] else found) found xs) =
     set found \<union> {r \<in> snd ` set xs. P r}"
proof (induction xs arbitrary: found)
  case (Cons x xs)
  obtain m r where x: "x = (m, r)" by fastforce
  show ?case using Cons.IH [of "if P r \<and> r \<notin> set found then found @ [r] else found"] Cons.prems x by auto
qed simp

lemma power_of_two_policies_spec:
  "distinct (get_all_power_of_two_policies pr)"
  "set (get_all_power_of_two_policies pr) = {r \<in> refs pr. is_power_of_two pr r}"
proof -
  define found where "found = (let found = (if is_power_of_two pr (default_policy pr) then [default_policy pr] else []);
          found = (case prefill_policy pr of
                     Some r \<Rightarrow> if is_power_of_two pr r \<and> r \<noteq> default_policy pr then found @ [r] else found
                   | None \<Rightarrow> found) in
      case decode_policy pr of
         Some r \<Rightarrow> if is_power_of_two pr r \<and> r \<noteq> default_policy pr \<and> prefill_policy pr \<noteq> Some r then found @ [r] else found
       | None \<Rightarrow> found)"
  have f: "distinct found \<and> set found = {r \<in> {default_policy pr} \<union> set_option (prefill_policy pr) \<union> set_option (decode_policy pr). is_power_of_two pr r}"
    by (cases "prefill_policy pr"; cases "decode_policy pr") (auto simp: found_def Let_def)
  have all: "get_all_power_of_two_policies pr =
      foldl (\<lambda>found (m, r). if is_power_of_two pr r \<and> r \<notin> set found then found @ [r] else found) found (model_policies pr)"
    by (simp add: get_all_power_of_two_policies_def found_def Let_def)
  show "distinct (get_all_power_of_two_policies pr)"
    "set (get_all_power_of_two_policies pr) = {r \<in> refs pr. is_power_of_two pr r}"
    using p2_fold [of found "is_power_of_two pr" "model_policies pr"] f unfolding all refs_def by auto
qed

section \<open>Properties\<close>

lemma pr_step_spec:
  assumes ok: "pr_ok pr" and ev: "event_ok ev"
  shows "\<exists>pr'. pr_step rt read ev pr = Some pr' \<and> pr_ok pr' \<and> (\<forall>m. assigns m ev pr pr')"
proof -
  have touch: "\<exists>pr'. res = Some pr' \<and> pr_ok pr' \<and> (\<forall>m. assigns m ev pr pr')"
    if "\<exists>pr'. res = Some pr' \<and> pr_ok pr' \<and> touches pr pr'" "\<And>m n. live_step m n ev = n" for res
    using that touches_assigns by blast
  show ?thesis
  proof (cases ev)
    case (WorkerAdded now m hint)
    then show ?thesis using added_spec [OF ok, of read now m hint] by auto
  next
    case (WorkerRemoved m)
    then show ?thesis using removed_spec [OF ok, of m] by simp
  next
    case (InitCacheAware m ws)
    show ?thesis unfolding InitCacheAware by (simp, rule touch [unfolded InitCacheAware]) (use dispatch_spec(1) [OF ok] in auto)
  next
    case (RemoveFromCacheAware m u)
    show ?thesis unfolding RemoveFromCacheAware by (simp, rule touch [unfolded RemoveFromCacheAware]) (use dispatch_spec(2) [OF ok] in auto)
  next
    case (InitPd ws ws')
    show ?thesis unfolding InitPd by (simp, rule touch [unfolded InitPd]) (use init_pd_spec [OF ok] in auto)
  next
    case (RemovePd w)
    show ?thesis unfolding RemovePd by (simp, rule touch [unfolded RemovePd]) (use dispatch_spec(3) [OF ok] in auto)
  next
    case (InitBuckets ws)
    then have "length ws \<le> 4096" using ev by simp
    then show ?thesis unfolding InitBuckets by (simp, intro touch [unfolded InitBuckets]) (use dispatch_spec(4) [OF ok] in auto)
  next
    case (RemoteTreeOperation m op)
    show ?thesis unfolding RemoteTreeOperation by (simp, rule touch [unfolded RemoteTreeOperation]) (use remote_spec [OF ok] in auto)
  next
    case (SetPrefill now cfg)
    then show ?thesis using create_and_spec [OF ok, of set_prefill_policy read now cfg] by (simp add: assigns_def)
  next
    case (SetDecode now cfg)
    then show ?thesis using create_and_spec [OF ok, of set_decode_policy read now cfg] by (simp add: assigns_def)
  next
    case (SetMeshSync mesh)
    then show ?thesis using ok by (simp add: pr_set_mesh_sync_def assigns_def pr_ok_def refs_def count_at_def get_policy_def)
  next
    case (UpdateLoads loads)
    have "touches pr (foldl (\<lambda>pr r. pr\<lparr> heap := put_obj r (update_loads loads (obj pr r)) (heap pr) \<rparr>) pr (get_all_power_of_two_policies pr)) \<and>
        heap_ok (heap (foldl (\<lambda>pr r. pr\<lparr> heap := put_obj r (update_loads loads (obj pr r)) (heap pr) \<rparr>) pr (get_all_power_of_two_policies pr)))"
      using ok power_of_two_policies_spec(2) [of pr] by (intro update_all_touches) (auto simp: pr_ok_def)
    then show ?thesis unfolding UpdateLoads by (auto intro: touches_ok [OF ok] touches_assigns)
  next
    case (SelectFor mo m ws info)
    have "get_policy_or_default m pr \<in> refs pr"
      using get_policy_refs [of m pr] pd_refs(3) by (auto simp: get_policy_or_default_def get_default_policy_def split: option.splits)
    then have r: "get_policy_or_default m pr < length (objs (heap pr))" "heap_ok (heap pr)" using ok by (auto simp: pr_ok_def)
    from select_worker_spec [OF r(2,1), of mo rt ws info] obtain i ws' h' ops where
      s: "select_worker rt mo ws info (get_policy_or_default m pr) (heap pr) = Some (i, ws', h', ops)" "heap_ok h'" "names h' = names (heap pr)"
      using ev SelectFor by auto
    then have "touches pr (pr\<lparr> heap := h' \<rparr>)" by (simp add: touches_def)
    then show ?thesis unfolding SelectFor using s by (auto intro: touches_ok [OF ok] touches_assigns)
  next
    case Clear
    then show ?thesis using ok by (auto simp: clear_def assigns_def pr_ok_def refs_def count_at_def get_policy_def)
  qed
qed

lemma pr_run_spec:
  assumes "pr_ok pr" "\<forall>ev\<in>set evs. event_ok ev"
  shows "\<exists>pr'. for_each (pr_step rt read) evs pr = Some pr' \<and> pr_ok pr' \<and>
    (\<forall>m. count_at m pr' = foldl (live_step m) (count_at m pr) evs \<and>
      ((\<forall>k\<le>length evs. 0 < foldl (live_step m) (count_at m pr) (take k evs)) \<longrightarrow> get_policy m pr' = get_policy m pr))"
  using assms
proof (induction evs arbitrary: pr)
  case (Cons ev evs)
  obtain pr1 where 1: "pr_step rt read ev pr = Some pr1" "pr_ok pr1" "\<And>m. assigns m ev pr pr1"
    using pr_step_spec [OF Cons.prems(1), of ev rt read] Cons.prems(2) by auto
  obtain pr2 where 2: "for_each (pr_step rt read) evs pr1 = Some pr2" "pr_ok pr2"
      "\<And>m. count_at m pr2 = foldl (live_step m) (count_at m pr1) evs"
      "\<And>m. (\<forall>k\<le>length evs. 0 < foldl (live_step m) (count_at m pr1) (take k evs)) \<Longrightarrow> get_policy m pr2 = get_policy m pr1"
    using Cons.IH [OF 1(2)] Cons.prems(2) by auto
  have c: "count_at m pr1 = live_step m (count_at m pr) ev" for m using 1(3) by (simp add: assigns_def)
  have "get_policy m pr2 = get_policy m pr"
    if live: "\<forall>k\<le>length (ev # evs). 0 < foldl (live_step m) (count_at m pr) (take k (ev # evs))" for m
  proof -
    have later: "0 < foldl (live_step m) (count_at m pr1) (take k evs)" if "k \<le> length evs" for k
      using live [rule_format, of "Suc k"] that by (simp add: c)
    have "0 < count_at m pr" "0 < count_at m pr1"
      using live [rule_format, of 0] later [of 0] by simp_all
    then have "get_policy m pr1 = get_policy m pr" using 1(3) [of m] by (simp add: assigns_def)
    then show ?thesis using 2(4) [of m] later by simp
  qed
  then show ?case using 1(1) 2(1-3) c by simp
qed simp

definition pr_run :: "runtime \<Rightarrow> file_read \<Rightarrow> nat \<Rightarrow> policy_config \<Rightarrow> pr_event list \<Rightarrow> policy_registry option" where
  "pr_run rt read now cfg evs = for_each (pr_step rt read) evs (policy_registry_new read now cfg heap_empty)"

lemma policy_registry_new_ok: "heap_ok h \<Longrightarrow> pr_ok (policy_registry_new read now cfg h) \<and> count_at m (policy_registry_new read now cfg h) = 0"
proof -
  assume h: "heap_ok h"
  obtain r h' where c: "create_from_config read now cfg h = (r, h')" by fastforce
  then have rh: "r = length (objs h)" "names h' = names h @ [config_name cfg]" "heap_ok h'"
    using create_from_config_spec [of read now cfg h] h by simp_all
  then have "r < length (objs h')" by (metis length_append_singleton length_names lessI)
  then show ?thesis using c rh by (simp add: policy_registry_new_def pr_ok_def refs_def count_at_def)
qed

lemma pr_run_ok:
  assumes "\<forall>ev\<in>set evs. event_ok ev"
  shows "\<exists>pr. pr_run rt read now cfg evs = Some pr \<and> pr_ok pr \<and> (\<forall>m. count_at m pr = live m evs)"
proof -
  have new: "pr_ok (policy_registry_new read now cfg heap_empty)" "\<And>m. count_at m (policy_registry_new read now cfg heap_empty) = 0"
    using policy_registry_new_ok [of heap_empty read now cfg] by (simp_all add: heap_ok_def heap_empty_def)
  show ?thesis using pr_run_spec [OF new(1) assms, of rt read] new(2) by (auto simp: pr_run_def live_def)
qed

lemma for_each_append: "for_each f (xs @ ys) s = (case for_each f xs s of None \<Rightarrow> None | Some s' \<Rightarrow> for_each f ys s')"
  by (induction xs arbitrary: s) (auto simp: Option.bind_eq_None_conv split: option.splits bind_split)

text \<open>
  C20: the life of a model's policy.  No history of additions, removals, dispatches, mesh updates
  and selections fails.  Afterwards the registry counts the live workers of every model; a model
  has a policy exactly while it has live workers; and through every stretch of events during
  which it keeps at least one, its policy remains the same object.
\<close>

theorem policy_lifecycle:
  assumes "\<forall>ev\<in>set (evs @ evs'). event_ok ev"
  shows "\<exists>pr pr'. pr_run rt read now cfg evs = Some pr \<and> pr_run rt read now cfg (evs @ evs') = Some pr' \<and>
    map_get (get_worker_counts pr') m = (if live m (evs @ evs') = 0 then None else Some (live m (evs @ evs'))) \<and>
    (get_policy m pr' \<noteq> None \<longleftrightarrow> 0 < live m (evs @ evs')) \<and>
    ((\<forall>k\<le>length evs'. 0 < live m (evs @ take k evs')) \<longrightarrow> get_policy m pr' = get_policy m pr)"
proof -
  obtain pr where pr: "pr_run rt read now cfg evs = Some pr" "pr_ok pr" "count_at m pr = live m evs"
    using pr_run_ok [of evs rt read now cfg] assms by auto
  obtain pr' where pr': "for_each (pr_step rt read) evs' pr = Some pr'" "pr_ok pr'"
      "count_at m pr' = foldl (live_step m) (count_at m pr) evs'"
      "(\<forall>k\<le>length evs'. 0 < foldl (live_step m) (count_at m pr) (take k evs')) \<longrightarrow> get_policy m pr' = get_policy m pr"
    using pr_run_spec [OF pr(2), of evs' rt read] assms by auto
  have "pr_run rt read now cfg (evs @ evs') = Some pr'" using pr(1) pr'(1) by (simp add: pr_run_def for_each_append)
  moreover have c: "count_at m pr' = live m (evs @ evs')" using pr(3) pr'(3) by (simp add: live_def)
  moreover have "map_get (get_worker_counts pr') m = (if count_at m pr' = 0 then None else Some (count_at m pr'))"
    using pr'(2) by (auto simp: get_worker_counts_def count_at_def pr_ok_def split: option.splits)
  ultimately show ?thesis using pr pr' pr_ok_count [OF pr'(2), of m] by (simp add: live_def)
qed

definition sample_runtime :: runtime where
  "sample_runtime = \<lparr> rt_blake3 = (\<lambda>b. b), rt_xxh3 = (\<lambda>b. of_nat (length b)), rt_f32 = (\<lambda>x. x), rt_f64 = (\<lambda>x. x),
     rt_unknown = ''unknown'' \<rparr>"

theorem policy_lifecycle_witness:
  "\<exists>pr pr'. pr_run sample_runtime (\<lambda>f. None) 0 PC_Random [WorkerAdded 0 ''m'' (Some ''round_robin'')] = Some pr \<and>
    pr_run sample_runtime (\<lambda>f. None) 0 PC_Random [WorkerAdded 0 ''m'' (Some ''round_robin''), WorkerAdded 0 ''m'' (Some ''bucket''),
      WorkerRemoved ''m''] = Some pr' \<and> map_get (get_worker_counts pr') ''m'' = Some 1 \<and> get_policy ''m'' pr' = get_policy ''m'' pr"
proof -
  let ?evs = "[WorkerAdded 0 ''m'' (Some ''round_robin'')]" and ?evs' = "[WorkerAdded 0 ''m'' (Some ''bucket''), WorkerRemoved ''m'']"
  have "\<forall>k\<le>length ?evs'. 0 < live ''m'' (?evs @ take k ?evs')" by (simp add: live_def le_Suc_eq)
  moreover have "live ''m'' (?evs @ ?evs') = 1" by (simp add: live_def)
  ultimately show ?thesis
    using policy_lifecycle [of ?evs ?evs' sample_runtime "\<lambda>f. None" 0 PC_Random "''m''"] by auto
qed

text \<open>
  Selection through the registry.  After every history, whatever policy serves a model, a
  selection returns an index of the slice, of a healthy worker unless the policy is the bucket
  policy; random, round-robin, power-of-two, cache-aware and manual policies find a worker exactly
  when one is available; and the prefix-hash policy finds none for a request without tokens.
\<close>

theorem registry_selects:
  assumes "\<forall>ev\<in>set evs. event_ok ev" "moment_ok mo"
  shows "\<exists>pr i ws' h' ops. pr_run rt read now cfg evs = Some pr \<and>
    select_worker rt mo ws info (get_policy_or_default m pr) (heap pr) = Some (i, ws', h', ops) \<and>
    selected_ok (policy_name (obj pr (get_policy_or_default m pr))) (m_clock mo) ws i \<and>
    (policy_name (obj pr (get_policy_or_default m pr)) = ''prefix_hash'' \<longrightarrow> tokens info = None \<longrightarrow> i = None)"
proof -
  obtain pr where pr: "pr_run rt read now cfg evs = Some pr" "pr_ok pr" using pr_run_ok [OF assms(1), of rt read now cfg] by blast
  let ?r = "get_policy_or_default m pr"
  have "?r \<in> refs pr"
    using get_policy_refs [of m pr] pd_refs(3) by (auto simp: get_policy_or_default_def get_default_policy_def split: option.splits)
  then have r: "?r < length (objs (heap pr))" "heap_ok (heap pr)" using pr(2) by (auto simp: pr_ok_def)
  from select_worker_spec [OF r(2,1) assms(2), of rt ws info] obtain i ws' h' ops where
    s: "select_worker rt mo ws info ?r (heap pr) = Some (i, ws', h', ops)" "selected_ok (policy_name (obj pr ?r)) (m_clock mo) ws i"
    using r(1) by (auto simp: names_nth)
  have "i = None" if "policy_name (obj pr ?r) = ''prefix_hash''" "tokens info = None"
    using s(1) that by (cases "obj pr ?r") (auto simp: select_worker_def ph_select_worker_def ph_select_worker_impl_def)
  then show ?thesis using pr(1) s by (intro exI conjI) auto
qed

theorem registry_selects_witness:
  "\<exists>pr i ws' h' ops. pr_run sample_runtime (\<lambda>f. None) 0 (PC_PrefixHash 256 1) [] = Some pr \<and>
    select_worker sample_runtime \<lparr> m_rng1 = draw 3, m_rng2 = draw 4, m_now = 0, m_fresh = [], m_clock = (\<lambda>i. (0, 0)) \<rparr>
      [Basic (sample_worker ''a'')] \<lparr> request_text = None, tokens = None, headers = None, info_hash_ring = None \<rparr>
      (get_policy_or_default ''m'' pr) (heap pr) = Some (i, ws', h', ops)"
  using registry_selects [of "[]" "\<lparr> m_rng1 = draw 3, m_rng2 = draw 4, m_now = 0, m_fresh = [], m_clock = (\<lambda>i. (0, 0)) \<rparr>"
      sample_runtime "\<lambda>f. None" 0 "PC_PrefixHash 256 1" "[Basic (sample_worker ''a'')]"
      "\<lparr> request_text = None, tokens = None, headers = None, info_hash_ring = None \<rparr>" "''m''"]
  by (auto simp: moment_ok_def draw_ok)

end
