(* ===== verification/Worker_Registry.thy ===== *)
theory Worker_Registry
  imports Hash_Ring
begin

text \<open>
  The worker registry, \<open>src/gateway/src/core/worker_registry.rs\<close> (its hash ring is in \<open>Hash_Ring\<close>):
  workers by id, and the indexes by model, type, connection mode and URL that the routers read.

  The registry and its indexes share workers by reference, so a worker is a reference into a store
  of workers; removing a worker marks it unhealthy in the store, where every holder of the
  reference sees it.  The UUID of a new worker is an argument.  What is sent to the mesh is part of
  the result.
\<close>

section \<open>Model\<close>

type_synonym wref = nat
type_synonym wstore = "wref \<Rightarrow> worker"

datatype mesh_message = SyncWorkerState string string string bool | RemoveWorkerState string

record worker_registry =
  reg_workers :: "(string \<times> wref) list"
  model_index :: "(string \<times> wref list) list"
  hash_rings :: "(string \<times> hash_ring) list"
  type_workers :: "(worker_type \<times> string list) list"
  connection_workers :: "(connection_mode \<times> string list) list"
  url_to_id :: "(string \<times> string) list"
  reg_mesh_sync :: bool

definition worker_registry_new :: worker_registry where
  "worker_registry_new = \<lparr> reg_workers = [], model_index = [], hash_rings = [], type_workers = [],
     connection_workers = [], url_to_id = [], reg_mesh_sync = False \<rparr>"

definition rebuild_hash_ring :: "blake3 \<Rightarrow> wstore \<Rightarrow> string \<Rightarrow> worker_registry \<Rightarrow> worker_registry" where
  "rebuild_hash_ring blake3 st m reg =
     (case map_get (model_index reg) m of
        Some ws \<Rightarrow> reg\<lparr> hash_rings := map_insert m (hash_ring_new blake3 (map st ws)) (hash_rings reg) \<rparr>
      | None \<Rightarrow> reg\<lparr> hash_rings := map_remove m (hash_rings reg) \<rparr>)"

definition get_hash_ring :: "string \<Rightarrow> worker_registry \<Rightarrow> hash_ring option" where
  "get_hash_ring m reg = map_get (hash_rings reg) m"

definition reg_set_mesh_sync :: "bool \<Rightarrow> worker_registry \<Rightarrow> worker_registry" where
  "reg_set_mesh_sync mesh reg = reg\<lparr> reg_mesh_sync := mesh \<rparr>"

text \<open>\<open>entry(k).or_default().push(x)\<close>.\<close>

definition push_entry :: "'k \<Rightarrow> 'v \<Rightarrow> ('k \<times> 'v list) list \<Rightarrow> ('k \<times> 'v list) list" where
  "push_entry k x m = map_modify_or_insert k (\<lambda>xs. xs @ [x]) [x] m"

definition register ::
    "blake3 \<Rightarrow> string \<Rightarrow> string \<Rightarrow> wstore \<Rightarrow> wref \<Rightarrow> worker_registry \<Rightarrow> (string \<times> mesh_message list) \<times> worker_registry" where
  "register blake3 unknown_id new_id st r reg =
     (let w = st r;
          worker_id = (case map_get (url_to_id reg) (url w) of Some existing_id \<Rightarrow> existing_id | None \<Rightarrow> new_id);
          reg = reg\<lparr> reg_workers := map_insert worker_id r (reg_workers reg) \<rparr>;
          reg = reg\<lparr> url_to_id := map_insert (url w) worker_id (url_to_id reg) \<rparr>;
          m = model_id unknown_id w;
          reg = reg\<lparr> model_index := push_entry m r (model_index reg) \<rparr>;
          reg = rebuild_hash_ring blake3 st m reg;
          reg = reg\<lparr> type_workers := push_entry (get_worker_type w) worker_id (type_workers reg) \<rparr>;
          reg = reg\<lparr> connection_workers := push_entry (get_connection_mode w) worker_id (connection_workers reg) \<rparr> in
      ((worker_id, if reg_mesh_sync reg then [SyncWorkerState worker_id m (url w) (is_healthy w)] else []), reg))"

definition reserve_id_for_url :: "string \<Rightarrow> string \<Rightarrow> worker_registry \<Rightarrow> string \<times> worker_registry" where
  "reserve_id_for_url new_id u reg =
     (case map_get (url_to_id reg) u of
        Some i \<Rightarrow> (i, reg)
      | None \<Rightarrow> (new_id, reg\<lparr> url_to_id := map_insert u new_id (url_to_id reg) \<rparr>))"

definition reg_get :: "string \<Rightarrow> worker_registry \<Rightarrow> wref option" where
  "reg_get worker_id reg = map_get (reg_workers reg) worker_id"

definition get_url_by_id :: "wstore \<Rightarrow> string \<Rightarrow> worker_registry \<Rightarrow> string option" where
  "get_url_by_id st worker_id reg =
     (case reg_get worker_id reg of
        Some r \<Rightarrow> Some (url (st r))
      | None \<Rightarrow> map_option fst (find (\<lambda>e. snd e = worker_id) (url_to_id reg)))"

definition remove ::
    "blake3 \<Rightarrow> string \<Rightarrow> string \<Rightarrow> wstore \<Rightarrow> worker_registry \<Rightarrow> (wref option \<times> mesh_message list) \<times> wstore \<times> worker_registry" where
  "remove blake3 unknown_id worker_id st reg =
     (case map_get (reg_workers reg) worker_id of
        None \<Rightarrow> ((None, []), st, reg)
      | Some r \<Rightarrow>
          let w = st r;
              reg = reg\<lparr> reg_workers := map_remove worker_id (reg_workers reg) \<rparr>;
              reg = reg\<lparr> url_to_id := map_remove (url w) (url_to_id reg) \<rparr>;
              m = model_id unknown_id w;
              reg = reg\<lparr> model_index := map_and_modify m (filter (\<lambda>r'. url (st r') \<noteq> url w)) (model_index reg) \<rparr>;
              reg = rebuild_hash_ring blake3 st m reg;
              reg = reg\<lparr> type_workers := map_and_modify (get_worker_type w) (filter (\<lambda>i. i \<noteq> worker_id)) (type_workers reg) \<rparr>;
              reg = reg\<lparr> connection_workers :=
                map_and_modify (get_connection_mode w) (filter (\<lambda>i. i \<noteq> worker_id)) (connection_workers reg) \<rparr> in
          ((Some r, if reg_mesh_sync reg then [RemoveWorkerState worker_id] else []),
           st(r := set_healthy False w), reg))"

definition remove_by_url ::
    "blake3 \<Rightarrow> string \<Rightarrow> string \<Rightarrow> wstore \<Rightarrow> worker_registry \<Rightarrow> (wref option \<times> mesh_message list) \<times> wstore \<times> worker_registry" where
  "remove_by_url blake3 unknown_id u st reg =
     (case map_get (url_to_id reg) u of
        Some worker_id \<Rightarrow> remove blake3 unknown_id worker_id st (reg\<lparr> url_to_id := map_remove u (url_to_id reg) \<rparr>)
      | None \<Rightarrow> ((None, []), st, reg))"

subsection \<open>Lookups\<close>

definition get_by_url :: "string \<Rightarrow> worker_registry \<Rightarrow> wref option" where
  "get_by_url u reg = Option.bind (map_get (url_to_id reg) u) (\<lambda>i. reg_get i reg)"

definition get_by_model :: "string \<Rightarrow> worker_registry \<Rightarrow> wref list" where
  "get_by_model m reg = (case map_get (model_index reg) m of Some ws \<Rightarrow> ws | None \<Rightarrow> [])"

definition get_by_type :: "worker_type \<Rightarrow> worker_registry \<Rightarrow> wref list" where
  "get_by_type t reg =
     (case map_get (type_workers reg) t of Some ids \<Rightarrow> List.map_filter (\<lambda>i. reg_get i reg) ids | None \<Rightarrow> [])"

definition update_worker_health :: "string \<Rightarrow> wstore \<Rightarrow> string \<Rightarrow> bool \<Rightarrow> worker_registry \<Rightarrow> mesh_message list" where
  "update_worker_health unknown_id st worker_id healthy reg =
     (case map_get (reg_workers reg) worker_id of
        None \<Rightarrow> []
      | Some r \<Rightarrow>
          if reg_mesh_sync reg then [SyncWorkerState worker_id (model_id unknown_id (st r)) (url (st r)) healthy] else [])"

definition get_prefill_workers :: "wstore \<Rightarrow> worker_registry \<Rightarrow> wref list" where
  "get_prefill_workers st reg =
     List.map_filter (\<lambda>e. case get_worker_type (st (snd e)) of Prefill p \<Rightarrow> Some (snd e) | _ \<Rightarrow> None) (reg_workers reg)"

definition get_decode_workers :: "worker_registry \<Rightarrow> wref list" where
  "get_decode_workers reg = get_by_type Decode reg"

definition get_by_connection :: "connection_mode \<Rightarrow> worker_registry \<Rightarrow> wref list" where
  "get_by_connection c reg =
     (case map_get (connection_workers reg) c of Some ids \<Rightarrow> List.map_filter (\<lambda>i. reg_get i reg) ids | None \<Rightarrow> [])"

definition reg_len :: "worker_registry \<Rightarrow> nat" where
  "reg_len reg = length (reg_workers reg)"

definition reg_is_empty :: "worker_registry \<Rightarrow> bool" where
  "reg_is_empty reg \<longleftrightarrow> reg_workers reg = []"

definition get_all :: "worker_registry \<Rightarrow> wref list" where
  "get_all reg = map snd (reg_workers reg)"

definition get_all_with_ids :: "worker_registry \<Rightarrow> (string \<times> wref) list" where
  "get_all_with_ids reg = reg_workers reg"

definition get_all_urls :: "wstore \<Rightarrow> worker_registry \<Rightarrow> string list" where
  "get_all_urls st reg = map (\<lambda>e. url (st (snd e))) (reg_workers reg)"

definition get_all_urls_with_api_key :: "wstore \<Rightarrow> worker_registry \<Rightarrow> (string \<times> string option) list" where
  "get_all_urls_with_api_key st reg = map (\<lambda>e. (url (st (snd e)), api_key (st (snd e)))) (reg_workers reg)"

definition get_models :: "worker_registry \<Rightarrow> string list" where
  "get_models reg = map fst (filter (\<lambda>e. snd e \<noteq> []) (model_index reg))"

definition passes_filter ::
    "worker_type option \<Rightarrow> connection_mode option \<Rightarrow> runtime_type option \<Rightarrow> bool \<Rightarrow> worker \<Rightarrow> bool" where
  "passes_filter t c rt healthy_only w \<longleftrightarrow>
     (case t of Some t \<Rightarrow> get_worker_type w = t | None \<Rightarrow> True) \<and>
     (case c of Some c \<Rightarrow> mode_matches (get_connection_mode w) c | None \<Rightarrow> True) \<and>
     (case rt of Some rt \<Rightarrow> wm_runtime_type (metadata w) = rt | None \<Rightarrow> True) \<and>
     (healthy_only \<longrightarrow> is_healthy w)"

definition get_workers_filtered ::
    "wstore \<Rightarrow> string option \<Rightarrow> worker_type option \<Rightarrow> connection_mode option \<Rightarrow> runtime_type option \<Rightarrow> bool \<Rightarrow>
      worker_registry \<Rightarrow> wref list" where
  "get_workers_filtered st m t c rt healthy_only reg =
     (let ws = (case m of Some m \<Rightarrow> get_by_model m reg | None \<Rightarrow> get_all reg) in
      filter (\<lambda>r. passes_filter t c rt healthy_only (st r)) ws)"

definition get_worker_distribution :: "worker_registry \<Rightarrow> nat \<times> nat" where
  "get_worker_distribution reg =
     (let regular_count = (case map_get (type_workers reg) Regular of Some v \<Rightarrow> length v | None \<Rightarrow> 0);
          total_workers = length (reg_workers reg) in
      (regular_count, total_workers - regular_count))"

subsection \<open>Statistics and the health checker\<close>

record worker_registry_stats =
  total_workers :: nat
  total_models :: nat
  healthy_workers :: nat
  unhealthy_workers :: nat
  stats_total_load :: usize
  regular_workers :: nat
  prefill_workers :: nat
  decode_workers :: nat
  http_workers :: nat
  grpc_workers :: nat
  circuit_breaker_open :: nat
  circuit_breaker_half_open :: nat

text \<open>Asking a breaker for its state may move it from open to half open.\<close>

definition breaker_state :: "u64 \<times> u64 \<Rightarrow> worker \<Rightarrow> circuit_state \<times> worker" where
  "breaker_state now w =
     (let (s, cb) = state (fst now) (snd now) (bw_circuit_breaker (base w)) in
      (s, on_base (\<lambda>b. b\<lparr> bw_circuit_breaker := cb \<rparr>) w))"

definition stats_step ::
    "(wref \<Rightarrow> u64 \<times> u64) \<Rightarrow> worker_registry_stats \<times> wstore \<Rightarrow> string \<times> wref \<Rightarrow> worker_registry_stats \<times> wstore" where
  "stats_step clk acc e =
     (let (s, st) = acc; r = snd e; w = st r;
          s = (if is_healthy w then s\<lparr> healthy_workers := healthy_workers s + 1 \<rparr> else s);
          s = s\<lparr> stats_total_load := stats_total_load s + get_load w \<rparr>;
          s = (case get_worker_type w of
                 Regular \<Rightarrow> s\<lparr> regular_workers := regular_workers s + 1 \<rparr>
               | Prefill p \<Rightarrow> s\<lparr> prefill_workers := prefill_workers s + 1 \<rparr>
               | Decode \<Rightarrow> s\<lparr> decode_workers := decode_workers s + 1 \<rparr>);
          s = (case get_connection_mode w of
                 Http \<Rightarrow> s\<lparr> http_workers := http_workers s + 1 \<rparr>
               | Grpc p \<Rightarrow> s\<lparr> grpc_workers := grpc_workers s + 1 \<rparr>);
          (cs, w) = breaker_state (clk r) w;
          s = (case cs of
                 Open \<Rightarrow> s\<lparr> circuit_breaker_open := circuit_breaker_open s + 1 \<rparr>
               | HalfOpen \<Rightarrow> s\<lparr> circuit_breaker_half_open := circuit_breaker_half_open s + 1 \<rparr>
               | Closed \<Rightarrow> s) in
      (s, st(r := w)))"

definition reg_stats :: "(wref \<Rightarrow> u64 \<times> u64) \<Rightarrow> wstore \<Rightarrow> worker_registry \<Rightarrow> worker_registry_stats \<times> wstore" where
  "reg_stats clk st reg =
     (let total = length (reg_workers reg);
          s0 = \<lparr> total_workers = total, total_models = length (filter (\<lambda>e. snd e \<noteq> []) (model_index reg)),
                 healthy_workers = 0, unhealthy_workers = 0, stats_total_load = 0, regular_workers = 0,
                 prefill_workers = 0, decode_workers = 0, http_workers = 0, grpc_workers = 0,
                 circuit_breaker_open = 0, circuit_breaker_half_open = 0 \<rparr>;
          (s, st) = foldl (stats_step clk) (s0, st) (reg_workers reg) in
      (s\<lparr> unhealthy_workers := total - healthy_workers s \<rparr>, st))"

text \<open>One round of the health checker; \<open>probe r\<close> is what the network answers for the worker at \<open>r\<close>.\<close>

definition health_check_round :: "(wref \<Rightarrow> worker_error + bool) \<Rightarrow> wstore \<Rightarrow> worker_registry \<Rightarrow> wstore" where
  "health_check_round probe st reg =
     foldl (\<lambda>st r. st(r := on_base (\<lambda>b. snd (check_health_async (probe r) b)) (st r))) st
       (filter (\<lambda>r. \<not> disable_health_check (wm_health_config (metadata (st r)))) (get_all reg))"

section \<open>Views of the indexes\<close>

definition entry_list :: "'k \<Rightarrow> ('k \<times> 'v list) list \<Rightarrow> 'v list" where
  "entry_list k m = (case map_get m k of Some xs \<Rightarrow> xs | None \<Rightarrow> [])"

lemma entry_list_push: "entry_list k (push_entry k' x m) = (if k = k' then entry_list k m @ [x] else entry_list k m)"
  by (auto simp: entry_list_def push_entry_def split: option.splits)

lemma map_get_push_other: "k' \<noteq> k \<Longrightarrow> map_get (push_entry k x m) k' = map_get m k'"
  by (simp add: push_entry_def)

lemma entry_list_filter:
  "entry_list k (map_and_modify k' (filter P) m) = (if k = k' then filter P (entry_list k m) else entry_list k m)"
  by (auto simp: entry_list_def split: option.splits)

text \<open>The part of a worker that the indexes are about does not change during its life.\<close>

definition same_metadata :: "wstore \<Rightarrow> wstore \<Rightarrow> bool" where
  "same_metadata st st' \<longleftrightarrow> (\<forall>r. metadata (st' r) = metadata (st r))"

lemma same_metadataD:
  assumes "same_metadata st st'"
  shows "url (st' r) = url (st r)" "model_id u (st' r) = model_id u (st r)" "get_worker_type (st' r) = get_worker_type (st r)"
    "get_connection_mode (st' r) = get_connection_mode (st r)"
  using assms by (simp_all add: same_metadata_def url_def model_id_def get_worker_type_def get_connection_mode_def)

lemma metadata_set_healthy [simp]: "metadata (set_healthy h w) = metadata w"
  by (cases w) (simp_all add: metadata_def set_healthy_def bw_set_healthy_def)

lemma ring_same_metadata:
  assumes "same_metadata st st'"
  shows "hash_ring_new blake3 (map st' ws) = hash_ring_new blake3 (map st ws)"
proof -
  have "map url (map st' ws) = map url (map st ws)" using same_metadataD(1) [OF assms] by simp
  then show ?thesis by (simp only: hash_ring_new_def)
qed

section \<open>The registry as a list of workers\<close>

text \<open>
  The abstract registry is the list of registered workers with their ids.  The concrete one
  implements it when every index is the corresponding part of the list.
\<close>

definition reg_rel :: "blake3 \<Rightarrow> string \<Rightarrow> wstore \<Rightarrow> (string \<times> wref) list \<Rightarrow> worker_registry \<Rightarrow> bool" where
  "reg_rel blake3 unknown_id st es reg \<longleftrightarrow>
     reg_workers reg = es \<and> distinct (map fst es) \<and> distinct (map (\<lambda>e. url (st (snd e))) es) \<and>
     (\<forall>e\<in>set es. map_get (url_to_id reg) (url (st (snd e))) = Some (fst e)) \<and>
     (\<forall>v v' i. map_get (url_to_id reg) v = Some i \<longrightarrow> map_get (url_to_id reg) v' = Some i \<longrightarrow> v = v') \<and>
     (\<forall>m. entry_list m (model_index reg) = map snd (filter (\<lambda>e. model_id unknown_id (st (snd e)) = m) es)) \<and>
     (\<forall>t. entry_list t (type_workers reg) = map fst (filter (\<lambda>e. get_worker_type (st (snd e)) = t) es)) \<and>
     (\<forall>c. entry_list c (connection_workers reg) = map fst (filter (\<lambda>e. get_connection_mode (st (snd e)) = c) es)) \<and>
     (\<forall>m. map_get (hash_rings reg) m =
        map_option (\<lambda>ws. hash_ring_new blake3 (map st ws)) (map_get (model_index reg) m))"

lemma rebuild_fields [simp]:
  "reg_workers (rebuild_hash_ring b st m reg) = reg_workers reg"
  "model_index (rebuild_hash_ring b st m reg) = model_index reg"
  "type_workers (rebuild_hash_ring b st m reg) = type_workers reg"
  "connection_workers (rebuild_hash_ring b st m reg) = connection_workers reg"
  "url_to_id (rebuild_hash_ring b st m reg) = url_to_id reg"
  by (simp_all add: rebuild_hash_ring_def split: option.splits)

lemma rebuild_rings:
  "map_get (hash_rings (rebuild_hash_ring b st m reg)) m' =
     (if m' = m then map_option (\<lambda>ws. hash_ring_new b (map st ws)) (map_get (model_index reg) m)
      else map_get (hash_rings reg) m')"
  by (auto simp: rebuild_hash_ring_def split: option.splits)

lemma reg_rel_new: "reg_rel b u st [] worker_registry_new"
  by (simp add: reg_rel_def worker_registry_new_def entry_list_def)

lemma reg_rel_same_metadata: "reg_rel b u st es reg \<Longrightarrow> same_metadata st st' \<Longrightarrow> reg_rel b u st' es reg"
  using ring_same_metadata [of st st' b] by (simp add: reg_rel_def same_metadataD)

lemma reg_rel_cong:
  assumes "reg_rel b u st es reg" "\<And>e. e \<in> set es \<Longrightarrow> st' (snd e) = st (snd e)"
  shows "reg_rel b u st' es reg"
proof -
  have f: "filter (\<lambda>e. P (st' (snd e))) es = filter (\<lambda>e. P (st (snd e))) es" for P
    by (rule filter_cong) (simp_all add: assms(2))
  have ring: "hash_ring_new b (map st' ws) = hash_ring_new b (map st ws)" if "map_get (model_index reg) m = Some ws" for m ws
  proof -
    have "ws = map snd (filter (\<lambda>e. model_id u (st (snd e)) = m) es)"
      using assms(1) that by (auto simp: reg_rel_def entry_list_def dest: spec [of _ m])
    then have "map st' ws = map st ws" using assms(2) by auto
    then show ?thesis by (simp only:)
  qed
  have e1: "map (\<lambda>e. url (st' (snd e))) es = map (\<lambda>e. url (st (snd e))) es" using assms(2) by simp
  have e2: "(\<forall>e\<in>set es. map_get (url_to_id reg) (url (st' (snd e))) = Some (fst e)) \<longleftrightarrow>
      (\<forall>e\<in>set es. map_get (url_to_id reg) (url (st (snd e))) = Some (fst e))" using assms(2) by simp
  have e3: "map_option (\<lambda>ws. hash_ring_new b (map st' ws)) (map_get (model_index reg) m) =
      map_option (\<lambda>ws. hash_ring_new b (map st ws)) (map_get (model_index reg) m)" for m
    using ring by (cases "map_get (model_index reg) m") auto
  show ?thesis
    using assms(1)
    unfolding reg_rel_def e1 e2 e3 f [of "\<lambda>w. model_id u w = _"] f [of "\<lambda>w. get_worker_type w = _"] f [of "\<lambda>w. get_connection_mode w = _"] .
qed

lemma map_insert_new: "\<not> contains_key m k \<Longrightarrow> map_insert k v m = m @ [(k, v)]"
  by (induction m) auto

lemma filtered_view:
  assumes "\<forall>e\<in>set es. P (pr e) \<longleftrightarrow> fst e \<noteq> i" "\<forall>e\<in>set es. fst e = i \<longrightarrow> kf e = k0"
  shows "(if k = k0 then filter P (map pr (filter (\<lambda>e. kf e = k) es)) else map pr (filter (\<lambda>e. kf e = k) es)) =
    map pr (filter (\<lambda>e. kf e = k) (filter (\<lambda>e. fst e \<noteq> i) es))"
  using assms by (induction es) auto

lemma distinct_key: "distinct (map f es) \<Longrightarrow> e \<in> set es \<Longrightarrow> e' \<in> set es \<Longrightarrow> f e = f e' \<longleftrightarrow> e = e'"
  by (auto simp: distinct_map inj_on_def)

lemma distinct_map_filter_list: "distinct (map f xs) \<Longrightarrow> distinct (map f (filter P xs))"
  by (induction xs) auto

text \<open>Projections of \<open>reg_rel\<close>.\<close>

lemma reg_relD:
  assumes "reg_rel b u st es reg"
  shows "reg_workers reg = es" "distinct (map fst es)" "distinct (map (\<lambda>e. url (st (snd e))) es)"
    "e \<in> set es \<Longrightarrow> map_get (url_to_id reg) (url (st (snd e))) = Some (fst e)"
    "map_get (url_to_id reg) v = Some i \<Longrightarrow> map_get (url_to_id reg) v' = Some i \<Longrightarrow> v = v'"
    "entry_list m (model_index reg) = map snd (filter (\<lambda>e. model_id u (st (snd e)) = m) es)"
    "entry_list t (type_workers reg) = map fst (filter (\<lambda>e. get_worker_type (st (snd e)) = t) es)"
    "entry_list c (connection_workers reg) = map fst (filter (\<lambda>e. get_connection_mode (st (snd e)) = c) es)"
    "map_get (hash_rings reg) m = map_option (\<lambda>ws. hash_ring_new b (map st ws)) (map_get (model_index reg) m)"
  using assms unfolding reg_rel_def by blast+

lemma reg_relI:
  assumes "reg_workers reg = es" "distinct (map fst es)" "distinct (map (\<lambda>e. url (st (snd e))) es)"
    "\<And>i r. (i, r) \<in> set es \<Longrightarrow> map_get (url_to_id reg) (url (st r)) = Some i"
    "\<And>v v' i. map_get (url_to_id reg) v = Some i \<Longrightarrow> map_get (url_to_id reg) v' = Some i \<Longrightarrow> v = v'"
    "\<And>m. entry_list m (model_index reg) = map snd (filter (\<lambda>e. model_id u (st (snd e)) = m) es)"
    "\<And>t. entry_list t (type_workers reg) = map fst (filter (\<lambda>e. get_worker_type (st (snd e)) = t) es)"
    "\<And>c. entry_list c (connection_workers reg) = map fst (filter (\<lambda>e. get_connection_mode (st (snd e)) = c) es)"
    "\<And>m. map_get (hash_rings reg) m = map_option (\<lambda>ws. hash_ring_new b (map st ws)) (map_get (model_index reg) m)"
  shows "reg_rel b u st es reg"
proof -
  have "\<forall>e\<in>set es. map_get (url_to_id reg) (url (st (snd e))) = Some (fst e)" using assms(4) by auto
  then show ?thesis unfolding reg_rel_def using assms(1-3,5-9) by blast
qed

lemma register_fields:
  fixes reg :: worker_registry
  defines "wid \<equiv> (\<lambda>new_id st r reg. case map_get (url_to_id reg) (url (st r)) of Some i \<Rightarrow> i | None \<Rightarrow> new_id)"
  shows "fst (fst (register b u new_id st r reg)) = wid new_id st r reg"
    "reg_workers (snd (register b u new_id st r reg)) = map_insert (wid new_id st r reg) r (reg_workers reg)"
    "url_to_id (snd (register b u new_id st r reg)) = map_insert (url (st r)) (wid new_id st r reg) (url_to_id reg)"
    "model_index (snd (register b u new_id st r reg)) = push_entry (model_id u (st r)) r (model_index reg)"
    "type_workers (snd (register b u new_id st r reg)) = push_entry (get_worker_type (st r)) (wid new_id st r reg) (type_workers reg)"
    "connection_workers (snd (register b u new_id st r reg)) =
       push_entry (get_connection_mode (st r)) (wid new_id st r reg) (connection_workers reg)"
    "map_get (hash_rings (snd (register b u new_id st r reg))) m =
       (if m = model_id u (st r) then map_option (\<lambda>ws. hash_ring_new b (map st ws)) (map_get (push_entry m r (model_index reg)) m)
        else map_get (hash_rings reg) m)"
  by (simp_all add: register_def wid_def Let_def rebuild_rings)

lemma reg_rel_register:
  assumes rel: "reg_rel b u st es reg"
    and new: "\<forall>e\<in>set es. url (st (snd e)) \<noteq> url (st r)" "\<forall>e\<in>set es. fst e \<noteq> new_id"
      "\<forall>v. map_get (url_to_id reg) v \<noteq> Some new_id"
  shows "reg_rel b u st (es @ [(fst (fst (register b u new_id st r reg)), r)]) (snd (register b u new_id st r reg))"
proof -
  define wid where "wid = (case map_get (url_to_id reg) (url (st r)) of Some i \<Rightarrow> i | None \<Rightarrow> new_id)"
  note f = register_fields [where b = b and u = u and new_id = new_id and st = st and r = r and reg = reg, folded wid_def]
  note d = reg_relD [OF rel]
  have only: "v = url (st r)" if "map_get (url_to_id reg) v = Some wid" for v
    using that new(3) d(5) by (auto simp: wid_def split: option.splits)
  have wid: "wid \<notin> fst ` set es"
  proof
    assume "wid \<in> fst ` set es"
    then obtain r' where r': "(wid, r') \<in> set es" by auto
    then show False using only [OF d(4) [OF r', simplified]] new(1) by auto
  qed
  show ?thesis
    unfolding f(1)
  proof (rule reg_relI, unfold f(2-7))
    show "map_insert wid r (reg_workers reg) = es @ [(wid, r)]"
      unfolding d(1) using wid by (intro map_insert_new) (simp add: contains_key_def)
    show "distinct (map fst (es @ [(wid, r)]))" using d(2) wid by simp
    show "distinct (map (\<lambda>e. url (st (snd e))) (es @ [(wid, r)]))" using d(3) new(1) by auto
    show "map_get (map_insert (url (st r)) wid (url_to_id reg)) (url (st r')) = Some i" if "(i, r') \<in> set (es @ [(wid, r)])" for i r'
      using that new(1) d(4) [of "(i, r')"] by auto
    show "v = v'" if "map_get (map_insert (url (st r)) wid (url_to_id reg)) v = Some i"
        "map_get (map_insert (url (st r)) wid (url_to_id reg)) v' = Some i" for v v' i
      using that only d(5) by (auto split: if_splits)
  qed (use d(6-9) in \<open>auto simp: entry_list_push map_get_push_other\<close>)
qed

lemma reg_rel_reserve:
  assumes rel: "reg_rel b u st es reg" and new: "\<forall>v. map_get (url_to_id reg) v \<noteq> Some new_id"
    "\<forall>e\<in>set es. fst e \<noteq> new_id"
  shows "reg_rel b u st es (snd (reserve_id_for_url new_id v reg))"
proof (cases "map_get (url_to_id reg) v")
  case None
  note d = reg_relD [OF rel]
  let ?reg = "reg\<lparr> url_to_id := map_insert v new_id (url_to_id reg) \<rparr>"
  have "reg_rel b u st es ?reg"
  proof (rule reg_relI)
    show "map_get (url_to_id ?reg) (url (st r)) = Some i" if "(i, r) \<in> set es" for i r
      using d(4) [OF that] None by auto
    show "w = w'" if "map_get (url_to_id ?reg) w = Some i" "map_get (url_to_id ?reg) w' = Some i" for w w' i
      using that d(5) new(1) by (auto split: if_splits)
  qed (use d in auto)
  then show ?thesis using None by (simp add: reserve_id_for_url_def)
qed (use rel in \<open>simp add: reserve_id_for_url_def\<close>)

lemma remove_fields:
  assumes "map_get (reg_workers reg) i = Some r"
  shows "fst (snd (remove b u i st reg)) = st(r := set_healthy False (st r))"
    "reg_workers (snd (snd (remove b u i st reg))) = filter (\<lambda>e. fst e \<noteq> i) (reg_workers reg)"
    "url_to_id (snd (snd (remove b u i st reg))) = map_remove (url (st r)) (url_to_id reg)"
    "model_index (snd (snd (remove b u i st reg))) =
       map_and_modify (model_id u (st r)) (filter (\<lambda>r'. url (st r') \<noteq> url (st r))) (model_index reg)"
    "type_workers (snd (snd (remove b u i st reg))) = map_and_modify (get_worker_type (st r)) (filter (\<lambda>j. j \<noteq> i)) (type_workers reg)"
    "connection_workers (snd (snd (remove b u i st reg))) =
       map_and_modify (get_connection_mode (st r)) (filter (\<lambda>j. j \<noteq> i)) (connection_workers reg)"
    "map_get (hash_rings (snd (snd (remove b u i st reg)))) m =
       (if m = model_id u (st r) then
          map_option (\<lambda>ws. hash_ring_new b (map st ws)) (map_get (model_index (snd (snd (remove b u i st reg)))) m)
        else map_get (hash_rings reg) m)"
  using assms by (simp_all add: remove_def Let_def map_remove_def rebuild_rings)

lemma remove_same_metadata: "same_metadata st (fst (snd (remove b u i st reg)))"
  by (auto simp: same_metadata_def remove_def Let_def split: option.splits)

lemma reg_rel_remove:
  assumes rel: "reg_rel b u st es reg"
  shows "reg_rel b u (fst (snd (remove b u i st reg))) (filter (\<lambda>e. fst e \<noteq> i) es) (snd (snd (remove b u i st reg)))"
proof (cases "map_get es i")
  case None
  then have "\<forall>e\<in>set es. fst e \<noteq> i" using contains_key_get [of es i] by (auto simp: contains_key_def)
  then show ?thesis using rel None reg_relD(1) [OF rel] by (simp add: remove_def)
next
  case (Some r)
  note d = reg_relD [OF rel]
  have ir: "(i, r) \<in> set es" using Some by (rule map_get_in_set)
  let ?es = "filter (\<lambda>e. fst e \<noteq> i) es"
  note f = remove_fields [of reg i r b u st, unfolded d(1), OF Some]
  have by_url: "url (st (snd e)) \<noteq> url (st r) \<longleftrightarrow> fst e \<noteq> i" if "e \<in> set es" for e
    using distinct_key [OF d(3) that ir] distinct_key [OF d(2) that ir] by auto
  have key: "\<forall>e\<in>set es. fst e = i \<longrightarrow> kf (st (snd e)) = kf (st r)" for kf :: "worker \<Rightarrow> 'a"
    using distinct_key [OF d(2) _ ir] by force
  have "reg_rel b u st ?es (snd (snd (remove b u i st reg)))"
  proof (rule reg_relI)
    show "reg_workers (snd (snd (remove b u i st reg))) = ?es" using f(2) d(1) by simp
    show "distinct (map fst ?es)" "distinct (map (\<lambda>e. url (st (snd e))) ?es)"
      using d(2,3) by (simp_all add: distinct_map_filter_list)
    show "map_get (url_to_id (snd (snd (remove b u i st reg)))) (url (st r')) = Some j" if "(j, r') \<in> set ?es" for j r'
      using that d(4) [of "(j, r')"] by_url [of "(j, r')"] by (auto simp: f(3))
    show "w = w'" if "map_get (url_to_id (snd (snd (remove b u i st reg)))) w = Some j"
        "map_get (url_to_id (snd (snd (remove b u i st reg)))) w' = Some j" for w w' j
      using that d(5) by (auto simp: f(3) split: if_splits)
    show "entry_list m (model_index (snd (snd (remove b u i st reg)))) = map snd (filter (\<lambda>e. model_id u (st (snd e)) = m) ?es)" for m
      unfolding f(4) entry_list_filter d(6) using by_url key by (intro filtered_view) auto
    show "entry_list t (type_workers (snd (snd (remove b u i st reg)))) = map fst (filter (\<lambda>e. get_worker_type (st (snd e)) = t) ?es)" for t
      unfolding f(5) entry_list_filter d(7) using key by (intro filtered_view) auto
    show "entry_list c (connection_workers (snd (snd (remove b u i st reg)))) = map fst (filter (\<lambda>e. get_connection_mode (st (snd e)) = c) ?es)" for c
      unfolding f(6) entry_list_filter d(8) using key by (intro filtered_view) auto
    show "map_get (hash_rings (snd (snd (remove b u i st reg)))) m =
        map_option (\<lambda>ws. hash_ring_new b (map st ws)) (map_get (model_index (snd (snd (remove b u i st reg)))) m)" for m
      using f(7) [of m] d(9) [of m] by (simp add: f(4))
  qed
  then show ?thesis by (rule reg_rel_same_metadata [OF _ remove_same_metadata])
qed

lemma remove_other_url:
  assumes rel: "reg_rel b u st es reg" and "map_get (url_to_id reg) v = Some i" "\<forall>e\<in>set es. fst e \<noteq> i"
  shows "reg_rel b u st es (reg\<lparr> url_to_id := map_remove v (url_to_id reg) \<rparr>)"
proof (rule reg_relI)
  note d = reg_relD [OF rel]
  let ?reg = "reg\<lparr> url_to_id := map_remove v (url_to_id reg) \<rparr>"
  show "map_get (url_to_id ?reg) (url (st r)) = Some j" if "(j, r) \<in> set es" for j r
    using d(4) [OF that] assms(2,3) that by auto
  show "w = w'" if "map_get (url_to_id ?reg) w = Some j" "map_get (url_to_id ?reg) w' = Some j" for w w' j
    using that d(5) by (auto split: if_splits)
qed (use reg_relD [OF rel] in auto)

text \<open>Removing by URL is removing the worker that has the URL.\<close>

lemma remove_by_url_registered:
  assumes rel: "reg_rel b u st es reg" and "(i, r) \<in> set es" "url (st r) = v"
  shows "remove_by_url b u v st reg = remove b u i st reg"
proof -
  note d = reg_relD [OF rel]
  have "map_get (url_to_id reg) v = Some i" using d(4) [OF assms(2)] assms(3) by simp
  moreover have "map_get (reg_workers reg) i = Some r"
    using d(1,2) assms(2) by (simp add: map_get_iff map_wf_def)
  moreover have "map_remove v (map_remove v m) = map_remove v m" for m :: "(string \<times> string) list"
    by (simp add: map_remove_def)
  ultimately show ?thesis using assms(3) by (simp add: remove_by_url_def remove_def Let_def)
qed

lemma reg_rel_remove_by_url:
  assumes rel: "reg_rel b u st es reg"
  shows "reg_rel b u (fst (snd (remove_by_url b u v st reg))) (filter (\<lambda>e. url (st (snd e)) \<noteq> v) es) (snd (snd (remove_by_url b u v st reg)))"
proof (cases "\<exists>e\<in>set es. url (st (snd e)) = v")
  case True
  then obtain i r where ir: "(i, r) \<in> set es" "url (st r) = v" by auto
  note d = reg_relD [OF rel]
  have "url (st (snd e)) \<noteq> v \<longleftrightarrow> fst e \<noteq> i" if "e \<in> set es" for e
    using distinct_key [OF d(3) that ir(1)] distinct_key [OF d(2) that ir(1)] ir(2) by auto
  then have "filter (\<lambda>e. url (st (snd e)) \<noteq> v) es = filter (\<lambda>e. fst e \<noteq> i) es" by (intro filter_cong) auto
  then show ?thesis unfolding remove_by_url_registered [OF rel ir] using reg_rel_remove [OF rel, of i] by simp
next
  case False
  then have id: "filter (\<lambda>e. url (st (snd e)) \<noteq> v) es = es" by (simp add: filter_id_conv)
  show ?thesis
  proof (cases "map_get (url_to_id reg) v")
    case None
    then show ?thesis using rel id by (simp add: remove_by_url_def)
  next
    case (Some i)
    have i: "\<forall>e\<in>set es. fst e \<noteq> i"
      using reg_relD(5) [OF rel Some] reg_relD(4) [OF rel] False by blast
    then have "map_get (reg_workers reg) i = None"
      using reg_relD(1) [OF rel] contains_key_get [of es i] by (auto simp: contains_key_def)
    then show ?thesis
      using remove_other_url [OF rel Some i] id Some by (simp add: remove_by_url_def remove_def)
  qed
qed

section \<open>Reachable registries\<close>

text \<open>
  The life of a registry: workers with new URLs are registered under fresh ids, ids are reserved,
  workers are removed by id or URL, and in between the workers change in the store (loads, health,
  breakers) but not in their metadata.
\<close>

inductive reachable_registry ::
    "blake3 \<Rightarrow> string \<Rightarrow> wstore \<Rightarrow> (string \<times> wref) list \<Rightarrow> worker_registry \<Rightarrow> bool" for b u where
  new_registry: "reachable_registry b u st [] worker_registry_new"
| do_register: "reachable_registry b u st es reg \<Longrightarrow> \<forall>e\<in>set es. url (st (snd e)) \<noteq> url (st r) \<Longrightarrow>
    \<forall>e\<in>set es. fst e \<noteq> new_id \<Longrightarrow> \<forall>v. map_get (url_to_id reg) v \<noteq> Some new_id \<Longrightarrow>
    register b u new_id st r reg = ((wid, msgs), reg') \<Longrightarrow> reachable_registry b u st (es @ [(wid, r)]) reg'"
| do_reserve: "reachable_registry b u st es reg \<Longrightarrow> \<forall>e\<in>set es. fst e \<noteq> new_id \<Longrightarrow>
    \<forall>v. map_get (url_to_id reg) v \<noteq> Some new_id \<Longrightarrow>
    reserve_id_for_url new_id v reg = (i, reg') \<Longrightarrow> reachable_registry b u st es reg'"
| do_remove: "reachable_registry b u st es reg \<Longrightarrow> remove b u i st reg = (res, st', reg') \<Longrightarrow>
    reachable_registry b u st' (filter (\<lambda>e. fst e \<noteq> i) es) reg'"
| do_remove_by_url: "reachable_registry b u st es reg \<Longrightarrow> remove_by_url b u v st reg = (res, st', reg') \<Longrightarrow>
    reachable_registry b u st' (filter (\<lambda>e. url (st (snd e)) \<noteq> v) es) reg'"
| do_change: "reachable_registry b u st es reg \<Longrightarrow> same_metadata st st' \<Longrightarrow> reachable_registry b u st' es reg"

lemma reachable_reg_rel: "reachable_registry b u st es reg \<Longrightarrow> reg_rel b u st es reg"
proof (induction rule: reachable_registry.induct)
  case (do_register st es reg r new_id wid msgs reg')
  from reg_rel_register [OF do_register.IH do_register.hyps(2,3,4)] do_register.hyps(5) show ?case by simp
next
  case (do_reserve st es reg new_id v i reg')
  from reg_rel_reserve [OF do_reserve.IH do_reserve.hyps(3,2), of v] do_reserve.hyps(4) show ?case by simp
next
  case (do_remove st es reg i res st' reg')
  from reg_rel_remove [OF do_remove.IH, of i] do_remove.hyps(2) show ?case by simp
next
  case (do_remove_by_url st es reg v res st' reg')
  from reg_rel_remove_by_url [OF do_remove_by_url.IH, of v] do_remove_by_url.hyps(2) show ?case by simp
qed (auto intro: reg_rel_new reg_rel_same_metadata)

section \<open>Registries with re-registered URLs\<close>

text \<open>
  Every history of a registry: as above, but a worker may be registered under a URL that is registered
  already, as an update of a worker does.  The new worker then takes the place of the old one in the
  list.  The indexes only grow in that step, so of the relation above what remains is that they
  miss no worker.
\<close>

inductive registry_history ::
    "blake3 \<Rightarrow> string \<Rightarrow> wstore \<Rightarrow> (string \<times> wref) list \<Rightarrow> worker_registry \<Rightarrow> bool" for b u where
  any_new: "registry_history b u st [] worker_registry_new"
| any_register: "registry_history b u st es reg \<Longrightarrow> \<forall>e\<in>set es. fst e \<noteq> new_id \<Longrightarrow>
    \<forall>v. map_get (url_to_id reg) v \<noteq> Some new_id \<Longrightarrow>
    register b u new_id st r reg = ((wid, msgs), reg') \<Longrightarrow> registry_history b u st (map_insert wid r es) reg'"
| any_reserve: "registry_history b u st es reg \<Longrightarrow> \<forall>e\<in>set es. fst e \<noteq> new_id \<Longrightarrow>
    \<forall>v. map_get (url_to_id reg) v \<noteq> Some new_id \<Longrightarrow>
    reserve_id_for_url new_id v reg = (i, reg') \<Longrightarrow> registry_history b u st es reg'"
| any_remove: "registry_history b u st es reg \<Longrightarrow> remove b u i st reg = (res, st', reg') \<Longrightarrow>
    registry_history b u st' (filter (\<lambda>e. fst e \<noteq> i) es) reg'"
| any_remove_by_url: "registry_history b u st es reg \<Longrightarrow> remove_by_url b u v st reg = (res, st', reg') \<Longrightarrow>
    registry_history b u st' (filter (\<lambda>e. url (st (snd e)) \<noteq> v) es) reg'"
| any_change: "registry_history b u st es reg \<Longrightarrow> same_metadata st st' \<Longrightarrow> registry_history b u st' es reg"

definition reg_covers :: "blake3 \<Rightarrow> string \<Rightarrow> wstore \<Rightarrow> (string \<times> wref) list \<Rightarrow> worker_registry \<Rightarrow> bool" where
  "reg_covers b u st es reg \<longleftrightarrow>
     reg_workers reg = es \<and> map_wf es \<and>
     (\<forall>i r. (i, r) \<in> set es \<longrightarrow> map_get (url_to_id reg) (url (st r)) = Some i \<and>
        r \<in> set (entry_list (model_id u (st r)) (model_index reg)) \<and>
        i \<in> set (entry_list (get_worker_type (st r)) (type_workers reg)) \<and>
        i \<in> set (entry_list (get_connection_mode (st r)) (connection_workers reg))) \<and>
     (\<forall>v v' i. map_get (url_to_id reg) v = Some i \<longrightarrow> map_get (url_to_id reg) v' = Some i \<longrightarrow> v = v') \<and>
     (\<forall>m r. r \<in> set (entry_list m (model_index reg)) \<longrightarrow> model_id u (st r) = m) \<and>
     (\<forall>m. map_get (hash_rings reg) m = map_option (\<lambda>ws. hash_ring_new b (map st ws)) (map_get (model_index reg) m))"

lemma reg_coversD:
  assumes "reg_covers b u st es reg"
  shows "reg_workers reg = es" "map_wf es"
    "(i, r) \<in> set es \<Longrightarrow> map_get (url_to_id reg) (url (st r)) = Some i"
    "map_get (url_to_id reg) v = Some i \<Longrightarrow> map_get (url_to_id reg) v' = Some i \<Longrightarrow> v = v'"
    "(i, r) \<in> set es \<Longrightarrow> r \<in> set (entry_list (model_id u (st r)) (model_index reg))"
    "(i, r) \<in> set es \<Longrightarrow> i \<in> set (entry_list (get_worker_type (st r)) (type_workers reg))"
    "(i, r) \<in> set es \<Longrightarrow> i \<in> set (entry_list (get_connection_mode (st r)) (connection_workers reg))"
    "r \<in> set (entry_list m (model_index reg)) \<Longrightarrow> model_id u (st r) = m"
    "map_get (hash_rings reg) m = map_option (\<lambda>ws. hash_ring_new b (map st ws)) (map_get (model_index reg) m)"
  using assms unfolding reg_covers_def by blast+

lemma reg_coversI:
  assumes "reg_workers reg = es" "map_wf es"
    "\<And>i r. (i, r) \<in> set es \<Longrightarrow> map_get (url_to_id reg) (url (st r)) = Some i"
    "\<And>v v' i. map_get (url_to_id reg) v = Some i \<Longrightarrow> map_get (url_to_id reg) v' = Some i \<Longrightarrow> v = v'"
    "\<And>i r. (i, r) \<in> set es \<Longrightarrow> r \<in> set (entry_list (model_id u (st r)) (model_index reg))"
    "\<And>i r. (i, r) \<in> set es \<Longrightarrow> i \<in> set (entry_list (get_worker_type (st r)) (type_workers reg))"
    "\<And>i r. (i, r) \<in> set es \<Longrightarrow> i \<in> set (entry_list (get_connection_mode (st r)) (connection_workers reg))"
    "\<And>m r. r \<in> set (entry_list m (model_index reg)) \<Longrightarrow> model_id u (st r) = m"
    "\<And>m. map_get (hash_rings reg) m = map_option (\<lambda>ws. hash_ring_new b (map st ws)) (map_get (model_index reg) m)"
  shows "reg_covers b u st es reg"
  unfolding reg_covers_def by (intro conjI allI impI) (fact assms | erule assms)+

lemma push_entry_members:
  "x \<in> set (entry_list k (push_entry k x m))"
  "x \<in> set (entry_list k m) \<Longrightarrow> x \<in> set (entry_list k (push_entry k' y m))"
  by (auto simp: entry_list_push)

lemma filter_entry_members:
  "x \<in> set (entry_list k m) \<Longrightarrow> P x \<Longrightarrow> x \<in> set (entry_list k (map_and_modify k' (filter P) m))"
  "x \<in> set (entry_list k (map_and_modify k' (filter P) m)) \<Longrightarrow> x \<in> set (entry_list k m)"
  by (auto simp: entry_list_filter split: if_splits)

lemma reg_covers_same_metadata: "reg_covers b u st es reg \<Longrightarrow> same_metadata st st' \<Longrightarrow> reg_covers b u st' es reg"
  using ring_same_metadata [of st st' b] by (simp add: reg_covers_def same_metadataD)

lemma reg_covers_register:
  assumes rel: "reg_covers b u st es reg" and new: "\<forall>v. map_get (url_to_id reg) v \<noteq> Some new_id"
  shows "reg_covers b u st (map_insert (fst (fst (register b u new_id st r reg))) r es) (snd (register b u new_id st r reg))"
proof -
  define wid where "wid = (case map_get (url_to_id reg) (url (st r)) of Some i \<Rightarrow> i | None \<Rightarrow> new_id)"
  note f = register_fields [where b = b and u = u and new_id = new_id and st = st and r = r and reg = reg, folded wid_def]
  note d = reg_coversD [OF rel]
  have only: "v = url (st r)" if "map_get (url_to_id reg) v = Some wid" for v
    using that new d(4) by (auto simp: wid_def split: option.splits)
  have mem: "(i, r') \<in> set (map_insert wid r es) \<longleftrightarrow> i = wid \<and> r' = r \<or> i \<noteq> wid \<and> (i, r') \<in> set es" for i r'
    using set_map_insert_wf [OF d(2)] by auto
  have other: "url (st r') \<noteq> url (st r)" if "(i, r') \<in> set es" "i \<noteq> wid" for i r'
    using d(3) [OF that(1)] that(2) by (auto simp: wid_def)
  show ?thesis
    unfolding f(1)
  proof (rule reg_coversI, unfold f(2-7) mem)
    show "map_insert wid r (reg_workers reg) = map_insert wid r es" using d(1) by simp
    show "map_wf (map_insert wid r es)" using d(2) by simp
    show "v = v'" if "map_get (map_insert (url (st r)) wid (url_to_id reg)) v = Some i"
        "map_get (map_insert (url (st r)) wid (url_to_id reg)) v' = Some i" for v v' i
      using that only d(4) by (auto split: if_splits)
    show "model_id u (st r') = m" if "r' \<in> set (entry_list m (push_entry (model_id u (st r)) r (model_index reg)))" for m r'
      using that d(8) by (auto simp: entry_list_push split: if_splits)
    show "(if m = model_id u (st r) then map_option (\<lambda>ws. hash_ring_new b (map st ws)) (map_get (push_entry m r (model_index reg)) m)
        else map_get (hash_rings reg) m) =
      map_option (\<lambda>ws. hash_ring_new b (map st ws)) (map_get (push_entry (model_id u (st r)) r (model_index reg)) m)" for m
      using d(9) by (simp add: map_get_push_other)
    show "map_get (map_insert (url (st r)) wid (url_to_id reg)) (url (st r')) = Some i"
      if "i = wid \<and> r' = r \<or> i \<noteq> wid \<and> (i, r') \<in> set es" for i r' using that d(3) other by auto
  qed (use d(5-7) in \<open>auto intro: push_entry_members\<close>)
qed

lemma reg_covers_reserve:
  assumes rel: "reg_covers b u st es reg" and new: "\<forall>v. map_get (url_to_id reg) v \<noteq> Some new_id"
  shows "reg_covers b u st es (snd (reserve_id_for_url new_id v reg))"
proof (cases "map_get (url_to_id reg) v")
  case None
  note d = reg_coversD [OF rel]
  let ?reg = "reg\<lparr> url_to_id := map_insert v new_id (url_to_id reg) \<rparr>"
  have "reg_covers b u st es ?reg"
  proof (rule reg_coversI)
    show "map_get (url_to_id ?reg) (url (st r)) = Some i" if "(i, r) \<in> set es" for i r
      using d(3) [OF that] None by auto
    show "w = w'" if "map_get (url_to_id ?reg) w = Some i" "map_get (url_to_id ?reg) w' = Some i" for w w' i
      using that d(4) new by (auto split: if_splits)
  qed (use d in auto)
  then show ?thesis using None by (simp add: reserve_id_for_url_def)
qed (use rel in \<open>simp add: reserve_id_for_url_def\<close>)

text \<open>Dropping the URL entry of an id before the worker of that id is removed, as \<open>remove_by_url\<close> does.\<close>

lemma reg_covers_remove:
  assumes rel: "reg_covers b u st es reg"
    and urls: "map_get urls = map_get (url_to_id reg) \<or> (\<exists>v. map_get (url_to_id reg) v = Some i \<and> urls = map_remove v (url_to_id reg))"
  shows "reg_covers b u (fst (snd (remove b u i st (reg\<lparr> url_to_id := urls \<rparr>)))) (filter (\<lambda>e. fst e \<noteq> i) es)
    (snd (snd (remove b u i st (reg\<lparr> url_to_id := urls \<rparr>))))"
proof -
  note d = reg_coversD [OF rel]
  let ?reg = "reg\<lparr> url_to_id := urls \<rparr>"
  have keep: "map_get urls (url (st r)) = Some j" if "(j, r) \<in> set es" "j \<noteq> i" for j r
    using urls d(3) [OF that(1)] that(2) by auto
  have inj: "v = v'" if "map_get urls v = Some j" "map_get urls v' = Some j" for v v' j
    using urls that d(4) by (auto split: if_splits)
  show ?thesis
  proof (cases "map_get es i")
    case None
    then have "\<forall>e\<in>set es. fst e \<noteq> i" using contains_key_get [of es i] by (auto simp: contains_key_def)
    moreover from this have "reg_covers b u st es ?reg"
      by (intro reg_coversI) (use d keep inj in auto)
    ultimately show ?thesis using None d(1) by (simp add: remove_def filter_id_conv)
  next
    case (Some r)
    let ?es = "filter (\<lambda>e. fst e \<noteq> i) es"
    have ir: "(i, r) \<in> set es" using Some by (rule map_get_in_set)
    have get: "map_get (reg_workers ?reg) i = Some r" using Some d(1) by simp
    note f = remove_fields [OF get, where b = b and u = u and st = st]
    have url: "url (st r') \<noteq> url (st r)" if "(j, r') \<in> set es" "j \<noteq> i" for j r'
      using d(3) [OF that(1)] d(3) [OF ir] that(2) by auto
    have "reg_covers b u st ?es (snd (snd (remove b u i st ?reg)))"
    proof (rule reg_coversI)
      show "map_get (hash_rings (snd (snd (remove b u i st ?reg)))) m =
          map_option (\<lambda>ws. hash_ring_new b (map st ws)) (map_get (model_index (snd (snd (remove b u i st ?reg)))) m)" for m
        using f(7) [of m] d(9) [of m] by (simp add: f(4))
      show "w = w'" if "map_get (url_to_id (snd (snd (remove b u i st ?reg)))) w = Some j"
          "map_get (url_to_id (snd (snd (remove b u i st ?reg)))) w' = Some j" for w w' j
        using that inj by (auto simp: f(3) split: if_splits)
      show "map_wf ?es" using d(2) by (simp add: map_wf_def distinct_map_filter_list)
      show "model_id u (st r') = m" if "r' \<in> set (entry_list m (model_index (snd (snd (remove b u i st ?reg)))))" for m r'
        by (rule d(8), rule filter_entry_members(2)) (use that in \<open>simp add: f(4)\<close>)
    qed (use d(1,5-7) keep url in \<open>auto simp: f(2-6) intro: filter_entry_members(1)\<close>)
    then show ?thesis by (rule reg_covers_same_metadata [OF _ remove_same_metadata])
  qed
qed

lemma reg_covers_remove_by_url:
  assumes rel: "reg_covers b u st es reg"
  shows "reg_covers b u (fst (snd (remove_by_url b u v st reg))) (filter (\<lambda>e. url (st (snd e)) \<noteq> v) es) (snd (snd (remove_by_url b u v st reg)))"
proof (cases "map_get (url_to_id reg) v")
  case None
  then have "filter (\<lambda>e. url (st (snd e)) \<noteq> v) es = es" using reg_coversD(3) [OF rel] by (fastforce simp: filter_id_conv)
  then show ?thesis using rel None by (simp add: remove_by_url_def)
next
  case (Some i)
  have "url (st (snd e)) \<noteq> v \<longleftrightarrow> fst e \<noteq> i" if "e \<in> set es" for e
  proof -
    have e: "map_get (url_to_id reg) (url (st (snd e))) = Some (fst e)" using reg_coversD(3) [OF rel, of "fst e" "snd e"] that by simp
    show ?thesis
    proof (cases "fst e = i")
      case True
      then show ?thesis using reg_coversD(4) [OF rel e, of v] Some by simp
    qed (use e Some in auto)
  qed
  then have "filter (\<lambda>e. url (st (snd e)) \<noteq> v) es = filter (\<lambda>e. fst e \<noteq> i) es" by (intro filter_cong) auto
  then show ?thesis using reg_covers_remove [OF rel, of "map_remove v (url_to_id reg)" i] Some by (auto simp: remove_by_url_def)
qed

lemma registry_history_covers: "registry_history b u st es reg \<Longrightarrow> reg_covers b u st es reg"
proof (induction rule: registry_history.induct)
  case (any_new st)
  show ?case by (simp add: reg_covers_def worker_registry_new_def entry_list_def)
next
  case (any_register st es reg new_id r wid msgs reg')
  from reg_covers_register [OF any_register.IH any_register.hyps(3), of r] any_register.hyps(4) show ?case by simp
next
  case (any_reserve st es reg new_id v i reg')
  from reg_covers_reserve [OF any_reserve.IH any_reserve.hyps(3), of v] any_reserve.hyps(4) show ?case by simp
next
  case (any_remove st es reg i res st' reg')
  from reg_covers_remove [OF any_remove.IH, of "url_to_id reg" i] any_remove.hyps(2) show ?case by simp
next
  case (any_remove_by_url st es reg v res st' reg')
  from reg_covers_remove_by_url [OF any_remove_by_url.IH, of v] any_remove_by_url.hyps(2) show ?case by simp
qed (rule reg_covers_same_metadata)

lemma reg_rel_covers: "reg_rel b u st es reg \<Longrightarrow> reg_covers b u st es reg"
proof -
  assume "reg_rel b u st es reg"
  note d = reg_relD [OF this]
  show ?thesis
  proof (rule reg_coversI)
    show "reg_workers reg = es" "map_wf es" using d(1,2) by (simp_all add: map_wf_def)
    show "map_get (url_to_id reg) (url (st r)) = Some i" if "(i, r) \<in> set es" for i r using d(4) [OF that] by simp
    show "v = v'" if "map_get (url_to_id reg) v = Some i" "map_get (url_to_id reg) v' = Some i" for v v' i by (rule d(5) [OF that])
  qed (use d(6-9) in force)+
qed

text \<open>A life without re-registration is a history.\<close>

lemma reachable_history: "reachable_registry b u st es reg \<Longrightarrow> registry_history b u st es reg"
proof (induction rule: reachable_registry.induct)
  case (do_register st es reg r new_id wid msgs reg')
  note rel = reachable_reg_rel [OF do_register.hyps(1)]
  have "distinct (map fst (es @ [(wid, r)]))"
    using reg_relD(2) [OF reg_rel_register [OF rel do_register.hyps(2,3,4)]] do_register.hyps(5) by simp
  then have "map_insert wid r es = es @ [(wid, r)]" by (intro map_insert_new) (auto simp: contains_key_def)
  then show ?case using registry_history.any_register [OF do_register.IH do_register.hyps(3,4,5)] by simp
qed (auto intro: registry_history.intros)

text \<open>The background activities change workers only in what the registry does not index.\<close>

lemma metadata_on_base: "(\<And>b. bw_metadata (f b) = bw_metadata b) \<Longrightarrow> metadata (on_base f w) = metadata w"
  by (cases w) (simp_all add: metadata_def)

lemma check_health_metadata: "bw_metadata (snd (check_health_async probe b)) = bw_metadata b"
  by (auto simp: check_health_async_def bw_set_healthy_def Let_def split: sum.splits bool.splits)

lemma health_check_same_metadata: "same_metadata st (health_check_round probe st reg)"
proof -
  have "same_metadata st (foldl (\<lambda>st r. st(r := on_base (\<lambda>b. snd (check_health_async (probe r) b)) (st r))) st rs)" for rs
    by (induction rs rule: rev_induct) (auto simp: same_metadata_def metadata_on_base check_health_metadata)
  then show ?thesis by (simp add: health_check_round_def)
qed

lemma stats_same_metadata: "same_metadata st (snd (reg_stats clk st reg))"
proof -
  have "same_metadata st (snd (foldl (stats_step clk) (s0, st) es))" for s0 es
    by (induction es rule: rev_induct)
      (auto simp: same_metadata_def stats_step_def breaker_state_def metadata_on_base Let_def split_beta)
  then show ?thesis by (simp add: reg_stats_def Let_def split_beta)
qed

section \<open>Properties\<close>

lemma map_filter_entries:
  "\<forall>e\<in>set xs. f (fst e) = Some (snd e) \<Longrightarrow> List.map_filter f (map fst xs) = map snd xs"
  by (induction xs) (simp_all add: List.map_filter_simps)

lemma get_registered: "reg_rel b u st es reg \<Longrightarrow> reg_get i reg = Some r \<longleftrightarrow> (i, r) \<in> set es"
  using reg_relD(1,2) [of b u st es reg] by (simp add: reg_get_def map_get_iff map_wf_def)

lemma get_by_entry_list:
  "get_by_model m reg = entry_list m (model_index reg)"
  "get_by_type t reg = List.map_filter (\<lambda>i. reg_get i reg) (entry_list t (type_workers reg))"
  "get_by_connection c reg = List.map_filter (\<lambda>i. reg_get i reg) (entry_list c (connection_workers reg))"
  by (auto simp: get_by_model_def get_by_type_def get_by_connection_def entry_list_def List.map_filter_simps split: option.splits)

lemma get_by_url_registered:
  assumes "reg_rel b u st es reg"
  shows "get_by_url v reg = Some r \<longleftrightarrow> (\<exists>i. (i, r) \<in> set es) \<and> url (st r) = v"
proof -
  note d = reg_relD [OF assms]
  have "url (st r) = v" if "map_get (url_to_id reg) v = Some i" "(i, r) \<in> set es" for i
    using d(5) [OF that(1)] d(4) [OF that(2)] by auto
  then show ?thesis
    using d(4) get_registered [OF assms] by (force simp: get_by_url_def Option.bind_eq_Some_conv)
qed

lemma length_filter_not: "length (filter (\<lambda>x. \<not> P x) xs) = length xs - length (filter P xs)"
  by (induction xs) (simp_all add: Suc_diff_le)

text \<open>The exact indexes of a registry in which no URL was registered twice.\<close>

lemma indexes_exact:
  assumes rel: "reg_rel b u st es reg"
  shows "get_by_model m reg = map snd (filter (\<lambda>e. model_id u (st (snd e)) = m) es)"
    "get_by_type t reg = map snd (filter (\<lambda>e. get_worker_type (st (snd e)) = t) es)"
    "get_by_connection c reg = map snd (filter (\<lambda>e. get_connection_mode (st (snd e)) = c) es)"
    "get_worker_distribution reg =
      (length (filter (\<lambda>e. get_worker_type (st (snd e)) = Regular) es),
       length (filter (\<lambda>e. get_worker_type (st (snd e)) \<noteq> Regular) es))"
proof -
  note d = reg_relD [OF rel]
  have get: "\<forall>e\<in>set (filter P es). reg_get (fst e) reg = Some (snd e)" for P using get_registered [OF rel] by auto
  show "get_by_model m reg = map snd (filter (\<lambda>e. model_id u (st (snd e)) = m) es)"
    unfolding get_by_entry_list by (rule d(6))
  show "get_by_type t reg = map snd (filter (\<lambda>e. get_worker_type (st (snd e)) = t) es)"
    unfolding get_by_entry_list d(7) by (rule map_filter_entries [OF get])
  show "get_by_connection c reg = map snd (filter (\<lambda>e. get_connection_mode (st (snd e)) = c) es)"
    unfolding get_by_entry_list d(8) by (rule map_filter_entries [OF get])
  have "(case map_get (type_workers reg) Regular of Some v \<Rightarrow> length v | None \<Rightarrow> 0) = length (entry_list Regular (type_workers reg))"
    by (simp add: entry_list_def split: option.splits)
  then show "get_worker_distribution reg =
      (length (filter (\<lambda>e. get_worker_type (st (snd e)) = Regular) es),
       length (filter (\<lambda>e. get_worker_type (st (snd e)) \<noteq> Regular) es))"
    by (simp add: get_worker_distribution_def d(1,7) length_filter_not Let_def)
qed

lemma covers_lookup:
  assumes rel: "reg_covers b u st es reg"
  shows "reg_get i reg = Some r \<longleftrightarrow> (i, r) \<in> set es"
    "get_by_url v reg = Some r \<longleftrightarrow> (\<exists>i. (i, r) \<in> set es) \<and> url (st r) = v"
proof -
  note d = reg_coversD [OF rel]
  show get: "reg_get i reg = Some r \<longleftrightarrow> (i, r) \<in> set es" for i r using d(1,2) by (simp add: reg_get_def map_get_iff)
  have "url (st r) = v" if "map_get (url_to_id reg) v = Some i" "(i, r) \<in> set es" for i
    by (rule d(4) [OF d(3) [OF that(2)] that(1)])
  then show "get_by_url v reg = Some r \<longleftrightarrow> (\<exists>i. (i, r) \<in> set es) \<and> url (st r) = v"
    using d(3) get by (auto simp: get_by_url_def Option.bind_eq_Some_conv)
qed

lemma map_filter_member: "x \<in> set xs \<Longrightarrow> f x = Some y \<Longrightarrow> y \<in> set (List.map_filter f xs)"
  by (force simp: List.map_filter_def)

lemma covers_index:
  assumes rel: "reg_covers b u st es reg" and "(i, r) \<in> set es"
  shows "r \<in> set (get_by_model (model_id u (st r)) reg)" "r \<in> set (get_by_type (get_worker_type (st r)) reg)"
    "r \<in> set (get_by_connection (get_connection_mode (st r)) reg)"
  unfolding get_by_entry_list
  using reg_coversD(5-7) [OF rel assms(2)] covers_lookup(1) [OF rel] assms(2) by (auto intro: map_filter_member)

text \<open>
  C8: over every history of registrations (of new URLs and of URLs that are registered, where the new
  worker takes the place of the old one), reservations, removals and changes of the workers' state,
  the registry refines the list of registered workers: lookups by id and by URL return exactly the
  registered worker, the lookups by model, type and connection mode miss no registered worker, the
  workers listed under a model are workers of that model, and the ring of a served model is the ring of the
  workers listed.  As long as no URL was registered a second time, the lookups by model, type
  and connection mode return exactly the registered workers that qualify, in the order of
  registration, and the distribution counts are right.
\<close>

theorem registry_refines:
  assumes "registry_history b u st es reg"
  shows "get_all_with_ids reg = es \<and>
    (\<forall>i r. reg_get i reg = Some r \<longleftrightarrow> (i, r) \<in> set es) \<and>
    (\<forall>v r. get_by_url v reg = Some r \<longleftrightarrow> (\<exists>i. (i, r) \<in> set es) \<and> url (st r) = v) \<and>
    (\<forall>i r. (i, r) \<in> set es \<longrightarrow> r \<in> set (get_by_model (model_id u (st r)) reg) \<and>
       r \<in> set (get_by_type (get_worker_type (st r)) reg) \<and> r \<in> set (get_by_connection (get_connection_mode (st r)) reg)) \<and>
    (\<forall>r\<in>set (get_by_model m reg). model_id u (st r) = m) \<and>
    (get_by_model m reg \<noteq> [] \<longrightarrow> get_hash_ring m reg = Some (hash_ring_new b (map st (get_by_model m reg)))) \<and>
    (reachable_registry b u st es reg \<longrightarrow>
       get_by_model m reg = map snd (filter (\<lambda>e. model_id u (st (snd e)) = m) es) \<and>
       get_by_type t reg = map snd (filter (\<lambda>e. get_worker_type (st (snd e)) = t) es) \<and>
       get_by_connection c reg = map snd (filter (\<lambda>e. get_connection_mode (st (snd e)) = c) es) \<and>
       get_worker_distribution reg =
         (length (filter (\<lambda>e. get_worker_type (st (snd e)) = Regular) es),
          length (filter (\<lambda>e. get_worker_type (st (snd e)) \<noteq> Regular) es)))"
proof (intro conjI allI impI ballI)
  have rel: "reg_covers b u st es reg" using assms by (rule registry_history_covers)
  note d = reg_coversD [OF rel]
  show "get_all_with_ids reg = es" using d(1) by (simp add: get_all_with_ids_def)
  show "reg_get i reg = Some r \<longleftrightarrow> (i, r) \<in> set es" for i r by (rule covers_lookup(1) [OF rel])
  show "get_by_url v reg = Some r \<longleftrightarrow> (\<exists>i. (i, r) \<in> set es) \<and> url (st r) = v" for v r
    by (rule covers_lookup(2) [OF rel])
  show "r \<in> set (get_by_model (model_id u (st r)) reg)" "r \<in> set (get_by_type (get_worker_type (st r)) reg)"
    "r \<in> set (get_by_connection (get_connection_mode (st r)) reg)" if "(i, r) \<in> set es" for i r
    using covers_index [OF rel that] .
  show "model_id u (st r) = m" if "r \<in> set (get_by_model m reg)" for r using that unfolding get_by_entry_list by (rule d(8))
  show "get_hash_ring m reg = Some (hash_ring_new b (map st (get_by_model m reg)))" if "get_by_model m reg \<noteq> []"
    using that d(9) [of m] by (auto simp: get_hash_ring_def get_by_model_def split: option.splits)
qed (drule reachable_reg_rel, rule indexes_exact, assumption)+

lemma sample_registry:
  "reachable_registry b u st [(''i1'', 0)] (snd (register b u ''i1'' st 0 worker_registry_new))"
proof -
  have "register b u ''i1'' st 0 worker_registry_new =
      ((''i1'', snd (fst (register b u ''i1'' st 0 worker_registry_new))), snd (register b u ''i1'' st 0 worker_registry_new))"
    by (simp add: register_def worker_registry_new_def Let_def)
  from do_register [OF new_registry _ _ _ this] show ?thesis by (simp add: worker_registry_new_def)
qed

text \<open>A worker registered a second time replaces the first and is found by id, URL and model.\<close>

lemma sample_reregistered:
  "registry_history (\<lambda>b. b) ''unknown'' (\<lambda>r. Basic (sample_worker ''a'')) [(''i1'', 1)]
     (snd (register (\<lambda>b. b) ''unknown'' ''i2'' (\<lambda>r. Basic (sample_worker ''a'')) 1
        (snd (register (\<lambda>b. b) ''unknown'' ''i1'' (\<lambda>r. Basic (sample_worker ''a'')) 0 worker_registry_new))))"
proof -
  let ?st = "\<lambda>r::wref. Basic (sample_worker ''a'')"
  let ?reg = "snd (register (\<lambda>b. b) ''unknown'' ''i1'' ?st 0 worker_registry_new)"
  have urls: "map_get (url_to_id ?reg) v = (if v = url (?st 0) then Some ''i1'' else None)" for v
    unfolding register_fields by (simp add: worker_registry_new_def)
  have "fst (fst (register (\<lambda>b. b) ''unknown'' ''i2'' ?st 1 ?reg)) = ''i1''" unfolding register_fields(1) urls by simp
  then have "register (\<lambda>b. b) ''unknown'' ''i2'' ?st 1 ?reg =
      ((''i1'', snd (fst (register (\<lambda>b. b) ''unknown'' ''i2'' ?st 1 ?reg))), snd (register (\<lambda>b. b) ''unknown'' ''i2'' ?st 1 ?reg))"
    by (metis prod.collapse)
  from registry_history.any_register [OF reachable_history [OF sample_registry] _ _ this] urls show ?thesis by simp
qed

theorem registry_refines_witness:
  "get_by_model ''unknown'' (snd (register (\<lambda>b. b) ''unknown'' ''i1'' (\<lambda>r. Basic (sample_worker ''a'')) 0 worker_registry_new)) = [0] \<and>
   reg_get ''i1'' (snd (register (\<lambda>b. b) ''unknown'' ''i2'' (\<lambda>r. Basic (sample_worker ''a'')) 1
     (snd (register (\<lambda>b. b) ''unknown'' ''i1'' (\<lambda>r. Basic (sample_worker ''a'')) 0 worker_registry_new)))) = Some 1"
proof -
  have m: "model_id ''unknown'' (Basic (sample_worker ''a'')) = ''unknown''"
    by (simp add: model_id_def metadata_def sample_worker_def build_def builder_new_def or_else_def)
  have "get_by_model ''unknown'' (snd (register (\<lambda>b. b) ''unknown'' ''i1'' (\<lambda>r. Basic (sample_worker ''a'')) 0 worker_registry_new)) =
      map snd (filter (\<lambda>e. model_id ''unknown'' (Basic (sample_worker ''a'')) = ''unknown'') [(''i1'', 0)])"
    by (rule registry_refines [OF reachable_history [OF sample_registry], THEN conjunct2, THEN conjunct2, THEN conjunct2, THEN conjunct2,
        THEN conjunct2, THEN conjunct2, THEN mp, OF sample_registry, THEN conjunct1])
  moreover have "reg_get ''i1'' (snd (register (\<lambda>b. b) ''unknown'' ''i2'' (\<lambda>r. Basic (sample_worker ''a'')) 1
     (snd (register (\<lambda>b. b) ''unknown'' ''i1'' (\<lambda>r. Basic (sample_worker ''a'')) 0 worker_registry_new)))) = Some 1"
    using registry_refines [OF sample_reregistered] by simp
  ultimately show ?thesis using m by simp
qed

text \<open>
  Registering a worker whose URL is registered already keeps the id and replaces the worker
  there, but adds to the indexes: under the same model the URL is then listed twice, and under
  another model the old worker stays listed under its old model even after the id is removed.
\<close>

theorem reregister_keeps_old_entry:
  assumes reach: "reachable_registry b u st es reg" and "(i, r) \<in> set es" and "url (st r') = url (st r)"
  shows "fst (fst (register b u new_id st r' reg)) = i \<and>
    reg_get i (snd (register b u new_id st r' reg)) = Some r' \<and>
    (model_id u (st r') = model_id u (st r) \<longrightarrow>
       filter (\<lambda>x. url (st x) = url (st r)) (get_by_model (model_id u (st r)) (snd (register b u new_id st r' reg))) = [r, r']) \<and>
    (model_id u (st r') \<noteq> model_id u (st r) \<longrightarrow>
       r \<in> set (get_by_model (model_id u (st r)) (snd (snd (remove b u i st (snd (register b u new_id st r' reg)))))))"
proof -
  have rel: "reg_rel b u st es reg" using reach by (rule reachable_reg_rel)
  note d = reg_relD [OF rel]
  let ?reg = "snd (register b u new_id st r' reg)"
  have i: "map_get (url_to_id reg) (url (st r')) = Some i" using d(4) [OF assms(2)] assms(3) by simp
  note f = register_fields [where b = b and u = u and new_id = new_id and st = st and r = r' and reg = reg, unfolded i option.case]
  have get: "map_get (reg_workers ?reg) i = Some r'" unfolding f(2) by simp
  let ?old = "map snd (filter (\<lambda>e. model_id u (st (snd e)) = model_id u (st r)) es)"
  have same: "filter (\<lambda>x. url (st x) = url (st r)) (get_by_model (model_id u (st r)) ?reg) = [r, r']"
    if "model_id u (st r') = model_id u (st r)"
  proof -
    have "distinct (map (\<lambda>e. url (st (snd e))) xs) \<Longrightarrow> (i, r) \<in> set xs \<Longrightarrow>
        filter (\<lambda>x. url (st x) = url (st r)) (map snd (filter (\<lambda>e. model_id u (st (snd e)) = model_id u (st r)) xs)) = [r]" for xs
    proof (induction xs)
      case (Cons e xs)
      show ?case
      proof (cases "e = (i, r)")
        case True
        then have "\<forall>x\<in>set xs. url (st (snd x)) \<noteq> url (st r)" using Cons.prems(1) by force
        then show ?thesis using True by (auto simp: filter_empty_conv)
      next
        case False
        then have "url (st (snd e)) \<noteq> url (st r)" "(i, r) \<in> set xs" using Cons.prems by force+
        then show ?thesis using Cons.IH Cons.prems(1) by simp
      qed
    qed simp
    from this [OF d(3) assms(2)] show ?thesis
      unfolding get_by_entry_list f(4) entry_list_push d(6) using that assms(3) by simp
  qed
  have other: "r \<in> set (get_by_model (model_id u (st r)) (snd (snd (remove b u i st ?reg))))"
    if "model_id u (st r') \<noteq> model_id u (st r)"
    unfolding get_by_entry_list remove_fields(4) [OF get] f(4) entry_list_filter entry_list_push d(6)
    using that assms(2) by force
  show ?thesis using f(1) get same other by (simp add: reg_get_def)
qed

theorem reregister_keeps_old_entry_witness:
  "filter (\<lambda>x. url (Basic (sample_worker ''a'')) = url (Basic (sample_worker ''a'')))
     (get_by_model (model_id ''unknown'' (Basic (sample_worker ''a'')))
       (snd (register (\<lambda>b. b) ''unknown'' ''i2'' (\<lambda>r. Basic (sample_worker ''a'')) 1
          (snd (register (\<lambda>b. b) ''unknown'' ''i1'' (\<lambda>r. Basic (sample_worker ''a'')) 0 worker_registry_new))))) = [0, 1]"
  using reregister_keeps_old_entry [OF sample_registry, of "''i1''" 0 "\<lambda>r. Basic (sample_worker ''a'')" 1 "\<lambda>b. b" "''unknown''" "''i2''"]
  by simp

end
