(* ===== verification/Retry.thy ===== *)
theory Retry
  imports Gateway_Prelude
begin

text \<open>
  The retry executor of \<open>src/gateway/src/core/retry.rs\<close> and the retry configuration of
  \<open>config/types.rs\<close>.  The operation is a function of the attempt number and of the state it
  works on; the callbacks are recorded as events.  \<open>f32\<close> values are reals; the random jitter
  scale of each back-off is an argument.
\<close>

record retry_config =
  max_retries :: u32
  initial_backoff_ms :: nat
  max_backoff_ms :: nat
  backoff_multiplier :: real
  jitter_factor :: real

definition retry_config_default :: retry_config where
  "retry_config_default =
     \<lparr> max_retries = 5, initial_backoff_ms = 50, max_backoff_ms = 30000,
       backoff_multiplier = 1.5, jitter_factor = 0.2 \<rparr>"

type_synonym status_code = nat

definition is_retryable_status :: "status_code \<Rightarrow> bool" where
  "is_retryable_status status \<longleftrightarrow> status \<in> {408, 429, 500, 502, 503, 504}"

text \<open>A float-to-integer \<open>as\<close> cast truncates and saturates at the bounds of the type.\<close>

definition f32_as_u64 :: "real \<Rightarrow> nat" where
  "f32_as_u64 x = min (nat \<lfloor>x\<rfloor>) (2 ^ 64 - 1)"

text \<open>\<open>f32::round\<close> rounds half-way cases away from zero.\<close>

definition f32_round :: "real \<Rightarrow> int" where
  "f32_round x = (if 0 \<le> x then \<lfloor>x + 1 / 2\<rfloor> else - \<lfloor>1 / 2 - x\<rfloor>)"

definition calculate_delay :: "retry_config \<Rightarrow> real \<Rightarrow> nat \<Rightarrow> duration" where
  "calculate_delay config jitter_scale attempt =
     (let pow = backoff_multiplier config ^ attempt;
          delay_ms = min (f32_as_u64 (real (initial_backoff_ms config) * pow)) (max_backoff_ms config);
          jitter = max 0 (min (jitter_factor config) 1) in
      if 0 < jitter then
        let jitter_ms = max (f32_round (real delay_ms * jitter_scale)) (- int delay_ms) in
        nat (max (int delay_ms + jitter_ms) 0)
      else delay_ms)"

datatype retry_event = Backoff duration nat | Exhausted

type_synonym ('r, 's) operation = "nat \<Rightarrow> 's \<Rightarrow> 'r \<times> 's"

text \<open>
  The loop of \<open>execute_response_with_retry\<close> from attempt \<open>attempt\<close> on, with
  \<open>mx = config.max_retries.max(1)\<close>; it returns the response, the state and the callbacks made.
\<close>

function retry_loop ::
    "retry_config \<Rightarrow> nat \<Rightarrow> ('r, 's) operation \<Rightarrow> ('r \<Rightarrow> nat \<Rightarrow> bool) \<Rightarrow> (nat \<Rightarrow> real) \<Rightarrow>
     nat \<Rightarrow> 's \<Rightarrow> 'r \<times> 's \<times> retry_event list" where
  "retry_loop config mx operation should_retry jitter attempt s =
     (let (response, s') = operation attempt s in
      if \<not> should_retry response attempt then (response, s', [])
      else if mx \<le> attempt + 1 then (response, s', [Exhausted])
      else
        let next_attempt = attempt + 1;
            delay = calculate_delay config (jitter attempt) attempt;
            (r, s'', evs) = retry_loop config mx operation should_retry jitter next_attempt s' in
        (r, s'', Backoff delay next_attempt # evs))"
  by pat_completeness auto
termination
  by (relation "measure (\<lambda>(config, mx, op, sr, j, attempt, s). mx - attempt)") auto

declare retry_loop.simps [simp del]

definition execute_response_with_retry ::
    "retry_config \<Rightarrow> ('r, 's) operation \<Rightarrow> ('r \<Rightarrow> nat \<Rightarrow> bool) \<Rightarrow> (nat \<Rightarrow> real) \<Rightarrow>
     's \<Rightarrow> 'r \<times> 's \<times> retry_event list" where
  "execute_response_with_retry config operation should_retry jitter s =
     retry_loop config (max (unat (max_retries config)) 1) operation should_retry jitter 0 s"

section \<open>Attempts without the loop\<close>

text \<open>The state before attempt \<open>k\<close> when the attempts \<open>a, a + 1, \<dots>\<close> run one after the other.\<close>

fun state_before :: "('r, 's) operation \<Rightarrow> nat \<Rightarrow> nat \<Rightarrow> 's \<Rightarrow> 's" where
  "state_before op a 0 s = s"
| "state_before op a (Suc k) s = state_before op (Suc a) k (snd (op a s))"

definition response_of :: "('r, 's) operation \<Rightarrow> nat \<Rightarrow> nat \<Rightarrow> 's \<Rightarrow> 'r" where
  "response_of op a k s = fst (op (a + k) (state_before op a k s))"

lemma state_before_Suc: "state_before op a (Suc k) s = snd (op (a + k) (state_before op a k s))"
  by (induction k arbitrary: a s) auto

lemma response_of_Suc: "response_of op a (Suc k) s = response_of op (Suc a) k (snd (op a s))"
  by (simp add: response_of_def)

definition backoff_at :: "retry_config \<Rightarrow> (nat \<Rightarrow> real) \<Rightarrow> nat \<Rightarrow> retry_event" where
  "backoff_at config jitter i = Backoff (calculate_delay config (jitter i) i) (Suc i)"

lemma retry_loop_spec:
  assumes "a < mx"
  shows "\<exists>k. a + k < mx \<and>
     (\<forall>j<k. sr (response_of op a j s) (a + j)) \<and>
     (sr (response_of op a k s) (a + k) \<longrightarrow> Suc (a + k) = mx) \<and>
     retry_loop config mx op sr jitter a s =
       (response_of op a k s, state_before op a (Suc k) s,
        map (backoff_at config jitter) [a..<a + k] @
          (if sr (response_of op a k s) (a + k) then [Exhausted] else []))"
  using assms
proof (induction config mx op sr jitter a s rule: retry_loop.induct)
  case (1 config mx op sr jitter a s)
  obtain r s' where op: "op a s = (r, s')" by fastforce
  have r0: "response_of op a 0 s = r" "state_before op a (Suc 0) s = s'"
    by (simp_all add: response_of_def op)
  note unfold = retry_loop.simps [of config mx op sr jitter a s]
  show ?case
  proof (cases "sr r a \<and> \<not> mx \<le> a + 1")
    case False
    then show ?thesis
      using "1.prems" by (intro exI [of _ 0]) (auto simp: unfold op r0)
  next
    case True
    then obtain k where k: "Suc a + k < mx"
      "\<forall>j<k. sr (response_of op (Suc a) j s') (Suc a + j)"
      "sr (response_of op (Suc a) k s') (Suc a + k) \<longrightarrow> Suc (Suc a + k) = mx"
      "retry_loop config mx op sr jitter (Suc a) s' =
         (response_of op (Suc a) k s', state_before op (Suc a) (Suc k) s',
          map (backoff_at config jitter) [Suc a..<Suc a + k] @
            (if sr (response_of op (Suc a) k s') (Suc a + k) then [Exhausted] else []))"
      using "1.IH" [OF refl op [symmetric] _ _ refl refl] by auto
    have shift: "response_of op a (Suc j) s = response_of op (Suc a) j s'" for j
      by (simp add: response_of_Suc op)
    have "\<forall>j<Suc k. sr (response_of op a j s) (a + j)"
      using k(2) True r0 shift by (auto simp: less_Suc_eq_0_disj)
    moreover have "[a..<a + Suc k] = a # [Suc a..<Suc a + k]"
      by (simp add: upt_conv_Cons)
    ultimately show ?thesis
      using k True
      by (intro exI [of _ "Suc k"]) (auto simp: unfold op shift backoff_at_def)
  qed
qed

section \<open>Properties\<close>

lemma retry_execute_spec:
  "\<exists>k < max (unat (max_retries config)) 1.
     (\<forall>j<k. should_retry (response_of operation 0 j s) j) \<and>
     (should_retry (response_of operation 0 k s) k \<longrightarrow> Suc k = max (unat (max_retries config)) 1) \<and>
     execute_response_with_retry config operation should_retry jitter s =
       (response_of operation 0 k s, state_before operation 0 (Suc k) s,
        map (backoff_at config jitter) [0..<k] @
          (if should_retry (response_of operation 0 k s) k then [Exhausted] else []))"
  using retry_loop_spec [of 0 "max (unat (max_retries config)) 1" should_retry operation s config jitter]
  by (auto simp: execute_response_with_retry_def)

text \<open>
  The executor always returns.  It makes the attempts \<open>0, \<dots>, k\<close> in order, each on the state
  the one before it left, with \<open>k < max(1, max_retries)\<close>: every attempt before the last was
  judged retryable, the last one either was not or was the last one allowed, its response is the
  result, the back-off callback was called once between consecutive attempts with the computed
  delay, and the exhausted callback exactly when the last response was still retryable.
\<close>

theorem retry_executes_attempts:
  "\<exists>k < max (unat (max_retries config)) 1.
     (\<forall>j<k. should_retry (response_of operation 0 j s) j) \<and>
     (should_retry (response_of operation 0 k s) k \<longrightarrow> Suc k = max (unat (max_retries config)) 1) \<and>
     execute_response_with_retry config operation should_retry jitter s =
       (response_of operation 0 k s, state_before operation 0 (Suc k) s,
        map (backoff_at config jitter) [0..<k] @
          (if should_retry (response_of operation 0 k s) k then [Exhausted] else []))"
  by (rule retry_execute_spec)

theorem retry_executes_attempts_witness:
  "fst (execute_response_with_retry retry_config_default (\<lambda>a s. (503, Suc s))
     (\<lambda>r a. is_retryable_status r) (\<lambda>_. 0) (0::nat)) = 503 \<and>
   snd (snd (execute_response_with_retry retry_config_default (\<lambda>a s. (503, Suc s))
     (\<lambda>r a. is_retryable_status r) (\<lambda>_. 0) (0::nat))) =
   map (backoff_at retry_config_default (\<lambda>_. 0)) [0..<4] @ [Exhausted]"
  using retry_executes_attempts [of retry_config_default "\<lambda>r a. is_retryable_status r"
      "\<lambda>a s. (503, Suc s)" "0::nat" "\<lambda>_. 0"]
  by (simp add: retry_config_default_def is_retryable_status_def response_of_def)

lemma f32_round_le: "0 \<le> d \<Longrightarrow> x \<le> real d \<Longrightarrow> f32_round x \<le> int d"
  unfolding f32_round_def by (auto simp: floor_le_iff) linarith+

text \<open>
  Without jitter the delay never exceeds \<open>max_backoff_ms\<close> and, for a multiplier of at least
  1, never shrinks from one attempt to the next; with jitter it stays within twice the maximum.
\<close>

theorem backoff_bounds:
  assumes "\<bar>scale\<bar> \<le> 1"
  shows "calculate_delay config scale a \<le> 2 * max_backoff_ms config \<and>
     (jitter_factor config \<le> 0 \<longrightarrow> calculate_delay config scale a \<le> max_backoff_ms config) \<and>
     (jitter_factor config \<le> 0 \<and> 1 \<le> backoff_multiplier config \<longrightarrow>
        calculate_delay config scale a \<le> calculate_delay config scale' (Suc a))"
proof (intro conjI impI)
  define d where
    "d = min (f32_as_u64 (real (initial_backoff_ms config) * backoff_multiplier config ^ a)) (max_backoff_ms config)"
  have "real d * scale \<le> real d * 1"
    using assms by (intro mult_left_mono) auto
  then have round: "f32_round (real d * scale) \<le> int d"
    by (intro f32_round_le) auto
  have d: "d \<le> max_backoff_ms config" by (simp add: d_def)
  have delay: "calculate_delay config scale a =
      (if 0 < max 0 (min (jitter_factor config) 1)
       then nat (max (int d + max (f32_round (real d * scale)) (- int d)) 0) else d)"
    by (simp add: calculate_delay_def Let_def d_def)
  show "calculate_delay config scale a \<le> 2 * max_backoff_ms config"
    unfolding delay using round d by auto
  show "calculate_delay config scale a \<le> max_backoff_ms config" if "jitter_factor config \<le> 0"
    using that by (simp add: calculate_delay_def Let_def)
  show "calculate_delay config scale a \<le> calculate_delay config scale' (Suc a)"
    if h: "jitter_factor config \<le> 0 \<and> 1 \<le> backoff_multiplier config"
  proof -
    have "real (initial_backoff_ms config) * backoff_multiplier config ^ a
        \<le> real (initial_backoff_ms config) * backoff_multiplier config ^ Suc a"
      using h by (intro mult_left_mono power_increasing) auto
    then have "f32_as_u64 (real (initial_backoff_ms config) * backoff_multiplier config ^ a)
        \<le> f32_as_u64 (real (initial_backoff_ms config) * backoff_multiplier config ^ Suc a)"
      unfolding f32_as_u64_def by (intro min.mono nat_mono floor_mono) auto
    with h show ?thesis
      by (auto simp: calculate_delay_def Let_def)
  qed
qed

theorem backoff_bounds_witness:
  "calculate_delay retry_config_default (1 / 10) 40 \<le> 2 * 30000"
  using backoff_bounds [of "1 / 10" retry_config_default 40]
  by (simp add: retry_config_default_def)

end
