(* ===== verification/Http_Router.thy ===== *)
theory Http_Router
  imports Policy_Registry Worker_Registry Retry
begin

text \<open>
  The router for plain HTTP workers, \<open>src/gateway/src/routers/http/router.rs\<close>, with the breaker-tracked
  response stream of \<open>routers/streaming_utils.rs\<close> and the error responses of \<open>routers/error.rs\<close>.

  The network is an argument: what one attempt sends is a value, and the answer to it is a function
  of that value.  A streaming response outlives the attempt; its body is polled and dropped by later
  operations on the store of workers.  Trace headers are added by a function that is an argument.
  A slice of workers lists each worker once.
\<close>

section \<open>Model: responses\<close>

definition HEADER_X_SMG_ERROR_CODE :: string where
  "HEADER_X_SMG_ERROR_CODE = ''x-smg-error-code''"

definition is_success :: "status_code \<Rightarrow> bool" where
  "is_success s \<longleftrightarrow> 200 \<le> s \<and> s < 300"

datatype terminal = Active | Completed | Errored

record tracked_stream =
  ts_worker :: wref
  ts_terminal :: terminal

datatype resp_body = Bytes string | ErrorBody string string | StreamBody tracked_stream

text \<open>A response; a load guard that travels with the body is named by its worker and routing key.\<close>

record response =
  resp_status :: status_code
  resp_headers :: header_map
  resp_body :: resp_body
  resp_guard :: "(wref \<times> string option) option"

definition create_error :: "status_code \<Rightarrow> string \<Rightarrow> string \<Rightarrow> response" where
  "create_error status code msg =
     \<lparr> resp_status = status, resp_headers = [(HEADER_X_SMG_ERROR_CODE, code)], resp_body = ErrorBody code msg, resp_guard = None \<rparr>"

definition internal_error where "internal_error = create_error 500"
definition bad_request where "bad_request = create_error 400"
definition not_found where "not_found = create_error 404"
definition service_unavailable where "service_unavailable = create_error 503"
definition failed_dependency where "failed_dependency = create_error 424"
definition not_implemented where "not_implemented = create_error 501"
definition bad_gateway where "bad_gateway = create_error 502"
definition method_not_allowed where "method_not_allowed = create_error 405"

definition extract_error_code_from_response :: "response \<Rightarrow> string" where
  "extract_error_code_from_response resp =
     (case Option.bind (header_get (resp_headers resp) HEADER_X_SMG_ERROR_CODE) to_str of Some c \<Rightarrow> c | None \<Rightarrow> [])"

subsection \<open>The tracked stream\<close>

definition tracked_new :: "wref \<Rightarrow> tracked_stream" where
  "tracked_new r = \<lparr> ts_worker = r, ts_terminal = Active \<rparr>"

definition mark_completed :: "tracked_stream \<Rightarrow> tracked_stream" where
  "mark_completed ts = (if ts_terminal ts = Active then ts\<lparr> ts_terminal := Completed \<rparr> else ts)"

definition mark_errored :: "tracked_stream \<Rightarrow> tracked_stream" where
  "mark_errored ts = ts\<lparr> ts_terminal := Errored \<rparr>"

datatype poll = ReadyOk string | ReadyErr | ReadyNone | Pending

fun poll_next :: "poll \<Rightarrow> tracked_stream \<Rightarrow> tracked_stream" where
  "poll_next (ReadyOk b) ts = ts"
| "poll_next ReadyErr ts = ts\<lparr> ts_terminal := Errored \<rparr>"
| "poll_next ReadyNone ts = (if ts_terminal ts = Active then ts\<lparr> ts_terminal := Completed \<rparr> else ts)"
| "poll_next Pending ts = ts"

text \<open>\<open>record_success\<close> and \<open>record_failure\<close> on the breaker of the worker, or neither.\<close>

definition tracked_drop :: "u64 \<times> u64 \<Rightarrow> tracked_stream \<Rightarrow> wstore \<Rightarrow> wstore" where
  "tracked_drop now ts st =
     (let r = ts_worker ts in
      case ts_terminal ts of
        Completed \<Rightarrow> st(r := worker_record_outcome (fst now) (snd now) True (st r))
      | Errored \<Rightarrow> st(r := worker_record_outcome (fst now) (snd now) False (st r))
      | Active \<Rightarrow> st)"

section \<open>Model: the router\<close>

record http_router =
  hr_dp_aware :: bool
  hr_enable_igw :: bool
  hr_retry_config :: retry_config

record gateway =
  wst :: wstore
  wreg :: worker_registry
  preg :: policy_registry

subsection \<open>Choosing a worker\<close>

definition select_first_worker :: "gateway \<Rightarrow> string + string" where
  "select_first_worker g =
     (let healthy_workers = filter (\<lambda>r. is_healthy (wst g r)) (get_all (wreg g)) in
      if healthy_workers = [] then Inl ''No workers are available'' else Inr (url (wst g (healthy_workers ! 0))))"

fun filter_available :: "(wref \<Rightarrow> u64 \<times> u64) \<Rightarrow> wref list \<Rightarrow> wstore \<Rightarrow> wref list \<times> wstore" where
  "filter_available clk [] st = ([], st)"
| "filter_available clk (r # rs) st =
     (let (ok, w) = is_available (fst (clk r)) (snd (clk r)) (st r);
          (rs, st) = filter_available clk rs (st(r := w)) in
      (if ok then r # rs else rs, st))"

definition write_back :: "wref list \<Rightarrow> worker list \<Rightarrow> wstore \<Rightarrow> wstore" where
  "write_back rs ws st = foldl (\<lambda>st (r, w). st(r := w)) st (zip rs ws)"

definition policy_for :: "string option \<Rightarrow> policy_registry \<Rightarrow> pref" where
  "policy_for m pr = (case m of Some m \<Rightarrow> get_policy_or_default m pr | None \<Rightarrow> get_default_policy pr)"

definition effective_model :: "http_router \<Rightarrow> string option \<Rightarrow> string option" where
  "effective_model hr m = (if \<not> hr_enable_igw hr then None else m)"

definition candidates :: "http_router \<Rightarrow> string option \<Rightarrow> gateway \<Rightarrow> wref list" where
  "candidates hr m g =
     get_workers_filtered (wst g) (effective_model hr m) (Some Regular) (Some Http) None False (wreg g)"

text \<open>\<open>None\<close> is a panic of the policy or of the index into the slice.\<close>

definition select_worker_for_model ::
    "runtime \<Rightarrow> http_router \<Rightarrow> moment \<Rightarrow> (wref \<Rightarrow> u64 \<times> u64) \<Rightarrow> string option \<Rightarrow> ustr option \<Rightarrow> header_map option \<Rightarrow>
      gateway \<Rightarrow> (wref option \<times> gateway) option" where
  "select_worker_for_model rt hr mo clk m txt hs g =
     (let workers = candidates hr m g;
          (available, st) = filter_available clk workers (wst g);
          g = g\<lparr> wst := st \<rparr> in
      if available = [] then Some (None, g)
      else
        let policy = policy_for m (preg g);
            ring = get_hash_ring (case effective_model hr m of Some m \<Rightarrow> m | None \<Rightarrow> rt_unknown rt) (wreg g) in
        do {
          (idx, ws, h, ops) \<leftarrow> select_worker rt mo (map st available)
            \<lparr> request_text = txt, tokens = None, headers = hs, info_hash_ring = ring \<rparr> policy (heap (preg g));
          let g = g\<lparr> wst := write_back available ws st, preg := (preg g)\<lparr> heap := h \<rparr> \<rparr>;
          case idx of
            None \<Rightarrow> Some (None, g)
          | Some i \<Rightarrow> if i < length available then Some (Some (available ! i), g) else None
        })"

subsection \<open>Sending a request\<close>

record out_request =
  o_url :: string
  o_body :: "json option"
  o_headers :: "(string \<times> string) list"

text \<open>What the HTTP client reports of an error: an upstream status, or its kind.\<close>

datatype reqwest_kind = BuilderError | RequestError | RedirectError | BodyError | DecodeError | TimeoutError | ConnectError | OtherError

record reqwest_error =
  re_status :: "status_code option"
  re_kinds :: "reqwest_kind set"
  re_message :: string

definition convert_reqwest_error :: "reqwest_error \<Rightarrow> response" where
  "convert_reqwest_error e =
     (let (status, code) =
        (case re_status e of
           Some upstream_status \<Rightarrow> (upstream_status, ''call_upstream_status_error'')
         | None \<Rightarrow>
             if BuilderError \<in> re_kinds e then (500, ''call_upstream_builder_error'')
             else if RequestError \<in> re_kinds e then (500, ''call_upstream_request_error'')
             else if RedirectError \<in> re_kinds e then (500, ''call_upstream_redirect_error'')
             else if BodyError \<in> re_kinds e then (500, ''call_upstream_body_error'')
             else if DecodeError \<in> re_kinds e then (500, ''call_upstream_decode_error'')
             else if TimeoutError \<in> re_kinds e then (504, ''call_upstream_timeout'')
             else if ConnectError \<in> re_kinds e then (500, ''call_upstream_connection_failed'')
             else (500, ''call_upstream_request_failed'')) in
      create_error status code (re_message e))"

datatype upstream =
    SendFailed reqwest_error
  | Replied status_code header_map "string option"

text \<open>\<open>str::split\<close> by a character.\<close>

fun split_char :: "char \<Rightarrow> string \<Rightarrow> string list" where
  "split_char c [] = [[]]"
| "split_char c (x # xs) = (if x = c then [] # split_char c xs else (case split_char c xs of p # ps \<Rightarrow> (x # p) # ps | [] \<Rightarrow> [[x]]))"

definition extract_dp_rank :: "string \<Rightarrow> string + (string \<times> nat)" where
  "extract_dp_rank worker_url =
     (let parts = split_char (CHR ''@'') worker_url in
      if length parts \<noteq> 2 then Inl (''invalid worker_url format: '' @ worker_url)
      else
        case parse_usize (parts ! 1) of
          Some rank \<Rightarrow> Inr (parts ! 0, rank)
        | None \<Rightarrow> Inl (''failed to parse dp_rank from worker_url: '' @ worker_url))"

definition worker_base_url :: "http_router \<Rightarrow> string \<Rightarrow> string" where
  "worker_base_url hr worker_url =
     (if hr_dp_aware hr then (case extract_dp_rank worker_url of Inr (base_part, _) \<Rightarrow> base_part | Inl _ \<Rightarrow> worker_url) else worker_url)"

definition bearer_header :: "string option \<Rightarrow> (string \<times> string) list" where
  "bearer_header key = (case key of Some key \<Rightarrow> [(''authorization'', ''Bearer '' @ key)] | None \<Rightarrow> [])"

definition forwarded :: "header_map option \<Rightarrow> (string \<times> string) list" where
  "forwarded hs = (case hs of Some hs \<Rightarrow> filter (\<lambda>(name, v). should_forward_request_header name) hs | None \<Rightarrow> [])"

text \<open>The request to send, or the error response of one of the early returns.\<close>

definition build_request :: "http_router \<Rightarrow> header_map option \<Rightarrow> json option \<Rightarrow> string \<Rightarrow> worker \<Rightarrow> response + out_request" where
  "build_request hr hs body route w =
     (let worker_url = url w;
          hdrs = bearer_header (api_key w) @ forwarded hs in
      if hr_dp_aware hr then
        (case extract_dp_rank worker_url of
           Inl e \<Rightarrow> Inl (internal_error ''dp_rank_extraction_failed'' (''Failed to extract dp_rank: '' @ e))
         | Inr (worker_url_prefix, rank) \<Rightarrow>
             (case body of
                None \<Rightarrow> Inl (bad_request ''serialization_failed'' ''Convert into serde_json::Value failed'')
              | Some (JObject m) \<Rightarrow>
                  Inr \<lparr> o_url = worker_url_prefix @ route,
                        o_body = Some (JObject (map_insert ''data_parallel_rank'' (JNumber (int rank)) m)), o_headers = hdrs \<rparr>
              | Some _ \<Rightarrow>
                  Inl (bad_request ''dp_rank_insertion_failed''
                    ''Failed to insert the data_parallel_rank field into the request body'')))
      else Inr \<lparr> o_url = worker_url @ route, o_body = body, o_headers = hdrs \<rparr>)"

text \<open>
  The load guard is dropped at the end of every call that does not hand it to the body of a
  streaming response.
\<close>

definition drop_guard :: "(wref \<times> string option) option \<Rightarrow> wstore \<Rightarrow> wstore" where
  "drop_guard gd st = (case gd of Some (r, k) \<Rightarrow> st(r := guard_drop k (st r)) | None \<Rightarrow> st)"

definition send_typed_request ::
    "http_router \<Rightarrow> (out_request \<Rightarrow> upstream) \<Rightarrow> u64 \<times> u64 \<Rightarrow> header_map option \<Rightarrow> json option \<Rightarrow> string \<Rightarrow> wref \<Rightarrow> bool \<Rightarrow>
      (wref \<times> string option) option \<Rightarrow> wstore \<Rightarrow> response \<times> wstore" where
  "send_typed_request hr net now hs body route r is_stream load_guard st =
     (case build_request hr hs body route (st r) of
        Inl resp \<Rightarrow> (resp, drop_guard load_guard st)
      | Inr req \<Rightarrow>
          (case net req of
             SendFailed e \<Rightarrow>
               let st = (if is_stream then st(r := worker_record_outcome (fst now) (snd now) False (st r)) else st) in
               (convert_reqwest_error e, drop_guard load_guard st)
           | Replied status hdrs body \<Rightarrow>
               if \<not> is_stream then
                 (case body of
                    Some b \<Rightarrow>
                      (\<lparr> resp_status = status, resp_headers = preserve_response_headers hdrs, resp_body = Bytes b, resp_guard = None \<rparr>,
                       drop_guard load_guard st)
                  | None \<Rightarrow>
                      (internal_error ''read_response_body_failed'' ''Failed to get response body'', drop_guard load_guard st))
               else
                 let tracked = tracked_new r;
                     tracked = (if is_success status then tracked else mark_errored tracked) in
                 (\<lparr> resp_status = status,
                    resp_headers = header_insert (preserve_response_headers hdrs) ''content-type'' ''text/event-stream'',
                    resp_body = StreamBody tracked, resp_guard = load_guard \<rparr>, st)))"

text \<open>What one attempt reads from outside.\<close>

record attempt_env =
  ae_moment :: moment
  ae_clock :: "wref \<Rightarrow> u64 \<times> u64"
  ae_now :: "u64 \<times> u64"
  ae_net :: "out_request \<Rightarrow> upstream"

definition route_typed_request_once ::
    "runtime \<Rightarrow> http_router \<Rightarrow> (header_map \<Rightarrow> header_map) \<Rightarrow> attempt_env \<Rightarrow> header_map option \<Rightarrow> json option \<Rightarrow> string \<Rightarrow>
      string option \<Rightarrow> bool \<Rightarrow> ustr \<Rightarrow> gateway \<Rightarrow> (response \<times> gateway) option" where
  "route_typed_request_once rt hr inject_trace env hs body route m is_stream txt g =
     do {
       (sel, g) \<leftarrow> select_worker_for_model rt hr (ae_moment env) (ae_clock env) m (Some txt) hs g;
       case sel of
         None \<Rightarrow>
           Some (service_unavailable ''no_available_workers'' ''No available workers (all circuits open or unhealthy)'', g)
       | Some r \<Rightarrow>
           let (gd, st) =
                 (if policy_name (obj (preg g) (policy_for m (preg g))) \<in> {''cache_aware'', ''manual''}
                  then let (k, w) = guard_new hs (wst g r) in (Some (r, k), (wst g)(r := w))
                  else (None, wst g));
               hs = Some (inject_trace (case hs of Some h \<Rightarrow> h | None \<Rightarrow> []));
               (resp, st) = send_typed_request hr (ae_net env) (ae_now env) hs body route r is_stream gd st;
               st = (if \<not> is_stream
                     then st(r := worker_record_outcome (fst (ae_now env)) (snd (ae_now env)) (is_success (resp_status resp)) (st r))
                     else st) in
           Some (resp, g\<lparr> wst := st \<rparr>)
     }"

text \<open>
  The request with its retries.  The response of an attempt that is not the last is dropped before
  the next one; \<open>drop_response\<close> says what that does.
\<close>

definition drop_response :: "u64 \<times> u64 \<Rightarrow> response \<Rightarrow> wstore \<Rightarrow> wstore" where
  "drop_response now resp st =
     drop_guard (resp_guard resp) (case resp_body resp of StreamBody ts \<Rightarrow> tracked_drop now ts st | _ \<Rightarrow> st)"

record attempt_state =
  at_gateway :: gateway
  at_response :: "response option"

definition attempt ::
    "runtime \<Rightarrow> http_router \<Rightarrow> (header_map \<Rightarrow> header_map) \<Rightarrow> (nat \<Rightarrow> attempt_env) \<Rightarrow> header_map option \<Rightarrow> json option \<Rightarrow> string \<Rightarrow>
      string option \<Rightarrow> bool \<Rightarrow> ustr \<Rightarrow> nat \<Rightarrow> attempt_state \<Rightarrow> response option \<times> attempt_state" where
  "attempt rt hr inject_trace env hs body route m is_stream txt k s =
     (let g = at_gateway s;
          g = (case at_response s of Some resp \<Rightarrow> g\<lparr> wst := drop_response (ae_now (env k)) resp (wst g) \<rparr> | None \<Rightarrow> g) in
      case route_typed_request_once rt hr inject_trace (env k) hs body route m is_stream txt g of
        None \<Rightarrow> (None, s)
      | Some (resp, g) \<Rightarrow> (Some resp, \<lparr> at_gateway = g, at_response = Some resp \<rparr>))"

definition should_retry_response :: "response option \<Rightarrow> nat \<Rightarrow> bool" where
  "should_retry_response resp k = (case resp of Some resp \<Rightarrow> is_retryable_status (resp_status resp) | None \<Rightarrow> False)"

definition route_typed_request ::
    "runtime \<Rightarrow> http_router \<Rightarrow> (header_map \<Rightarrow> header_map) \<Rightarrow> (nat \<Rightarrow> attempt_env) \<Rightarrow> (nat \<Rightarrow> real) \<Rightarrow> header_map option \<Rightarrow> json option \<Rightarrow>
      string \<Rightarrow> string option \<Rightarrow> bool \<Rightarrow> ustr \<Rightarrow> gateway \<Rightarrow> response option \<times> attempt_state \<times> retry_event list" where
  "route_typed_request rt hr inject_trace env jitter hs body route m is_stream txt g =
     execute_response_with_retry (hr_retry_config hr) (attempt rt hr inject_trace env hs body route m is_stream txt)
       should_retry_response jitter \<lparr> at_gateway = g, at_response = None \<rparr>"

text \<open>
  Requests without a body: a GET to the first healthy worker, and a fan-out to all workers that
  returns the first success, in the order the answers arrive.
\<close>

definition relay :: "response \<Rightarrow> upstream \<Rightarrow> response" where
  "relay failed u =
     (case u of
        SendFailed e \<Rightarrow> convert_reqwest_error e
      | Replied status hdrs (Some b) \<Rightarrow>
          \<lparr> resp_status = status, resp_headers = preserve_response_headers hdrs, resp_body = Bytes b, resp_guard = None \<rparr>
      | Replied status hdrs None \<Rightarrow> failed)"

definition proxy_get_request :: "(out_request \<Rightarrow> upstream) \<Rightarrow> header_map \<Rightarrow> string \<Rightarrow> gateway \<Rightarrow> response" where
  "proxy_get_request net req_headers endpoint g =
     (let hs = copy_request_headers req_headers in
      case select_first_worker g of
        Inl e \<Rightarrow> service_unavailable ''no_workers'' e
      | Inr worker_url \<Rightarrow>
          relay (internal_error ''read_response_failed'' ''Failed to read response'')
            (net \<lparr> o_url = worker_url @ ''/'' @ endpoint, o_body = None,
                   o_headers = filter (\<lambda>(name, v). should_forward_request_header name) hs \<rparr>))"

datatype http_method = GET | POST | OtherMethod

fun first_success :: "response list \<Rightarrow> response option \<Rightarrow> response option" where
  "first_success [] last_response = last_response"
| "first_success (resp # resps) last_response =
     (if (case resp_body resp of Bytes b \<Rightarrow> is_success (resp_status resp) | _ \<Rightarrow> False) then Some resp
      else first_success resps (Some resp))"

definition simple_request :: "http_router \<Rightarrow> header_map option \<Rightarrow> string \<Rightarrow> worker \<Rightarrow> out_request" where
  "simple_request hr hs endpoint w =
     \<lparr> o_url = worker_base_url hr (url w) @ ''/'' @ endpoint, o_body = None, o_headers = bearer_header (api_key w) @ forwarded hs \<rparr>"

definition route_simple_request ::
    "http_router \<Rightarrow> (out_request \<Rightarrow> upstream) \<Rightarrow> (response list \<Rightarrow> response list) \<Rightarrow> header_map option \<Rightarrow> string \<Rightarrow> http_method \<Rightarrow>
      gateway \<Rightarrow> response" where
  "route_simple_request hr net arrival hs endpoint mthd g =
     (let workers = get_all (wreg g) in
      if workers = [] then service_unavailable ''no_workers'' ''No available workers''
      else
        let answers = map (\<lambda>r.
              if mthd = OtherMethod then method_not_allowed ''unsupported_method'' ''Unsupported method for simple routing''
              else relay (internal_error ''read_response_failed'' ''Failed to read response'') (net (simple_request hr hs endpoint (wst g r)))) workers in
        case first_success (arrival answers) None of
          Some resp \<Rightarrow> resp
        | None \<Rightarrow> bad_gateway ''no_worker_response'' ''No worker response'')"

section \<open>Admitted workers\<close>

text \<open>A worker that passes its checks at every time, and whose checks change nothing.\<close>

definition admits :: "worker \<Rightarrow> bool" where
  "admits w \<longleftrightarrow> is_healthy w \<and> from_int (cb_state (bw_circuit_breaker (base w))) \<noteq> Open"

lemma on_base_breaker_id [simp]: "on_base (\<lambda>b. b) w = w" "on_base (\<lambda>b. b\<lparr> bw_circuit_breaker := bw_circuit_breaker (base w) \<rparr>) w = w"
  by (cases w; simp)+

lemma admits_available: "admits w \<Longrightarrow> is_available t t' w = (True, w)"
  by (auto simp: admits_def is_available_def breaker_can_execute_def can_execute_def state_def
      check_and_update_state_returning_def Let_def split: circuit_state.splits)

lemma available_admits: "fst (is_available t t' w) \<Longrightarrow> admits (snd (is_available t t' w))"
proof (cases w)
  case (Basic b)
  assume "fst (is_available t t' w)"
  then show ?thesis unfolding Basic
    by (auto simp: admits_def is_available_def breaker_can_execute_def can_execute_def state_def is_healthy_def
        check_and_update_state_returning_def Let_def from_int_def STATE_OPEN_def STATE_HALF_OPEN_def STATE_CLOSED_def
        split: if_splits prod.splits circuit_state.splits)
next
  case (DPAware d)
  assume "fst (is_available t t' w)"
  then show ?thesis unfolding DPAware
    by (auto simp: admits_def is_available_def breaker_can_execute_def can_execute_def state_def is_healthy_def
        check_and_update_state_returning_def Let_def from_int_def STATE_OPEN_def STATE_HALF_OPEN_def STATE_CLOSED_def
        split: if_splits prod.splits circuit_state.splits)
qed

lemma unavailable_unchanged: "\<not> fst (is_available t t' w) \<Longrightarrow> snd (is_available t t' w) = w"
  by (auto simp: is_available_def breaker_can_execute_def can_execute_def state_def
      check_and_update_state_returning_def Let_def split: if_splits prod.splits circuit_state.splits)

lemma filter_available_admitted: "admits (st r) \<Longrightarrow> snd (filter_available clk rs st) r = st r"
proof (induction rs arbitrary: st)
  case (Cons r' rs)
  have "(st(r' := snd (is_available (fst (clk r')) (snd (clk r')) (st r')))) r = st r"
    using admits_available [OF Cons.prems] by (cases "r = r'") simp_all
  then show ?case using Cons.IH [of "st(r' := snd (is_available (fst (clk r')) (snd (clk r')) (st r')))"] Cons.prems
    by (simp add: split_beta fun_upd_def)
qed simp

lemma filter_available_set:
  "r \<in> set (fst (filter_available clk rs st)) \<longleftrightarrow> r \<in> set rs \<and> fst (is_available (fst (clk r)) (snd (clk r)) (st r))"
proof (induction rs arbitrary: st)
  case (Cons r' rs)
  let ?w = "is_available (fst (clk r')) (snd (clk r')) (st r')"
  have "fst (is_available (fst (clk r)) (snd (clk r)) ((st(r' := snd ?w)) r)) = fst (is_available (fst (clk r)) (snd (clk r)) (st r))"
    using unavailable_unchanged [of "fst (clk r)" "snd (clk r)" "st r"] admits_available [OF available_admits, of "fst (clk r)" "snd (clk r)" "st r"]
    by (cases "r = r'"; cases "fst ?w") simp_all
  then show ?case using Cons.IH [of "st(r' := snd ?w)"] by (auto simp: split_beta fun_upd_def)
qed simp

lemma filter_available_admits: "r \<in> set (fst (filter_available clk rs st)) \<Longrightarrow> admits (snd (filter_available clk rs st) r)"
proof (induction rs arbitrary: st)
  case (Cons r' rs)
  let ?st = "st(r' := snd (is_available (fst (clk r')) (snd (clk r')) (st r')))"
  show ?case
  proof (cases "r \<in> set (fst (filter_available clk rs ?st))")
    case True
    then show ?thesis using Cons.IH [of ?st] by (simp add: split_beta fun_upd_def)
  next
    case False
    then have "r = r'" "fst (is_available (fst (clk r)) (snd (clk r)) (st r))"
      using Cons.prems by (auto simp: split_beta split: if_splits)
    then have "admits (?st r)" using available_admits by simp
    then show ?thesis using filter_available_admitted [of ?st r clk rs] by (simp add: split_beta fun_upd_def)
  qed
qed simp

text \<open>Checking changes breakers only.\<close>

definition same_counts :: "worker \<Rightarrow> worker \<Rightarrow> bool" where
  "same_counts w w' \<longleftrightarrow> metadata w' = metadata w \<and> is_healthy w' = is_healthy w \<and> get_load w' = get_load w \<and>
     get_routing_key_load w' = get_routing_key_load w"

lemma same_counts_refl [simp]: "same_counts w w"
  by (simp add: same_counts_def)

lemma same_counts_trans: "same_counts w w' \<Longrightarrow> same_counts w' w'' \<Longrightarrow> same_counts w w''"
  by (simp add: same_counts_def)

lemma same_counts_available: "same_counts w (snd (is_available t t' w))"
  by (cases w) (auto simp: same_counts_def is_available_def get_routing_key_load_def breaker_can_execute_def is_healthy_def metadata_def get_load_def split: prod.splits)

lemma filter_available_counts: "same_counts (st r) (snd (filter_available clk rs st) r)"
proof (induction rs arbitrary: st)
  case (Cons r' rs)
  let ?st = "st(r' := snd (is_available (fst (clk r')) (snd (clk r')) (st r')))"
  have "same_counts (st r) (?st r)" using same_counts_available by simp
  then show ?case using Cons.IH [of ?st] same_counts_trans [of "st r" "?st r"] by (simp add: split_beta fun_upd_def)
qed simp

section \<open>Selection from admitted workers\<close>

lemma healthy_from_admitted: "\<forall>w\<in>set ws. admits w \<Longrightarrow> healthy_from clk k ws = ([k..<k + length ws], ws)"
proof (induction ws arbitrary: k)
  case (Cons w ws)
  have "[k..<k + length (w # ws)] = k # [Suc k..<Suc k + length ws]" by (simp add: upt_conv_Cons del: upt_Suc)
  then show ?case using Cons by (simp add: check_at_def admits_available del: upt_Suc)
qed simp

lemma admitted_indices: "\<forall>w\<in>set ws. admits w \<Longrightarrow> get_healthy_worker_indices clk ws = ([0..<length ws], ws)"
  by (simp add: get_healthy_worker_indices_def healthy_from_admitted)

lemma admitted_available: "\<forall>w\<in>set ws. admits w \<Longrightarrow> available clk ws i \<longleftrightarrow> i < length ws"
  using healthy_indices_set [of i clk ws] by (simp add: admitted_indices)

text \<open>All a selection does to an admitted worker is to count it as processed.\<close>

definition processed_only :: "worker \<Rightarrow> worker \<Rightarrow> bool" where
  "processed_only w w' \<longleftrightarrow> (\<exists>n. w' = on_base (\<lambda>b. b\<lparr> processed_counter := n \<rparr>) w)"

lemma processed_only_refl [simp]: "processed_only w w"
  by (cases w) (auto simp: processed_only_def intro: exI [of _ "processed_counter (base w)"])

lemma processed_only_keeps:
  assumes "processed_only w w'"
  shows "same_counts w w'" "admits w' = admits w" "bw_circuit_breaker (base w') = bw_circuit_breaker (base w)"
  using assms by (cases w; auto simp: processed_only_def same_counts_def admits_def is_healthy_def metadata_def get_load_def
      get_routing_key_load_def)+

lemma processed_only_increment: "processed_only w (increment_processed w)"
  by (cases w) (auto simp: processed_only_def increment_processed_def bw_increment_processed_def)

definition processed_list :: "worker list \<Rightarrow> worker list \<Rightarrow> bool" where
  "processed_list ws ws' \<longleftrightarrow> length ws' = length ws \<and> (\<forall>i<length ws. processed_only (ws ! i) (ws' ! i))"

lemma processed_list_refl [simp]: "processed_list ws ws"
  by (simp add: processed_list_def)

lemma processed_list_count: "processed_list ws (count_processed i ws)" "processed_list ws (ws[i := increment_processed (ws ! i)])"
proof -
  show "processed_list ws (ws[i := increment_processed (ws ! i)])"
    unfolding processed_list_def
  proof (intro conjI allI impI)
    fix j assume "j < length ws"
    then show "processed_only (ws ! j) (ws[i := increment_processed (ws ! i)] ! j)"
      using processed_only_increment by (cases "i = j") simp_all
  qed simp
  then show "processed_list ws (count_processed i ws)" by (simp add: count_processed_def)
qed

lemma ca_workers_after:
  assumes "\<forall>w\<in>set ws. admits w" "ca_select_worker unknown_id rd rng clk ws info p = Some (i, ws', p', ops)"
  shows "processed_list ws ws'"
proof -
  have ml: "select_worker_min_load unknown_id rng ws inp is key p = Some (i, ws', p', ops) \<Longrightarrow> processed_list ws ws'" for inp "is" key
    by (auto simp: select_worker_min_load_def Let_def Option.bind_eq_Some_conv processed_list_count split: option.splits if_splits)
  have sc: "select_by_cache unknown_id rd rng ws inp is key tree p = Some (i, ws', p', ops) \<Longrightarrow> processed_list ws ws'" for inp "is" key tree
    by (auto simp: select_by_cache_def Let_def Option.bind_eq_Some_conv processed_list_count split: option.splits if_splits)
  show ?thesis
  proof (cases "ws = []")
    case False
    then show ?thesis using assms(2) ml sc unfolding ca_select_worker_def admitted_indices [OF assms(1)] Let_def
      by (auto split: if_splits prod.splits option.splits)
  qed (use assms in \<open>simp add: ca_select_worker_def get_healthy_worker_indices_def\<close>)
qed

lemma select_workers_after:
  assumes "\<forall>w\<in>set ws. admits w" "select_worker rt mo ws info r h = Some (i, ws', h', ops)"
  shows "processed_list ws ws'"
proof (cases "objs h ! r")
  case (CacheAwarePolicy p)
  then show ?thesis using assms ca_workers_after by (auto simp: select_worker_def Option.bind_eq_Some_conv)
next
  case (PowerOfTwoPolicy p)
  then show ?thesis using assms
    by (auto simp: select_worker_def power_of_two_select_def admitted_indices split_beta Let_def processed_list_count split: if_splits)
qed (use assms in \<open>auto simp: select_worker_def random_select_def round_robin_select_def bp_select_worker_def manual_select_def
      manual_select_worker_impl_def admitted_indices split_beta Let_def split: if_splits option.splits\<close>)

lemma write_back_processed:
  assumes "processed_list (map st rs) ws"
  shows "processed_only (st r) (write_back rs ws st r)"
proof -
  have pairs: "\<forall>e\<in>set (zip rs ws). processed_only (st (fst e)) (snd e)"
    using assms by (auto simp: processed_list_def set_zip)
  have "(\<forall>e\<in>set xs. processed_only (st (fst e)) (snd e)) \<Longrightarrow> (\<forall>r. processed_only (st r) (st' r)) \<Longrightarrow>
      processed_only (st r) (foldl (\<lambda>st (r, w). st(r := w)) st' xs r)" for xs st'
    by (induction xs arbitrary: st') auto
  from this [OF pairs, of st] show ?thesis by (simp add: write_back_def)
qed

definition total_policy :: "string option \<Rightarrow> gateway \<Rightarrow> bool" where
  "total_policy m g \<longleftrightarrow> policy_name (obj (preg g) (policy_for m (preg g))) \<in> set total_policies"

definition reaches :: "attempt_env \<Rightarrow> gateway \<Rightarrow> wref \<Rightarrow> bool" where
  "reaches env g r \<longleftrightarrow> fst (is_available (fst (ae_clock env r)) (snd (ae_clock env r)) (wst g r))"

lemma policy_for_ref: "pr_ok pr \<Longrightarrow> policy_for m pr < length (objs (heap pr))"
  using get_policy_refs [of _ pr] pd_refs(3) [of pr]
  by (fastforce simp: pr_ok_def policy_for_def get_policy_or_default_def get_default_policy_def split: option.splits)

lemma select_for_model_spec:
  assumes ok: "pr_ok (preg g)" and mo: "moment_ok (ae_moment env)"
  shows "\<exists>sel g'. select_worker_for_model rt hr (ae_moment env) (ae_clock env) m txt hs g = Some (sel, g') \<and>
    pr_ok (preg g') \<and> touches (preg g) (preg g') \<and> wreg g' = wreg g \<and> (\<forall>r. same_counts (wst g r) (wst g' r)) \<and>
    (\<forall>r. sel = Some r \<longrightarrow> r \<in> set (candidates hr m g) \<and> reaches env g r \<and> admits (wst g' r)) \<and>
    (sel = None \<longrightarrow> total_policy m g \<longrightarrow> (\<forall>r\<in>set (candidates hr m g). \<not> reaches env g r)) \<and>
    (policy_name (obj (preg g) (policy_for m (preg g))) = ''prefix_hash'' \<longrightarrow> sel = None)"
proof -
  obtain av st where f: "filter_available (ae_clock env) (candidates hr m g) (wst g) = (av, st)" by fastforce
  have counts: "same_counts (wst g r) (st r)" for r using filter_available_counts [of "wst g" r "ae_clock env" "candidates hr m g"] f by simp
  have av: "r \<in> set av \<longleftrightarrow> r \<in> set (candidates hr m g) \<and> reaches env g r" for r
    using filter_available_set [of r "ae_clock env" "candidates hr m g" "wst g"] f by (simp add: reaches_def)
  have adm: "admits (st r)" if "r \<in> set av" for r
    using filter_available_admits [of r "ae_clock env" "candidates hr m g" "wst g"] f that by simp
  show ?thesis
  proof (cases "av = []")
    case True
    then have "\<forall>r\<in>set (candidates hr m g). \<not> reaches env g r" using av by auto
    then show ?thesis using True f ok counts by (simp add: select_worker_for_model_def Let_def)
  next
    case False
    let ?ws = "map st av"
    let ?pol = "policy_for m (preg g)"
    let ?info = "\<lparr> request_text = txt, tokens = None, headers = hs,
      info_hash_ring = get_hash_ring (case effective_model hr m of Some m \<Rightarrow> m | None \<Rightarrow> rt_unknown rt) (wreg g) \<rparr>"
    have adms: "\<forall>w\<in>set ?ws. admits w" using adm by auto
    have hp: "heap_ok (heap (preg g))" "?pol < length (objs (heap (preg g)))" using ok policy_for_ref by (auto simp: pr_ok_def)
    from select_worker_spec [OF hp mo, of rt ?ws ?info] obtain i ws' h' ops where
      s: "select_worker rt (ae_moment env) ?ws ?info ?pol (heap (preg g)) = Some (i, ws', h', ops)" "heap_ok h'"
        "names h' = names (heap (preg g))" "selected_ok (policy_name (obj (preg g) ?pol)) (m_clock (ae_moment env)) ?ws i"
      using hp(2) by (auto simp: names_nth)
    have pl: "processed_list ?ws ws'" by (rule select_workers_after [OF adms s(1)])
    have touch: "touches (preg g) ((preg g)\<lparr> heap := h' \<rparr>)" using s(3) by (simp add: touches_def)
    have wb: "same_counts (wst g r) (write_back av ws' st r)" "admits (write_back av ws' st r) = admits (st r)" for r
      using write_back_processed [OF pl, of r] processed_only_keeps counts same_counts_trans by blast+
    have pfx: "i = None" if "policy_name (obj (preg g) ?pol) = ''prefix_hash''"
      using s(1) that by (cases "obj (preg g) ?pol") (auto simp: select_worker_def ph_select_worker_def ph_select_worker_impl_def)
    have ne: "\<exists>j. available (m_clock (ae_moment env)) ?ws j" using False by (auto simp: admitted_available [OF adms])
    have i: "j < length av" if "i = Some j" for j using s(4) that by (auto simp: selected_ok_def)
    have sel: "select_worker_for_model rt hr (ae_moment env) (ae_clock env) m txt hs g =
        Some (map_option (\<lambda>j. av ! j) i, g\<lparr> wst := write_back av ws' st, preg := (preg g)\<lparr> heap := h' \<rparr> \<rparr>)"
      using f False s(1) i by (cases i) (simp_all add: select_worker_for_model_def Let_def)
    have chosen: "r \<in> set av" if "map_option (\<lambda>j. av ! j) i = Some r" for r using that i by (cases i) auto
    have "i \<noteq> None" if "total_policy m g" using that s(4) ne by (auto simp: total_policy_def selected_ok_def)
    then show ?thesis
      using sel wb touch touches_ok [OF ok touch] s(2) pfx av adm chosen
      by (intro exI [of _ "map_option (\<lambda>j. av ! j) i"]
          exI [of _ "g\<lparr> wst := write_back av ws' st, preg := (preg g)\<lparr> heap := h' \<rparr> \<rparr>"] conjI allI impI) auto
  qed
qed

section \<open>Accounting of one attempt\<close>

definition breaker_map :: "(circuit_breaker \<Rightarrow> circuit_breaker) \<Rightarrow> worker \<Rightarrow> worker" where
  "breaker_map f = on_base (\<lambda>b. b\<lparr> bw_circuit_breaker := f (bw_circuit_breaker b) \<rparr>)"

lemma record_outcome_map: "worker_record_outcome t t' b = breaker_map (record_outcome t t' b)"
  by (simp add: worker_record_outcome_def breaker_map_def)

lemma breaker_map_id [simp]: "breaker_map (\<lambda>cb. cb) w = w"
  by (cases w) (simp_all add: breaker_map_def)

lemma breaker_map_keeps [simp]: "metadata (breaker_map f w) = metadata w" "same_counts w (breaker_map f w)"
  by (cases w; simp add: breaker_map_def metadata_def same_counts_def is_healthy_def get_load_def get_routing_key_load_def)+

text \<open>The counters of a worker have room for one more request.\<close>

definition countable_load :: "worker \<Rightarrow> bool" where
  "countable_load w \<longleftrightarrow> get_load w \<noteq> - 1 \<and> (\<forall>k. map_get (active_routing_keys (get_routing_key_load w)) k \<noteq> Some 0)"

lemma same_counts_countable: "same_counts w w' \<Longrightarrow> countable_load w' = countable_load w"
  by (simp add: same_counts_def countable_load_def)

lemma rk_cancel:
  assumes "map_get (active_routing_keys l) key \<noteq> Some 0"
  shows "rk_decrement key (rk_increment key l) = l"
proof (cases "map_get (active_routing_keys l) key")
  case None
  then have "map_remove key (map_modify_or_insert key (\<lambda>n. n + 1) 1 m) = m" if "m = active_routing_keys l" for m
  proof -
    have "map_remove key (m @ [(key, 1)]) = m" "map_insert key 1 m = m @ [(key, 1)]" if "map_get m key = None" for m :: "(string \<times> nat) list"
      using that by (induction m) (auto simp: map_remove_def split: if_splits)
    then show ?thesis using None that by (simp add: map_modify_or_insert_def contains_key_get)
  qed
  then show ?thesis using None by (simp add: rk_decrement_def rk_increment_def)
next
  case (Some n)
  have "map_and_modify key (\<lambda>n. n - 1) (map_and_modify key (\<lambda>n. n + 1) m) = m" for m :: "(string \<times> nat) list"
    by (induction m) (auto simp: map_and_modify_def)
  then show ?thesis using Some assms by (simp add: rk_decrement_def rk_increment_def map_modify_or_insert_def contains_key_get)
qed

lemma guard_cancel:
  assumes "countable_load w" "guard_new hs w = (k, w')"
  shows "guard_drop k w' = w" "metadata w' = metadata w"
proof -
  have load: "load_counter (base w) + 1 \<noteq> 0" using assms(1) by (simp add: countable_load_def get_load_def eq_neg_iff_add_eq_0)
  have rk: "map_get (active_routing_keys (bw_routing_key_load (base w))) key \<noteq> Some 0" for key
    using assms(1) by (simp add: countable_load_def get_routing_key_load_def)
  have "guard_drop (fst (guard_new hs w)) (snd (guard_new hs w)) = w"
    using load rk by (cases w; cases "extract_routing_key hs")
      (simp_all add: guard_new_def guard_drop_def Let_def increment_load_def bw_increment_load_def decrement_load_def
        bw_decrement_load_def rk_cancel)
  then show "guard_drop k w' = w" using assms(2) by simp
  have "metadata (snd (guard_new hs w)) = metadata w"
    by (cases w; cases "extract_routing_key hs")
      (simp_all add: guard_new_def Let_def increment_load_def bw_increment_load_def metadata_def)
  then show "metadata w' = metadata w" using assms(2) by simp
qed

lemma guard_drop_breaker: "guard_drop k (breaker_map f w) = breaker_map f (guard_drop k w)"
  by (cases w; cases k) (simp_all add: guard_drop_def breaker_map_def Let_def decrement_load_def bw_decrement_load_def)

text \<open>The terminal state of a stream after it has been polled.\<close>

definition polled :: "poll list \<Rightarrow> tracked_stream \<Rightarrow> tracked_stream" where
  "polled ps ts = foldl (\<lambda>ts p. poll_next p ts) ts ps"

lemma polled_spec:
  "ts_worker (polled ps ts) = ts_worker ts \<and>
   ts_terminal (polled ps ts) =
     (if ReadyErr \<in> set ps \<or> ts_terminal ts = Errored then Errored
      else if ReadyNone \<in> set ps \<or> ts_terminal ts = Completed then Completed else Active)"
  unfolding polled_def
proof (induction ps arbitrary: ts)
  case Nil
  then show ?case by (cases "ts_terminal ts") auto
next
  case (Cons p ps)
  then show ?case by (cases p; cases "ts_terminal ts") auto
qed

text \<open>The client reads the body of a response and drops it.\<close>

definition finish :: "u64 \<times> u64 \<Rightarrow> poll list \<Rightarrow> response \<Rightarrow> wstore \<Rightarrow> wstore" where
  "finish now ps resp st =
     drop_response now (case resp_body resp of StreamBody ts \<Rightarrow> resp\<lparr> resp_body := StreamBody (polled ps ts) \<rparr> | _ \<Rightarrow> resp) st"

text \<open>
  What the breaker of the worker should be told of an attempt, and when: the status for a plain
  request; for a stream a failure when it was not sent, had an error status or broke, a success
  when it ended, and nothing when the client left before.
\<close>

definition verdict ::
    "u64 \<times> u64 \<Rightarrow> u64 \<times> u64 \<Rightarrow> bool \<Rightarrow> response + out_request \<Rightarrow> (out_request \<Rightarrow> upstream) \<Rightarrow> poll list \<Rightarrow> ((u64 \<times> u64) \<times> bool) option" where
  "verdict now now' is_stream built net ps =
     (case built of
        Inl resp \<Rightarrow> if is_stream then None else Some (now, is_success (resp_status resp))
      | Inr req \<Rightarrow>
          (case net req of
             SendFailed e \<Rightarrow> Some (now, \<not> is_stream \<and> is_success (resp_status (convert_reqwest_error e)))
           | Replied status hdrs body \<Rightarrow>
               if \<not> is_stream then Some (now, body \<noteq> None \<and> is_success status)
               else if \<not> is_success status \<or> ReadyErr \<in> set ps then Some (now', False)
               else if ReadyNone \<in> set ps then Some (now', True)
               else None))"

definition tell :: "((u64 \<times> u64) \<times> bool) option \<Rightarrow> circuit_breaker \<Rightarrow> circuit_breaker" where
  "tell v cb = (case v of Some (now, b) \<Rightarrow> record_outcome (fst now) (snd now) b cb | None \<Rightarrow> cb)"

lemma tell_simps [simp]: "tell None = (\<lambda>cb. cb)" "tell (Some (now, b)) = record_outcome (fst now) (snd now) b"
  by (simp_all add: tell_def fun_eq_iff)

lemma build_request_cong: "metadata w' = metadata w \<Longrightarrow> build_request hr hs body route w' = build_request hr hs body route w"
  by (simp add: build_request_def url_def api_key_def)

text \<open>A worker under its guard, if the policy wants one.\<close>

definition guarded_as :: "header_map option \<Rightarrow> wref \<Rightarrow> wstore \<Rightarrow> (wref \<times> string option) option \<Rightarrow> worker \<Rightarrow> bool" where
  "guarded_as hs r st gd w \<longleftrightarrow> (gd = None \<and> w = st r) \<or> (\<exists>k. gd = Some (r, k) \<and> guard_new hs (st r) = (k, w))"

lemma drop_guard_cancel:
  assumes "guarded_as hs r st gd w" "countable_load (st r)"
  shows "drop_guard gd (st(r := breaker_map f w)) = st(r := breaker_map f (st r))"
  using assms guard_cancel(1) [OF assms(2)] by (auto simp: guarded_as_def drop_guard_def guard_drop_breaker)

lemma drop_guard_cancel0:
  assumes "guarded_as hs r st gd w" "countable_load (st r)"
  shows "drop_guard gd (st(r := w)) = st"
  using drop_guard_cancel [OF assms, of "\<lambda>cb. cb"] by simp

text \<open>The end of an attempt: the outcome of a plain request is recorded after the call.\<close>

definition after_send :: "bool \<Rightarrow> u64 \<times> u64 \<Rightarrow> wref \<Rightarrow> response \<times> wstore \<Rightarrow> wstore" where
  "after_send is_stream now r res =
     (if \<not> is_stream then (snd res)(r := worker_record_outcome (fst now) (snd now) (is_success (resp_status (fst res))) (snd res r))
      else snd res)"

lemma error_simps [simp]:
  "resp_body (create_error s c msg) = ErrorBody c msg" "resp_guard (create_error s c msg) = None" "resp_status (create_error s c msg) = s"
  by (simp_all add: create_error_def)

lemma build_request_error: "build_request hr hs body route w = Inl resp \<Longrightarrow> \<exists>s c msg. resp = create_error s c msg"
  by (auto simp: build_request_def Let_def internal_error_def bad_request_def split: if_splits sum.splits prod.splits option.splits json.splits)

lemma convert_error: "\<exists>s c msg. convert_reqwest_error e = create_error s c msg"
  by (auto simp: convert_reqwest_error_def split_beta)

lemma send_accounts:
  fixes net :: "out_request \<Rightarrow> upstream" and now now' :: "u64 \<times> u64" and is_stream :: bool
  assumes gd: "guarded_as hs0 r st gd w" and room: "countable_load (st r)"
    and built: "build_request hr hs body route (st r) = built"
  defines "res \<equiv> send_typed_request hr net now hs body route r is_stream gd (st(r := w))"
  shows "finish now' ps (fst res) (after_send is_stream now r res) =
    st(r := breaker_map (tell (verdict now now' is_stream built net ps)) (st r))"
proof -
  have b: "build_request hr hs body route ((st(r := w)) r) = built"
    using gd guard_cancel(2) [OF room] built by (auto simp: guarded_as_def intro: build_request_cong)
  note drop = drop_guard_cancel [OF gd room] drop_guard_cancel0 [OF gd room]
  have err: "finish now' ps (create_error s c msg) st' = st'" for s c msg st'
    by (simp add: finish_def drop_response_def drop_guard_def)
  show ?thesis
  proof (cases built)
    case (Inl resp)
    then obtain s c msg where "resp = create_error s c msg" using build_request_error built by blast
    then show ?thesis using b Inl drop err
      by (simp add: res_def send_typed_request_def after_send_def verdict_def record_outcome_map)
  next
    case (Inr req)
    show ?thesis
    proof (cases "net req")
      case (SendFailed e)
      obtain s c msg where e: "convert_reqwest_error e = create_error s c msg" using convert_error by blast
      show ?thesis using b Inr SendFailed drop err e
        by (simp add: res_def send_typed_request_def after_send_def verdict_def record_outcome_map)
    next
      case (Replied status hdrs rbody)
      show ?thesis
      proof (cases is_stream)
        case False
        show ?thesis using b Inr Replied False drop err
          by (cases rbody) (simp_all add: res_def send_typed_request_def after_send_def verdict_def record_outcome_map
              internal_error_def finish_def drop_response_def is_success_def drop_guard_def)
      next
        case True
        let ?ts = "if is_success status then tracked_new r else mark_errored (tracked_new r)"
        have ts: "ts_worker (polled ps ?ts) = r" "ts_terminal (polled ps ?ts) =
            (if ReadyErr \<in> set ps \<or> \<not> is_success status then Errored else if ReadyNone \<in> set ps then Completed else Active)"
          using polled_spec [of ps ?ts] by (simp_all add: tracked_new_def mark_errored_def)
        have "fst res = \<lparr> resp_status = status,
              resp_headers = header_insert (preserve_response_headers hdrs) ''content-type'' ''text/event-stream'',
              resp_body = StreamBody ?ts, resp_guard = gd \<rparr>" "after_send is_stream now r res = st(r := w)"
          using b Inr Replied True by (simp_all add: res_def send_typed_request_def after_send_def Let_def)
        then show ?thesis using True Inr Replied drop ts
          by (simp add: finish_def drop_response_def tracked_drop_def verdict_def record_outcome_map)
      qed
    qed
  qed
qed

text \<open>What the router hands to the worker.\<close>

definition built_for ::
    "http_router \<Rightarrow> (header_map \<Rightarrow> header_map) \<Rightarrow> header_map option \<Rightarrow> json option \<Rightarrow> string \<Rightarrow> worker \<Rightarrow> response + out_request" where
  "built_for hr inject_trace hs body route w =
     build_request hr (Some (inject_trace (case hs of Some h \<Rightarrow> h | None \<Rightarrow> []))) body route w"

lemma once_accounts:
  assumes sel: "select_worker_for_model rt hr (ae_moment env) (ae_clock env) m (Some txt) hs g = Some (Some r, g1)"
    and room: "countable_load (wst g1 r)"
  shows "\<exists>resp g'. route_typed_request_once rt hr inject_trace env hs body route m is_stream txt g = Some (resp, g') \<and>
    wreg g' = wreg g1 \<and> preg g' = preg g1 \<and>
    (\<forall>now' ps. finish now' ps resp (wst g') = (wst g1)(r := breaker_map
       (tell (verdict (ae_now env) now' is_stream (built_for hr inject_trace hs body route (wst g1 r)) (ae_net env) ps)) (wst g1 r)))"
proof -
  define gd where "gd = (if policy_name (obj (preg g1) (policy_for m (preg g1))) \<in> {''cache_aware'', ''manual''}
    then Some (r, fst (guard_new hs (wst g1 r))) else None)"
  define w where "w = (if policy_name (obj (preg g1) (policy_for m (preg g1))) \<in> {''cache_aware'', ''manual''}
    then snd (guard_new hs (wst g1 r)) else wst g1 r)"
  have g: "guarded_as hs r (wst g1) gd w" by (cases "guard_new hs (wst g1 r)") (simp add: guarded_as_def gd_def w_def)
  let ?hs = "Some (inject_trace (case hs of Some h \<Rightarrow> h | None \<Rightarrow> []))"
  let ?res = "send_typed_request hr (ae_net env) (ae_now env) ?hs body route r is_stream gd ((wst g1)(r := w))"
  have start: "(if policy_name (obj (preg g1) (policy_for m (preg g1))) \<in> {''cache_aware'', ''manual''}
      then let (k, w) = guard_new hs (wst g1 r) in (Some (r, k), (wst g1)(r := w)) else (None, wst g1)) = (gd, (wst g1)(r := w))"
    by (simp add: gd_def w_def split_beta)
  have once: "route_typed_request_once rt hr inject_trace env hs body route m is_stream txt g =
      Some (fst ?res, g1\<lparr> wst := after_send is_stream (ae_now env) r ?res \<rparr>)"
    unfolding route_typed_request_once_def sel by (simp add: start split_beta Let_def after_send_def del: insert_iff)
  show ?thesis
    using once send_accounts [OF g room refl, where hr = hr and hs = ?hs and body = body and route = route
        and net = "ae_net env" and now = "ae_now env" and is_stream = is_stream]
    by (simp add: built_for_def)
qed

section \<open>Properties\<close>

text \<open>
  C2: accounting.  One attempt that found a worker, followed by whatever the client does with the
  body of the response, changes nothing but the breaker of that worker: the load and the routing
  keys are as before, and the breaker was told one verdict at most, the one the outcome deserves.
\<close>

theorem attempt_accounts:
  assumes sel: "select_worker_for_model rt hr (ae_moment env) (ae_clock env) m (Some txt) hs g = Some (Some r, g1)"
    and room: "countable_load (wst g1 r)"
  shows "\<exists>resp g'. route_typed_request_once rt hr inject_trace env hs body route m is_stream txt g = Some (resp, g') \<and>
    finish now' ps resp (wst g') = (wst g1)(r := breaker_map
       (tell (verdict (ae_now env) now' is_stream (built_for hr inject_trace hs body route (wst g1 r)) (ae_net env) ps)) (wst g1 r))"
  using once_accounts [OF assms, of inject_trace body route is_stream] by blast

text \<open>A gateway with one worker and the round-robin policy.\<close>

definition sample_gateway :: gateway where
  "sample_gateway = \<lparr> wst = (\<lambda>r. Basic (sample_worker ''http://a'')), wreg = worker_registry_new\<lparr> reg_workers := [(''id'', 0)] \<rparr>,
     preg = policy_registry_new (\<lambda>f. None) 0 PC_RoundRobin heap_empty \<rparr>"

definition sample_router :: http_router where
  "sample_router = \<lparr> hr_dp_aware = False, hr_enable_igw = False, hr_retry_config = retry_config_default \<rparr>"

definition sample_env :: attempt_env where
  "sample_env = \<lparr> ae_moment = \<lparr> m_rng1 = draw 3, m_rng2 = draw 4, m_now = 0, m_fresh = [], m_clock = (\<lambda>i. (0, 0)) \<rparr>,
     ae_clock = (\<lambda>r. (0, 0)), ae_now = (0, 0), ae_net = (\<lambda>req. Replied 200 [] (Some ''ok'')) \<rparr>"

lemma sample_worker_checks:
  "admits (Basic (sample_worker u))" "countable_load (Basic (sample_worker u))"
  "get_worker_type (Basic (sample_worker u)) = Regular" "get_connection_mode (Basic (sample_worker u)) = Http"
  by (simp_all add: admits_def countable_load_def get_load_def get_routing_key_load_def is_healthy_def get_worker_type_def
      get_connection_mode_def metadata_def sample_worker_def build_def builder_new_def builder_new_with_type_def
      routing_key_load_new_def with_config_and_label_def from_int_def STATE_CLOSED_def STATE_OPEN_def STATE_HALF_OPEN_def Let_def)

lemma sample_gateway_ok: "pr_ok (preg sample_gateway)" "moment_ok (ae_moment sample_env)" "\<forall>r. countable_load (wst sample_gateway r)"
  using policy_registry_new_ok [of heap_empty]
  by (simp_all add: sample_gateway_def sample_env_def moment_ok_def draw_ok sample_worker_checks heap_ok_def heap_empty_def)

lemma sample_selects: "\<exists>r g1. select_worker_for_model rt sample_router (ae_moment sample_env) (ae_clock sample_env) m txt hs sample_gateway = Some (Some r, g1) \<and>
  countable_load (wst g1 r)"
proof -
  from select_for_model_spec [OF sample_gateway_ok(1,2), of rt sample_router m "txt" hs] obtain sel g' where
    s: "select_worker_for_model rt sample_router (ae_moment sample_env) (ae_clock sample_env) m txt hs sample_gateway = Some (sel, g')"
      "\<forall>r. same_counts (wst sample_gateway r) (wst g' r)"
      "sel = None \<longrightarrow> total_policy m sample_gateway \<longrightarrow> (\<forall>r\<in>set (candidates sample_router m sample_gateway). \<not> reaches sample_env sample_gateway r)"
    by blast
  have "total_policy m sample_gateway"
    by (simp add: total_policy_def sample_gateway_def policy_registry_new_def policy_for_def get_policy_or_default_def get_policy_def
        get_default_policy_def alloc_def heap_empty_def total_policies_def split: option.splits)
  moreover have "0 \<in> set (candidates sample_router m sample_gateway)"
    by (simp add: candidates_def effective_model_def sample_router_def sample_gateway_def get_workers_filtered_def get_all_def
        passes_filter_def sample_worker_checks)
  moreover have "reaches sample_env sample_gateway 0"
    by (simp add: reaches_def sample_gateway_def admits_available sample_worker_checks)
  ultimately obtain r where "sel = Some r" using s(3) by (cases sel) auto
  then show ?thesis using s(1,2) sample_gateway_ok(3) same_counts_countable by blast
qed

theorem attempt_accounts_witness:
  "\<exists>r (g1 :: gateway) resp g'. route_typed_request_once sample_runtime sample_router (\<lambda>h. h) sample_env None None ''/generate'' None True [104] sample_gateway =
      Some (resp, g') \<and>
    finish (5, 5) [ReadyErr] resp (wst g') = (wst g1)(r := breaker_map (record_outcome 5 5 False) (wst g1 r))"
proof -
  obtain r g1 where s: "select_worker_for_model sample_runtime sample_router (ae_moment sample_env) (ae_clock sample_env) None (Some [104]) None
      sample_gateway = Some (Some r, g1)" "countable_load (wst g1 r)" using sample_selects by blast
  have v: "verdict (ae_now sample_env) (5, 5) True (built_for sample_router (\<lambda>h. h) None None ''/generate'' (wst g1 r)) (ae_net sample_env) [ReadyErr]
      = Some ((5, 5), False)"
    by (simp add: verdict_def built_for_def build_request_def sample_router_def sample_env_def Let_def)
  show ?thesis
    using attempt_accounts [OF s, where inject_trace = "\<lambda>h. h" and body = None and route = "''/generate''" and is_stream = True
        and now' = "(5, 5)" and ps = "[ReadyErr]"]
    unfolding v tell_simps fst_conv snd_conv by blast
qed

text \<open>
  C10: choice of a worker.  In every consistent state the choice returns; a chosen worker was a
  candidate for the model, available when it was checked, and still healthy and admitted by its
  breaker afterwards, whatever the policy; the policies that look at availability choose one whenever a
  candidate is available; under the prefix-hash policy, which needs tokens, none is ever chosen.
\<close>

theorem router_chooses_available:
  assumes "pr_ok (preg g)" "moment_ok (ae_moment env)"
  shows "\<exists>sel g'. select_worker_for_model rt hr (ae_moment env) (ae_clock env) m txt hs g = Some (sel, g') \<and>
    pr_ok (preg g') \<and> (\<forall>r. same_counts (wst g r) (wst g' r)) \<and>
    (\<forall>r. sel = Some r \<longrightarrow> r \<in> set (candidates hr m g) \<and> reaches env g r \<and> admits (wst g' r)) \<and>
    (sel = None \<longrightarrow> total_policy m g \<longrightarrow> (\<forall>r\<in>set (candidates hr m g). \<not> reaches env g r)) \<and>
    (policy_name (obj (preg g) (policy_for m (preg g))) = ''prefix_hash'' \<longrightarrow> sel = None)"
  using select_for_model_spec [OF assms, of rt hr m "txt" hs] by blast

theorem router_chooses_available_witness:
  "\<exists>sel g'. select_worker_for_model sample_runtime sample_router (ae_moment sample_env) (ae_clock sample_env) (Some ''m'') None None sample_gateway =
    Some (sel, g') \<and> pr_ok (preg g')"
  using router_chooses_available [OF sample_gateway_ok(1,2), of sample_runtime sample_router "Some ''m''" None None] by blast

text \<open>The states between the attempts of one request: nothing is held but by the last response.\<close>

definition settled :: "wstore \<Rightarrow> attempt_state \<Rightarrow> bool" where
  "settled st0 s \<longleftrightarrow> pr_ok (preg (at_gateway s)) \<and>
     (\<forall>now r. same_counts (st0 r)
       (case at_response s of Some resp \<Rightarrow> drop_response now resp (wst (at_gateway s)) r | None \<Rightarrow> wst (at_gateway s) r))"

lemma finish_no_polls: "finish now [] resp st = drop_response now resp st"
  by (cases "resp_body resp") (simp_all add: finish_def polled_def drop_response_def)

lemma service_unavailable_drop: "drop_response now (service_unavailable c msg) st = st"
  by (simp add: drop_response_def drop_guard_def service_unavailable_def)

lemma attempt_settled:
  assumes s: "settled st0 s" and mo: "moment_ok (ae_moment (env k))" and room: "\<forall>r. countable_load (st0 r)"
  shows "\<exists>resp s'. attempt rt hr inject_trace env hs body route m is_stream txt k s = (Some resp, s') \<and>
    at_response s' = Some resp \<and> settled st0 s'"
proof -
  define g where "g = (case at_response s of
    Some resp \<Rightarrow> (at_gateway s)\<lparr> wst := drop_response (ae_now (env k)) resp (wst (at_gateway s)) \<rparr> | None \<Rightarrow> at_gateway s)"
  have g: "pr_ok (preg g)" "same_counts (st0 r) (wst g r)" for r
    using s unfolding settled_def g_def by (cases "at_response s"; simp del: split_paired_All)+
  from select_for_model_spec [OF g(1) mo, of rt hr m "Some txt" hs] obtain sel g1 where
    sel: "select_worker_for_model rt hr (ae_moment (env k)) (ae_clock (env k)) m (Some txt) hs g = Some (sel, g1)"
      "pr_ok (preg g1)" "\<And>r. same_counts (wst g r) (wst g1 r)" by blast
  have c1: "same_counts (st0 r) (wst g1 r)" for r using g(2) sel(3) same_counts_trans by blast
  have "\<exists>resp g'. route_typed_request_once rt hr inject_trace (env k) hs body route m is_stream txt g = Some (resp, g') \<and>
      pr_ok (preg g') \<and> (\<forall>now r. same_counts (st0 r) (drop_response now resp (wst g') r))"
  proof (cases sel)
    case None
    then show ?thesis using sel c1 by (simp add: route_typed_request_once_def service_unavailable_drop)
  next
    case (Some r)
    have "countable_load (wst g1 r)" using room same_counts_countable [OF c1] by blast
    from once_accounts [OF sel(1) [unfolded Some] this, of inject_trace body route is_stream] obtain resp g' where
      o: "route_typed_request_once rt hr inject_trace (env k) hs body route m is_stream txt g = Some (resp, g')" "preg g' = preg g1"
        "\<And>now'. \<exists>f. finish now' [] resp (wst g') = (wst g1)(r := breaker_map f (wst g1 r))" by blast
    have "same_counts (st0 r') (drop_response now' resp (wst g') r')" for now' r'
      using o(3) [of now'] c1 [of r'] same_counts_trans [OF c1 breaker_map_keeps(2)] by (auto simp: finish_no_polls)
    then show ?thesis using o(1,2) sel(2) by auto
  qed
  then obtain resp g' where "route_typed_request_once rt hr inject_trace (env k) hs body route m is_stream txt g = Some (resp, g')"
    "pr_ok (preg g')" "\<forall>now r. same_counts (st0 r) (drop_response now resp (wst g') r)" by blast
  then show ?thesis by (cases "at_response s") (simp_all add: attempt_def g_def settled_def)
qed

lemma attempts_settled:
  assumes "settled st0 s" "\<forall>k. moment_ok (ae_moment (env k))" "\<forall>r. countable_load (st0 r)"
  shows "settled st0 (state_before (attempt rt hr inject_trace env hs body route m is_stream txt) 0 n s)"
proof (induction n)
  case (Suc n)
  let ?op = "attempt rt hr inject_trace env hs body route m is_stream txt"
  have step: "settled st0 s \<Longrightarrow> settled st0 (snd (?op k s))" for k s
    using attempt_settled [of st0 s env k rt hr inject_trace hs body route m is_stream "txt"] assms(2,3) by fastforce
  show ?case using step [OF Suc] by (simp add: state_before_Suc del: state_before.simps)
qed (simp add: assms(1))

text \<open>
  C6: a request with its retries.  It always ends with a response after at least one and at most
  the configured number of attempts; all attempts but the last had a retryable status, and the last
  has one only when the attempts are used up; and when that response has been dropped, the load and
  the routing keys of every worker are what they were before the request.
\<close>

theorem request_returns_balanced:
  assumes "pr_ok (preg g)" "\<forall>k. moment_ok (ae_moment (env k))" "\<forall>r. countable_load (wst g r)"
  shows "\<exists>resp s k. k < max (unat (max_retries (hr_retry_config hr))) 1 \<and>
    route_typed_request rt hr inject_trace env jitter hs body route m is_stream txt g =
      (Some resp, s, map (backoff_at (hr_retry_config hr) jitter) [0..<k] @
        (if is_retryable_status (resp_status resp) then [Exhausted] else [])) \<and>
    (is_retryable_status (resp_status resp) \<longrightarrow> Suc k = max (unat (max_retries (hr_retry_config hr))) 1) \<and>
    (\<forall>now r. same_counts (wst g r) (drop_response now resp (wst (at_gateway s)) r))"
proof -
  let ?op = "attempt rt hr inject_trace env hs body route m is_stream txt" and ?s = "\<lparr> at_gateway = g, at_response = None \<rparr>"
  have s0: "settled (wst g) ?s" using assms(1) by (simp add: settled_def)
  obtain k where k: "k < max (unat (max_retries (hr_retry_config hr))) 1"
      "should_retry_response (response_of ?op 0 k ?s) k \<longrightarrow> Suc k = max (unat (max_retries (hr_retry_config hr))) 1"
      "route_typed_request rt hr inject_trace env jitter hs body route m is_stream txt g =
        (response_of ?op 0 k ?s, state_before ?op 0 (Suc k) ?s, map (backoff_at (hr_retry_config hr) jitter) [0..<k] @
          (if should_retry_response (response_of ?op 0 k ?s) k then [Exhausted] else []))"
    using retry_execute_spec [of "hr_retry_config hr" should_retry_response ?op ?s jitter] unfolding route_typed_request_def by blast
  have before: "settled (wst g) (state_before ?op 0 k ?s)" by (rule attempts_settled [OF s0 assms(2,3)])
  obtain resp s' where a: "?op k (state_before ?op 0 k ?s) = (Some resp, s')" "at_response s' = Some resp" "settled (wst g) s'"
    using attempt_settled [OF before _ assms(3)] assms(2) by blast
  have r: "response_of ?op 0 k ?s = Some resp" "state_before ?op 0 (Suc k) ?s = s'"
    using a(1) by (simp_all add: response_of_def state_before_Suc del: state_before.simps)
  have "same_counts (wst g q) (drop_response now resp (wst (at_gateway s')) q)" for now q
    using a(2,3) by (simp add: settled_def del: split_paired_All)
  then show ?thesis using k unfolding r should_retry_response_def by (intro exI [of _ resp] exI [of _ s'] exI [of _ k]) simp
qed

theorem request_returns_balanced_witness:
  "\<exists>resp s k. route_typed_request sample_runtime sample_router (\<lambda>h. h) (\<lambda>k. sample_env) (\<lambda>k. 0) None None ''/generate'' None True [104] sample_gateway =
      (Some resp, s, map (backoff_at (hr_retry_config sample_router) (\<lambda>k. 0)) [0..<k] @
        (if is_retryable_status (resp_status resp) then [Exhausted] else [])) \<and>
    (\<forall>now r. same_counts (wst sample_gateway r) (drop_response now resp (wst (at_gateway s)) r))"
  using request_returns_balanced [of sample_gateway "\<lambda>k. sample_env" sample_router sample_runtime "\<lambda>h. h" "\<lambda>k. 0" None None
      "''/generate''" None True "[104]"] sample_gateway_ok by blast

end
