(* ===== verification/Config.thy ===== *)
theory Config
  imports Policy_Registry Retry
begin

text \<open>
  The configuration of the gateway: the data of \<open>src/gateway/src/config/types.rs\<close>, the errors of
  \<open>config/mod.rs\<close>, the validator of \<open>config/validation.rs\<close> and the builder of
  \<open>config/builder.rs\<close>.

  Rejecting is a value: a validator returns \<open>Inl\<close> of the error or \<open>Inr ()\<close>, and a sequence of
  \<open>?\<close> is the first error of a list.  The value an error prints is kept before it is printed.
  The storage and MCP settings of other crates are opaque values of the type parameter \<open>'x\<close>; of
  the Oracle settings the record holds the fields the validator reads.  \<open>url::Url::parse\<close>, the
  file system and the YAML parser are arguments.  Floating-point settings are finite numbers.
\<close>

section \<open>Errors\<close>

datatype config_value = V_Num int | V_Float real | V_Str string

datatype config_error =
    ValidationFailed string
  | InvalidValue string config_value string
  | IncompatibleConfig string
  | MissingRequired string

type_synonym config_result = "config_error + unit"

abbreviation Ok :: config_result where
  "Ok \<equiv> Inr ()"

definition reject_if :: "bool \<Rightarrow> config_error \<Rightarrow> config_result" where
  "reject_if bad err = (if bad then Inl err else Ok)"

fun first_err :: "config_result list \<Rightarrow> config_result" where
  "first_err [] = Ok"
| "first_err (r # rs) = (case r of Inl err \<Rightarrow> Inl err | Inr _ \<Rightarrow> first_err rs)"

abbreviation invalid_u :: "string \<Rightarrow> nat \<Rightarrow> string \<Rightarrow> config_error" where
  "invalid_u field v reason \<equiv> InvalidValue field (V_Num (int v)) reason"

section \<open>Settings\<close>

record tokenizer_cache_config =
  enable_l0 :: bool
  l0_max_entries :: usize
  enable_l1 :: bool
  l1_max_memory :: usize

definition tokenizer_cache_config_default :: tokenizer_cache_config where
  "tokenizer_cache_config_default =
     \<lparr> enable_l0 = False, l0_max_entries = 10000, enable_l1 = False, l1_max_memory = 50 * 1024 * 1024 \<rparr>"

definition tokenizer_cache_to_option :: "tokenizer_cache_config \<Rightarrow> tokenizer_cache_config option" where
  "tokenizer_cache_to_option c = (if enable_l0 c \<or> enable_l1 c then Some c else None)"

datatype routing_mode =
    RM_Regular "string list"
  | RM_PrefillDecode "(string \<times> u16 option) list" "string list" "policy_config option" "policy_config option"
  | RM_OpenAI "string list"

fun is_pd_mode :: "routing_mode \<Rightarrow> bool" where
  "is_pd_mode (RM_PrefillDecode _ _ _ _) = True"
| "is_pd_mode _ = False"

fun worker_count :: "routing_mode \<Rightarrow> nat" where
  "worker_count (RM_Regular worker_urls) = length worker_urls"
| "worker_count (RM_PrefillDecode prefill_urls decode_urls _ _) = length prefill_urls + length decode_urls"
| "worker_count (RM_OpenAI _) = 1"

fun mode_prefill_policy :: "routing_mode \<Rightarrow> policy_config \<Rightarrow> policy_config" where
  "mode_prefill_policy (RM_PrefillDecode _ _ pp _) main_policy =
     (case pp of Some p \<Rightarrow> p | None \<Rightarrow> main_policy)"
| "mode_prefill_policy _ main_policy = main_policy"

fun mode_decode_policy :: "routing_mode \<Rightarrow> policy_config \<Rightarrow> policy_config" where
  "mode_decode_policy (RM_PrefillDecode _ _ _ dp) main_policy =
     (case dp of Some p \<Rightarrow> p | None \<Rightarrow> main_policy)"
| "mode_decode_policy _ main_policy = main_policy"

fun policy_config_name :: "policy_config \<Rightarrow> string" where
  "policy_config_name PC_Random = ''random''"
| "policy_config_name PC_RoundRobin = ''round_robin''"
| "policy_config_name (PC_CacheAware _ _ _ _ _) = ''cache_aware''"
| "policy_config_name (PC_PowerOfTwo _) = ''power_of_two''"
| "policy_config_name (PC_Bucket _ _ _) = ''bucket''"
| "policy_config_name (PC_Manual _ _ _ _) = ''manual''"
| "policy_config_name PC_ConsistentHashing = ''consistent_hashing''"
| "policy_config_name (PC_PrefixHash _ _) = ''prefix_hash''"

record discovery_config =
  dc_enabled :: bool
  dc_namespace :: "string option"
  dc_port :: u16
  dc_check_interval_secs :: u64
  dc_selector :: "(string \<times> string) list"
  dc_prefill_selector :: "(string \<times> string) list"
  dc_decode_selector :: "(string \<times> string) list"
  dc_bootstrap_port_annotation :: string
  dc_router_selector :: "(string \<times> string) list"
  dc_router_mesh_port_annotation :: string

definition discovery_config_default :: discovery_config where
  "discovery_config_default =
     \<lparr> dc_enabled = False, dc_namespace = None, dc_port = 8000, dc_check_interval_secs = 120,
       dc_selector = [], dc_prefill_selector = [], dc_decode_selector = [],
       dc_bootstrap_port_annotation = ''sglang.ai/bootstrap-port'', dc_router_selector = [],
       dc_router_mesh_port_annotation = ''sglang.ai/mesh-port'' \<rparr>"

record health_check_config =
  hcc_failure_threshold :: u32
  hcc_success_threshold :: u32
  hcc_timeout_secs :: u64
  hcc_check_interval_secs :: u64
  hcc_endpoint :: string
  hcc_disable_health_check :: bool

definition health_check_config_default :: health_check_config where
  "health_check_config_default =
     \<lparr> hcc_failure_threshold = 3, hcc_success_threshold = 2, hcc_timeout_secs = 5,
       hcc_check_interval_secs = 60, hcc_endpoint = ''/health'', hcc_disable_health_check = False \<rparr>"

record cb_settings =
  cs_failure_threshold :: u32
  cs_success_threshold :: u32
  cs_timeout_duration_secs :: u64
  cs_window_duration_secs :: u64

definition cb_settings_default :: cb_settings where
  "cb_settings_default =
     \<lparr> cs_failure_threshold = 10, cs_success_threshold = 3, cs_timeout_duration_secs = 60,
       cs_window_duration_secs = 120 \<rparr>"

record metrics_config =
  mx_port :: u16
  mx_host :: string

definition metrics_config_default :: metrics_config where
  "metrics_config_default = \<lparr> mx_port = 29000, mx_host = ''0.0.0.0'' \<rparr>"

record trace_config =
  enable_trace :: bool
  otlp_traces_endpoint :: string

definition trace_config_default :: trace_config where
  "trace_config_default = \<lparr> enable_trace = False, otlp_traces_endpoint = ''localhost:4317'' \<rparr>"

datatype history_backend = HB_Memory | HB_None | HB_Oracle | HB_Postgres | HB_Redis

record oracle_config =
  oc_username :: string
  oc_password :: string
  oc_connect_descriptor :: string
  oc_pool_min :: nat
  oc_pool_max :: nat
  oc_pool_timeout_secs :: nat

record 'x router_config =
  rc_mode :: routing_mode
  rc_connection_mode :: connection_mode
  rc_policy :: policy_config
  rc_host :: string
  rc_port :: u16
  rc_max_payload_size :: usize
  rc_request_timeout_secs :: u64
  rc_worker_startup_timeout_secs :: u64
  rc_worker_startup_check_interval_secs :: u64
  rc_dp_aware :: bool
  rc_api_key :: "string option"
  rc_discovery :: "discovery_config option"
  rc_metrics :: "metrics_config option"
  rc_trace_config :: "trace_config option"
  rc_log_dir :: "string option"
  rc_log_level :: "string option"
  rc_request_id_headers :: "string list option"
  rc_pool_idle_timeout_secs :: u64
  rc_connect_timeout_secs :: u64
  rc_pool_max_idle_per_host :: usize
  rc_tcp_keepalive_secs :: u64
  rc_max_concurrent_requests :: int
  rc_queue_size :: usize
  rc_queue_timeout_secs :: u64
  rc_rate_limit_tokens_per_second :: "int option"
  rc_cors_allowed_origins :: "string list"
  rc_retry :: retry_config
  rc_circuit_breaker :: cb_settings
  rc_disable_retries :: bool
  rc_disable_circuit_breaker :: bool
  rc_health_check :: health_check_config
  rc_enable_igw :: bool
  rc_model_path :: "string option"
  rc_tokenizer_path :: "string option"
  rc_chat_template :: "string option"
  rc_history_backend :: history_backend
  rc_oracle :: "oracle_config option"
  rc_postgres :: "'x option"
  rc_redis :: "'x option"
  rc_reasoning_parser :: "string option"
  rc_tool_call_parser :: "string option"
  rc_tokenizer_cache :: tokenizer_cache_config
  rc_server_cert :: "byte list option"
  rc_server_key :: "byte list option"
  rc_client_identity :: "byte list option"
  rc_ca_certificates :: "byte list list"
  rc_mcp_config :: "'x option"
  rc_enable_wasm :: bool

definition router_config_default :: "'x router_config" where
  "router_config_default =
     \<lparr> rc_mode = RM_Regular [], rc_connection_mode = Http, rc_policy = PC_Random, rc_host = ''0.0.0.0'',
       rc_port = 3001, rc_max_payload_size = 536870912, rc_request_timeout_secs = 1800,
       rc_worker_startup_timeout_secs = 1800, rc_worker_startup_check_interval_secs = 30,
       rc_dp_aware = False, rc_api_key = None, rc_discovery = None, rc_metrics = None,
       rc_trace_config = None, rc_log_dir = None, rc_log_level = None, rc_request_id_headers = None,
       rc_pool_idle_timeout_secs = 50, rc_connect_timeout_secs = 10, rc_pool_max_idle_per_host = 500,
       rc_tcp_keepalive_secs = 30, rc_max_concurrent_requests = - 1, rc_queue_size = 100,
       rc_queue_timeout_secs = 60, rc_rate_limit_tokens_per_second = None, rc_cors_allowed_origins = [],
       rc_retry = retry_config_default, rc_circuit_breaker = cb_settings_default,
       rc_disable_retries = False, rc_disable_circuit_breaker = False,
       rc_health_check = health_check_config_default, rc_enable_igw = False, rc_model_path = None,
       rc_tokenizer_path = None, rc_chat_template = None, rc_history_backend = HB_Memory,
       rc_oracle = None, rc_postgres = None, rc_redis = None, rc_reasoning_parser = None,
       rc_tool_call_parser = None, rc_tokenizer_cache = tokenizer_cache_config_default,
       rc_server_cert = None, rc_server_key = None, rc_client_identity = None, rc_ca_certificates = [],
       rc_mcp_config = None, rc_enable_wasm = False \<rparr>"

definition router_config_new :: "routing_mode \<Rightarrow> policy_config \<Rightarrow> 'x router_config" where
  "router_config_new m p = router_config_default\<lparr> rc_mode := m, rc_policy := p \<rparr>"

definition mode_type :: "'x router_config \<Rightarrow> string" where
  "mode_type c =
     (case rc_mode c of RM_Regular _ \<Rightarrow> ''regular'' | RM_PrefillDecode _ _ _ _ \<Rightarrow> ''prefill_decode''
      | RM_OpenAI _ \<Rightarrow> ''openai'')"

definition has_service_discovery :: "'x router_config \<Rightarrow> bool" where
  "has_service_discovery c = (case rc_discovery c of Some d \<Rightarrow> dc_enabled d | None \<Rightarrow> False)"

definition has_metrics :: "'x router_config \<Rightarrow> bool" where
  "has_metrics c \<longleftrightarrow> rc_metrics c \<noteq> None"

definition has_tracing :: "'x router_config \<Rightarrow> bool" where
  "has_tracing c = (case rc_trace_config c of Some t \<Rightarrow> enable_trace t | None \<Rightarrow> False)"

definition effective_retry_config :: "'x router_config \<Rightarrow> retry_config" where
  "effective_retry_config c =
     (let cfg = rc_retry c in if rc_disable_retries c then cfg\<lparr> max_retries := 1 \<rparr> else cfg)"

definition effective_circuit_breaker_config :: "'x router_config \<Rightarrow> cb_settings" where
  "effective_circuit_breaker_config c =
     (let cfg = rc_circuit_breaker c in
      if rc_disable_circuit_breaker c then cfg\<lparr> cs_failure_threshold := 4294967295 \<rparr> else cfg)"

definition is_igw_mode :: "'x router_config \<Rightarrow> bool" where
  "is_igw_mode c = rc_enable_igw c"

section \<open>Validation\<close>

text \<open>\<open>url_parse\<close>: an error text, or the optional host of the URL.\<close>

type_synonym url_parser = "string \<Rightarrow> string + string option"

definition validate_url :: "url_parser \<Rightarrow> string \<Rightarrow> config_result" where
  "validate_url url_parse u =
     (if u = [] then Inl (InvalidValue ''worker_url'' (V_Str u) ''URL cannot be empty'')
      else if \<not> prefix ''http://'' u \<and> \<not> prefix ''https://'' u \<and> \<not> prefix ''grpc://'' u
      then Inl (InvalidValue ''worker_url'' (V_Str u) ''URL must start with http://, https://, or grpc://'')
      else case url_parse u of
        Inr parsed_host \<Rightarrow>
          if parsed_host = None then Inl (InvalidValue ''worker_url'' (V_Str u) ''URL must have a valid host'')
          else Ok
      | Inl e \<Rightarrow> Inl (InvalidValue ''worker_url'' (V_Str u) (''Invalid URL format: '' @ e)))"

definition validate_urls :: "url_parser \<Rightarrow> string list \<Rightarrow> config_result" where
  "validate_urls url_parse urls = first_err (map (validate_url url_parse) urls)"

fun validate_policy :: "policy_config \<Rightarrow> config_result" where
  "validate_policy (PC_CacheAware threshold _ rel_t secs sz) = first_err [
     reject_if (\<not> (0 \<le> threshold \<and> threshold \<le> 1))
       (InvalidValue ''cache_threshold'' (V_Float (of_rat threshold)) ''Must be between 0.0 and 1.0''),
     reject_if (rel_t < 1) (InvalidValue ''balance_rel_threshold'' (V_Float (of_rat rel_t)) ''Must be >= 1.0''),
     reject_if (secs = 0) (invalid_u ''eviction_interval_secs'' (unat secs) ''Must be > 0''),
     reject_if (sz = 0) (invalid_u ''max_tree_size'' sz ''Must be > 0'')]"
| "validate_policy (PC_PowerOfTwo secs) =
     reject_if (secs = 0) (invalid_u ''load_check_interval_secs'' (unat secs) ''Must be > 0'')"
| "validate_policy (PC_Bucket _ rel_t secs) = first_err [
     reject_if (rel_t < 1) (InvalidValue ''balance_rel_threshold'' (V_Float (of_rat rel_t)) ''Must be >= 1.0''),
     reject_if (secs < 1) (invalid_u ''bucket_adjust_interval_secs'' secs ''Must be >= 1s''),
     reject_if (4294967296 \<le> secs) (invalid_u ''bucket_adjust_interval_secs'' secs ''Must be < 4294967296s'')]"
| "validate_policy (PC_PrefixHash n f) = first_err [
     reject_if (n = 0) (invalid_u ''prefix_token_count'' n ''Must be > 0''),
     reject_if (f < 1) (InvalidValue ''load_factor'' (V_Float (of_rat f)) ''Must be >= 1.0'')]"
| "validate_policy _ = Ok"

definition validate_policy_option :: "policy_config option \<Rightarrow> config_result" where
  "validate_policy_option p = (case p of Some p \<Rightarrow> validate_policy p | None \<Rightarrow> Ok)"

fun validate_mode :: "url_parser \<Rightarrow> routing_mode \<Rightarrow> config_result" where
  "validate_mode url_parse (RM_Regular worker_urls) =
     (if worker_urls \<noteq> [] then validate_urls url_parse worker_urls else Ok)"
| "validate_mode url_parse (RM_PrefillDecode prefill_urls decode_urls pp dp) = first_err
     ([if prefill_urls \<noteq> [] then validate_urls url_parse (map fst prefill_urls) else Ok,
       if decode_urls \<noteq> [] then validate_urls url_parse decode_urls else Ok] @
      map (\<lambda>(_, port). case port of
             Some port \<Rightarrow> reject_if (port = 0)
               (invalid_u ''bootstrap_port'' (unat port) ''Port must be between 1 and 65535'')
           | None \<Rightarrow> Ok) prefill_urls @
      [validate_policy_option pp, validate_policy_option dp])"
| "validate_mode url_parse (RM_OpenAI worker_urls) =
     (if worker_urls \<noteq> [] then validate_urls url_parse worker_urls else Ok)"

definition validate_server_settings :: "'x router_config \<Rightarrow> config_result" where
  "validate_server_settings c = first_err [
     reject_if (rc_port c = 0) (invalid_u ''port'' (unat (rc_port c)) ''Port must be > 0''),
     reject_if (rc_max_payload_size c = 0)
       (invalid_u ''max_payload_size'' (unat (rc_max_payload_size c)) ''Must be > 0''),
     reject_if (rc_request_timeout_secs c = 0)
       (invalid_u ''request_timeout_secs'' (unat (rc_request_timeout_secs c)) ''Must be > 0''),
     reject_if (0 < rc_queue_size c \<and> rc_queue_timeout_secs c = 0)
       (invalid_u ''queue_timeout_secs'' (unat (rc_queue_timeout_secs c)) ''Must be > 0 when queue_size > 0''),
     (case rc_rate_limit_tokens_per_second c of
        Some tokens_per_second \<Rightarrow> reject_if (tokens_per_second < 0)
          (InvalidValue ''rate_limit_tokens_per_second'' (V_Num tokens_per_second) ''Must be >= 0 when specified'')
      | None \<Rightarrow> Ok),
     reject_if (rc_worker_startup_timeout_secs c = 0)
       (invalid_u ''worker_startup_timeout_secs'' (unat (rc_worker_startup_timeout_secs c)) ''Must be > 0''),
     reject_if (rc_worker_startup_check_interval_secs c = 0)
       (invalid_u ''worker_startup_check_interval_secs'' (unat (rc_worker_startup_check_interval_secs c)) ''Must be > 0''),
     reject_if (rc_connect_timeout_secs c = 0)
       (invalid_u ''connect_timeout_secs'' (unat (rc_connect_timeout_secs c)) ''Must be > 0''),
     reject_if (rc_tcp_keepalive_secs c = 0)
       (invalid_u ''tcp_keepalive_secs'' (unat (rc_tcp_keepalive_secs c)) ''Must be > 0'')]"

definition validate_discovery :: "discovery_config \<Rightarrow> routing_mode \<Rightarrow> config_result" where
  "validate_discovery d m =
     (if \<not> dc_enabled d then Ok
      else first_err [
        reject_if (dc_port d = 0) (invalid_u ''discovery.port'' (unat (dc_port d)) ''Port must be > 0''),
        reject_if (dc_check_interval_secs d = 0)
          (invalid_u ''discovery.check_interval_secs'' (unat (dc_check_interval_secs d)) ''Must be > 0''),
        (case m of
           RM_Regular _ \<Rightarrow> reject_if (dc_selector d = [])
             (ValidationFailed ''Regular mode with service discovery requires a non-empty selector'')
         | RM_PrefillDecode _ _ _ _ \<Rightarrow> reject_if (dc_prefill_selector d = [] \<and> dc_decode_selector d = [])
             (ValidationFailed ''PD mode with service discovery requires at least one non-empty selector (prefill or decode)'')
         | RM_OpenAI _ \<Rightarrow> Inl (ValidationFailed ''OpenAI mode does not support service discovery''))])"

definition validate_metrics :: "metrics_config \<Rightarrow> config_result" where
  "validate_metrics m = first_err [
     reject_if (mx_port m = 0) (invalid_u ''metrics.port'' (unat (mx_port m)) ''Port must be > 0''),
     reject_if (mx_host m = []) (InvalidValue ''metrics.host'' (V_Str (mx_host m)) ''Host cannot be empty'')]"

text \<open>\<open>str::parse::<u16>\<close>.\<close>

definition parse_u16 :: "string \<Rightarrow> nat option" where
  "parse_u16 s = (case parse_usize s of Some n \<Rightarrow> if n < 2 ^ 16 then Some n else None | None \<Rightarrow> None)"

definition validate_trace :: "trace_config \<Rightarrow> config_result" where
  "validate_trace t =
     (if \<not> enable_trace t then Ok
      else let endpoint = otlp_traces_endpoint t in
        case rsplit_once (CHR '':'') endpoint of
          None \<Rightarrow> Inl (InvalidValue ''trace_config.otlp_traces_endpoint'' (V_Str endpoint)
            ''expected format <host>:<port>, e.g., otel-collector:4317 or 127.0.0.1:4317'')
        | Some (host, port_str) \<Rightarrow>
            if host = [] then Inl (InvalidValue ''trace_config.otlp_traces_endpoint'' (V_Str endpoint)
              ''host part cannot be empty'')
            else (case parse_u16 port_str of
                Some p \<Rightarrow> if 0 < p then Ok
                  else Inl (InvalidValue ''trace_config.otlp_traces_endpoint'' (V_Str endpoint)
                    ''port must be a number between 1 and 65535'')
              | None \<Rightarrow> Inl (InvalidValue ''trace_config.otlp_traces_endpoint'' (V_Str endpoint)
                  ''port must be a number between 1 and 65535'')))"

definition validate_retry :: "retry_config \<Rightarrow> config_result" where
  "validate_retry r = first_err [
     reject_if (max_retries r < 1) (invalid_u ''retry.max_retries'' (unat (max_retries r))
       ''Must be >= 1 (set to 1 to effectively disable retries)''),
     reject_if (initial_backoff_ms r = 0) (invalid_u ''retry.initial_backoff_ms'' (initial_backoff_ms r) ''Must be > 0''),
     reject_if (max_backoff_ms r < initial_backoff_ms r)
       (invalid_u ''retry.max_backoff_ms'' (max_backoff_ms r) ''Must be >= initial_backoff_ms''),
     reject_if (backoff_multiplier r < 1)
       (InvalidValue ''retry.backoff_multiplier'' (V_Float (backoff_multiplier r)) ''Must be >= 1.0''),
     reject_if (\<not> (0 \<le> jitter_factor r \<and> jitter_factor r \<le> 1))
       (InvalidValue ''retry.jitter_factor'' (V_Float (jitter_factor r)) ''Must be between 0.0 and 1.0'')]"

definition validate_circuit_breaker :: "cb_settings \<Rightarrow> config_result" where
  "validate_circuit_breaker cb = first_err [
     reject_if (cs_failure_threshold cb < 1) (invalid_u ''circuit_breaker.failure_threshold''
       (unat (cs_failure_threshold cb)) ''Must be >= 1 (set to u32::MAX to effectively disable CB)''),
     reject_if (cs_success_threshold cb < 1)
       (invalid_u ''circuit_breaker.success_threshold'' (unat (cs_success_threshold cb)) ''Must be >= 1''),
     reject_if (cs_timeout_duration_secs cb = 0)
       (invalid_u ''circuit_breaker.timeout_duration_secs'' (unat (cs_timeout_duration_secs cb)) ''Must be > 0''),
     reject_if (cs_window_duration_secs cb = 0)
       (invalid_u ''circuit_breaker.window_duration_secs'' (unat (cs_window_duration_secs cb)) ''Must be > 0'')]"

definition validate_tokenizer_cache :: "tokenizer_cache_config \<Rightarrow> config_result" where
  "validate_tokenizer_cache c = first_err [
     reject_if (enable_l0 c \<and> l0_max_entries c = 0)
       (invalid_u ''tokenizer_cache.l0_max_entries'' (unat (l0_max_entries c)) ''Must be > 0 when L0 cache is enabled''),
     reject_if (enable_l1 c \<and> l1_max_memory c = 0)
       (invalid_u ''tokenizer_cache.l1_max_memory'' (unat (l1_max_memory c)) ''Must be > 0 when L1 cache is enabled'')]"

definition validate_oracle :: "oracle_config \<Rightarrow> config_result" where
  "validate_oracle ora = first_err [
     reject_if (oc_username ora = []) (MissingRequired ''oracle.username''),
     reject_if (oc_password ora = []) (MissingRequired ''oracle.password''),
     reject_if (oc_connect_descriptor ora = []) (MissingRequired ''oracle_dsn or oracle_tns_alias''),
     reject_if (oc_pool_min ora < 1) (invalid_u ''oracle.pool_min'' (oc_pool_min ora) ''Must be at least 1''),
     reject_if (oc_pool_max ora < oc_pool_min ora)
       (invalid_u ''oracle.pool_max'' (oc_pool_max ora) ''Must be >= oracle.pool_min''),
     reject_if (oc_pool_timeout_secs ora = 0)
       (invalid_u ''oracle.pool_timeout_secs'' (oc_pool_timeout_secs ora) ''Must be > 0'')]"

definition validate_mtls :: "'x router_config \<Rightarrow> config_result" where
  "validate_mtls c = first_err
     ((case rc_client_identity c of
         Some identity \<Rightarrow> reject_if (identity = []) (ValidationFailed ''Client identity cannot be empty'')
       | None \<Rightarrow> Ok) #
      map (\<lambda>(idx, ca_cert). reject_if (ca_cert = [])
             (ValidationFailed (''CA certificate at index '' @ show_nat idx @ '' cannot be empty'')))
        (enumerate 0 (rc_ca_certificates c)))"

fun is_power_of_two_config :: "policy_config \<Rightarrow> bool" where
  "is_power_of_two_config (PC_PowerOfTwo _) = True"
| "is_power_of_two_config _ = False"

fun is_bucket_config :: "policy_config \<Rightarrow> bool" where
  "is_bucket_config (PC_Bucket _ _ _) = True"
| "is_bucket_config _ = False"

definition validate_compatibility :: "'x router_config \<Rightarrow> config_result" where
  "validate_compatibility c =
     (if rc_enable_igw c then Ok
      else first_err ([validate_mtls c] @
        (if \<not> (case rc_discovery c of Some d \<Rightarrow> dc_enabled d | None \<Rightarrow> False) then
           [reject_if (is_power_of_two_config (rc_policy c) \<and> worker_count (rc_mode c) < 2)
              (IncompatibleConfig ''Power-of-two policy requires at least 2 workers'')] @
           (case rc_mode c of
              RM_PrefillDecode prefill_urls decode_urls pp dp \<Rightarrow>
                [reject_if (pred_option is_power_of_two_config pp \<and> pp \<noteq> None \<and> length prefill_urls < 2)
                   (IncompatibleConfig ''Power-of-two policy for prefill requires at least 2 prefill workers''),
                 reject_if (pred_option is_power_of_two_config dp \<and> dp \<noteq> None \<and> length decode_urls < 2)
                   (IncompatibleConfig ''Power-of-two policy for decode requires at least 2 decode workers''),
                 reject_if (pred_option is_bucket_config dp \<and> dp \<noteq> None)
                   (IncompatibleConfig ''Decode policy should not be allowed to be bucket'')]
            | _ \<Rightarrow> [])
         else [])))"

definition validate :: "url_parser \<Rightarrow> 'x router_config \<Rightarrow> config_result" where
  "validate url_parse c = first_err [
     validate_mode url_parse (rc_mode c),
     validate_policy (rc_policy c),
     validate_server_settings c,
     (case rc_discovery c of Some d \<Rightarrow> validate_discovery d (rc_mode c) | None \<Rightarrow> Ok),
     (case rc_metrics c of Some m \<Rightarrow> validate_metrics m | None \<Rightarrow> Ok),
     (case rc_trace_config c of Some t \<Rightarrow> validate_trace t | None \<Rightarrow> Ok),
     validate_compatibility c,
     validate_retry (effective_retry_config c),
     validate_circuit_breaker (effective_circuit_breaker_config c),
     (if rc_history_backend c = HB_Oracle then
        case rc_oracle c of None \<Rightarrow> Inl (MissingRequired ''oracle'') | Some ora \<Rightarrow> validate_oracle ora
      else Ok),
     validate_tokenizer_cache (rc_tokenizer_cache c)]"

section \<open>Builder\<close>

record 'x rcb =
  rb_config :: "'x router_config"
  rb_client_cert_path :: "string option"
  rb_client_key_path :: "string option"
  rb_ca_cert_paths :: "string list"
  rb_server_cert_path :: "string option"
  rb_server_key_path :: "string option"
  rb_mcp_config_path :: "string option"

definition from_config :: "'x router_config \<Rightarrow> 'x rcb" where
  "from_config c =
     \<lparr> rb_config = c, rb_client_cert_path = None, rb_client_key_path = None, rb_ca_cert_paths = [],
       rb_server_cert_path = None, rb_server_key_path = None, rb_mcp_config_path = None \<rparr>"

definition rcb_new :: "'x rcb" where
  "rcb_new = from_config router_config_default"

definition to_builder :: "'x router_config \<Rightarrow> 'x rcb" where
  "to_builder c = from_config c"

definition on_config :: "('x router_config \<Rightarrow> 'x router_config) \<Rightarrow> 'x rcb \<Rightarrow> 'x rcb" where
  "on_config f b = b\<lparr> rb_config := f (rb_config b) \<rparr>"

subsection \<open>Routing mode\<close>

definition rb_regular_mode :: "(string list) \<Rightarrow> 'x rcb \<Rightarrow> 'x rcb" where
  "rb_regular_mode worker_urls = on_config (\<lambda>c. c\<lparr> rc_mode := RM_Regular worker_urls \<rparr>)"

definition rb_prefill_decode_mode :: "((string \<times> u16 option) list) \<Rightarrow> (string list) \<Rightarrow> 'x rcb \<Rightarrow> 'x rcb" where
  "rb_prefill_decode_mode prefill_urls decode_urls = on_config (\<lambda>c. c\<lparr> rc_mode := RM_PrefillDecode prefill_urls decode_urls None None \<rparr>)"

definition rb_prefill_decode_mode_with_policies :: "((string \<times> u16 option) list) \<Rightarrow> (string list) \<Rightarrow> (policy_config option) \<Rightarrow> (policy_config option) \<Rightarrow> 'x rcb \<Rightarrow> 'x rcb" where
  "rb_prefill_decode_mode_with_policies prefill_urls decode_urls pp dp = on_config (\<lambda>c. c\<lparr> rc_mode := RM_PrefillDecode prefill_urls decode_urls pp dp \<rparr>)"

definition rb_openai_mode :: "(string list) \<Rightarrow> 'x rcb \<Rightarrow> 'x rcb" where
  "rb_openai_mode worker_urls = on_config (\<lambda>c. c\<lparr> rc_mode := RM_OpenAI worker_urls \<rparr>)"

definition rb_mode :: "routing_mode \<Rightarrow> 'x rcb \<Rightarrow> 'x rcb" where
  "rb_mode m = on_config (\<lambda>c. c\<lparr> rc_mode := m \<rparr>)"

subsection \<open>Policy\<close>

definition rb_policy :: "policy_config \<Rightarrow> 'x rcb \<Rightarrow> 'x rcb" where
  "rb_policy p = on_config (\<lambda>c. c\<lparr> rc_policy := p \<rparr>)"

definition rb_random_policy :: "'x rcb \<Rightarrow> 'x rcb" where
  "rb_random_policy = on_config (\<lambda>c. c\<lparr> rc_policy := PC_Random \<rparr>)"

definition rb_round_robin_policy :: "'x rcb \<Rightarrow> 'x rcb" where
  "rb_round_robin_policy = on_config (\<lambda>c. c\<lparr> rc_policy := PC_RoundRobin \<rparr>)"

definition rb_cache_aware_policy :: "rat \<Rightarrow> nat \<Rightarrow> rat \<Rightarrow> u64 \<Rightarrow> nat \<Rightarrow> 'x rcb \<Rightarrow> 'x rcb" where
  "rb_cache_aware_policy threshold abs_t rel_t secs sz = on_config (\<lambda>c. c\<lparr> rc_policy := PC_CacheAware threshold abs_t rel_t secs sz \<rparr>)"

definition rb_power_of_two_policy :: "u64 \<Rightarrow> 'x rcb \<Rightarrow> 'x rcb" where
  "rb_power_of_two_policy secs = on_config (\<lambda>c. c\<lparr> rc_policy := PC_PowerOfTwo secs \<rparr>)"

subsection \<open>Connection and requests\<close>

definition rb_connection_mode :: "connection_mode \<Rightarrow> 'x rcb \<Rightarrow> 'x rcb" where
  "rb_connection_mode m = on_config (\<lambda>c. c\<lparr> rc_connection_mode := m \<rparr>)"

definition rb_http_connection :: "'x rcb \<Rightarrow> 'x rcb" where
  "rb_http_connection = on_config (\<lambda>c. c\<lparr> rc_connection_mode := Http \<rparr>)"

definition rb_grpc_connection :: "(u16 option) \<Rightarrow> 'x rcb \<Rightarrow> 'x rcb" where
  "rb_grpc_connection port = on_config (\<lambda>c. c\<lparr> rc_connection_mode := Grpc port \<rparr>)"

definition rb_grpc_connection_default :: "'x rcb \<Rightarrow> 'x rcb" where
  "rb_grpc_connection_default = on_config (\<lambda>c. c\<lparr> rc_connection_mode := Grpc None \<rparr>)"

definition rb_host :: "string \<Rightarrow> 'x rcb \<Rightarrow> 'x rcb" where
  "rb_host h = on_config (\<lambda>c. c\<lparr> rc_host := h \<rparr>)"

definition rb_port :: "u16 \<Rightarrow> 'x rcb \<Rightarrow> 'x rcb" where
  "rb_port p = on_config (\<lambda>c. c\<lparr> rc_port := p \<rparr>)"

definition rb_max_payload_size :: "usize \<Rightarrow> 'x rcb \<Rightarrow> 'x rcb" where
  "rb_max_payload_size n = on_config (\<lambda>c. c\<lparr> rc_max_payload_size := n \<rparr>)"

definition rb_request_timeout_secs :: "u64 \<Rightarrow> 'x rcb \<Rightarrow> 'x rcb" where
  "rb_request_timeout_secs t = on_config (\<lambda>c. c\<lparr> rc_request_timeout_secs := t \<rparr>)"

definition rb_worker_startup_timeout_secs :: "u64 \<Rightarrow> 'x rcb \<Rightarrow> 'x rcb" where
  "rb_worker_startup_timeout_secs t = on_config (\<lambda>c. c\<lparr> rc_worker_startup_timeout_secs := t \<rparr>)"

definition rb_worker_startup_check_interval_secs :: "u64 \<Rightarrow> 'x rcb \<Rightarrow> 'x rcb" where
  "rb_worker_startup_check_interval_secs t = on_config (\<lambda>c. c\<lparr> rc_worker_startup_check_interval_secs := t \<rparr>)"

definition rb_pool_idle_timeout_secs :: "u64 \<Rightarrow> 'x rcb \<Rightarrow> 'x rcb" where
  "rb_pool_idle_timeout_secs t = on_config (\<lambda>c. c\<lparr> rc_pool_idle_timeout_secs := t \<rparr>)"

definition rb_connect_timeout_secs :: "u64 \<Rightarrow> 'x rcb \<Rightarrow> 'x rcb" where
  "rb_connect_timeout_secs t = on_config (\<lambda>c. c\<lparr> rc_connect_timeout_secs := t \<rparr>)"

definition rb_pool_max_idle_per_host :: "usize \<Rightarrow> 'x rcb \<Rightarrow> 'x rcb" where
  "rb_pool_max_idle_per_host n = on_config (\<lambda>c. c\<lparr> rc_pool_max_idle_per_host := n \<rparr>)"

definition rb_tcp_keepalive_secs :: "u64 \<Rightarrow> 'x rcb \<Rightarrow> 'x rcb" where
  "rb_tcp_keepalive_secs t = on_config (\<lambda>c. c\<lparr> rc_tcp_keepalive_secs := t \<rparr>)"

subsection \<open>Rate limiting and security\<close>

definition rb_max_concurrent_requests :: "int \<Rightarrow> 'x rcb \<Rightarrow> 'x rcb" where
  "rb_max_concurrent_requests mx = on_config (\<lambda>c. c\<lparr> rc_max_concurrent_requests := mx \<rparr>)"

definition rb_disable_rate_limiting :: "'x rcb \<Rightarrow> 'x rcb" where
  "rb_disable_rate_limiting = on_config (\<lambda>c. c\<lparr> rc_max_concurrent_requests := - 1 \<rparr>)"

definition rb_queue_size :: "usize \<Rightarrow> 'x rcb \<Rightarrow> 'x rcb" where
  "rb_queue_size n = on_config (\<lambda>c. c\<lparr> rc_queue_size := n \<rparr>)"

definition rb_queue_timeout_secs :: "u64 \<Rightarrow> 'x rcb \<Rightarrow> 'x rcb" where
  "rb_queue_timeout_secs t = on_config (\<lambda>c. c\<lparr> rc_queue_timeout_secs := t \<rparr>)"

definition rb_rate_limit_tokens_per_second :: "int \<Rightarrow> 'x rcb \<Rightarrow> 'x rcb" where
  "rb_rate_limit_tokens_per_second n = on_config (\<lambda>c. c\<lparr> rc_rate_limit_tokens_per_second := Some n \<rparr>)"

definition rb_api_key :: "string \<Rightarrow> 'x rcb \<Rightarrow> 'x rcb" where
  "rb_api_key key = on_config (\<lambda>c. c\<lparr> rc_api_key := Some key \<rparr>)"

definition rb_cors_allowed_origins :: "(string list) \<Rightarrow> 'x rcb \<Rightarrow> 'x rcb" where
  "rb_cors_allowed_origins origins = on_config (\<lambda>c. c\<lparr> rc_cors_allowed_origins := origins \<rparr>)"

definition rb_add_cors_origin :: "string \<Rightarrow> 'x rcb \<Rightarrow> 'x rcb" where
  "rb_add_cors_origin origin = on_config (\<lambda>c. c\<lparr> rc_cors_allowed_origins := rc_cors_allowed_origins c @ [origin] \<rparr>)"

subsection \<open>Retry, circuit breaker and health\<close>

definition rb_retry_config :: "retry_config \<Rightarrow> 'x rcb \<Rightarrow> 'x rcb" where
  "rb_retry_config r = on_config (\<lambda>c. c\<lparr> rc_retry := r \<rparr>)"

definition rb_disable_retries :: "'x rcb \<Rightarrow> 'x rcb" where
  "rb_disable_retries = on_config (\<lambda>c. c\<lparr> rc_disable_retries := True \<rparr>)"

definition rb_enable_retries :: "'x rcb \<Rightarrow> 'x rcb" where
  "rb_enable_retries = on_config (\<lambda>c. c\<lparr> rc_disable_retries := False \<rparr>)"

definition rb_circuit_breaker_config :: "cb_settings \<Rightarrow> 'x rcb \<Rightarrow> 'x rcb" where
  "rb_circuit_breaker_config cb = on_config (\<lambda>c. c\<lparr> rc_circuit_breaker := cb \<rparr>)"

definition rb_disable_circuit_breaker :: "'x rcb \<Rightarrow> 'x rcb" where
  "rb_disable_circuit_breaker = on_config (\<lambda>c. c\<lparr> rc_disable_circuit_breaker := True \<rparr>)"

definition rb_enable_circuit_breaker :: "'x rcb \<Rightarrow> 'x rcb" where
  "rb_enable_circuit_breaker = on_config (\<lambda>c. c\<lparr> rc_disable_circuit_breaker := False \<rparr>)"

definition rb_health_check_config :: "health_check_config \<Rightarrow> 'x rcb \<Rightarrow> 'x rcb" where
  "rb_health_check_config h = on_config (\<lambda>c. c\<lparr> rc_health_check := h \<rparr>)"

subsection \<open>Discovery, metrics, tracing and logging\<close>

definition rb_discovery_config :: "discovery_config \<Rightarrow> 'x rcb \<Rightarrow> 'x rcb" where
  "rb_discovery_config d = on_config (\<lambda>c. c\<lparr> rc_discovery := Some d \<rparr>)"

definition rb_enable_discovery :: "'x rcb \<Rightarrow> 'x rcb" where
  "rb_enable_discovery = on_config (\<lambda>c. c\<lparr> rc_discovery := Some (discovery_config_default\<lparr> dc_enabled := True \<rparr>) \<rparr>)"

definition rb_metrics_config :: "metrics_config \<Rightarrow> 'x rcb \<Rightarrow> 'x rcb" where
  "rb_metrics_config m = on_config (\<lambda>c. c\<lparr> rc_metrics := Some m \<rparr>)"

definition rb_enable_metrics :: "string \<Rightarrow> u16 \<Rightarrow> 'x rcb \<Rightarrow> 'x rcb" where
  "rb_enable_metrics host port = on_config (\<lambda>c. c\<lparr> rc_metrics := Some \<lparr> mx_port = port, mx_host = host \<rparr> \<rparr>)"

definition rb_enable_trace :: "string \<Rightarrow> 'x rcb \<Rightarrow> 'x rcb" where
  "rb_enable_trace ep = on_config (\<lambda>c. c\<lparr> rc_trace_config := Some \<lparr> enable_trace = True, otlp_traces_endpoint = ep \<rparr> \<rparr>)"

definition rb_disable_trace :: "'x rcb \<Rightarrow> 'x rcb" where
  "rb_disable_trace = on_config (\<lambda>c. c\<lparr> rc_trace_config := Some \<lparr> enable_trace = False, otlp_traces_endpoint = [] \<rparr> \<rparr>)"

definition rb_log_dir :: "string \<Rightarrow> 'x rcb \<Rightarrow> 'x rcb" where
  "rb_log_dir d = on_config (\<lambda>c. c\<lparr> rc_log_dir := Some d \<rparr>)"

definition rb_log_level :: "string \<Rightarrow> 'x rcb \<Rightarrow> 'x rcb" where
  "rb_log_level l = on_config (\<lambda>c. c\<lparr> rc_log_level := Some l \<rparr>)"

definition rb_request_id_headers :: "(string list) \<Rightarrow> 'x rcb \<Rightarrow> 'x rcb" where
  "rb_request_id_headers hs = on_config (\<lambda>c. c\<lparr> rc_request_id_headers := Some hs \<rparr>)"

subsection \<open>Gateway mode, models and history\<close>

definition rb_enable_igw :: "'x rcb \<Rightarrow> 'x rcb" where
  "rb_enable_igw = on_config (\<lambda>c. c\<lparr> rc_enable_igw := True \<rparr>)"

definition rb_disable_igw :: "'x rcb \<Rightarrow> 'x rcb" where
  "rb_disable_igw = on_config (\<lambda>c. c\<lparr> rc_enable_igw := False \<rparr>)"

definition rb_enable_wasm :: "bool \<Rightarrow> 'x rcb \<Rightarrow> 'x rcb" where
  "rb_enable_wasm on = on_config (\<lambda>c. c\<lparr> rc_enable_wasm := on \<rparr>)"

definition rb_model_path :: "string \<Rightarrow> 'x rcb \<Rightarrow> 'x rcb" where
  "rb_model_path p = on_config (\<lambda>c. c\<lparr> rc_model_path := Some p \<rparr>)"

definition rb_tokenizer_path :: "string \<Rightarrow> 'x rcb \<Rightarrow> 'x rcb" where
  "rb_tokenizer_path p = on_config (\<lambda>c. c\<lparr> rc_tokenizer_path := Some p \<rparr>)"

definition rb_chat_template :: "string \<Rightarrow> 'x rcb \<Rightarrow> 'x rcb" where
  "rb_chat_template p = on_config (\<lambda>c. c\<lparr> rc_chat_template := Some p \<rparr>)"

definition rb_history_backend :: "history_backend \<Rightarrow> 'x rcb \<Rightarrow> 'x rcb" where
  "rb_history_backend h = on_config (\<lambda>c. c\<lparr> rc_history_backend := h \<rparr>)"

definition rb_memory_history :: "'x rcb \<Rightarrow> 'x rcb" where
  "rb_memory_history = on_config (\<lambda>c. c\<lparr> rc_history_backend := HB_Memory \<rparr>)"

definition rb_no_history :: "'x rcb \<Rightarrow> 'x rcb" where
  "rb_no_history = on_config (\<lambda>c. c\<lparr> rc_history_backend := HB_None \<rparr>)"

definition rb_oracle_history :: "oracle_config \<Rightarrow> 'x rcb \<Rightarrow> 'x rcb" where
  "rb_oracle_history ora = on_config (\<lambda>c. c\<lparr> rc_history_backend := HB_Oracle, rc_oracle := Some ora \<rparr>)"

definition rb_redis_history :: "'x \<Rightarrow> 'x rcb \<Rightarrow> 'x rcb" where
  "rb_redis_history r = on_config (\<lambda>c. c\<lparr> rc_history_backend := HB_Redis, rc_redis := Some r \<rparr>)"

definition rb_reasoning_parser :: "string \<Rightarrow> 'x rcb \<Rightarrow> 'x rcb" where
  "rb_reasoning_parser p = on_config (\<lambda>c. c\<lparr> rc_reasoning_parser := Some p \<rparr>)"

definition rb_tool_call_parser :: "string \<Rightarrow> 'x rcb \<Rightarrow> 'x rcb" where
  "rb_tool_call_parser p = on_config (\<lambda>c. c\<lparr> rc_tool_call_parser := Some p \<rparr>)"

subsection \<open>Tokenizer cache and data parallelism\<close>

definition rb_tokenizer_cache :: "tokenizer_cache_config \<Rightarrow> 'x rcb \<Rightarrow> 'x rcb" where
  "rb_tokenizer_cache tc = on_config (\<lambda>c. c\<lparr> rc_tokenizer_cache := tc \<rparr>)"

definition rb_enable_l0_cache :: "usize \<Rightarrow> 'x rcb \<Rightarrow> 'x rcb" where
  "rb_enable_l0_cache n = on_config (\<lambda>c. c\<lparr> rc_tokenizer_cache := (rc_tokenizer_cache c)\<lparr> enable_l0 := True, l0_max_entries := n \<rparr> \<rparr>)"

definition rb_enable_l1_cache :: "usize \<Rightarrow> 'x rcb \<Rightarrow> 'x rcb" where
  "rb_enable_l1_cache n = on_config (\<lambda>c. c\<lparr> rc_tokenizer_cache := (rc_tokenizer_cache c)\<lparr> enable_l1 := True, l1_max_memory := n \<rparr> \<rparr>)"

definition rb_enable_dp_aware :: "'x rcb \<Rightarrow> 'x rcb" where
  "rb_enable_dp_aware = on_config (\<lambda>c. c\<lparr> rc_dp_aware := True \<rparr>)"

definition rb_disable_dp_aware :: "'x rcb \<Rightarrow> 'x rcb" where
  "rb_disable_dp_aware = on_config (\<lambda>c. c\<lparr> rc_dp_aware := False \<rparr>)"

subsection \<open>Boolean and optional setters\<close>

definition rb_dp_aware :: "bool \<Rightarrow> 'x rcb \<Rightarrow> 'x rcb" where
  "rb_dp_aware on = on_config (\<lambda>c. c\<lparr> rc_dp_aware := on \<rparr>)"

definition rb_retries :: "bool \<Rightarrow> 'x rcb \<Rightarrow> 'x rcb" where
  "rb_retries on = on_config (\<lambda>c. c\<lparr> rc_disable_retries := \<not> on \<rparr>)"

definition rb_circuit_breaker :: "bool \<Rightarrow> 'x rcb \<Rightarrow> 'x rcb" where
  "rb_circuit_breaker on = on_config (\<lambda>c. c\<lparr> rc_disable_circuit_breaker := \<not> on \<rparr>)"

definition rb_igw :: "bool \<Rightarrow> 'x rcb \<Rightarrow> 'x rcb" where
  "rb_igw on = on_config (\<lambda>c. c\<lparr> rc_enable_igw := on \<rparr>)"

definition rb_maybe_api_key :: "(string option) \<Rightarrow> 'x rcb \<Rightarrow> 'x rcb" where
  "rb_maybe_api_key key = on_config (\<lambda>c. c\<lparr> rc_api_key := (case key of Some k \<Rightarrow> Some k | None \<Rightarrow> rc_api_key c) \<rparr>)"

definition rb_maybe_discovery :: "(discovery_config option) \<Rightarrow> 'x rcb \<Rightarrow> 'x rcb" where
  "rb_maybe_discovery d = on_config (\<lambda>c. c\<lparr> rc_discovery := d \<rparr>)"

definition rb_maybe_metrics :: "(metrics_config option) \<Rightarrow> 'x rcb \<Rightarrow> 'x rcb" where
  "rb_maybe_metrics m = on_config (\<lambda>c. c\<lparr> rc_metrics := m \<rparr>)"

definition rb_maybe_trace :: "(trace_config option) \<Rightarrow> 'x rcb \<Rightarrow> 'x rcb" where
  "rb_maybe_trace t = on_config (\<lambda>c. c\<lparr> rc_trace_config := t \<rparr>)"

definition rb_maybe_log_dir :: "(string option) \<Rightarrow> 'x rcb \<Rightarrow> 'x rcb" where
  "rb_maybe_log_dir d = on_config (\<lambda>c. c\<lparr> rc_log_dir := d \<rparr>)"

definition rb_maybe_log_level :: "(string option) \<Rightarrow> 'x rcb \<Rightarrow> 'x rcb" where
  "rb_maybe_log_level l = on_config (\<lambda>c. c\<lparr> rc_log_level := l \<rparr>)"

definition rb_maybe_request_id_headers :: "(string list option) \<Rightarrow> 'x rcb \<Rightarrow> 'x rcb" where
  "rb_maybe_request_id_headers hs = on_config (\<lambda>c. c\<lparr> rc_request_id_headers := hs \<rparr>)"

definition rb_maybe_rate_limit_tokens_per_second :: "(int option) \<Rightarrow> 'x rcb \<Rightarrow> 'x rcb" where
  "rb_maybe_rate_limit_tokens_per_second n = on_config (\<lambda>c. c\<lparr> rc_rate_limit_tokens_per_second := n \<rparr>)"

definition rb_maybe_model_path :: "(string option) \<Rightarrow> 'x rcb \<Rightarrow> 'x rcb" where
  "rb_maybe_model_path p = on_config (\<lambda>c. c\<lparr> rc_model_path := p \<rparr>)"

definition rb_maybe_tokenizer_path :: "(string option) \<Rightarrow> 'x rcb \<Rightarrow> 'x rcb" where
  "rb_maybe_tokenizer_path p = on_config (\<lambda>c. c\<lparr> rc_tokenizer_path := p \<rparr>)"

definition rb_maybe_chat_template :: "(string option) \<Rightarrow> 'x rcb \<Rightarrow> 'x rcb" where
  "rb_maybe_chat_template p = on_config (\<lambda>c. c\<lparr> rc_chat_template := p \<rparr>)"

definition rb_maybe_oracle :: "(oracle_config option) \<Rightarrow> 'x rcb \<Rightarrow> 'x rcb" where
  "rb_maybe_oracle v = (case v of Some cfg \<Rightarrow> on_config (\<lambda>c. c\<lparr> rc_history_backend := HB_Oracle, rc_oracle := Some cfg \<rparr>) | None \<Rightarrow> (\<lambda>b. b))"

definition rb_maybe_postgres :: "('x option) \<Rightarrow> 'x rcb \<Rightarrow> 'x rcb" where
  "rb_maybe_postgres v = (case v of Some cfg \<Rightarrow> on_config (\<lambda>c. c\<lparr> rc_history_backend := HB_Postgres, rc_postgres := Some cfg \<rparr>) | None \<Rightarrow> (\<lambda>b. b))"

definition rb_maybe_redis :: "('x option) \<Rightarrow> 'x rcb \<Rightarrow> 'x rcb" where
  "rb_maybe_redis v = (case v of Some cfg \<Rightarrow> on_config (\<lambda>c. c\<lparr> rc_history_backend := HB_Redis, rc_redis := Some cfg \<rparr>) | None \<Rightarrow> (\<lambda>b. b))"

definition rb_maybe_reasoning_parser :: "(string option) \<Rightarrow> 'x rcb \<Rightarrow> 'x rcb" where
  "rb_maybe_reasoning_parser p = on_config (\<lambda>c. c\<lparr> rc_reasoning_parser := p \<rparr>)"

definition rb_maybe_tool_call_parser :: "(string option) \<Rightarrow> 'x rcb \<Rightarrow> 'x rcb" where
  "rb_maybe_tool_call_parser p = on_config (\<lambda>c. c\<lparr> rc_tool_call_parser := p \<rparr>)"

subsection \<open>Certificates and MCP\<close>

definition rb_client_cert_and_key :: "string \<Rightarrow> string \<Rightarrow> 'x rcb \<Rightarrow> 'x rcb" where
  "rb_client_cert_and_key cert_path key_path = (\<lambda>b. b\<lparr> rb_client_cert_path := Some cert_path, rb_client_key_path := Some key_path \<rparr>)"

definition rb_maybe_client_cert_and_key :: "(string option) \<Rightarrow> (string option) \<Rightarrow> 'x rcb \<Rightarrow> 'x rcb" where
  "rb_maybe_client_cert_and_key cert_path key_path = (\<lambda>b. b\<lparr> rb_client_cert_path := cert_path, rb_client_key_path := key_path \<rparr>)"

definition rb_add_ca_certificate :: "string \<Rightarrow> 'x rcb \<Rightarrow> 'x rcb" where
  "rb_add_ca_certificate p = (\<lambda>b. b\<lparr> rb_ca_cert_paths := rb_ca_cert_paths b @ [p] \<rparr>)"

definition rb_add_ca_certificates :: "(string list) \<Rightarrow> 'x rcb \<Rightarrow> 'x rcb" where
  "rb_add_ca_certificates ps = (\<lambda>b. b\<lparr> rb_ca_cert_paths := rb_ca_cert_paths b @ ps \<rparr>)"

definition rb_server_cert_and_key :: "string \<Rightarrow> string \<Rightarrow> 'x rcb \<Rightarrow> 'x rcb" where
  "rb_server_cert_and_key cert_path key_path = (\<lambda>b. b\<lparr> rb_server_cert_path := Some cert_path, rb_server_key_path := Some key_path \<rparr>)"

definition rb_maybe_server_cert_and_key :: "(string option) \<Rightarrow> (string option) \<Rightarrow> 'x rcb \<Rightarrow> 'x rcb" where
  "rb_maybe_server_cert_and_key cert_path key_path = (\<lambda>b. b\<lparr> rb_server_cert_path := cert_path, rb_server_key_path := key_path \<rparr>)"

definition rb_with_mcp_config_path :: "string \<Rightarrow> 'x rcb \<Rightarrow> 'x rcb" where
  "rb_with_mcp_config_path p = (\<lambda>b. b\<lparr> rb_mcp_config_path := Some p \<rparr>)"

definition rb_maybe_mcp_config_path :: "(string option) \<Rightarrow> 'x rcb \<Rightarrow> 'x rcb" where
  "rb_maybe_mcp_config_path p = (\<lambda>b. b\<lparr> rb_mcp_config_path := p \<rparr>)"

subsection \<open>Building\<close>

text \<open>
  \<open>fs_read\<close> is \<open>std::fs::read\<close>, \<open>fs_text\<close> is \<open>std::fs::read_to_string\<close> and \<open>yaml\<close> the parser
  of the MCP settings; \<open>Inl\<close> is the printed error.
\<close>

definition ensure_newline :: "byte list \<Rightarrow> byte list" where
  "ensure_newline bs = (if suffix [10] bs then bs else bs @ [10])"

definition combine_pem :: "byte list \<Rightarrow> byte list \<Rightarrow> byte list" where
  "combine_pem cert key =
     (let combined = ensure_newline cert;
          combined = combined @ key in
      ensure_newline combined)"

fun read_ca_certificates :: "(string \<Rightarrow> string + byte list) \<Rightarrow> string list \<Rightarrow> 'x rcb \<Rightarrow> config_error + 'x rcb" where
  "read_ca_certificates fs_read [] b = Inr b"
| "read_ca_certificates fs_read (path # paths) b =
     (case fs_read path of
        Inl e \<Rightarrow> Inl (ValidationFailed (''Failed to read CA certificate from '' @ path @ '': '' @ e))
      | Inr cert \<Rightarrow> read_ca_certificates fs_read paths
          (on_config (\<lambda>c. c\<lparr> rc_ca_certificates := rc_ca_certificates c @ [cert] \<rparr>) b))"

definition read_mtls_certificates :: "(string \<Rightarrow> string + byte list) \<Rightarrow> 'x rcb \<Rightarrow> config_error + 'x rcb" where
  "read_mtls_certificates fs_read b =
     (case (case (rb_client_cert_path b, rb_client_key_path b) of
              (Some cert_path, Some key_path) \<Rightarrow>
                (case fs_read cert_path of
                   Inl e \<Rightarrow> Inl (ValidationFailed
                     (''Failed to read client certificate from '' @ cert_path @ '': '' @ e))
                 | Inr cert \<Rightarrow>
                     (case fs_read key_path of
                        Inl e \<Rightarrow> Inl (ValidationFailed
                          (''Failed to read client key from '' @ key_path @ '': '' @ e))
                      | Inr key \<Rightarrow> Inr (on_config (\<lambda>c. c\<lparr> rc_client_identity := Some (combine_pem cert key) \<rparr>) b)))
            | (None, None) \<Rightarrow> Inr b
            | _ \<Rightarrow> Inl (ValidationFailed
                ''Both --client-cert-path and --client-key-path must be specified together'')) of
        Inl e \<Rightarrow> Inl e
      | Inr b' \<Rightarrow> read_ca_certificates fs_read (rb_ca_cert_paths b') b')"

definition read_server_certificates :: "(string \<Rightarrow> string + byte list) \<Rightarrow> 'x rcb \<Rightarrow> config_error + 'x rcb" where
  "read_server_certificates fs_read b =
     (case (rb_server_cert_path b, rb_server_key_path b) of
        (Some cert_path, Some key_path) \<Rightarrow>
          (case fs_read cert_path of
             Inl e \<Rightarrow> Inl (ValidationFailed
               (''Failed to read server certificate from '' @ cert_path @ '': '' @ e))
           | Inr cert \<Rightarrow>
               (case fs_read key_path of
                  Inl e \<Rightarrow> Inl (ValidationFailed
                    (''Failed to read server key from '' @ key_path @ '': '' @ e))
                | Inr key \<Rightarrow> Inr (on_config (\<lambda>c. c\<lparr> rc_server_cert := Some cert, rc_server_key := Some key \<rparr>) b)))
      | (None, None) \<Rightarrow> Inr b
      | _ \<Rightarrow> Inl (ValidationFailed ''Both --tls-cert-path and --tls-key-path must be specified together''))"

definition read_mcp_config :: "(string \<Rightarrow> string + string) \<Rightarrow> (string \<Rightarrow> string + 'x) \<Rightarrow> 'x rcb \<Rightarrow> config_error + 'x rcb" where
  "read_mcp_config fs_text yaml b =
     (case rb_mcp_config_path b of
        None \<Rightarrow> Inr b
      | Some path \<Rightarrow>
          (case fs_text path of
             Inl e \<Rightarrow> Inl (ValidationFailed (''Failed to read MCP config from '' @ path @ '': '' @ e))
           | Inr contents \<Rightarrow>
               (case yaml contents of
                  Inl e \<Rightarrow> Inl (ValidationFailed (''Failed to parse MCP config from '' @ path @ '': '' @ e))
                | Inr mcp \<Rightarrow> Inr (on_config (\<lambda>c. c\<lparr> rc_mcp_config := Some mcp \<rparr>) b))))"

definition build_with_validation ::
    "url_parser \<Rightarrow> (string \<Rightarrow> string + byte list) \<Rightarrow> (string \<Rightarrow> string + string) \<Rightarrow> (string \<Rightarrow> string + 'x) \<Rightarrow>
     bool \<Rightarrow> 'x rcb \<Rightarrow> config_error + 'x router_config" where
  "build_with_validation url_parse fs_read fs_text yaml checked b =
     (case read_mtls_certificates fs_read b of
        Inl e \<Rightarrow> Inl e
      | Inr b \<Rightarrow>
          (case read_server_certificates fs_read b of
             Inl e \<Rightarrow> Inl e
           | Inr b \<Rightarrow>
               (case read_mcp_config fs_text yaml b of
                  Inl e \<Rightarrow> Inl e
                | Inr b \<Rightarrow>
                    let config = rb_config b in
                    if checked then
                      (case validate url_parse config of Inl e \<Rightarrow> Inl e | Inr _ \<Rightarrow> Inr config)
                    else Inr config)))"

definition config_build ::
    "url_parser \<Rightarrow> (string \<Rightarrow> string + byte list) \<Rightarrow> (string \<Rightarrow> string + string) \<Rightarrow> (string \<Rightarrow> string + 'x) \<Rightarrow>
     'x rcb \<Rightarrow> config_error + 'x router_config" where
  "config_build url_parse fs_read fs_text yaml b = build_with_validation url_parse fs_read fs_text yaml True b"

definition build_unchecked :: "'x rcb \<Rightarrow> 'x router_config" where
  "build_unchecked b = rb_config b"

section \<open>Sequences of checks\<close>

lemma reject_if_Ok [simp]: "reject_if bad e = Inr u \<longleftrightarrow> \<not> bad" "reject_if bad e = Inl e' \<longleftrightarrow> bad \<and> e' = e"
  by (auto simp: reject_if_def)

lemma first_err_Ok: "first_err rs = Inr u \<longleftrightarrow> (\<forall>r\<in>set rs. r = Ok)"
  by (induction rs) (auto split: sum.splits)

lemma first_err_Inl: "first_err rs = Inl e \<longleftrightarrow> (\<exists>k<length rs. rs ! k = Inl e \<and> (\<forall>j<k. rs ! j = Ok))"
proof (induction rs)
  case (Cons r rs)
  show ?case
  proof (cases r)
    case (Inl e')
    have "k = 0" if "k < length (r # rs)" "\<forall>j<k. (r # rs) ! j = Ok" for k using that Inl by (cases k) auto
    then show ?thesis using Inl by (metis first_err.simps(2) length_greater_0_conv list.discI neq0_conv not_less0 nth_Cons_0 old.sum.simps(5) sum.inject(1))
  next
    case (Inr u)
    have "(\<exists>k<length (r # rs). (r # rs) ! k = Inl e \<and> (\<forall>j<k. (r # rs) ! j = Ok)) \<longleftrightarrow>
        (\<exists>k<length rs. rs ! k = Inl e \<and> (\<forall>j<k. rs ! j = Ok))" (is "?l \<longleftrightarrow> ?r")
    proof
      assume ?l
      then obtain k where k: "k < length (r # rs)" "(r # rs) ! k = Inl e" "\<forall>j<k. (r # rs) ! j = Ok" by blast
      then obtain k' where "k = Suc k'" using Inr by (cases k) auto
      then have "k' < length rs" "rs ! k' = Inl e" "\<forall>j<k'. rs ! j = Ok" using k by force+
      then show ?r by blast
    next
      assume ?r
      then obtain k where "k < length rs" "rs ! k = Inl e" "\<forall>j<k. rs ! j = Ok" by blast
      then show ?l using Inr by (intro exI [of _ "Suc k"]) (auto simp: less_Suc_eq_0_disj)
    qed
    then show ?thesis using Cons Inr by simp
  qed
qed simp

lemma first_err_append: "first_err (rs @ rs') = (case first_err rs of Inl e \<Rightarrow> Inl e | Inr _ \<Rightarrow> first_err rs')"
  by (induction rs) (auto split: sum.splits)

declare first_err.simps(2) [simp del]

section \<open>What a validated configuration satisfies\<close>

fun policy_settings_ok :: "policy_config \<Rightarrow> bool" where
  "policy_settings_ok (PC_CacheAware threshold _ rel_t secs sz) \<longleftrightarrow>
     0 \<le> threshold \<and> threshold \<le> 1 \<and> 1 \<le> rel_t \<and> secs \<noteq> 0 \<and> 0 < sz"
| "policy_settings_ok (PC_PowerOfTwo secs) \<longleftrightarrow> secs \<noteq> 0"
| "policy_settings_ok (PC_Bucket _ rel_t secs) \<longleftrightarrow> 1 \<le> rel_t \<and> 1 \<le> secs \<and> secs < 2 ^ 32"
| "policy_settings_ok (PC_PrefixHash n f) \<longleftrightarrow> 0 < n \<and> 1 \<le> f"
| "policy_settings_ok _ \<longleftrightarrow> True"

lemma validate_policy_ok: "validate_policy p = Ok \<longleftrightarrow> policy_settings_ok p"
  by (cases p) (auto simp: first_err_Ok)

lemma validateD:
  assumes "validate url_parse c = Ok"
  shows "validate_mode url_parse (rc_mode c) = Ok" "policy_settings_ok (rc_policy c)" "validate_server_settings c = Ok"
    "validate_compatibility c = Ok" "validate_retry (effective_retry_config c) = Ok"
    "validate_circuit_breaker (effective_circuit_breaker_config c) = Ok"
    "rc_discovery c = Some d \<Longrightarrow> validate_discovery d (rc_mode c) = Ok"
    "rc_history_backend c = HB_Oracle \<Longrightarrow> \<exists>ora. rc_oracle c = Some ora \<and> validate_oracle ora = Ok"
  using assms by (auto simp: validate_def first_err_Ok validate_policy_ok split: option.splits)

text \<open>The policies the gateway starts with: the main policy, and those of the two pools in prefill-decode mode.\<close>

definition started_policies :: "'x router_config \<Rightarrow> policy_config list" where
  "started_policies c = [rc_policy c, mode_prefill_policy (rc_mode c) (rc_policy c), mode_decode_policy (rc_mode c) (rc_policy c)]"

lemma validated_policies:
  assumes "validate url_parse c = Ok" "p \<in> set (started_policies c)"
  shows "policy_settings_ok p"
proof (cases "rc_mode c")
  case (RM_PrefillDecode pu du pp dp)
  then have "validate_policy_option pp = Ok" "validate_policy_option dp = Ok"
    using validateD(1) [OF assms(1)] by (simp_all add: first_err_Ok)
  then show ?thesis using assms(2) validateD(2) [OF assms(1)] RM_PrefillDecode
    by (auto simp: started_policies_def validate_policy_option_def validate_policy_ok split: option.splits)
qed (use assms(2) validateD(2) [OF assms(1)] in \<open>auto simp: started_policies_def\<close>)

lemma validated_urls:
  assumes "validate url_parse c = Ok" "rc_mode c = RM_Regular us \<or> rc_mode c = RM_OpenAI us" "u \<in> set us"
  shows "(prefix ''http://'' u \<or> prefix ''https://'' u \<or> prefix ''grpc://'' u) \<and> (\<exists>h. url_parse u = Inr (Some h))"
proof -
  have "validate_url url_parse u = Ok"
    using assms(2,3) validateD(1) [OF assms(1)] by (auto simp: validate_urls_def first_err_Ok split: if_splits)
  then show ?thesis by (auto simp: validate_url_def split: if_splits sum.splits)
qed

section \<open>What the builder returns\<close>

lemma rb_on_config [simp]:
  "rb_config (on_config f b) = f (rb_config b)" "rb_client_cert_path (on_config f b) = rb_client_cert_path b"
  "rb_client_key_path (on_config f b) = rb_client_key_path b" "rb_ca_cert_paths (on_config f b) = rb_ca_cert_paths b"
  "rb_server_cert_path (on_config f b) = rb_server_cert_path b" "rb_server_key_path (on_config f b) = rb_server_key_path b"
  "rb_mcp_config_path (on_config f b) = rb_mcp_config_path b"
  by (simp_all add: on_config_def)

lemma on_config_comp: "on_config f (on_config g b) = on_config (\<lambda>c. f (g c)) b"
  by (simp add: on_config_def)

lemma on_config_self: "f (rb_config b) = rb_config b \<Longrightarrow> on_config f b = b"
  by (simp add: on_config_def)

lemma read_ca_iff:
  "read_ca_certificates fs_read ps b = Inr b' \<longleftrightarrow>
     (\<exists>certs. list_all2 (\<lambda>p cert. fs_read p = Inr cert) ps certs \<and>
       b' = on_config (\<lambda>c. c\<lparr> rc_ca_certificates := rc_ca_certificates c @ certs \<rparr>) b)"
proof (induction ps arbitrary: b)
  case Nil
  have "on_config (\<lambda>c. c\<lparr> rc_ca_certificates := rc_ca_certificates c @ [] \<rparr>) b = b" by (simp add: on_config_self)
  then show ?case by auto
next
  case (Cons p ps)
  show ?case
  proof (cases "fs_read p")
    case (Inl e)
    then show ?thesis by (auto simp: list_all2_Cons1)
  next
    case (Inr cert)
    then show ?thesis by (simp add: Cons list_all2_Cons1 on_config_comp) blast
  qed
qed

text \<open>Reading a pair of paths that must come together, and a file that is parsed.\<close>

definition pair_read :: "(string \<Rightarrow> string + byte list) \<Rightarrow> string option \<Rightarrow> string option \<Rightarrow> (byte list \<times> byte list) option \<Rightarrow> bool" where
  "pair_read fs_read p q r \<longleftrightarrow>
     (case r of None \<Rightarrow> p = None \<and> q = None
      | Some (x, y) \<Rightarrow> \<exists>p' q'. p = Some p' \<and> q = Some q' \<and> fs_read p' = Inr x \<and> fs_read q' = Inr y)"

definition parsed_read :: "(string \<Rightarrow> string + string) \<Rightarrow> (string \<Rightarrow> string + 'x) \<Rightarrow> string option \<Rightarrow> 'x option \<Rightarrow> bool" where
  "parsed_read fs_text yaml p m \<longleftrightarrow>
     (case p of None \<Rightarrow> m = None | Some p' \<Rightarrow> \<exists>s v. fs_text p' = Inr s \<and> yaml s = Inr v \<and> m = Some v)"

text \<open>The three reading steps, as updates of the configuration by what was read.\<close>

definition with_client :: "(byte list \<times> byte list) option \<Rightarrow> byte list list \<Rightarrow> 'x router_config \<Rightarrow> 'x router_config" where
  "with_client r certs c = c\<lparr> rc_client_identity := (case r of Some (x, y) \<Rightarrow> Some (combine_pem x y) | None \<Rightarrow> rc_client_identity c),
     rc_ca_certificates := rc_ca_certificates c @ certs \<rparr>"

definition with_server :: "(byte list \<times> byte list) option \<Rightarrow> 'x router_config \<Rightarrow> 'x router_config" where
  "with_server r c = c\<lparr> rc_server_cert := (case r of Some (x, y) \<Rightarrow> Some x | None \<Rightarrow> rc_server_cert c),
     rc_server_key := (case r of Some (x, y) \<Rightarrow> Some y | None \<Rightarrow> rc_server_key c) \<rparr>"

definition with_mcp :: "'x option \<Rightarrow> 'x router_config \<Rightarrow> 'x router_config" where
  "with_mcp m c = c\<lparr> rc_mcp_config := (case m of Some v \<Rightarrow> Some v | None \<Rightarrow> rc_mcp_config c) \<rparr>"

lemma read_mtls_iff:
  "read_mtls_certificates fs_read b = Inr b' \<longleftrightarrow>
     (\<exists>r certs. pair_read fs_read (rb_client_cert_path b) (rb_client_key_path b) r \<and>
        list_all2 (\<lambda>p cert. fs_read p = Inr cert) (rb_ca_cert_paths b) certs \<and> b' = on_config (with_client r certs) b)"
proof -
  have id: "on_config (\<lambda>c. c\<lparr> rc_ca_certificates := rc_ca_certificates c @ certs \<rparr>) b = on_config (with_client None certs) b" for certs
    by (simp add: on_config_def with_client_def)
  have pem: "on_config (\<lambda>c. c\<lparr> rc_client_identity := Some (combine_pem x y), rc_ca_certificates := rc_ca_certificates c @ certs \<rparr>) b =
      on_config (with_client (Some (x, y)) certs) b" for x y certs
    by (simp add: on_config_def with_client_def)
  show ?thesis
    by (cases "rb_client_cert_path b"; cases "rb_client_key_path b")
      (auto simp: read_mtls_certificates_def pair_read_def read_ca_iff on_config_comp id pem split_option_ex split: sum.splits)
qed

lemma read_server_iff:
  "read_server_certificates fs_read b = Inr b' \<longleftrightarrow>
     (\<exists>r. pair_read fs_read (rb_server_cert_path b) (rb_server_key_path b) r \<and> b' = on_config (with_server r) b)"
proof -
  have id: "on_config (with_server None) b = b" by (simp add: on_config_def with_server_def)
  have both: "on_config (\<lambda>c. c\<lparr> rc_server_cert := Some x, rc_server_key := Some y \<rparr>) b = on_config (with_server (Some (x, y))) b" for x y
    by (simp add: on_config_def with_server_def)
  show ?thesis
    by (cases "rb_server_cert_path b"; cases "rb_server_key_path b")
      (auto simp: read_server_certificates_def pair_read_def id both split_option_ex split: sum.splits)
qed

lemma read_mcp_iff:
  "read_mcp_config fs_text yaml b = Inr b' \<longleftrightarrow>
     (\<exists>m. parsed_read fs_text yaml (rb_mcp_config_path b) m \<and> b' = on_config (with_mcp m) b)"
proof -
  have id: "on_config (with_mcp None) b = b" by (simp add: on_config_def with_mcp_def)
  have some: "on_config (\<lambda>c. c\<lparr> rc_mcp_config := Some v \<rparr>) b = on_config (with_mcp (Some v)) b" for v
    by (simp add: on_config_def with_mcp_def)
  show ?thesis
    by (cases "rb_mcp_config_path b") (auto simp: read_mcp_config_def parsed_read_def id some split: sum.splits)
qed

lemma build_iff:
  "config_build url_parse fs_read fs_text yaml b = Inr c \<longleftrightarrow> validate url_parse c = Ok \<and>
     (\<exists>r r' certs m. pair_read fs_read (rb_client_cert_path b) (rb_client_key_path b) r \<and>
        pair_read fs_read (rb_server_cert_path b) (rb_server_key_path b) r' \<and>
        list_all2 (\<lambda>p cert. fs_read p = Inr cert) (rb_ca_cert_paths b) certs \<and>
        parsed_read fs_text yaml (rb_mcp_config_path b) m \<and>
        c = with_mcp m (with_server r' (with_client r certs (rb_config b))))"
proof -
  have "config_build url_parse fs_read fs_text yaml b = Inr c \<longleftrightarrow>
      (\<exists>b1 b2 b3. read_mtls_certificates fs_read b = Inr b1 \<and> read_server_certificates fs_read b1 = Inr b2 \<and>
        read_mcp_config fs_text yaml b2 = Inr b3 \<and> c = rb_config b3 \<and> validate url_parse c = Ok)"
    by (auto simp: config_build_def build_with_validation_def Let_def split: sum.splits)
  then show ?thesis unfolding read_mtls_iff read_server_iff read_mcp_iff by fastforce
qed

lemma combine_pem_lines: "\<exists>pad pad'. combine_pem cert key = cert @ pad @ key @ pad' \<and> suffix [10] (cert @ pad) \<and> suffix [10] (combine_pem cert key) \<and>
    set pad \<subseteq> {10} \<and> set pad' \<subseteq> {10}"
proof -
  have e: "\<exists>pad. ensure_newline bs = bs @ pad \<and> suffix [10] (bs @ pad) \<and> set pad \<subseteq> {10}" for bs
    by (cases "suffix [10] bs") (auto simp: ensure_newline_def intro: exI [of _ "[]"])
  from e [of cert] obtain pad where p: "ensure_newline cert = cert @ pad" "suffix [10] (cert @ pad)" "set pad \<subseteq> {10}" by blast
  from e [of "cert @ pad @ key"] obtain pad' where "ensure_newline (cert @ pad @ key) = (cert @ pad @ key) @ pad'"
      "suffix [10] ((cert @ pad @ key) @ pad')" "set pad' \<subseteq> {10}" by blast
  then show ?thesis using p by (intro exI [of _ pad] exI [of _ pad']) (simp add: combine_pem_def Let_def)
qed

text \<open>Building again from a configuration.\<close>

lemma rebuild: "config_build url_parse fs_read fs_text yaml (to_builder c) = Inr c' \<longleftrightarrow> validate url_parse c = Ok \<and> c' = c"
  by (auto simp: config_build_def build_with_validation_def to_builder_def from_config_def read_mtls_certificates_def
      read_server_certificates_def read_mcp_config_def Let_def split: sum.splits)

section \<open>Properties\<close>

text \<open>What the gateway relies on in a configuration it was started with.\<close>

definition sound_settings :: "url_parser \<Rightarrow> 'x router_config \<Rightarrow> bool" where
  "sound_settings url_parse c \<longleftrightarrow>
     (\<forall>p\<in>set (started_policies c). policy_settings_ok p) \<and>
     (\<forall>us. rc_mode c = RM_Regular us \<or> rc_mode c = RM_OpenAI us \<longrightarrow>
        (\<forall>u\<in>set us. (prefix ''http://'' u \<or> prefix ''https://'' u \<or> prefix ''grpc://'' u) \<and> (\<exists>h. url_parse u = Inr (Some h)))) \<and>
     rc_port c \<noteq> 0 \<and> rc_max_payload_size c \<noteq> 0 \<and> rc_request_timeout_secs c \<noteq> 0 \<and>
     (0 < rc_queue_size c \<longrightarrow> rc_queue_timeout_secs c \<noteq> 0) \<and>
     (let r = effective_retry_config c in max_retries r \<noteq> 0 \<and> 0 < initial_backoff_ms r \<and> initial_backoff_ms r \<le> max_backoff_ms r \<and>
        1 \<le> backoff_multiplier r \<and> 0 \<le> jitter_factor r \<and> jitter_factor r \<le> 1) \<and>
     (let cb = effective_circuit_breaker_config c in cs_failure_threshold cb \<noteq> 0 \<and> cs_success_threshold cb \<noteq> 0 \<and>
        cs_timeout_duration_secs cb \<noteq> 0) \<and>
     (\<not> rc_enable_igw c \<longrightarrow> rc_client_identity c \<noteq> Some [] \<and> [] \<notin> set (rc_ca_certificates c))"

lemma validated_mtls: "validate_mtls c = Ok \<longleftrightarrow> rc_client_identity c \<noteq> Some [] \<and> [] \<notin> set (rc_ca_certificates c)"
proof -
  have "(\<forall>x\<in>set (enumerate 0 xs). snd x \<noteq> []) \<longleftrightarrow> [] \<notin> set xs" for xs :: "byte list list"
  proof -
    have "set xs = snd ` set (enumerate 0 xs)" by (metis map_snd_enumerate set_map)
    then show ?thesis by force
  qed
  then show ?thesis by (auto simp: validate_mtls_def first_err_Ok split_beta split: option.splits)
qed

lemma validated_sound:
  assumes ok: "validate url_parse c = Ok"
  shows "sound_settings url_parse c"
proof -
  have "rc_port c \<noteq> 0 \<and> rc_max_payload_size c \<noteq> 0 \<and> rc_request_timeout_secs c \<noteq> 0 \<and>
      (0 < rc_queue_size c \<longrightarrow> rc_queue_timeout_secs c \<noteq> 0)"
    using validateD(3) [OF ok] by (auto simp: validate_server_settings_def first_err_Ok)
  moreover have "let r = effective_retry_config c in max_retries r \<noteq> 0 \<and> 0 < initial_backoff_ms r \<and> initial_backoff_ms r \<le> max_backoff_ms r \<and>
        1 \<le> backoff_multiplier r \<and> 0 \<le> jitter_factor r \<and> jitter_factor r \<le> 1"
    using validateD(5) [OF ok] by (simp add: validate_retry_def first_err_Ok Let_def not_less)
  moreover have "let cb = effective_circuit_breaker_config c in cs_failure_threshold cb \<noteq> 0 \<and> cs_success_threshold cb \<noteq> 0 \<and>
        cs_timeout_duration_secs cb \<noteq> 0"
    using validateD(6) [OF ok] by (simp add: validate_circuit_breaker_def first_err_Ok Let_def not_less)
  moreover have "rc_client_identity c \<noteq> Some [] \<and> [] \<notin> set (rc_ca_certificates c)" if "\<not> rc_enable_igw c"
    using validateD(4) [OF ok] that unfolding validated_mtls [symmetric] by (simp add: validate_compatibility_def first_err_Ok)
  ultimately show ?thesis
    unfolding sound_settings_def using validated_policies [OF ok] validated_urls [OF ok] by blast
qed

text \<open>
  C28: what a build returns.  A build succeeds with a configuration exactly when every file that was named
  can be read (certificate and key are named together or not at all) and parsed, the
  configuration is the one set with the contents of these files put in, and it is valid: the client identity is
  the client certificate followed by the key, each ended by a newline, the CA certificates are
  appended in the order of their paths, server certificate and key are those read, and the MCP
  settings are the parse of the MCP file.  Building again from a configuration returns it unchanged
  exactly when it is valid; and a configuration that was built has sound settings: policies with
  meaningful parameters, worker URLs with scheme and host, positive port, payload size and timeouts,
  at least one attempt with ordered back-off bounds and jitter in the unit interval, positive
  breaker thresholds, and without the gateway mode no empty certificate.
\<close>

theorem config_builder_roundtrip:
  "(config_build url_parse fs_read fs_text yaml b = Inr c \<longleftrightarrow> validate url_parse c = Ok \<and>
     (\<exists>r r' certs m. pair_read fs_read (rb_client_cert_path b) (rb_client_key_path b) r \<and>
        pair_read fs_read (rb_server_cert_path b) (rb_server_key_path b) r' \<and>
        list_all2 (\<lambda>p cert. fs_read p = Inr cert) (rb_ca_cert_paths b) certs \<and>
        (case rb_mcp_config_path b of None \<Rightarrow> m = None | Some p \<Rightarrow> \<exists>s v. fs_text p = Inr s \<and> yaml s = Inr v \<and> m = Some v) \<and>
        c = (rb_config b)\<lparr>
          rc_client_identity := (case r of Some (x, y) \<Rightarrow> Some (combine_pem x y) | None \<Rightarrow> rc_client_identity (rb_config b)),
          rc_ca_certificates := rc_ca_certificates (rb_config b) @ certs,
          rc_server_cert := (case r' of Some (x, y) \<Rightarrow> Some x | None \<Rightarrow> rc_server_cert (rb_config b)),
          rc_server_key := (case r' of Some (x, y) \<Rightarrow> Some y | None \<Rightarrow> rc_server_key (rb_config b)),
          rc_mcp_config := (case m of Some v \<Rightarrow> Some v | None \<Rightarrow> rc_mcp_config (rb_config b)) \<rparr>)) \<and>
   (\<exists>pad pad'. combine_pem x y = x @ pad @ y @ pad' \<and> suffix [10] (x @ pad) \<and> suffix [10] (combine_pem x y) \<and>
      set pad \<subseteq> {10} \<and> set pad' \<subseteq> {10}) \<and>
   (config_build url_parse fs_read fs_text yaml (to_builder c) = Inr c' \<longleftrightarrow> validate url_parse c = Ok \<and> c' = c) \<and>
   (config_build url_parse fs_read fs_text yaml b = Inr c \<longrightarrow> sound_settings url_parse c)"
proof (intro conjI impI)
  have "with_mcp m (with_server r' (with_client r certs (rb_config b))) = (rb_config b)\<lparr>
          rc_client_identity := (case r of Some (x, y) \<Rightarrow> Some (combine_pem x y) | None \<Rightarrow> rc_client_identity (rb_config b)),
          rc_ca_certificates := rc_ca_certificates (rb_config b) @ certs,
          rc_server_cert := (case r' of Some (x, y) \<Rightarrow> Some x | None \<Rightarrow> rc_server_cert (rb_config b)),
          rc_server_key := (case r' of Some (x, y) \<Rightarrow> Some y | None \<Rightarrow> rc_server_key (rb_config b)),
          rc_mcp_config := (case m of Some v \<Rightarrow> Some v | None \<Rightarrow> rc_mcp_config (rb_config b)) \<rparr>" for r r' certs m
    by (cases r; cases r'; cases m) (auto simp: with_mcp_def with_server_def with_client_def)
  then show "config_build url_parse fs_read fs_text yaml b = Inr c \<longleftrightarrow> validate url_parse c = Ok \<and>
     (\<exists>r r' certs m. pair_read fs_read (rb_client_cert_path b) (rb_client_key_path b) r \<and>
        pair_read fs_read (rb_server_cert_path b) (rb_server_key_path b) r' \<and>
        list_all2 (\<lambda>p cert. fs_read p = Inr cert) (rb_ca_cert_paths b) certs \<and>
        (case rb_mcp_config_path b of None \<Rightarrow> m = None | Some p \<Rightarrow> \<exists>s v. fs_text p = Inr s \<and> yaml s = Inr v \<and> m = Some v) \<and>
        c = (rb_config b)\<lparr>
          rc_client_identity := (case r of Some (x, y) \<Rightarrow> Some (combine_pem x y) | None \<Rightarrow> rc_client_identity (rb_config b)),
          rc_ca_certificates := rc_ca_certificates (rb_config b) @ certs,
          rc_server_cert := (case r' of Some (x, y) \<Rightarrow> Some x | None \<Rightarrow> rc_server_cert (rb_config b)),
          rc_server_key := (case r' of Some (x, y) \<Rightarrow> Some y | None \<Rightarrow> rc_server_key (rb_config b)),
          rc_mcp_config := (case m of Some v \<Rightarrow> Some v | None \<Rightarrow> rc_mcp_config (rb_config b)) \<rparr>)"
    using build_iff [of url_parse fs_read fs_text yaml b c, unfolded parsed_read_def] by simp
qed (rule combine_pem_lines, rule rebuild, rule validated_sound, simp add: build_iff)

lemma default_valid: "validate url_parse router_config_default = Ok"
  by (simp add: validate_def router_config_default_def first_err_Ok validate_server_settings_def validate_compatibility_def
      validate_mtls_def effective_retry_config_def validate_retry_def retry_config_default_def effective_circuit_breaker_config_def
      validate_circuit_breaker_def cb_settings_default_def validate_tokenizer_cache_def tokenizer_cache_config_default_def enumerate_Suc_eq)

theorem config_builder_roundtrip_witness:
  "config_build (\<lambda>u. Inl ''relative URL'') (\<lambda>p. Inr [65]) (\<lambda>p. Inl ''missing'') (\<lambda>s. Inl ''no yaml'')
      (to_builder (router_config_default :: unit router_config)) = Inr router_config_default \<and>
   sound_settings (\<lambda>u. Inl ''relative URL'') (router_config_default :: unit router_config)"
proof -
  let ?b = "to_builder (router_config_default :: unit router_config)"
  note rt = config_builder_roundtrip [of "\<lambda>u. Inl ''relative URL''" "\<lambda>p. Inr [65]" "\<lambda>p. Inl ''missing''" "\<lambda>s. Inl ''no yaml''"
    ?b "router_config_default :: unit router_config" "[]" "[]" router_config_default]
  have built: "config_build (\<lambda>u. Inl ''relative URL'') (\<lambda>p. Inr [65]) (\<lambda>p. Inl ''missing'') (\<lambda>s. Inl ''no yaml'') ?b = Inr router_config_default"
    using rt [THEN conjunct2, THEN conjunct2, THEN conjunct1] default_valid by blast
  then show ?thesis using rt [THEN conjunct2, THEN conjunct2, THEN conjunct2] by blast
qed

text \<open>
  In a valid prefill-decode configuration without service discovery and without the gateway
  mode, a pool whose own policy is power-of-two has two workers, and the decode pool has no bucket
  policy of its own.  The rule does not look at the main policy the pools fall back to: the decode
  pool runs the bucket policy exactly when it has no policy of its own and the main policy is bucket.
\<close>

theorem pd_compatibility:
  assumes "validate url_parse c = Ok" "\<not> rc_enable_igw c" "\<not> has_service_discovery c"
    and "rc_mode c = RM_PrefillDecode prefill_urls decode_urls pp dp"
  shows "(\<forall>s. pp = Some (PC_PowerOfTwo s) \<longrightarrow> 2 \<le> length prefill_urls) \<and>
    (\<forall>s. dp = Some (PC_PowerOfTwo s) \<longrightarrow> 2 \<le> length decode_urls) \<and>
    (\<forall>s. rc_policy c = PC_PowerOfTwo s \<longrightarrow> 2 \<le> length prefill_urls + length decode_urls) \<and>
    (is_bucket_config (mode_decode_policy (rc_mode c) (rc_policy c)) \<longleftrightarrow> dp = None \<and> is_bucket_config (rc_policy c))"
proof -
  have "\<not> (case rc_discovery c of Some d \<Rightarrow> dc_enabled d | None \<Rightarrow> False)" using assms(3) by (simp add: has_service_discovery_def)
  then have ok: "\<not> (is_power_of_two_config (rc_policy c) \<and> length prefill_urls + length decode_urls < 2)"
    "\<not> (pred_option is_power_of_two_config pp \<and> pp \<noteq> None \<and> length prefill_urls < 2)"
    "\<not> (pred_option is_power_of_two_config dp \<and> dp \<noteq> None \<and> length decode_urls < 2)"
    "\<not> (pred_option is_bucket_config dp \<and> dp \<noteq> None)"
    using validateD(4) [OF assms(1)] assms(2,4) by (simp_all add: validate_compatibility_def first_err_Ok)
  show ?thesis
  proof (intro conjI allI impI)
    show "2 \<le> length prefill_urls" if "pp = Some (PC_PowerOfTwo s)" for s using ok(2) that by simp
    show "2 \<le> length decode_urls" if "dp = Some (PC_PowerOfTwo s)" for s using ok(3) that by simp
    show "2 \<le> length prefill_urls + length decode_urls" if "rc_policy c = PC_PowerOfTwo s" for s using ok(1) that by simp
    show "is_bucket_config (mode_decode_policy (rc_mode c) (rc_policy c)) \<longleftrightarrow> dp = None \<and> is_bucket_config (rc_policy c)"
      using ok(4) assms(4) by (cases dp) simp_all
  qed
qed

lemma bucket_pd_valid:
  "validate url_parse (router_config_default\<lparr> rc_mode := RM_PrefillDecode [] [] None None, rc_policy := PC_Bucket 32 2 5 \<rparr>) = Ok"
  by (simp add: validate_def router_config_default_def first_err_Ok validate_server_settings_def validate_compatibility_def validate_policy_option_def
      validate_mtls_def effective_retry_config_def validate_retry_def retry_config_default_def effective_circuit_breaker_config_def
      validate_circuit_breaker_def cb_settings_default_def validate_tokenizer_cache_def tokenizer_cache_config_default_def enumerate_Suc_eq)

theorem pd_compatibility_witness:
  "is_bucket_config (mode_decode_policy (RM_PrefillDecode [] [] None None) (PC_Bucket 32 2 5))"
  using pd_compatibility [OF bucket_pd_valid [of "\<lambda>u. Inl ''relative URL''"], of "[]" "[]" None None]
  by (simp add: router_config_default_def has_service_discovery_def)

end
