(* ===== verification/Middleware.thy ===== *)
theory Middleware
  imports Token_Bucket Http_Router Config
begin

text \<open>
  The middleware of \<open>src/gateway/src/middleware.rs\<close> and the rate limiter that
  \<open>app_context.rs\<close> creates: authentication, request ids, the concurrency limiter with its
  queue, path normalisation and WASM modules.

  Strings are byte strings.  The comparison of the \<open>subtle\<close> crate, the random indexes of a
  request id, the WASM runtime and the next handler are arguments.  The limiter is a state with
  one step per point where a task can be interrupted: arrival, one round of the queue processor,
  one attempt of a waiting task, the end of the handler, the end of the response body, and a
  client that goes away.
\<close>

section \<open>Authentication\<close>

definition UNAUTHORIZED :: status_code where "UNAUTHORIZED = 401"

definition auth_middleware ::
    "(string \<Rightarrow> string \<Rightarrow> bool) \<Rightarrow> string option \<Rightarrow> (header_map \<Rightarrow> 'r) \<Rightarrow> header_map \<Rightarrow> status_code + 'r" where
  "auth_middleware ct_eq key next hdrs =
     (case key of
        Some expected_key \<Rightarrow>
          (case Option.bind (header_get hdrs ''authorization'') to_str of
             Some header_value \<Rightarrow>
               if prefix ''Bearer '' header_value then
                 let token = drop 7 header_value in
                 if length token \<noteq> length expected_key then Inl UNAUTHORIZED
                 else if \<not> ct_eq token expected_key then Inl UNAUTHORIZED
                 else Inr (next hdrs)
               else Inl UNAUTHORIZED
           | None \<Rightarrow> Inl UNAUTHORIZED)
      | None \<Rightarrow> Inr (next hdrs))"

section \<open>Request ids\<close>

definition REQUEST_ID_CHARS :: string where
  "REQUEST_ID_CHARS = ''ABCDEFGHIJKLMNOPQRSTUVWXYZabcdefghijklmnopqrstuvwxyz0123456789''"

text \<open>\<open>draws\<close> are the 24 random indexes.\<close>

definition generate_request_id :: "nat list \<Rightarrow> string \<Rightarrow> string" where
  "generate_request_id draws path =
     (let pre = (if str_contains path ''/chat/completions'' then ''chatcmpl-''
                 else if str_contains path ''/completions'' then ''cmpl-''
                 else if str_contains path ''/generate'' then ''gnt-''
                 else if str_contains path ''/responses'' then ''resp-''
                 else ''req-'') in
      pre @ map (\<lambda>i. REQUEST_ID_CHARS ! i) draws)"

fun find_request_id :: "header_map \<Rightarrow> string list \<Rightarrow> string option" where
  "find_request_id hdrs [] = None"
| "find_request_id hdrs (name # ns) =
     (case Option.bind (header_get hdrs name) to_str of
        Some v \<Rightarrow> Some v
      | None \<Rightarrow> find_request_id hdrs ns)"

definition request_id_call ::
    "string list \<Rightarrow> nat list \<Rightarrow> (string \<Rightarrow> 'e + response) \<Rightarrow> string \<Rightarrow> header_map \<Rightarrow> 'e + response" where
  "request_id_call ns draws inner path hdrs =
     (let request_id = (case find_request_id hdrs ns of Some i \<Rightarrow> i | None \<Rightarrow> generate_request_id draws path) in
      case inner request_id of
        Inl e \<Rightarrow> Inl e
      | Inr resp \<Rightarrow>
          Inr (resp\<lparr> resp_headers := header_insert (resp_headers resp) ''x-request-id''
            (case header_value_from_str request_id of Some v \<Rightarrow> v | None \<Rightarrow> ''invalid-request-id'') \<rparr>))"

section \<open>Paths in metrics\<close>

definition is_ascii_digit :: "char \<Rightarrow> bool" where
  "is_ascii_digit c \<longleftrightarrow> (let n = of_char c :: nat in 48 \<le> n \<and> n \<le> 57)"

definition is_ascii_hexdigit :: "char \<Rightarrow> bool" where
  "is_ascii_hexdigit c \<longleftrightarrow> is_ascii_digit c \<or> (let n = of_char c :: nat in (97 \<le> n \<and> n \<le> 102) \<or> (65 \<le> n \<and> n \<le> 70))"

definition is_dynamic_id :: "string \<Rightarrow> bool" where
  "is_dynamic_id s \<longleftrightarrow>
     (if 10 < length s \<and> CHR ''_'' \<in> set s then True
      else if 32 \<le> length s \<and> list_all (\<lambda>b. is_ascii_hexdigit b \<or> b = CHR ''-'') s then True
      else s \<noteq> [] \<and> list_all is_ascii_digit s)"

text \<open>The loop over the bytes: position, start and number of the segment, and the result so far.\<close>

fun normalize_loop :: "string \<Rightarrow> nat \<Rightarrow> string \<Rightarrow> nat \<Rightarrow> nat \<Rightarrow> string option \<Rightarrow> string option" where
  "normalize_loop path pos [] segment_start segment_idx result = result"
| "normalize_loop path pos (b # bs) segment_start segment_idx result =
     (if b = CHR ''/'' \<or> pos = length path - 1 then
        let segment_end = (if b = CHR ''/'' then pos else pos + 1);
            segment = take (segment_end - segment_start) (drop segment_start path);
            result =
              (if 2 < segment_idx \<and> segment \<noteq> [] \<and> is_dynamic_id segment
               then Some ((case result of Some r \<Rightarrow> r | None \<Rightarrow> take segment_start path) @ ''{id}'')
               else map_option (\<lambda>r. r @ segment) result) in
        if b = CHR ''/''
        then normalize_loop path (pos + 1) bs (pos + 1) (segment_idx + 1) (map_option (\<lambda>r. r @ ''/'') result)
        else normalize_loop path (pos + 1) bs segment_start segment_idx result
      else normalize_loop path (pos + 1) bs segment_start segment_idx result)"

definition normalize_path_for_metrics :: "string \<Rightarrow> string" where
  "normalize_path_for_metrics path = (case normalize_loop path 0 path 0 0 None of Some r \<Rightarrow> r | None \<Rightarrow> path)"

section \<open>The concurrency limiter\<close>

text \<open>
  The rate limiter of the gateway.  \<open>maybe_rate_limiter\<close> treats a configured rate of 0 as absent.
\<close>

definition maybe_rate_limiter :: "'x router_config \<Rightarrow> real \<Rightarrow> token_bucket option" where
  "maybe_rate_limiter rc now =
     (let n = rc_max_concurrent_requests rc in
      if n \<le> 0 then None
      else
        let rate_limit_tokens = (case rc_rate_limit_tokens_per_second rc of Some t \<Rightarrow> if 0 < t then t else n | None \<Rightarrow> n) in
        Some (token_bucket_new (nat n) (nat rate_limit_tokens) now))"

text \<open>
  \<open>queue_size\<close> is \<open>None\<close> without a queue.  \<open>queue\<close> is the channel to the processor, \<open>waiting\<close> its
  tasks that wait for a token, \<open>handling\<close> the requests whose handler runs with a token and
  \<open>bodies\<close> the responses whose \<open>TokenGuardBody\<close> exists.  \<open>gone\<close> are requests dropped by their
  client while queued, \<open>lost\<close> counts tokens taken and never given back.
\<close>

record limiter =
  lm_bucket :: "token_bucket option"
  queue_size :: "nat option"
  queue_timeout :: real
  queue :: "(nat \<times> real) list"
  waiting :: "nat list"
  handling :: "nat list"
  bodies :: "nat list"
  gone :: "nat list"
  lost :: nat
  embeddings_queue_size :: nat

definition concurrency_limiter_new :: "token_bucket option \<Rightarrow> nat \<Rightarrow> real \<Rightarrow> limiter" where
  "concurrency_limiter_new b sz timeout =
     \<lparr> lm_bucket = b, queue_size = (case b of None \<Rightarrow> None | Some _ \<Rightarrow> if 0 < sz then Some sz else None),
       queue_timeout = timeout, queue = [], waiting = [], handling = [], bodies = [], gone = [], lost = 0,
       embeddings_queue_size = 0 \<rparr>"

datatype admission = PassThrough | Started | Enqueued | Refused status_code

definition TOO_MANY_REQUESTS :: status_code where "TOO_MANY_REQUESTS = 429"
definition REQUEST_TIMEOUT :: status_code where "REQUEST_TIMEOUT = 408"

definition is_embeddings :: "string \<Rightarrow> bool" where
  "is_embeddings path \<longleftrightarrow> str_contains path ''/v1/embeddings''"

text \<open>A request arrives.  \<open>path_of\<close> gives the path of a request; \<open>global_exceeded\<close> is the answer of the mesh.\<close>

definition limit_arrival :: "(nat \<Rightarrow> string) \<Rightarrow> bool \<Rightarrow> real \<Rightarrow> nat \<Rightarrow> limiter \<Rightarrow> admission \<times> limiter" where
  "limit_arrival path_of global_exceeded now r l =
     (if global_exceeded then (Refused TOO_MANY_REQUESTS, l)
      else
        case lm_bucket l of
          None \<Rightarrow> (PassThrough, l)
        | Some b \<Rightarrow>
            let (ok, b) = try_acquire_sync now 1 b; l = l\<lparr> lm_bucket := Some b \<rparr> in
            if ok then (Started, l\<lparr> handling := r # handling l \<rparr>)
            else
              case queue_size l of
                None \<Rightarrow> (Refused TOO_MANY_REQUESTS, l)
              | Some sz \<Rightarrow>
                  if length (queue l) < sz then
                    (Enqueued, l\<lparr> queue := queue l @ [(r, now)],
                       embeddings_queue_size := embeddings_queue_size l + (if is_embeddings (path_of r) then 1 else 0) \<rparr>)
                  else (Refused TOO_MANY_REQUESTS, l))"

text \<open>The permit is sent.  Nobody takes it, or counts down, once the client is gone.\<close>

definition dequeued :: "(nat \<Rightarrow> string) \<Rightarrow> nat \<Rightarrow> limiter \<Rightarrow> limiter" where
  "dequeued path_of r l = l\<lparr> embeddings_queue_size := embeddings_queue_size l - (if is_embeddings (path_of r) then 1 else 0) \<rparr>"

definition send_permit :: "(nat \<Rightarrow> string) \<Rightarrow> nat \<Rightarrow> limiter \<Rightarrow> limiter" where
  "send_permit path_of r l =
     (if r \<in> set (gone l) then l\<lparr> lost := lost l + 1 \<rparr>
      else dequeued path_of r (l\<lparr> handling := r # handling l \<rparr>))"

definition send_refusal :: "(nat \<Rightarrow> string) \<Rightarrow> nat \<Rightarrow> limiter \<Rightarrow> admission option \<times> limiter" where
  "send_refusal path_of r l =
     (if r \<in> set (gone l) then (None, l) else (Some (Refused REQUEST_TIMEOUT), dequeued path_of r l))"

text \<open>One round of the queue processor.\<close>

definition process_queued :: "(nat \<Rightarrow> string) \<Rightarrow> real \<Rightarrow> limiter \<Rightarrow> limiter" where
  "process_queued path_of now l =
     (case (queue l, lm_bucket l) of
        ((r, queued_at) # q, Some b) \<Rightarrow>
          let l = l\<lparr> queue := q \<rparr> in
          if queue_timeout l \<le> duration_since now queued_at then snd (send_refusal path_of r l)
          else
            let (ok, b) = try_acquire_sync now 1 b; l = l\<lparr> lm_bucket := Some b \<rparr> in
            if ok then send_permit path_of r l else l\<lparr> waiting := waiting l @ [r] \<rparr>
      | _ \<Rightarrow> l)"

text \<open>An attempt of a waiting task, and its time-out.\<close>

definition waiting_attempt :: "(nat \<Rightarrow> string) \<Rightarrow> real \<Rightarrow> nat \<Rightarrow> limiter \<Rightarrow> limiter" where
  "waiting_attempt path_of now r l =
     (case lm_bucket l of
        None \<Rightarrow> l
      | Some b \<Rightarrow>
          let (ok, b) = try_acquire_sync now 1 b; l = l\<lparr> lm_bucket := Some b \<rparr> in
          if ok then send_permit path_of r (l\<lparr> waiting := remove1 r (waiting l) \<rparr>) else l)"

definition waiting_timeout :: "(nat \<Rightarrow> string) \<Rightarrow> nat \<Rightarrow> limiter \<Rightarrow> limiter" where
  "waiting_timeout path_of r l = snd (send_refusal path_of r (l\<lparr> waiting := remove1 r (waiting l) \<rparr>))"

text \<open>The handler returns and the body is guarded; the body ends or is dropped.\<close>

definition token_guard_body_new :: "nat \<Rightarrow> limiter \<Rightarrow> limiter" where
  "token_guard_body_new r l = l\<lparr> handling := remove1 r (handling l), bodies := r # bodies l \<rparr>"

definition token_guard_body_drop :: "nat \<Rightarrow> limiter \<Rightarrow> limiter" where
  "token_guard_body_drop r l =
     l\<lparr> bodies := remove1 r (bodies l), lm_bucket := map_option (return_tokens_sync 1) (lm_bucket l) \<rparr>"

text \<open>
  The client goes away.  In the handler the future is dropped with it, and with the token it holds;
  in the queue only the receiver of the permit is.
\<close>

definition client_gone :: "nat \<Rightarrow> limiter \<Rightarrow> limiter" where
  "client_gone r l =
     (if r \<in> set (handling l) then l\<lparr> handling := remove1 r (handling l), lost := lost l + 1 \<rparr>
      else l\<lparr> gone := r # gone l \<rparr>)"

section \<open>WASM modules\<close>

record modify_action =
  md_status :: "nat option"
  md_headers :: "header_map \<Rightarrow> header_map"
  md_body_replace :: "string option"

datatype wasm_action = Continue | Reject nat | Modify modify_action

record request =
  rq_method :: string
  rq_path :: string
  rq_query :: string
  rq_headers :: header_map
  rq_body :: string

text \<open>\<open>StatusCode::from_u16\<close> accepts 100 to 999.\<close>

definition from_u16 :: "nat \<Rightarrow> status_code option" where
  "from_u16 n = (if 100 \<le> n \<and> n < 1000 then Some n else None)"

definition status_or :: "status_code \<Rightarrow> nat \<Rightarrow> status_code" where
  "status_or d n = (case from_u16 n of Some s \<Rightarrow> s | None \<Rightarrow> d)"

fun on_request_modules :: "('m \<Rightarrow> request \<Rightarrow> wasm_action option) \<Rightarrow> 'm list \<Rightarrow> request \<Rightarrow> status_code + request" where
  "on_request_modules exec [] req = Inr req"
| "on_request_modules exec (m # ms) req =
     (case exec m req of
        None \<Rightarrow> on_request_modules exec ms req
      | Some Continue \<Rightarrow> on_request_modules exec ms req
      | Some (Reject s) \<Rightarrow> Inl (status_or 400 s)
      | Some (Modify md) \<Rightarrow>
          on_request_modules exec ms (req\<lparr> rq_headers := md_headers md (rq_headers req),
            rq_body := (case md_body_replace md of Some b \<Rightarrow> b | None \<Rightarrow> rq_body req) \<rparr>))"

record wasm_response =
  ws_status :: status_code
  ws_headers :: header_map
  ws_body :: string

fun on_response_modules :: "('m \<Rightarrow> wasm_response \<Rightarrow> wasm_action option) \<Rightarrow> 'm list \<Rightarrow> wasm_response \<Rightarrow> wasm_response" where
  "on_response_modules exec [] resp = resp"
| "on_response_modules exec (m # ms) resp =
     (case exec m resp of
        None \<Rightarrow> on_response_modules exec ms resp
      | Some Continue \<Rightarrow> on_response_modules exec ms resp
      | Some (Reject s) \<Rightarrow> resp\<lparr> ws_status := status_or 400 s \<rparr>
      | Some (Modify md) \<Rightarrow>
          on_response_modules exec ms
            \<lparr> ws_status = (case md_status md of Some s \<Rightarrow> status_or (ws_status resp) s | None \<Rightarrow> ws_status resp),
              ws_headers = md_headers md (ws_headers resp),
              ws_body = (case md_body_replace md of Some b \<Rightarrow> b | None \<Rightarrow> ws_body resp) \<rparr>)"

text \<open>
  The manager: the modules of the two attach points (\<open>None\<close> when listing them fails), their
  execution, and the reading of bodies, which fails for a body over the size limit.
\<close>

record 'm wasm_manager =
  wm_on_request :: "'m list option"
  wm_on_response :: "'m list option"
  wm_exec_request :: "'m \<Rightarrow> request \<Rightarrow> wasm_action option"
  wm_exec_response :: "'m \<Rightarrow> wasm_response \<Rightarrow> wasm_action option"
  wm_to_bytes :: "string \<Rightarrow> string option"

definition wasm_on_response :: "'m wasm_manager \<Rightarrow> wasm_response \<Rightarrow> wasm_response" where
  "wasm_on_response man resp =
     (case wm_on_response man of
        None \<Rightarrow> resp
      | Some ms \<Rightarrow>
          if ms = [] then resp
          else
            case wm_to_bytes man (ws_body resp) of
              None \<Rightarrow> \<lparr> ws_status = ws_status resp, ws_headers = [], ws_body = [] \<rparr>
            | Some b \<Rightarrow> on_response_modules (wm_exec_response man) ms (resp\<lparr> ws_body := b \<rparr>))"

definition wasm_middleware ::
    "bool \<Rightarrow> 'm wasm_manager option \<Rightarrow> (request \<Rightarrow> wasm_response) \<Rightarrow> request \<Rightarrow> status_code + wasm_response" where
  "wasm_middleware enabled manager next req =
     (if \<not> enabled then Inr (next req)
      else
        case manager of
          None \<Rightarrow> Inr (next req)
        | Some man \<Rightarrow>
            (case wm_on_request man of
               None \<Rightarrow> Inr (next req)
             | Some ms \<Rightarrow>
                 if ms = [] then Inr (wasm_on_response man (next req))
                 else
                   case wm_to_bytes man (rq_body req) of
                     None \<Rightarrow> Inr (next \<lparr> rq_method = ''GET'', rq_path = rq_path req, rq_query = rq_query req, rq_headers = [], rq_body = [] \<rparr>)
                   | Some b \<Rightarrow>
                       (case on_request_modules (wm_exec_request man) ms (req\<lparr> rq_body := b \<rparr>) of
                          Inl s \<Rightarrow> Inl s
                        | Inr req \<Rightarrow> Inr (wasm_on_response man (next req)))))"

section \<open>Authentication admits exactly the key\<close>

lemma auth_exact:
  assumes "\<forall>x y. length x = length y \<longrightarrow> ct_eq x y = (x = y)"
  shows "auth_middleware ct_eq key next hdrs =
    (if key = None \<or> Option.bind (header_get hdrs ''authorization'') to_str = map_option (\<lambda>k. ''Bearer '' @ k) key
     then Inr (next hdrs) else Inl UNAUTHORIZED)"
proof (cases key)
  case (Some k)
  show ?thesis
  proof (cases "Option.bind (header_get hdrs ''authorization'') to_str")
    case (Some v)
    have "v = ''Bearer '' @ k \<longleftrightarrow> prefix ''Bearer '' v \<and> drop 7 v = k" by (auto simp: prefix_def)
    then show ?thesis using Some \<open>key = Some k\<close> assms by (auto simp: auth_middleware_def Let_def)
  qed (use Some in \<open>simp add: auth_middleware_def\<close>)
qed (simp add: auth_middleware_def)

section \<open>The path loop against splitting\<close>

fun join_segments :: "string list \<Rightarrow> string" where
  "join_segments [] = []"
| "join_segments [s] = s"
| "join_segments (s # ss) = s @ ''/'' @ join_segments ss"

fun replace_ids :: "nat \<Rightarrow> string list \<Rightarrow> string list" where
  "replace_ids i [] = []"
| "replace_ids i (s # ss) = (if 2 < i \<and> is_dynamic_id s then ''{id}'' else s) # replace_ids (i + 1) ss"

lemma split_char_nonempty [simp]: "split_char c s \<noteq> []"
  by (induction c s rule: split_char.induct) (auto split: list.splits)

lemma split_char_segment:
  "c \<notin> set seg \<Longrightarrow> split_char c seg = [seg]"
  "c \<notin> set seg \<Longrightarrow> split_char c (seg @ c # rest) = seg # split_char c rest"
  by (induction seg) (auto split: list.splits)

lemma join_replace_cons: "ss \<noteq> [] \<Longrightarrow> join_segments (replace_ids i (s # ss)) =
    (if 2 < i \<and> is_dynamic_id s then ''{id}'' else s) @ ''/'' @ join_segments (replace_ids (i + 1) ss)"
  by (cases ss) simp_all

lemma dynamic_nonempty: "is_dynamic_id s \<Longrightarrow> s \<noteq> []"
  by (auto simp: is_dynamic_id_def)

lemma normalize_loop_spec:
  assumes "path = pre @ seg @ bs" "CHR ''/'' \<notin> set seg" "bs = [] \<Longrightarrow> seg = []"
  shows "(case normalize_loop path (length (pre @ seg)) bs (length pre) i result of Some r \<Rightarrow> r | None \<Rightarrow> path) =
    (case result of Some r \<Rightarrow> r | None \<Rightarrow> pre) @ join_segments (replace_ids i (split_char CHR ''/'' (seg @ bs)))"
  using assms
proof (induction bs arbitrary: pre seg i result)
  case Nil
  then show ?case by (simp add: is_dynamic_id_def split: option.splits)
next
  case (Cons b bs)
  let ?fl = "\<lambda>s r. if 2 < i \<and> s \<noteq> [] \<and> is_dynamic_id s then Some ((case r of Some r \<Rightarrow> r | None \<Rightarrow> pre) @ ''{id}'')
      else map_option (\<lambda>r. r @ s) r"
  show ?case
  proof (cases "b = CHR ''/''")
    case True
    have p: "path = (pre @ seg @ [b]) @ [] @ bs" using Cons.prems(1) by simp
    have run: "normalize_loop path (length (pre @ seg)) (b # bs) (length pre) i result =
        normalize_loop path (length ((pre @ seg @ [b]) @ [])) bs (length (pre @ seg @ [b])) (i + 1) (map_option (\<lambda>r. r @ ''/'') (?fl seg result))"
      using True Cons.prems(1) by (cases result; simp add: Let_def)
    have ih: "(case normalize_loop path (length ((pre @ seg @ [b]) @ [])) bs (length (pre @ seg @ [b])) (i + 1) R of Some r \<Rightarrow> r | None \<Rightarrow> path) =
        (case R of Some r \<Rightarrow> r | None \<Rightarrow> pre @ seg @ [b]) @ join_segments (replace_ids (i + 1) (split_char CHR ''/'' ([] @ bs)))" for R
      by (rule Cons.IH [OF p]) simp_all
    have split: "split_char CHR ''/'' (seg @ b # bs) = seg # split_char CHR ''/'' bs" using split_char_segment(2) Cons.prems(2) True by simp
    show ?thesis unfolding run ih split join_replace_cons [OF split_char_nonempty]
      using True dynamic_nonempty [of seg] by (cases result; simp)
  next
    case nb: False
    have p: "path = pre @ (seg @ [b]) @ bs" using Cons.prems(1) by simp
    show ?thesis
    proof (cases "bs = []")
      case True
      have run: "normalize_loop path (length (pre @ seg)) (b # bs) (length pre) i result = ?fl (seg @ [b]) result"
        using True nb Cons.prems(1) by (cases result; simp add: Let_def)
      show ?thesis unfolding run
        using True nb Cons.prems(1,2) by (auto simp: split_char_segment(1) split: option.splits)
    next
      case False
      have run: "normalize_loop path (length (pre @ seg)) (b # bs) (length pre) i result =
          normalize_loop path (length (pre @ seg @ [b])) bs (length pre) i result"
        using False nb Cons.prems(1) by simp
      show ?thesis unfolding run using Cons.IH [OF p] nb Cons.prems(2) False by simp
    qed
  qed
qed

section \<open>Runs of the limiter\<close>

text \<open>Steps at times that do not go back; a request arrives once.\<close>

inductive limiter_step :: "(nat \<Rightarrow> string) \<Rightarrow> real \<times> limiter \<Rightarrow> real \<times> limiter \<Rightarrow> bool" for path_of where
  arrival: "t \<le> now \<Longrightarrow> r \<notin> set (map fst (queue l) @ waiting l @ handling l @ bodies l @ gone l) \<Longrightarrow>
     limiter_step path_of (t, l) (now, snd (limit_arrival path_of exceeded now r l))"
| processor: "t \<le> now \<Longrightarrow> limiter_step path_of (t, l) (now, process_queued path_of now l)"
| attempt: "t \<le> now \<Longrightarrow> r \<in> set (waiting l) \<Longrightarrow> limiter_step path_of (t, l) (now, waiting_attempt path_of now r l)"
| expiry: "t \<le> now \<Longrightarrow> r \<in> set (waiting l) \<Longrightarrow> limiter_step path_of (t, l) (now, waiting_timeout path_of r l)"
| answered: "t \<le> now \<Longrightarrow> r \<in> set (handling l) \<Longrightarrow> limiter_step path_of (t, l) (now, token_guard_body_new r l)"
| body_end: "t \<le> now \<Longrightarrow> r \<in> set (bodies l) \<Longrightarrow> limiter_step path_of (t, l) (now, token_guard_body_drop r l)"
| disconnect: "t \<le> now \<Longrightarrow> r \<in> set (map fst (queue l) @ waiting l @ handling l) \<Longrightarrow> limiter_step path_of (t, l) (now, client_gone r l)"

inductive_cases limiter_stepE: "limiter_step path_of s s'"

abbreviation limiter_steps :: "(nat \<Rightarrow> string) \<Rightarrow> real \<times> limiter \<Rightarrow> real \<times> limiter \<Rightarrow> bool" where
  "limiter_steps path_of \<equiv> (limiter_step path_of)\<^sup>*\<^sup>*"

text \<open>Tokens taken and not given back.\<close>

definition held :: "limiter \<Rightarrow> nat" where
  "held l = length (handling l) + length (bodies l) + lost l"

text \<open>The bucket after a time: it never has more than was there, refilled, less what is held.\<close>

definition bucket_ok :: "real \<Rightarrow> real \<Rightarrow> real \<Rightarrow> real \<Rightarrow> nat \<Rightarrow> token_bucket \<Rightarrow> bool" where
  "bucket_ok t0 cap rate t n b \<longleftrightarrow> tb_inv b \<and> capacity b = cap \<and> refill_rate b = rate \<and> last_refill b \<le> t \<and>
     token_bucket.tokens b + real n \<le> cap + rate * (last_refill b - t0)"

lemma bucket_ok_later: "bucket_ok t0 cap rate t n b \<Longrightarrow> t \<le> now \<Longrightarrow> bucket_ok t0 cap rate now n b"
  by (auto simp: bucket_ok_def)

lemma bucket_ok_try:
  assumes "bucket_ok t0 cap rate t n b" "t \<le> now"
  shows "bucket_ok t0 cap rate now (if fst (try_acquire_sync now 1 b) then n + 1 else n) (snd (try_acquire_sync now 1 b))"
proof -
  have inv: "tb_inv (snd (try_acquire_sync now 1 b))" using assms(1) by (intro tb_inv_try) (simp_all add: bucket_ok_def)
  have le: "last_refill b \<le> now" using assms by (simp add: bucket_ok_def)
  have "token_bucket.tokens (refill now b) \<le> token_bucket.tokens b + (now - last_refill b) * refill_rate b"
    using le by (simp add: refill_def Let_def duration_since_def)
  also have "\<dots> + real n \<le> cap + rate * (now - t0)"
    using assms(1) by (simp add: bucket_ok_def algebra_simps)
  finally have "token_bucket.tokens (refill now b) + real n \<le> cap + rate * (now - t0)" by simp
  then show ?thesis using inv assms(1) by (auto simp: bucket_ok_def try_acquire_sync_def Let_def)
qed

lemma bucket_ok_return:
  assumes "bucket_ok t0 cap rate t (Suc n) b"
  shows "bucket_ok t0 cap rate t n (return_tokens_sync 1 b)"
  using assms tb_inv_return [of b 1] by (auto simp: bucket_ok_def return_tokens_sync_def)

text \<open>The places a request can be in.\<close>

definition places :: "limiter \<Rightarrow> nat list" where
  "places l = map fst (queue l) @ waiting l @ handling l @ bodies l"

definition limiter_ok :: "real \<Rightarrow> real \<Rightarrow> real \<Rightarrow> nat \<Rightarrow> real \<times> limiter \<Rightarrow> bool" where
  "limiter_ok t0 cap rate sz s \<longleftrightarrow> (case s of (t, l) \<Rightarrow>
     (\<exists>b. lm_bucket l = Some b \<and> bucket_ok t0 cap rate t (held l) b) \<and>
     queue_size l = (if 0 < sz then Some sz else None) \<and> length (queue l) \<le> sz \<and> distinct (places l))"

lemma limiter_ok_new: "limiter_ok t0 (real cap) (real rate) sz (t0, concurrency_limiter_new (Some (token_bucket_new cap rate t0)) sz timeout)"
  by (simp add: limiter_ok_def concurrency_limiter_new_def bucket_ok_def tb_inv_new held_def places_def) (simp add: token_bucket_new_def)

lemma held_simps [simp]:
  "held (l\<lparr> queue := q \<rparr>) = held l" "held (l\<lparr> waiting := ws \<rparr>) = held l" "held (l\<lparr> lm_bucket := b \<rparr>) = held l"
  by (simp_all add: held_def)

lemma send_permit_fields:
  "lm_bucket (send_permit path_of r l) = lm_bucket l" "queue_size (send_permit path_of r l) = queue_size l"
  "queue (send_permit path_of r l) = queue l" "waiting (send_permit path_of r l) = waiting l"
  "held (send_permit path_of r l) = held l + 1" "bodies (send_permit path_of r l) = bodies l"
  "handling (send_permit path_of r l) = (if r \<in> set (gone l) then handling l else r # handling l)"
  by (simp_all add: send_permit_def dequeued_def held_def)

lemma send_refusal_fields:
  "lm_bucket (snd (send_refusal path_of r l)) = lm_bucket l" "queue_size (snd (send_refusal path_of r l)) = queue_size l"
  "queue (snd (send_refusal path_of r l)) = queue l" "waiting (snd (send_refusal path_of r l)) = waiting l"
  "held (snd (send_refusal path_of r l)) = held l" "places (snd (send_refusal path_of r l)) = places l"
  by (simp_all add: send_refusal_def dequeued_def held_def places_def)

lemma limiter_okE:
  assumes "limiter_ok t0 cap rate sz (t, l)"
  obtains b where "lm_bucket l = Some b" "bucket_ok t0 cap rate t (held l) b"
    "queue_size l = (if 0 < sz then Some sz else None)" "length (queue l) \<le> sz" "distinct (places l)"
  using assms by (auto simp: limiter_ok_def)

lemma limiter_okI:
  assumes "lm_bucket l = Some b" "bucket_ok t0 cap rate t (held l) b"
    "queue_size l = (if 0 < sz then Some sz else None)" "length (queue l) \<le> sz" "distinct (places l)"
  shows "limiter_ok t0 cap rate sz (t, l)"
  using assms by (auto simp: limiter_ok_def)

lemma ok_arrival:
  assumes ok: "limiter_ok t0 cap rate sz (t, l)" and t: "t \<le> now" and new: "r \<notin> set (places l)"
  shows "limiter_ok t0 cap rate sz (now, snd (limit_arrival path_of exceeded now r l))"
  using ok
proof (rule limiter_okE)
  fix b assume b: "lm_bucket l = Some b" "bucket_ok t0 cap rate t (held l) b"
    and q: "queue_size l = (if 0 < sz then Some sz else None)" "length (queue l) \<le> sz" "distinct (places l)"
  obtain got b' where tr: "try_acquire_sync now 1 b = (got, b')" by fastforce
  note try_ok = bucket_ok_try [OF b(2) t, unfolded tr fst_conv snd_conv]
  show ?thesis
  proof (cases exceeded)
    case True
    then show ?thesis using limiter_okI [OF b(1) bucket_ok_later [OF b(2) t] q] by (simp add: limit_arrival_def)
  next
    case False
    then show ?thesis using b(1) tr try_ok q new
      by (auto simp: limit_arrival_def Let_def held_def places_def intro!: limiter_okI split: if_splits)
  qed
qed

lemma ok_processor:
  assumes ok: "limiter_ok t0 cap rate sz (t, l)" and t: "t \<le> now"
  shows "limiter_ok t0 cap rate sz (now, process_queued path_of now l)"
  using ok
proof (rule limiter_okE)
  fix b assume b: "lm_bucket l = Some b" "bucket_ok t0 cap rate t (held l) b"
    and q: "queue_size l = (if 0 < sz then Some sz else None)" "length (queue l) \<le> sz" "distinct (places l)"
  obtain got b' where tr: "try_acquire_sync now 1 b = (got, b')" by fastforce
  note try_ok = bucket_ok_try [OF b(2) t, unfolded tr fst_conv snd_conv]
  show ?thesis
  proof (cases "queue l")
    case Nil
    then show ?thesis using limiter_okI [OF b(1) bucket_ok_later [OF b(2) t] q] by (simp add: process_queued_def)
  next
    case (Cons e rest)
    obtain r since where e: "e = (r, since)" by fastforce
    let ?l = "l\<lparr> queue := rest \<rparr>"
    have d: "distinct (places ?l)" "r \<notin> set (places ?l)" "held ?l = held l" using q(3) Cons e by (auto simp: places_def)
    show ?thesis
    proof (cases "queue_timeout l \<le> duration_since now since")
      case True
      then have "process_queued path_of now l = snd (send_refusal path_of r ?l)" using Cons e b(1) by (simp add: process_queued_def)
      then show ?thesis using b(1) bucket_ok_later [OF b(2) t] q(1,2) d Cons
        by (intro limiter_okI [of _ b]) (simp_all add: send_refusal_fields)
    next
      case False
      then have run: "process_queued path_of now l =
          (if got then send_permit path_of r (?l\<lparr> lm_bucket := Some b' \<rparr>) else ?l\<lparr> lm_bucket := Some b', waiting := waiting l @ [r] \<rparr>)"
        using Cons e b(1) tr by (simp add: process_queued_def Let_def)
      show ?thesis unfolding run using try_ok q(1,2) d Cons
        by (cases got) (auto simp: send_permit_fields places_def intro!: limiter_okI [of _ b'])
    qed
  qed
qed

lemma distinct_remove1_places:
  "distinct (places l) \<Longrightarrow> r \<in> set (waiting l) \<Longrightarrow> distinct (places (l\<lparr> waiting := remove1 r (waiting l) \<rparr>)) \<and> r \<notin> set (places (l\<lparr> waiting := remove1 r (waiting l) \<rparr>))"
  by (auto simp: places_def)

lemma ok_attempt:
  assumes ok: "limiter_ok t0 cap rate sz (t, l)" and t: "t \<le> now" and r: "r \<in> set (waiting l)"
  shows "limiter_ok t0 cap rate sz (now, waiting_attempt path_of now r l)" "limiter_ok t0 cap rate sz (now, waiting_timeout path_of r l)"
proof -
  obtain b where b: "lm_bucket l = Some b" "bucket_ok t0 cap rate t (held l) b"
    and q: "queue_size l = (if 0 < sz then Some sz else None)" "length (queue l) \<le> sz" "distinct (places l)"
    using limiter_okE [OF ok] by metis
  obtain got b' where tr: "try_acquire_sync now 1 b = (got, b')" by fastforce
  note try_ok = bucket_ok_try [OF b(2) t, unfolded tr fst_conv snd_conv]
  let ?l = "l\<lparr> waiting := remove1 r (waiting l) \<rparr>"
  note d = distinct_remove1_places [OF q(3) r]
  have "waiting_attempt path_of now r l =
      (if got then send_permit path_of r (l\<lparr> lm_bucket := Some b', waiting := remove1 r (waiting l) \<rparr>) else l\<lparr> lm_bucket := Some b' \<rparr>)"
    using b(1) tr by (simp add: waiting_attempt_def Let_def)
  then show "limiter_ok t0 cap rate sz (now, waiting_attempt path_of now r l)" using try_ok q d
    by (cases got) (auto simp: send_permit_fields places_def intro!: limiter_okI [of _ b'])
  show "limiter_ok t0 cap rate sz (now, waiting_timeout path_of r l)" unfolding waiting_timeout_def
    using b(1) bucket_ok_later [OF b(2) t] q(1,2) d
    by (intro limiter_okI [of _ b]) (simp_all add: send_refusal_fields)
qed

lemma ok_release:
  assumes ok: "limiter_ok t0 cap rate sz (t, l)" and t: "t \<le> now"
  shows "r \<in> set (handling l) \<Longrightarrow> limiter_ok t0 cap rate sz (now, token_guard_body_new r l)"
    "r \<in> set (bodies l) \<Longrightarrow> limiter_ok t0 cap rate sz (now, token_guard_body_drop r l)"
    "limiter_ok t0 cap rate sz (now, client_gone r l)"
proof -
  obtain b where b: "lm_bucket l = Some b" "bucket_ok t0 cap rate t (held l) b"
    and q: "queue_size l = (if 0 < sz then Some sz else None)" "length (queue l) \<le> sz" "distinct (places l)"
    using limiter_okE [OF ok] by metis
  note b' = bucket_ok_later [OF b(2) t]
  show "limiter_ok t0 cap rate sz (now, token_guard_body_new r l)" if "r \<in> set (handling l)"
  proof -
    have "held (token_guard_body_new r l) = held l"
      using length_pos_if_in_set [OF that] that by (simp add: held_def token_guard_body_new_def length_remove1)
    then show ?thesis using b(1) b' q that
      by (intro limiter_okI [of _ b]) (auto simp: token_guard_body_new_def places_def)
  qed
  show "limiter_ok t0 cap rate sz (now, token_guard_body_drop r l)" if "r \<in> set (bodies l)"
  proof -
    have "held l = Suc (held (token_guard_body_drop r l))"
      using length_pos_if_in_set [OF that] that by (simp add: held_def token_guard_body_drop_def length_remove1)
    then have "bucket_ok t0 cap rate now (held (token_guard_body_drop r l)) (return_tokens_sync 1 b)"
      using b' bucket_ok_return by simp
    then show ?thesis using b(1) q
      by (intro limiter_okI [of _ "return_tokens_sync 1 b"]) (auto simp: token_guard_body_drop_def places_def)
  qed
  have "held (client_gone r l) = held l"
    using length_pos_if_in_set [of r "handling l"] by (auto simp: client_gone_def held_def length_remove1)
  then show "limiter_ok t0 cap rate sz (now, client_gone r l)"
    using b(1) b' q by (intro limiter_okI [of _ b]) (auto simp: client_gone_def places_def)
qed

lemma limiter_ok_step: "limiter_step path_of s s' \<Longrightarrow> limiter_ok t0 cap rate sz s \<Longrightarrow> limiter_ok t0 cap rate sz s'"
  by (induction rule: limiter_step.induct) (auto intro: ok_arrival ok_processor ok_attempt ok_release simp: places_def)

lemma limiter_ok_steps:
  assumes "limiter_steps path_of s s'" "limiter_ok t0 cap rate sz s"
  shows "limiter_ok t0 cap rate sz s'"
  using assms by (induction rule: rtranclp_induct) (auto intro: limiter_ok_step)

section \<open>Properties\<close>

text \<open>
  C33: authentication.  With an API key configured, the handler runs exactly for requests whose
  authorization header is \<open>Bearer\<close> followed by the key; every other request gets 401.  Without a
  key every request passes.
\<close>

theorem auth_admits_key_only:
  assumes "\<forall>x y. length x = length y \<longrightarrow> ct_eq x y = (x = y)"
  shows "auth_middleware ct_eq key next hdrs =
    (if key = None \<or> Option.bind (header_get hdrs ''authorization'') to_str = map_option (\<lambda>k. ''Bearer '' @ k) key
     then Inr (next hdrs) else Inl UNAUTHORIZED)"
  by (rule auth_exact [OF assms])

theorem auth_admits_key_only_witness:
  "auth_middleware (=) (Some ''k'') (\<lambda>h. ''done'') [(''authorization'', ''Bearer k'')] = Inr ''done'' \<and>
   auth_middleware (=) (Some ''k'') (\<lambda>h. ''done'') [(''authorization'', ''Bearer kk'')] = Inl 401"
proof -
  have g: "header_get [(''authorization'', v)] ''authorization'' = Some v" for v
    by (simp add: header_get_def) code_simp
  have "to_str ''Bearer k'' = Some ''Bearer k''" "to_str ''Bearer kk'' = Some ''Bearer kk''" by code_simp+
  then show ?thesis
    using auth_admits_key_only [of "(=)" "Some ''k''" "\<lambda>h. ''done''"] g by (simp add: UNAUTHORIZED_def)
qed

lemma join_split: "join_segments (split_char CHR ''/'' s) = s"
proof (induction s)
  case (Cons c s)
  obtain p ps where "split_char CHR ''/'' s = p # ps" using split_char_nonempty [of "CHR ''/''" s] by (cases "split_char CHR ''/'' s") auto
  then show ?case using Cons by (cases ps) auto
qed simp

lemma replace_ids_leading: "i + length ss \<le> 3 \<Longrightarrow> replace_ids i ss = ss"
  by (induction ss arbitrary: i) auto

text \<open>
  C34: the single pass over the bytes of a path computes what splitting at slashes does: a segment
  that looks like an id is replaced by a placeholder when three segments come before it, counting the
  empty one before the leading slash; the first three segments, every other segment and every slash
  are kept.  So a path of at most two segments after the leading slash is never changed, and
  \<open>/workers/{worker_id}\<close> keeps its id.
\<close>

theorem metrics_path_by_segments:
  "normalize_path_for_metrics path = join_segments (replace_ids 0 (split_char CHR ''/'' path)) \<and>
   (length (split_char CHR ''/'' path) \<le> 3 \<longrightarrow> normalize_path_for_metrics path = path)"
proof -
  have "normalize_path_for_metrics path = join_segments (replace_ids 0 (split_char CHR ''/'' path))"
    using normalize_loop_spec [of path "[]" "[]" path 0 None]
    by (cases "path = []") (auto simp: normalize_path_for_metrics_def)
  then show ?thesis using replace_ids_leading [of 0] by (simp add: join_split)
qed

theorem metrics_path_by_segments_witness:
  "is_dynamic_id ''3f2504e04f8911d39a0c0305e82c3301'' \<and>
   normalize_path_for_metrics ''/workers/3f2504e04f8911d39a0c0305e82c3301'' = ''/workers/3f2504e04f8911d39a0c0305e82c3301'' \<and>
   normalize_path_for_metrics ''/v1/responses/3f2504e04f8911d39a0c0305e82c3301/cancel'' = ''/v1/responses/{id}/cancel''"
proof -
  have id: "is_dynamic_id ''3f2504e04f8911d39a0c0305e82c3301''" by code_simp
  have "length (split_char CHR ''/'' ''/workers/3f2504e04f8911d39a0c0305e82c3301'') \<le> 3" by simp
  then have "normalize_path_for_metrics ''/workers/3f2504e04f8911d39a0c0305e82c3301'' = ''/workers/3f2504e04f8911d39a0c0305e82c3301''"
    using metrics_path_by_segments by blast
  moreover have "normalize_path_for_metrics ''/v1/responses/3f2504e04f8911d39a0c0305e82c3301/cancel'' =
      join_segments (replace_ids 0 (split_char CHR ''/'' ''/v1/responses/3f2504e04f8911d39a0c0305e82c3301/cancel''))"
    using metrics_path_by_segments by blast
  moreover have "join_segments (replace_ids 0 (split_char CHR ''/'' ''/v1/responses/3f2504e04f8911d39a0c0305e82c3301/cancel'')) =
      ''/v1/responses/{id}/cancel''" by code_simp
  ultimately show ?thesis using id by simp
qed

text \<open>
  C14: in every run of the concurrency limiter, with arrivals, a queue, time-outs, responses and
  clients that go away in any order, the tokens taken and not given back are at most the capacity
  plus what the rate allowed since the start, those of dropped requests included; the queue never
  holds more than its size, and no request is in two places.
\<close>

theorem limiter_bounds:
  assumes "limiter_steps path_of (t0, concurrency_limiter_new (Some (token_bucket_new cap rate t0)) sz timeout) (t, l)"
  shows "real (length (handling l) + length (bodies l) + lost l) \<le> real cap + real rate * (t - t0) \<and>
    length (queue l) \<le> sz \<and> distinct (map fst (queue l) @ waiting l @ handling l @ bodies l)"
proof -
  obtain b where b: "bucket_ok t0 (real cap) (real rate) t (held l) b" "length (queue l) \<le> sz" "distinct (places l)"
    using limiter_ok_steps [OF assms limiter_ok_new] by (auto simp: limiter_ok_def)
  have "real rate * (last_refill b - t0) \<le> real rate * (t - t0)" using b(1) by (intro mult_left_mono) (simp_all add: bucket_ok_def)
  then have "real (held l) \<le> real cap + real rate * (t - t0)" using b(1) by (simp add: bucket_ok_def tb_inv_def)
  then show ?thesis using b(2,3) by (simp add: held_def places_def)
qed

lemma acquire_after_second:
  assumes "tb_inv b" "1 \<le> capacity b" "1 \<le> refill_rate b" "last_refill b + 1 \<le> now"
  shows "\<exists>b'. try_acquire_sync now 1 b = (True, b') \<and> tb_inv b' \<and> capacity b' = capacity b \<and> refill_rate b' = refill_rate b \<and> last_refill b' = now"
proof -
  have "1 * 1 \<le> (now - last_refill b) * refill_rate b" using assms(3,4) by (intro mult_mono) auto
  then have "1 \<le> token_bucket.tokens (refill now b)"
    using assms(1,2,4) by (auto simp: refill_def Let_def duration_since_def tb_inv_def min_def)
  then have "fst (try_acquire_sync now 1 b)" by (simp add: try_acquire_sync_def Let_def)
  then show ?thesis using tb_inv_try [OF assms(1), of 1 now] try_acquire_fields [of now 1 b]
    by (metis prod.collapse zero_le_one)
qed

lemma limiter_overrun:
  assumes "tb_inv b" "1 \<le> capacity b" "1 \<le> refill_rate b" "last_refill b \<le> t0"
  shows "\<exists>l b'. limiter_steps path_of (t0, concurrency_limiter_new (Some b) sz timeout) (t0 + real k, l) \<and> handling l = rev [0..<k] \<and>
    queue l = [] \<and> waiting l = [] \<and> bodies l = [] \<and> gone l = [] \<and> lm_bucket l = Some b' \<and> tb_inv b' \<and>
    1 \<le> capacity b' \<and> 1 \<le> refill_rate b' \<and> last_refill b' \<le> t0 + real k"
proof (induction k)
  case 0
  show ?case using assms
    by (intro exI [of _ "concurrency_limiter_new (Some b) sz timeout"] exI [of _ b]) (simp add: concurrency_limiter_new_def)
next
  case (Suc k)
  then obtain l b' where l: "limiter_steps path_of (t0, concurrency_limiter_new (Some b) sz timeout) (t0 + real k, l)" "handling l = rev [0..<k]"
    "queue l = []" "waiting l = []" "bodies l = []" "gone l = []" "lm_bucket l = Some b'" "tb_inv b'" "1 \<le> capacity b'" "1 \<le> refill_rate b'"
    "last_refill b' \<le> t0 + real k" by blast
  let ?now = "t0 + real (Suc k)"
  obtain b'' where b'': "try_acquire_sync ?now 1 b' = (True, b'')" "tb_inv b''" "capacity b'' = capacity b'" "refill_rate b'' = refill_rate b'"
      "last_refill b'' = ?now" using acquire_after_second [OF l(8-10), of ?now] l(11) by auto
  let ?l = "l\<lparr> lm_bucket := Some b'', handling := k # handling l \<rparr>"
  have "snd (limit_arrival path_of False ?now k l) = ?l" using l(7) b''(1) by (simp add: limit_arrival_def Let_def)
  moreover have "limiter_step path_of (t0 + real k, l) (?now, snd (limit_arrival path_of False ?now k l))"
    by (rule limiter_step.arrival) (simp_all add: l(2-6))
  ultimately have "limiter_steps path_of (t0, concurrency_limiter_new (Some b) sz timeout) (?now, ?l)"
    using l(1) by (metis rtranclp.rtrancl_into_rtrancl)
  then show ?case using l b'' by (intro exI [of _ ?l] exI [of _ b'']) simp
qed

text \<open>
  C32: the limiter of the gateway does not bound the number of concurrent requests.  Its bucket is
  refilled at a positive rate whatever the configured rate, also 0, so for every configuration with
  a limit and every number there is a run in which that many requests are in their handlers at once.
\<close>

theorem gateway_limit_is_a_rate:
  assumes "maybe_rate_limiter rc t0 = Some b"
  shows "0 < refill_rate b \<and>
    (\<exists>t l. limiter_steps path_of (t0, concurrency_limiter_new (Some b) sz timeout) (t, l) \<and> length (handling l) = k)"
proof -
  obtain n r where b: "b = token_bucket_new n r t0" "0 < n" "0 < r"
    using assms by (auto simp: maybe_rate_limiter_def Let_def split: if_splits option.splits)
  then have "tb_inv b" "1 \<le> capacity b" "1 \<le> refill_rate b" "last_refill b \<le> t0"
    using tb_inv_new by (simp_all add: token_bucket_new_def)
  from limiter_overrun [OF this, of path_of sz timeout k] show ?thesis using b by (force simp: token_bucket_new_def)
qed

theorem gateway_limit_is_a_rate_witness:
  "\<exists>b t l. maybe_rate_limiter ((router_config_default :: unit router_config)\<lparr> rc_max_concurrent_requests := 1, rc_rate_limit_tokens_per_second := Some 0 \<rparr>) 0 = Some b \<and>
    limiter_steps (\<lambda>r. ''/generate'') (0, concurrency_limiter_new (Some b) 0 60) (t, l) \<and> length (handling l) = 5"
proof -
  have b: "maybe_rate_limiter ((router_config_default :: unit router_config)\<lparr> rc_max_concurrent_requests := 1, rc_rate_limit_tokens_per_second := Some 0 \<rparr>) 0 =
      Some (token_bucket_new 1 1 0)" by (simp add: maybe_rate_limiter_def)
  from gateway_limit_is_a_rate [OF b, of "\<lambda>r. ''/generate''" 0 60 5] b show ?thesis by blast
qed

theorem limiter_bounds_witness:
  "\<exists>l. limiter_steps (\<lambda>r. ''/generate'') (0, concurrency_limiter_new (Some (token_bucket_new 1 0 0)) 1 60) (0, l) \<and> queue l = [(7, 0)] \<and>
    real (length (handling l) + length (bodies l) + lost l) \<le> 1"
proof -
  let ?p = "\<lambda>r :: nat. ''/generate''"
  let ?l0 = "concurrency_limiter_new (Some (token_bucket_new 1 0 0)) 1 60"
  let ?l1 = "snd (limit_arrival ?p False 0 3 ?l0)" let ?l2 = "snd (limit_arrival ?p False 0 7 ?l1)"
  have e: "\<not> is_embeddings ''/generate''" by code_simp
  have l1: "?l1 = ?l0\<lparr> lm_bucket := Some \<lparr> token_bucket.tokens = 0, last_refill = 0, capacity = 1, refill_rate = 0 \<rparr>, handling := [3] \<rparr>"
    by (simp add: limit_arrival_def concurrency_limiter_new_def token_bucket_new_def try_acquire_sync_def refill_def duration_since_def Let_def)
  have l2: "?l2 = ?l1\<lparr> queue := [(7, 0)] \<rparr>"
    unfolding l1 using e by (simp add: limit_arrival_def concurrency_limiter_new_def try_acquire_sync_def refill_def duration_since_def Let_def)
  have "limiter_step ?p (0, ?l0) (0, ?l1)" by (rule limiter_step.arrival) (simp_all add: concurrency_limiter_new_def)
  moreover have "limiter_step ?p (0, ?l1) (0, ?l2)" by (rule limiter_step.arrival, simp, simp only: l1, simp add: concurrency_limiter_new_def)
  ultimately have run: "limiter_steps ?p (0, ?l0) (0, ?l2)" by (meson converse_rtranclp_into_rtranclp rtranclp.rtrancl_refl)
  from limiter_bounds [OF run] run l2 show ?thesis by (intro exI [of _ ?l2]) simp
qed

lemma on_request_reject:
  "on_request_modules exec ms req = Inl s \<longleftrightarrow>
    (\<exists>pre m post req' n. ms = pre @ m # post \<and> on_request_modules exec pre req = Inr req' \<and> exec m req' = Some (Reject n) \<and> s = status_or 400 n)"
proof (induction ms arbitrary: req)
  case (Cons m ms)
  let ?P = "\<lambda>ms req. \<exists>pre m post req' n. ms = pre @ m # post \<and> on_request_modules exec pre req = Inr req' \<and> exec m req' = Some (Reject n) \<and> s = status_or 400 n"
  have head: "?P (m # ms) req \<longleftrightarrow> (\<exists>n. exec m req = Some (Reject n) \<and> s = status_or 400 n) \<or>
      (\<exists>pre m' post req' n. ms = pre @ m' # post \<and> on_request_modules exec (m # pre) req = Inr req' \<and> exec m' req' = Some (Reject n) \<and> s = status_or 400 n)"
    (is "?A \<longleftrightarrow> ?B \<or> ?C")
  proof
    assume ?A
    then obtain pre m' post req' n where h: "m # ms = pre @ m' # post" "on_request_modules exec pre req = Inr req'" "exec m' req' = Some (Reject n)" "s = status_or 400 n" by blast
    then show "?B \<or> ?C"
    proof (cases pre)
      case Nil
      then show ?thesis using h by auto
    next
      case (Cons x xs)
      then have "ms = xs @ m' # post" "on_request_modules exec (m # xs) req = Inr req'" using h(1,2) by auto
      then show ?thesis using h(3,4) by blast
    qed
  next
    assume "?B \<or> ?C"
    then show ?A
    proof
      assume ?B
      then show ?A by (intro exI [of _ "[]"]) auto
    next
      assume ?C
      then obtain pre m' post req' n where "ms = pre @ m' # post" "on_request_modules exec (m # pre) req = Inr req'" "exec m' req' = Some (Reject n)" "s = status_or 400 n" by blast
      then show ?A by (intro exI [of _ "m # pre"] exI [of _ m'] exI [of _ post] exI [of _ req'] exI [of _ n]) auto
    qed
  qed
  have run: "on_request_modules exec (m # ms) req = Inl s \<longleftrightarrow>
      (case exec m req of
         Some (Reject n) \<Rightarrow> s = status_or 400 n
       | Some (Modify md) \<Rightarrow> ?P ms (req\<lparr> rq_headers := md_headers md (rq_headers req),
            rq_body := (case md_body_replace md of Some b \<Rightarrow> b | None \<Rightarrow> rq_body req) \<rparr>)
       | _ \<Rightarrow> ?P ms req)"
    unfolding on_request_modules.simps by (cases "exec m req"; (simp only: option.case Cons.IH)?) (auto simp: Cons.IH split: wasm_action.splits)
  show ?case unfolding run head by (auto split: option.splits wasm_action.splits)
qed auto

text \<open>
  C35: WASM modules on a request.  When its body can be read, the request is refused exactly if some
  module rejects what the modules before it made of it, and with the status of the first such
  module.  When the body cannot be read, which is the case above the size limit, no module sees the
  request: the handler gets a request with the same path, but as GET without headers and body.
\<close>

theorem wasm_modules_filter:
  assumes "wm_on_request man = Some ms" "ms \<noteq> []"
  shows "(wm_to_bytes man (rq_body req) = Some b \<longrightarrow>
      (wasm_middleware True (Some man) next req = Inl s \<longleftrightarrow>
       (\<exists>pre m post req' n. ms = pre @ m # post \<and> on_request_modules (wm_exec_request man) pre (req\<lparr> rq_body := b \<rparr>) = Inr req' \<and>
          wm_exec_request man m req' = Some (Reject n) \<and> s = status_or 400 n))) \<and>
    (wm_to_bytes man (rq_body req) = None \<longrightarrow>
      wasm_middleware True (Some man) next req =
        Inr (next \<lparr> rq_method = ''GET'', rq_path = rq_path req, rq_query = rq_query req, rq_headers = [], rq_body = [] \<rparr>))"
  using assms on_request_reject [of "wm_exec_request man" ms "req\<lparr> rq_body := b \<rparr>" s]
  by (auto simp: wasm_middleware_def split: sum.splits)

definition sample_manager :: "unit wasm_manager" where
  "sample_manager = \<lparr> wm_on_request = Some [()], wm_on_response = Some [], wm_exec_request = (\<lambda>m r. Some (Reject 403)),
     wm_exec_response = (\<lambda>m r. None), wm_to_bytes = (\<lambda>b. if length b \<le> 3 then Some b else None) \<rparr>"

theorem wasm_modules_filter_witness:
  "wasm_middleware True (Some sample_manager) (\<lambda>r. \<lparr> ws_status = 200, ws_headers = [], ws_body = [] \<rparr>)
     \<lparr> rq_method = ''POST'', rq_path = ''/generate'', rq_query = [], rq_headers = [], rq_body = ''ab'' \<rparr> = Inl 403 \<and>
   wasm_middleware True (Some sample_manager) (\<lambda>r. \<lparr> ws_status = 200, ws_headers = [], ws_body = [] \<rparr>)
     \<lparr> rq_method = ''POST'', rq_path = ''/generate'', rq_query = [], rq_headers = [], rq_body = ''abcd'' \<rparr> =
     Inr \<lparr> ws_status = 200, ws_headers = [], ws_body = [] \<rparr>"
proof -
  have m: "wm_on_request sample_manager = Some [()]" by (simp add: sample_manager_def)
  show ?thesis
    using wasm_modules_filter [OF m, of "\<lparr> rq_method = ''POST'', rq_path = ''/generate'', rq_query = [], rq_headers = [], rq_body = ''ab'' \<rparr>"
        "''ab''" "\<lambda>r. \<lparr> ws_status = 200, ws_headers = [], ws_body = [] \<rparr>" 403]
      wasm_modules_filter [OF m, of "\<lparr> rq_method = ''POST'', rq_path = ''/generate'', rq_query = [], rq_headers = [], rq_body = ''abcd'' \<rparr>"
        "''abcd''" "\<lambda>r. \<lparr> ws_status = 200, ws_headers = [], ws_body = [] \<rparr>" 403]
    by (auto simp: sample_manager_def status_or_def from_u16_def intro!: exI [of _ "[]"])
qed

end
