(* ===== verification/Worker_Lifecycle.thy ===== *)
theory Worker_Lifecycle
  imports Http_Router Config
begin

text \<open>
  Adding, updating and removing workers: the workflow steps of
  \<open>src/gateway/src/core/steps/worker/\<close> and the load monitor of \<open>core/worker_manager.rs\<close>.

  A workflow is the sequence of its steps in the order of its dependencies; a step returns
  \<open>Inl\<close> of its error and the engine, which is another crate, then stops the workflow.  A panic
  inside the policies is \<open>None\<close>.  What the network answers (health probes, server and model
  information, gRPC metadata, loads) is an argument, as are the JSON parser and the ids the
  registry draws.  A new worker gets the next free reference of the worker store.  The request
  types of the protocol crate are records of the fields the steps read.
\<close>

section \<open>Data\<close>

datatype workflow_error = ContextValueNotFound string | StepFailed string string

type_synonym labels_map = "(string \<times> string) list"

record worker_config_request =
  cr_url :: string
  cr_api_key :: "string option"
  cr_model_id :: "string option"
  cr_priority :: "u32 option"
  cr_cost :: "string option"
  cr_labels :: labels_map
  cr_worker_type :: "string option"
  cr_bootstrap_port :: "u16 option"
  cr_runtime :: "string option"
  cr_tokenizer_path :: "string option"
  cr_reasoning_parser :: "string option"
  cr_tool_parser :: "string option"
  cr_chat_template :: "string option"
  cr_disable_health_check :: bool
  cr_dp_aware :: bool

record worker_update_request =
  ur_labels :: "labels_map option"
  ur_priority :: "u32 option"
  ur_cost :: "string option"
  ur_api_key :: "string option"
  ur_health_check_timeout_secs :: "u64 option"
  ur_health_check_interval_secs :: "u64 option"
  ur_health_failure_threshold :: "u32 option"
  ur_health_success_threshold :: "u32 option"
  ur_disable_health_check :: "bool option"

record dp_info =
  di_dp_size :: nat
  di_model_id :: string

record server_info =
  si_model_id :: "string option"
  si_model_path :: "string option"
  si_served_model_name :: "string option"
  si_tp_size :: "nat option"
  si_dp_size :: "nat option"
  si_load_balance_method :: "string option"
  si_disaggregation_mode :: "string option"

record model_info =
  mi_model_path :: "string option"
  mi_served_model_name :: "string option"
  mi_tokenizer_path :: "string option"
  mi_model_type :: "string option"
  mi_architectures :: "string list option"

record local_worker_data =
  ld_config :: worker_config_request
  ld_connection_mode :: "connection_mode option"
  ld_discovered_labels :: labels_map
  ld_dp_info :: "dp_info option"
  ld_final_labels :: labels_map
  ld_detected_runtime_type :: "string option"
  ld_actual_workers :: "wref list option"

definition create_local_worker_workflow_data :: "worker_config_request \<Rightarrow> local_worker_data" where
  "create_local_worker_workflow_data config =
     \<lparr> ld_config = config, ld_connection_mode = None, ld_discovered_labels = [], ld_dp_info = None,
       ld_final_labels = [], ld_detected_runtime_type = None, ld_actual_workers = None \<rparr>"

text \<open>The registries and the store of workers with its next free reference.\<close>

record control = gateway +
  next_ref :: wref

text \<open>
  What other crates and the network contribute: the hash function, the id of a model without a
  name, URL parsing, JSON parsing and printing, the files of persisted sessions, and the ids drawn
  for new workers.
\<close>

record wf_env =
  we_blake3 :: blake3
  we_unknown :: string
  we_url_parse :: "string \<Rightarrow> string option option"
  we_json_strings :: "string \<Rightarrow> string list option"
  we_json_map :: "string \<Rightarrow> labels_map option"
  we_json_print :: "string list \<Rightarrow> string option"
  we_read :: file_read
  we_new_id :: "wref \<Rightarrow> string"

record probes =
  pr_http :: "string \<Rightarrow> string + unit"
  pr_grpc :: "string \<Rightarrow> string \<Rightarrow> string + unit"
  pr_server_info :: "string \<Rightarrow> string option \<Rightarrow> string + server_info"
  pr_model_info :: "string \<Rightarrow> string option \<Rightarrow> string + model_info"
  pr_v1_model :: "string \<Rightarrow> string option \<Rightarrow> string + string"
  pr_grpc_labels :: "string \<Rightarrow> string \<Rightarrow> string + labels_map"

section \<open>Detecting the connection\<close>

text \<open>\<open>trim_start_matches\<close> with a non-empty pattern removes every leading copy of it.\<close>

function trim_start_matches :: "string \<Rightarrow> string \<Rightarrow> string" where
  "trim_start_matches pat s =
     (if pat \<noteq> [] \<and> prefix pat s then trim_start_matches pat (drop (length pat) s) else s)"
  by pat_completeness auto
termination
  by (relation "measure (\<lambda>(pat, s). length s)") (auto simp: prefix_def)

declare trim_start_matches.simps [simp del]

definition strip_protocol :: "string \<Rightarrow> string" where
  "strip_protocol u =
     trim_start_matches ''grpc://'' (trim_start_matches ''https://'' (trim_start_matches ''http://'' u))"

definition http_health_url :: "string \<Rightarrow> string" where
  "http_health_url u =
     (let protocol = (if prefix ''https://'' u then ''https'' else ''http'') in
      protocol @ ''://'' @ strip_protocol u @ ''/health'')"

definition grpc_url :: "string \<Rightarrow> string" where
  "grpc_url u = (if prefix ''grpc://'' u then u else ''grpc://'' @ strip_protocol u)"

definition try_grpc_health_check :: "(string \<Rightarrow> string \<Rightarrow> string + unit) \<Rightarrow> string \<Rightarrow> string option \<Rightarrow> string + unit" where
  "try_grpc_health_check grpc u runtime =
     (case runtime of
        Some r \<Rightarrow> grpc (grpc_url u) r
      | None \<Rightarrow>
          (case grpc (grpc_url u) ''sglang'' of
             Inr _ \<Rightarrow> Inr ()
           | Inl _ \<Rightarrow>
               (case grpc (grpc_url u) ''vllm'' of
                  Inr _ \<Rightarrow> Inr ()
                | Inl e \<Rightarrow> Inl (''gRPC failed (tried SGLang and vLLM): '' @ e))))"

definition detect_connection_mode :: "probes \<Rightarrow> local_worker_data \<Rightarrow> workflow_error + local_worker_data" where
  "detect_connection_mode pb d =
     (let config = ld_config d;
          http_result = pr_http pb (http_health_url (cr_url config));
          grpc_result = try_grpc_health_check (pr_grpc pb) (cr_url config) (cr_runtime config) in
      case (http_result, grpc_result) of
        (Inr _, _) \<Rightarrow> Inr (d\<lparr> ld_connection_mode := Some Http \<rparr>)
      | (_, Inr _) \<Rightarrow> Inr (d\<lparr> ld_connection_mode := Some (Grpc None) \<rparr>)
      | (Inl http_err, Inl grpc_err) \<Rightarrow> Inl (StepFailed ''detect_connection_mode''
          (''Both HTTP and gRPC health checks failed for '' @ cr_url config @ '': HTTP: '' @ http_err @ '', gRPC: '' @ grpc_err)))"

section \<open>Discovering metadata\<close>

definition non_empty :: "string option \<Rightarrow> string option" where
  "non_empty v = (case v of Some s \<Rightarrow> if s = [] then None else Some s | None \<Rightarrow> None)"

definition insert_some :: "string \<Rightarrow> string option \<Rightarrow> labels_map \<Rightarrow> labels_map" where
  "insert_some k v ls = (case v of Some s \<Rightarrow> map_insert k s ls | None \<Rightarrow> ls)"

definition http_labels ::
    "(string list \<Rightarrow> string option) \<Rightarrow> server_info option \<Rightarrow> model_info option \<Rightarrow> string option \<Rightarrow> labels_map" where
  "http_labels json_print si mi v1_model =
     (let ls = insert_some ''model_path''
                 (or_else (non_empty (Option.bind mi mi_model_path)) (non_empty (Option.bind si si_model_path))) [];
          ls = insert_some ''served_model_name''
                 (or_else (non_empty (Option.bind mi mi_served_model_name)) (non_empty (Option.bind si si_served_model_name))) ls;
          ls = insert_some ''tp_size'' (map_option show_nat (Option.bind si si_tp_size)) ls;
          ls = insert_some ''dp_size'' (map_option show_nat (Option.bind si si_dp_size)) ls;
          ls = insert_some ''load_balance_method'' (Option.bind si si_load_balance_method) ls;
          ls = insert_some ''disaggregation_mode'' (Option.bind si si_disaggregation_mode) ls;
          ls = insert_some ''tokenizer_path'' (non_empty (Option.bind mi mi_tokenizer_path)) ls;
          ls = insert_some ''model_type'' (non_empty (Option.bind mi mi_model_type)) ls;
          ls = insert_some ''architectures''
                 (Option.bind (Option.bind mi mi_architectures) (\<lambda>a. if a = [] then None else json_print a)) ls in
      if \<not> contains_key ls ''model_path'' \<and> \<not> contains_key ls ''served_model_name''
      then insert_some ''served_model_name'' v1_model ls else ls)"

definition ok :: "'e + 'a \<Rightarrow> 'a option" where
  "ok r = (case r of Inl _ \<Rightarrow> None | Inr x \<Rightarrow> Some x)"

definition fetch_grpc_metadata ::
    "(string \<Rightarrow> string \<Rightarrow> string + labels_map) \<Rightarrow> string \<Rightarrow> string option \<Rightarrow> string + (labels_map \<times> string)" where
  "fetch_grpc_metadata fetch u runtime =
     (case runtime of
        Some r \<Rightarrow> map_sum (\<lambda>e. e) (\<lambda>ls. (ls, r)) (fetch (grpc_url u) r)
      | None \<Rightarrow>
          (case fetch (grpc_url u) ''sglang'' of
             Inr ls \<Rightarrow> Inr (ls, ''sglang'')
           | Inl _ \<Rightarrow>
               (case fetch (grpc_url u) ''vllm'' of
                  Inr ls \<Rightarrow> Inr (ls, ''vllm'')
                | Inl e \<Rightarrow> Inl (''gRPC metadata failed (tried SGLang and vLLM): '' @ e))))"

definition discover_metadata :: "wf_env \<Rightarrow> probes \<Rightarrow> local_worker_data \<Rightarrow> workflow_error + local_worker_data" where
  "discover_metadata env pb d =
     (case ld_connection_mode d of
        None \<Rightarrow> Inl (ContextValueNotFound ''connection_mode'')
      | Some mode \<Rightarrow>
          let config = ld_config d;
              (discovered, runtime) =
                (case mode of
                   Http \<Rightarrow>
                     (http_labels (we_json_print env) (ok (pr_server_info pb (cr_url config) (cr_api_key config)))
                        (ok (pr_model_info pb (cr_url config) (cr_api_key config)))
                        (ok (pr_v1_model pb (cr_url config) (cr_api_key config))), None)
                 | Grpc _ \<Rightarrow>
                     (case fetch_grpc_metadata (pr_grpc_labels pb) (cr_url config) (cr_runtime config) of
                        Inr (ls, r) \<Rightarrow> (ls, Some r)
                      | Inl _ \<Rightarrow> ([], None)));
              d = d\<lparr> ld_discovered_labels := discovered \<rparr> in
          Inr (case runtime of Some r \<Rightarrow> d\<lparr> ld_detected_runtime_type := Some r \<rparr> | None \<Rightarrow> d))"

text \<open>\<open>path.split('/').next_back()\<close>: what follows the last slash.\<close>

definition last_segment :: "string \<Rightarrow> string" where
  "last_segment p = rev (takeWhile (\<lambda>c. c \<noteq> CHR ''/'') (rev p))"

definition get_dp_info :: "string \<Rightarrow> string \<Rightarrow> string + server_info \<Rightarrow> string + dp_info" where
  "get_dp_info unknown_id u r =
     (case r of
        Inl e \<Rightarrow> Inl e
      | Inr info \<Rightarrow>
          (case si_dp_size info of
             None \<Rightarrow> Inl (''No dp_size in response from '' @ u)
           | Some n \<Rightarrow>
               Inr \<lparr> di_dp_size = n,
                     di_model_id = (case or_else (or_else (non_empty (si_model_id info)) (non_empty (si_served_model_name info)))
                        (map_option last_segment (si_model_path info)) of Some m \<Rightarrow> m | None \<Rightarrow> unknown_id) \<rparr>))"

definition discover_dp_info :: "wf_env \<Rightarrow> probes \<Rightarrow> local_worker_data \<Rightarrow> workflow_error + local_worker_data" where
  "discover_dp_info env pb d =
     (let config = ld_config d in
      if \<not> cr_dp_aware config then Inr d
      else
        case get_dp_info (we_unknown env) (cr_url config) (pr_server_info pb (cr_url config) (cr_api_key config)) of
          Inl e \<Rightarrow> Inl (StepFailed ''discover_dp_info'' (''Failed to get DP info: '' @ e))
        | Inr info \<Rightarrow> Inr (d\<lparr> ld_dp_info := Some info \<rparr>))"

section \<open>Creating workers\<close>

definition build_model_card :: "wf_env \<Rightarrow> string \<Rightarrow> worker_config_request \<Rightarrow> labels_map \<Rightarrow> model_card" where
  "build_model_card env m config ls =
     (let card = model_card_new m;
          card = (case cr_tokenizer_path config of Some p \<Rightarrow> with_tokenizer_path p card | None \<Rightarrow> card);
          card = (case cr_reasoning_parser config of Some p \<Rightarrow> with_reasoning_parser p card | None \<Rightarrow> card);
          card = (case cr_tool_parser config of Some p \<Rightarrow> with_tool_parser p card | None \<Rightarrow> card);
          card = (case cr_chat_template config of Some p \<Rightarrow> with_chat_template p card | None \<Rightarrow> card);
          card = (case map_get ls ''model_type'' of Some t \<Rightarrow> with_hf_model_type t card | None \<Rightarrow> card);
          card = (case Option.bind (map_get ls ''architectures'') (we_json_strings env) of
                    Some a \<Rightarrow> with_architectures a card | None \<Rightarrow> card) in
      case map_get ls ''id2label_json'' of
        Some js \<Rightarrow>
          (case (if js = [] then None else we_json_map env js) of
             Some string_map \<Rightarrow>
               let id2label = foldl (\<lambda>m (k, v). case parse_u32 k of Some i \<Rightarrow> map_insert (of_nat i) v m | None \<Rightarrow> m) [] string_map in
               if id2label \<noteq> [] then with_id2label id2label card else card
           | None \<Rightarrow> card)
      | None \<Rightarrow>
          (case Option.bind (map_get ls ''num_labels'') parse_u32 of
             Some n \<Rightarrow> if 0 < n then with_id2label (map (\<lambda>i. (of_nat i, ''LABEL_'' @ show_nat i)) [0..<n]) card else card
           | None \<Rightarrow> card))"

definition parse_worker_type :: "worker_config_request \<Rightarrow> worker_type" where
  "parse_worker_type config =
     (case cr_worker_type config of
        Some t \<Rightarrow> if t = ''prefill'' then Prefill (cr_bootstrap_port config)
                  else if t = ''decode'' then Decode else Regular
      | None \<Rightarrow> Regular)"

definition determine_runtime_type :: "connection_mode \<Rightarrow> local_worker_data \<Rightarrow> runtime_type" where
  "determine_runtime_type mode d =
     (case mode of
        Http \<Rightarrow> Sglang
      | Grpc _ \<Rightarrow>
          (case or_else (ld_detected_runtime_type d) (cr_runtime (ld_config d)) of
             Some r \<Rightarrow> if r = ''vllm'' then Vllm else Sglang
           | None \<Rightarrow> Sglang))"

definition build_circuit_breaker_config :: "'x router_config \<Rightarrow> circuit_breaker_config" where
  "build_circuit_breaker_config rc =
     (let cfg = effective_circuit_breaker_config rc in
      \<lparr> failure_threshold = cs_failure_threshold cfg, success_threshold = cs_success_threshold cfg,
        timeout_duration = unat (cs_timeout_duration_secs cfg) * 1000,
        window_duration = unat (cs_window_duration_secs cfg) * 1000 \<rparr>)"

definition build_health_config :: "'x router_config \<Rightarrow> worker_config_request \<Rightarrow> health_config" where
  "build_health_config rc config =
     (let cfg = rc_health_check rc in
      \<lparr> timeout_secs = hcc_timeout_secs cfg, check_interval_secs = hcc_check_interval_secs cfg,
        hc_endpoint = hcc_endpoint cfg, hc_failure_threshold = hcc_failure_threshold cfg,
        hc_success_threshold = hcc_success_threshold cfg,
        disable_health_check = hcc_disable_health_check cfg \<or> cr_disable_health_check config \<rparr>)"

definition normalize_url :: "string \<Rightarrow> connection_mode \<Rightarrow> string" where
  "normalize_url u mode =
     (if prefix ''http://'' u \<or> prefix ''https://'' u \<or> prefix ''grpc://'' u then u
      else case mode of Http \<Rightarrow> ''http://'' @ u | Grpc _ \<Rightarrow> ''grpc://'' @ u)"

definition config_labels :: "worker_config_request \<Rightarrow> labels_map" where
  "config_labels config =
     insert_some ''cost'' (cr_cost config)
       (insert_some ''priority'' (map_option (\<lambda>p. show_nat (unat p)) (cr_priority config)) (cr_labels config))"

definition merge_labels :: "labels_map \<Rightarrow> labels_map \<Rightarrow> labels_map" where
  "merge_labels ls new_labels = foldl (\<lambda>ls (k, v). map_insert k v ls) ls new_labels"

definition determine_model_id :: "string \<Rightarrow> worker_config_request \<Rightarrow> labels_map \<Rightarrow> string" where
  "determine_model_id unknown_id config ls =
     (case or_else (or_else (cr_model_id config) (map_get ls ''served_model_name'')) (map_get ls ''model_path'') of
        Some m \<Rightarrow> m | None \<Rightarrow> unknown_id)"

text \<open>The settings both builders get.\<close>

definition configure ::
    "model_card list \<Rightarrow> worker_type \<Rightarrow> connection_mode \<Rightarrow> runtime_type \<Rightarrow> circuit_breaker_config \<Rightarrow> health_config \<Rightarrow>
     string option \<Rightarrow> labels_map \<Rightarrow> basic_worker_builder \<Rightarrow> basic_worker_builder" where
  "configure models t mode rt cb hc key ls b =
     (let b = b\<lparr> bb_models := bb_models b @ models, bb_worker_type := t, bb_connection_mode := mode, bb_runtime_type := rt,
            bb_circuit_breaker_config := cb, bb_health_config := hc \<rparr>;
          b = (case key of Some k \<Rightarrow> b\<lparr> bb_api_key := Some k \<rparr> | None \<Rightarrow> b) in
      if ls \<noteq> [] then b\<lparr> bb_labels := ls \<rparr> else b)"

definition create_single_worker :: "wf_env \<Rightarrow> u64 \<Rightarrow> basic_worker_builder \<Rightarrow> worker" where
  "create_single_worker env now b =
     set_healthy (disable_health_check (bb_health_config b)) (Basic (build (we_url_parse env) now b))"

definition create_dp_aware_worker :: "wf_env \<Rightarrow> u64 \<Rightarrow> nat \<Rightarrow> basic_worker_builder \<Rightarrow> nat \<Rightarrow> worker" where
  "create_dp_aware_worker env now sz b rank =
     set_healthy (disable_health_check (bb_health_config b))
       (DPAware (dp_build (we_url_parse env) now
          (basic_worker_builder.extend b \<lparr> db_dp_rank = rank, db_dp_size = sz \<rparr>)))"

definition create_local_workers ::
    "wf_env \<Rightarrow> 'x router_config \<Rightarrow> u64 \<Rightarrow> local_worker_data \<Rightarrow> control \<Rightarrow> workflow_error + (worker list \<times> labels_map)" where
  "create_local_workers env rc now d c =
     (let config = ld_config d in
      case ld_connection_mode d of
        None \<Rightarrow> Inl (ContextValueNotFound ''connection_mode'')
      | Some mode \<Rightarrow>
          if get_by_url (cr_url config) (wreg c) \<noteq> None
          then Inl (StepFailed ''create_worker'' (''Worker '' @ cr_url config @ '' already exists''))
          else
            let final_labels = merge_labels (ld_discovered_labels d) (config_labels config);
                m = determine_model_id (we_unknown env) config final_labels;
                card = build_model_card env m config final_labels;
                b = configure [card] (parse_worker_type config) mode (determine_runtime_type mode d)
                      (build_circuit_breaker_config rc) (build_health_config rc config) (cr_api_key config) final_labels
                      (builder_new (normalize_url (cr_url config) mode)) in
            if cr_dp_aware config then
              (case ld_dp_info d of
                 None \<Rightarrow> Inl (ContextValueNotFound ''dp_info'')
               | Some info \<Rightarrow>
                   Inr (map (create_dp_aware_worker env now (di_dp_size info) b) [0..<di_dp_size info], final_labels))
            else Inr ([create_single_worker env now b], final_labels))"

fun alloc_workers :: "worker list \<Rightarrow> control \<Rightarrow> wref list \<times> control" where
  "alloc_workers [] c = ([], c)"
| "alloc_workers (w # ws) c =
     (let r = next_ref c;
          (rs, c) = alloc_workers ws (c\<lparr> wst := (wst c)(r := w), next_ref := r + 1 \<rparr>) in
      (r # rs, c))"

definition create_worker_step ::
    "wf_env \<Rightarrow> 'x router_config \<Rightarrow> u64 \<Rightarrow> local_worker_data \<Rightarrow> control \<Rightarrow> workflow_error + (local_worker_data \<times> control)" where
  "create_worker_step env rc now d c =
     (case create_local_workers env rc now d c of
        Inl e \<Rightarrow> Inl e
      | Inr (ws, final_labels) \<Rightarrow>
          let (rs, c) = alloc_workers ws c in
          Inr (d\<lparr> ld_actual_workers := Some rs, ld_final_labels := final_labels \<rparr>, c))"

section \<open>Registering, announcing and activating\<close>

fun register_workers :: "wf_env \<Rightarrow> wref list \<Rightarrow> control \<Rightarrow> (string \<times> mesh_message list) list \<times> control" where
  "register_workers env [] c = ([], c)"
| "register_workers env (r # rs) c =
     (let (out, reg) = register (we_blake3 env) (we_unknown env) (we_new_id env r) (wst c) r (wreg c);
          (outs, c) = register_workers env rs (c\<lparr> wreg := reg \<rparr>) in
      (out # outs, c))"

record tokenizer_config_request =
  tr_name :: string
  tr_source :: string
  tr_chat_template_path :: "string option"
  tr_cache_config :: "tokenizer_cache_config option"
  tr_fail_on_duplicate :: bool

definition submit_tokenizer_job :: "wf_env \<Rightarrow> 'x router_config \<Rightarrow> local_worker_data \<Rightarrow> wref list \<Rightarrow> control \<Rightarrow> tokenizer_config_request list" where
  "submit_tokenizer_job env rc d rs c =
     (let ls = ld_final_labels d;
          chat_tmpl = or_else (cr_chat_template (ld_config d)) (rc_chat_template rc);
          cache_config = tokenizer_cache_to_option (rc_tokenizer_cache rc) in
      List.map_filter (\<lambda>r.
        map_option (\<lambda>path.
            \<lparr> tr_name = model_id (we_unknown env) (wst c r), tr_source = path, tr_chat_template_path = chat_tmpl,
              tr_cache_config = cache_config, tr_fail_on_duplicate = False \<rparr>)
          (or_else (or_else (map_get ls ''tokenizer_path'') (map_get ls ''model_path''))
                   (or_else (rc_tokenizer_path rc) (rc_model_path rc)))) rs)"

definition update_policy_for :: "wf_env \<Rightarrow> nat \<Rightarrow> string option \<Rightarrow> wref \<Rightarrow> control \<Rightarrow> control option" where
  "update_policy_for env now policy_hint r c =
     (let m = model_id (we_unknown env) (wst c r) in
      do {
        (_, pr, msgs) \<leftarrow> on_worker_added (we_read env) now m policy_hint (preg c);
        let all_workers = map (wst c) (get_by_model m (wreg c));
        pr \<leftarrow> (case get_policy m pr of
                Some p \<Rightarrow> if policy_name (obj pr p) = ''cache_aware''
                          then init_cache_aware_policy (we_unknown env) m all_workers pr else Some pr
              | None \<Rightarrow> Some pr);
        Some (c\<lparr> preg := pr \<rparr>)
      })"

definition update_pd_policies :: "wf_env \<Rightarrow> control \<Rightarrow> control option" where
  "update_pd_policies env c =
     (let prefill = map (wst c) (get_prefill_workers (wst c) (wreg c));
          decode = map (wst c) (get_decode_workers (wreg c)) in
      do {
        pr \<leftarrow> (if prefill \<noteq> [] \<and> policy_name (obj (preg c) (get_prefill_policy (preg c))) = ''bucket''
              then init_pd_bucket_policies (we_unknown env) prefill (preg c) else Some (preg c));
        let prefill_is_cache_aware = policy_name (obj pr (get_prefill_policy pr)) = ''cache_aware'';
        let decode_is_cache_aware = policy_name (obj pr (get_decode_policy pr)) = ''cache_aware'';
        pr \<leftarrow> (if prefill_is_cache_aware \<and> prefill \<noteq> [] \<or> decode_is_cache_aware \<and> decode \<noteq> []
              then init_pd_cache_aware_policies (we_unknown env) prefill decode pr else Some pr);
        Some (c\<lparr> preg := pr \<rparr>)
      })"

definition update_policies_step :: "wf_env \<Rightarrow> nat \<Rightarrow> labels_map \<Rightarrow> wref list \<Rightarrow> control \<Rightarrow> control option" where
  "update_policies_step env now ls rs c =
     do {
       c \<leftarrow> for_each (update_policy_for env now (map_get ls ''policy'')) rs c;
       update_pd_policies env c
     }"

definition activate_workers :: "wref list \<Rightarrow> control \<Rightarrow> control" where
  "activate_workers rs c = c\<lparr> wst := foldl (\<lambda>st r. st(r := set_healthy True (st r))) (wst c) rs \<rparr>"

text \<open>
  The registration workflow.  Policies and activation run in parallel; they touch different
  registries, and the policies do not read the health of the workers.
\<close>

definition finish_registration ::
    "wf_env \<Rightarrow> nat \<Rightarrow> labels_map \<Rightarrow> wref list \<Rightarrow> control \<Rightarrow> control option" where
  "finish_registration env time ls rs c =
     (let (outs, c) = register_workers env rs c in
      do {
        c \<leftarrow> update_policies_step env time ls rs c;
        Some (activate_workers rs c)
      })"

definition local_worker_registration ::
    "wf_env \<Rightarrow> 'x router_config \<Rightarrow> probes \<Rightarrow> u64 \<Rightarrow> nat \<Rightarrow> worker_config_request \<Rightarrow> control \<Rightarrow>
     (workflow_error + control) option" where
  "local_worker_registration env rc pb now time config c =
     (case detect_connection_mode pb (create_local_worker_workflow_data config) of
        Inl e \<Rightarrow> Some (Inl e)
      | Inr d \<Rightarrow>
          let d = (case discover_metadata env pb d of Inl _ \<Rightarrow> d | Inr d \<Rightarrow> d) in
          case discover_dp_info env pb d of
            Inl e \<Rightarrow> Some (Inl e)
          | Inr d \<Rightarrow>
              (case create_worker_step env rc now d c of
                 Inl e \<Rightarrow> Some (Inl e)
               | Inr (d, c) \<Rightarrow>
                   (case ld_actual_workers d of
                      None \<Rightarrow> Some (Inl (ContextValueNotFound ''workers''))
                    | Some rs \<Rightarrow> map_option Inr (finish_registration env time (ld_final_labels d) rs c))))"

section \<open>External endpoints\<close>

definition normalize_external_url :: "string \<Rightarrow> string" where
  "normalize_external_url u = (if prefix ''http://'' u \<or> prefix ''https://'' u then u else ''https://'' @ u)"

definition create_external_workers :: "wf_env \<Rightarrow> 'x router_config \<Rightarrow> u64 \<Rightarrow> worker_config_request \<Rightarrow> model_card list \<Rightarrow> worker list" where
  "create_external_workers env rc now config cards =
     (let make = (\<lambda>models. create_single_worker env now
            (configure models Regular Http External (build_circuit_breaker_config rc) (build_health_config rc config)
               (cr_api_key config) (config_labels config) (builder_new (normalize_external_url (cr_url config))))) in
      if cards = [] then [make []] else map (\<lambda>card. make [card]) cards)"

definition external_worker_registration ::
    "wf_env \<Rightarrow> 'x router_config \<Rightarrow> u64 \<Rightarrow> nat \<Rightarrow> worker_config_request \<Rightarrow> model_card list \<Rightarrow> control \<Rightarrow> control option" where
  "external_worker_registration env rc now time config cards c =
     (let (rs, c) = alloc_workers (create_external_workers env rc now config cards) c in
      finish_registration env time (config_labels config) rs c)"

section \<open>Removing workers\<close>

definition find_workers_by_url :: "wstore \<Rightarrow> worker_registry \<Rightarrow> string \<Rightarrow> bool \<Rightarrow> wref list" where
  "find_workers_by_url st reg u dp_aware =
     (if dp_aware then filter (\<lambda>r. prefix (u @ ''@'') (url (st r))) (get_all reg)
      else case get_by_url u reg of Some r \<Rightarrow> [r] | None \<Rightarrow> [])"

definition remove_from_policies :: "wf_env \<Rightarrow> wref \<Rightarrow> control \<Rightarrow> control option" where
  "remove_from_policies env r c =
     (let w = wst c r; m = model_id (we_unknown env) w in
      do {
        pr \<leftarrow> remove_worker_from_cache_aware m (url w) (preg c);
        pr \<leftarrow> remove_pd_worker_from_cache_aware (we_unknown env) w pr;
        Some (c\<lparr> preg := fst (on_worker_removed m pr) \<rparr>)
      })"

definition remove_from_registry :: "wf_env \<Rightarrow> string \<Rightarrow> control \<Rightarrow> control" where
  "remove_from_registry env u c =
     (let (_, st, reg) = remove_by_url (we_blake3 env) (we_unknown env) u (wst c) (wreg c) in
      c\<lparr> wst := st, wreg := reg \<rparr>)"

definition update_remaining_policies :: "wf_env \<Rightarrow> string \<Rightarrow> control \<Rightarrow> control option" where
  "update_remaining_policies env m c =
     (let remaining_workers = map (wst c) (get_by_model m (wreg c)) in
      case get_policy m (preg c) of
        Some p \<Rightarrow>
          if policy_name (obj (preg c) p) = ''cache_aware'' \<and> remaining_workers \<noteq> []
          then map_option (\<lambda>pr. c\<lparr> preg := pr \<rparr>) (init_cache_aware_policy (we_unknown env) m remaining_workers (preg c))
          else Some c
      | None \<Rightarrow> Some c)"

definition worker_removal :: "wf_env \<Rightarrow> string \<Rightarrow> bool \<Rightarrow> control \<Rightarrow> (workflow_error + control) option" where
  "worker_removal env u dp_aware c =
     (let rs = find_workers_by_url (wst c) (wreg c) u dp_aware in
      if rs = [] then
        Some (Inl (StepFailed ''find_workers_to_remove''
          (if dp_aware then ''No workers found with prefix '' @ u @ ''@'' else ''Worker '' @ u @ '' not found'')))
      else
        let worker_urls = map (\<lambda>r. url (wst c r)) rs;
            affected_models = remdups (map (\<lambda>r. model_id (we_unknown env) (wst c r)) rs) in
        do {
          c \<leftarrow> for_each (remove_from_policies env) rs c;
          let c = foldl (\<lambda>c u. remove_from_registry env u c) c worker_urls;
          c \<leftarrow> for_each (update_remaining_policies env) affected_models c;
          Some (Inr c)
        })"

section \<open>Updating workers\<close>

definition updated_labels :: "worker_update_request \<Rightarrow> worker \<Rightarrow> labels_map" where
  "updated_labels req w =
     (let ls = labels (metadata w);
          ls = (case ur_labels req of Some new_labels \<Rightarrow> merge_labels ls new_labels | None \<Rightarrow> ls);
          ls = insert_some ''priority'' (map_option (\<lambda>p. show_nat (unat p)) (ur_priority req)) ls in
      insert_some ''cost'' (ur_cost req) ls)"

definition unwrap_or :: "'a option \<Rightarrow> 'a \<Rightarrow> 'a" where
  "unwrap_or v d = (case v of Some x \<Rightarrow> x | None \<Rightarrow> d)"

definition updated_health_config :: "worker_update_request \<Rightarrow> worker \<Rightarrow> health_config" where
  "updated_health_config req w =
     (let existing = wm_health_config (metadata w) in
      \<lparr> timeout_secs = unwrap_or (ur_health_check_timeout_secs req) (timeout_secs existing),
        check_interval_secs = unwrap_or (ur_health_check_interval_secs req) (check_interval_secs existing),
        hc_endpoint = hc_endpoint existing,
        hc_failure_threshold = unwrap_or (ur_health_failure_threshold req) (hc_failure_threshold existing),
        hc_success_threshold = unwrap_or (ur_health_success_threshold req) (hc_success_threshold existing),
        disable_health_check = unwrap_or (ur_disable_health_check req) (disable_health_check existing) \<rparr>)"

text \<open>The breaker settings are not passed on: both builders start from the default ones.\<close>

definition rebuild_worker :: "wf_env \<Rightarrow> u64 \<Rightarrow> worker_update_request \<Rightarrow> worker \<Rightarrow> worker" where
  "rebuild_worker env now req w =
     (let settings = (\<lambda>b. b\<lparr> bb_worker_type := get_worker_type w, bb_connection_mode := get_connection_mode w,
            bb_runtime_type := wm_runtime_type (metadata w), bb_labels := updated_labels req w,
            bb_health_config := updated_health_config req w, bb_models := wm_models (metadata w),
            bb_api_key := or_else (ur_api_key req) (wm_api_key (metadata w)) \<rparr>) in
      if is_dp_aware w then
        DPAware (dp_build (we_url_parse env) now
          (basic_worker_builder.extend (settings (builder_new (base_url w)))
             \<lparr> db_dp_rank = unwrap_or (dp_rank w) 0, db_dp_size = unwrap_or (dp_size w) 1 \<rparr>))
      else Basic (build (we_url_parse env) now (settings (builder_new (url w)))))"

fun update_worker_properties :: "wf_env \<Rightarrow> u64 \<Rightarrow> worker_update_request \<Rightarrow> wref list \<Rightarrow> control \<Rightarrow> wref list \<times> control" where
  "update_worker_properties env now req [] c = ([], c)"
| "update_worker_properties env now req (r # rs) c =
     (let (new, c) = alloc_workers [rebuild_worker env now req (wst c r)] c;
          (outs, c) = register_workers env new c;
          (news, c) = update_worker_properties env now req rs c in
      (new @ news, c))"

definition update_policies_for_model :: "wf_env \<Rightarrow> nat \<Rightarrow> string \<Rightarrow> control \<Rightarrow> control option" where
  "update_policies_for_model env time m c =
     do {
       c \<leftarrow> update_remaining_policies env m c;
       (_, pr, msgs) \<leftarrow> on_worker_added (we_read env) time m None (preg c);
       Some (c\<lparr> preg := pr \<rparr>)
     }"

definition worker_update ::
    "wf_env \<Rightarrow> u64 \<Rightarrow> nat \<Rightarrow> string \<Rightarrow> worker_update_request \<Rightarrow> control \<Rightarrow> (workflow_error + control) option" where
  "worker_update env now time u req c =
     (let dp_aware = CHR ''@'' \<in> set u;
          rs = find_workers_by_url (wst c) (wreg c) u dp_aware in
      if rs = [] then
        Some (Inl (StepFailed ''find_worker_to_update''
          (if dp_aware then ''No workers found with prefix '' @ u @ ''@'' else ''Worker '' @ u @ '' not found'')))
      else
        let (news, c) = update_worker_properties env now req rs c;
            affected_models = remdups (map (\<lambda>r. model_id (we_unknown env) (wst c r)) news) in
        do {
          c \<leftarrow> for_each (update_policies_for_model env time) affected_models c;
          Some (Inr c)
        })"

section \<open>Load monitoring\<close>

text \<open>\<open>fetch\<close>: the token total a worker reports, \<open>None\<close> when the request or the parsing fails.\<close>

definition worker_load :: "(string \<Rightarrow> int option) \<Rightarrow> worker \<Rightarrow> int" where
  "worker_load fetch w =
     (if get_connection_mode w = Http then (case fetch (url w) of Some n \<Rightarrow> n | None \<Rightarrow> - 1) else - 1)"

definition get_all_worker_loads :: "(string \<Rightarrow> int option) \<Rightarrow> control \<Rightarrow> (string \<times> int) list" where
  "get_all_worker_loads fetch c = map (\<lambda>r. (url (wst c r), worker_load fetch (wst c r))) (get_all (wreg c))"

definition monitor_tick :: "(string \<Rightarrow> int option) \<Rightarrow> control \<Rightarrow> control" where
  "monitor_tick fetch c =
     (let policies = get_all_power_of_two_policies (preg c) in
      if policies = [] then c
      else
        let loads = foldl (\<lambda>m (u, l). map_insert u l m) [] (get_all_worker_loads fetch c) in
        if loads = [] then c
        else c\<lparr> preg := foldl (\<lambda>pr r. pr\<lparr> heap := put_obj r (update_loads loads (obj pr r)) (heap pr) \<rparr>) (preg c) policies \<rparr>)"

section \<open>Allocation and registration\<close>

lemma alloc_workers_spec:
  "fst (alloc_workers ws c) = [next_ref c..<next_ref c + length ws] \<and>
   next_ref (snd (alloc_workers ws c)) = next_ref c + length ws \<and>
   wreg (snd (alloc_workers ws c)) = wreg c \<and> preg (snd (alloc_workers ws c)) = preg c \<and>
   (\<forall>r. wst (snd (alloc_workers ws c)) r =
      (if next_ref c \<le> r \<and> r < next_ref c + length ws then ws ! (r - next_ref c) else wst c r))"
proof (induction ws arbitrary: c)
  case (Cons w ws)
  let ?c = "c\<lparr> wst := (wst c)(next_ref c := w), next_ref := next_ref c + 1 \<rparr>"
  have "wst (snd (alloc_workers (w # ws) c)) r =
      (if next_ref c \<le> r \<and> r < next_ref c + length (w # ws) then (w # ws) ! (r - next_ref c) else wst c r)" for r
    using Cons [of ?c] by (cases "r = next_ref c") (auto simp: split_beta Let_def nth_Cons' Suc_diff_le)
  then show ?case using Cons [of ?c] by (simp add: split_beta Let_def upt_conv_Cons del: upt_Suc)
qed auto

text \<open>An id that the registry has not given out.\<close>

definition id_fresh :: "string \<Rightarrow> worker_registry \<Rightarrow> bool" where
  "id_fresh i reg \<longleftrightarrow> (\<forall>v. map_get (url_to_id reg) v \<noteq> Some i)"

lemma id_fresh_entries: "reg_rel b u st es reg \<Longrightarrow> id_fresh i reg \<Longrightarrow> \<forall>e\<in>set es. fst e \<noteq> i"
  using reg_relD(4) [of b u st es reg] by (auto simp: id_fresh_def)

lemma register_workers_spec:
  assumes "reg_rel (we_blake3 env) (we_unknown env) (wst c) es (wreg c)" "inj (we_new_id env)" "distinct rs"
    and "distinct (map (\<lambda>r. url (wst c r)) rs)" "\<forall>e\<in>set es. \<forall>r\<in>set rs. url (wst c (snd e)) \<noteq> url (wst c r)"
    and "\<forall>r\<in>set rs. id_fresh (we_new_id env r) (wreg c)"
  shows "\<exists>new reg. map snd new = rs \<and> snd (register_workers env rs c) = c\<lparr> wreg := reg \<rparr> \<and>
    reg_rel (we_blake3 env) (we_unknown env) (wst c) (es @ new) reg \<and>
    (\<forall>r. r \<notin> set rs \<longrightarrow> id_fresh (we_new_id env r) (wreg c) \<longrightarrow> id_fresh (we_new_id env r) reg)"
  using assms
proof (induction rs arbitrary: c es)
  case (Cons r rs)
  let ?b = "we_blake3 env" and ?u = "we_unknown env"
  obtain wid msgs reg1 where reg: "register ?b ?u (we_new_id env r) (wst c) r (wreg c) = ((wid, msgs), reg1)"
    by (metis surj_pair)
  have f: "id_fresh (we_new_id env r) (wreg c)" using Cons.prems(6) by simp
  have rel: "reg_rel ?b ?u (wst c) (es @ [(wid, r)]) reg1"
    using reg_rel_register [OF Cons.prems(1), of r "we_new_id env r"] id_fresh_entries [OF Cons.prems(1) f] Cons.prems(5) f reg
    by (auto simp: id_fresh_def)
  have u: "url_to_id reg1 = map_insert (url (wst c r)) wid (url_to_id (wreg c))"
    and wid: "wid = (case map_get (url_to_id (wreg c)) (url (wst c r)) of Some i \<Rightarrow> i | None \<Rightarrow> we_new_id env r)"
    using register_fields(1,3) [of ?b ?u "we_new_id env r" "wst c" r "wreg c"] reg by simp_all
  have fresh1: "id_fresh (we_new_id env r') reg1" if "r' \<noteq> r" "id_fresh (we_new_id env r') (wreg c)" for r'
    using that injD [OF Cons.prems(2), of r' r] u wid by (auto simp: id_fresh_def split: option.splits if_splits)
  have fresh2: "\<forall>r'\<in>set rs. id_fresh (we_new_id env r') reg1"
  proof
    fix r' assume "r' \<in> set rs"
    then show "id_fresh (we_new_id env r') reg1" using fresh1 [of r'] Cons.prems(3,6) by auto
  qed
  let ?c = "c\<lparr> wreg := reg1 \<rparr>"
  have "\<exists>new reg. map snd new = rs \<and> snd (register_workers env rs ?c) = ?c\<lparr> wreg := reg \<rparr> \<and>
      reg_rel ?b ?u (wst ?c) ((es @ [(wid, r)]) @ new) reg \<and>
      (\<forall>r'. r' \<notin> set rs \<longrightarrow> id_fresh (we_new_id env r') (wreg ?c) \<longrightarrow> id_fresh (we_new_id env r') reg)"
    by (rule Cons.IH) (use Cons.prems rel fresh2 in auto)
  then obtain new reg where new: "map snd new = rs" "snd (register_workers env rs ?c) = c\<lparr> wreg := reg \<rparr>"
    "reg_rel ?b ?u (wst c) (es @ (wid, r) # new) reg"
    "\<And>r'. r' \<notin> set rs \<Longrightarrow> id_fresh (we_new_id env r') reg1 \<Longrightarrow> id_fresh (we_new_id env r') reg" by auto
  have "id_fresh (we_new_id env r') reg" if "r' \<notin> set (r # rs)" "id_fresh (we_new_id env r') (wreg c)" for r'
    using that new(4) fresh1 by simp
  then show ?case using new(1-3) reg
    by (intro exI [of _ "(wid, r) # new"] exI [of _ reg]) (simp add: split_beta Let_def)
next
  case Nil
  show ?case using Nil.prems(1) by (intro exI [of _ "[]"] exI [of _ "wreg c"]) simp
qed

section \<open>Policies follow the workers\<close>

definition of_model :: "wf_env \<Rightarrow> wstore \<Rightarrow> string \<Rightarrow> wref list \<Rightarrow> nat" where
  "of_model env st m rs = length (filter (\<lambda>r. model_id (we_unknown env) (st r) = m) rs)"

lemma of_model_simps [simp]:
  "of_model env st m [] = 0"
  "of_model env st m (r # rs) = (if model_id (we_unknown env) (st r) = m then 1 else 0) + of_model env st m rs"
  "of_model env st m (rs @ rs') = of_model env st m rs + of_model env st m rs'"
  by (simp_all add: of_model_def)

text \<open>A step on the policies: it returns, and keeps the policies of models that keep workers.\<close>

definition policies_step :: "(string \<Rightarrow> nat \<Rightarrow> nat) \<Rightarrow> policy_registry \<Rightarrow> policy_registry \<Rightarrow> bool" where
  "policies_step f pr pr' \<longleftrightarrow> pr_ok pr' \<and> (\<forall>m. count_at m pr' = f m (count_at m pr)) \<and>
     (\<forall>m. 0 < count_at m pr \<longrightarrow> 0 < count_at m pr' \<longrightarrow> get_policy m pr' = get_policy m pr)"

lemma touches_policies_step: "pr_ok pr' \<Longrightarrow> touches pr pr' \<Longrightarrow> policies_step (\<lambda>m n. n) pr pr'"
  by (simp add: policies_step_def count_at_def get_policy_def touches_simps)

lemma policies_step_trans:
  assumes "policies_step f pr pr'" "policies_step g pr' pr''" "\<And>m. 0 < f m (count_at m pr) \<or> count_at m pr = 0 \<or> g m (f m (count_at m pr)) = 0"
  shows "policies_step (\<lambda>m n. g m (f m n)) pr pr''"
  using assms unfolding policies_step_def by (metis neq0_conv)

lemma policies_grow:
  assumes "policies_step (\<lambda>m n. n + a m) pr pr'"
  shows "policies_step (\<lambda>m n. n + b m) pr' pr'' \<Longrightarrow> policies_step (\<lambda>m n. n + (a m + b m)) pr pr''"
    "policies_step (\<lambda>m n. n) pr' pr'' \<Longrightarrow> policies_step (\<lambda>m n. n + a m) pr pr''"
proof -
  have pos: "0 < count_at m pr + a m \<or> count_at m pr = 0 \<or> x = 0" for m x by auto
  show "policies_step (\<lambda>m n. n + (a m + b m)) pr pr''" if "policies_step (\<lambda>m n. n + b m) pr' pr''"
    using policies_step_trans [OF assms that pos] by (simp add: add.assoc)
  show "policies_step (\<lambda>m n. n + a m) pr pr''" if "policies_step (\<lambda>m n. n) pr' pr''"
    by (rule policies_step_trans [OF assms that pos])
qed

lemma update_policy_for_spec:
  assumes "pr_ok (preg c)"
  shows "\<exists>pr. update_policy_for env now hint r c = Some (c\<lparr> preg := pr \<rparr>) \<and>
    policies_step (\<lambda>m n. n + of_model env (wst c) m [r]) (preg c) pr"
proof -
  let ?m = "model_id (we_unknown env) (wst c r)"
  from added_spec [OF assms, of "we_read env" now ?m hint] obtain p pr1 msgs where
    1: "on_worker_added (we_read env) now ?m hint (preg c) = Some (p, pr1, msgs)" "get_policy ?m pr1 = Some p" "pr_ok pr1"
      "\<And>m. assigns m (WorkerAdded now ?m hint) (preg c) pr1" by blast
  have s1: "policies_step (\<lambda>m n. n + of_model env (wst c) m [r]) (preg c) pr1"
    using 1(3,4) by (simp add: policies_step_def assigns_def)
  from dispatch_spec(1) [OF 1(3), of "we_unknown env" ?m "map (wst c) (get_by_model ?m (wreg c))"] obtain pr2 where
    2: "init_cache_aware_policy (we_unknown env) ?m (map (wst c) (get_by_model ?m (wreg c))) pr1 = Some pr2" "pr_ok pr2" "touches pr1 pr2"
    by blast
  have s2: "policies_step (\<lambda>m n. n + of_model env (wst c) m [r]) (preg c) pr2"
    by (rule policies_grow(2) [OF s1 touches_policies_step [OF 2(2,3)]])
  show ?thesis using 1(1,2) 2(1) s1 s2 by (auto simp: update_policy_for_def Let_def)
qed

lemma update_policies_for_spec:
  assumes "pr_ok (preg c)"
  shows "\<exists>pr. for_each (update_policy_for env now hint) rs c = Some (c\<lparr> preg := pr \<rparr>) \<and>
    policies_step (\<lambda>m n. n + of_model env (wst c) m rs) (preg c) pr"
  using assms
proof (induction rs arbitrary: c)
  case Nil
  then show ?case by (intro exI [of _ "preg c"]) (simp add: policies_step_def)
next
  case (Cons r rs)
  from update_policy_for_spec [OF Cons.prems, of env now hint r] obtain pr1 where
    1: "update_policy_for env now hint r c = Some (c\<lparr> preg := pr1 \<rparr>)"
      "policies_step (\<lambda>m n. n + of_model env (wst c) m [r]) (preg c) pr1" by blast
  then have "pr_ok (preg (c\<lparr> preg := pr1 \<rparr>))" by (simp add: policies_step_def)
  from Cons.IH [OF this] obtain pr2 where
    2: "for_each (update_policy_for env now hint) rs (c\<lparr> preg := pr1 \<rparr>) = Some (c\<lparr> preg := pr2 \<rparr>)"
      "policies_step (\<lambda>m n. n + of_model env (wst c) m rs) pr1 pr2" by auto
  have "policies_step (\<lambda>m n. n + of_model env (wst c) m (r # rs)) (preg c) pr2"
    using policies_grow(1) [OF 1(2) 2(2)] by (simp add: add.assoc)
  then show ?case using 1(1) 2(1) by (intro exI [of _ pr2]) simp
qed

lemma update_pd_policies_spec:
  assumes "pr_ok (preg c)" "length (get_prefill_workers (wst c) (wreg c)) \<le> 4096"
  shows "\<exists>pr. update_pd_policies env c = Some (c\<lparr> preg := pr \<rparr>) \<and> policies_step (\<lambda>m n. n) (preg c) pr"
proof -
  let ?pf = "map (wst c) (get_prefill_workers (wst c) (wreg c))" and ?dc = "map (wst c) (get_decode_workers (wreg c))"
  let ?b = "?pf \<noteq> [] \<and> policy_name (obj (preg c) (get_prefill_policy (preg c))) = ''bucket''"
  obtain pr1 where 1: "(if ?b then init_pd_bucket_policies (we_unknown env) ?pf (preg c) else Some (preg c)) = Some pr1"
      "pr_ok pr1" "touches (preg c) pr1"
    using dispatch_spec(4) [OF assms(1), of ?pf "we_unknown env"] assms by (cases ?b) auto
  obtain pr2 where 2: "init_pd_cache_aware_policies (we_unknown env) ?pf ?dc pr1 = Some pr2" "pr_ok pr2" "touches pr1 pr2"
    using init_pd_spec [OF 1(2)] by blast
  have "touches (preg c) pr2" using touches_trans [OF 1(3) 2(3)] .
  then show ?thesis
    using 1 2 touches_policies_step [OF 1(2,3)] touches_policies_step [OF 2(2), of "preg c"]
    by (auto simp: update_pd_policies_def Let_def)
qed

lemma update_policies_step_spec:
  assumes "pr_ok (preg c)" "length (get_prefill_workers (wst c) (wreg c)) \<le> 4096"
  shows "\<exists>pr. update_policies_step env now ls rs c = Some (c\<lparr> preg := pr \<rparr>) \<and>
    policies_step (\<lambda>m n. n + of_model env (wst c) m rs) (preg c) pr"
proof -
  from update_policies_for_spec [OF assms(1), of env now "map_get ls ''policy''" rs] obtain pr1 where
    1: "for_each (update_policy_for env now (map_get ls ''policy'')) rs c = Some (c\<lparr> preg := pr1 \<rparr>)"
      "policies_step (\<lambda>m n. n + of_model env (wst c) m rs) (preg c) pr1" by blast
  have "pr_ok (preg (c\<lparr> preg := pr1 \<rparr>))" using 1(2) by (simp add: policies_step_def)
  from update_pd_policies_spec [OF this, of env] obtain pr2 where
    2: "update_pd_policies env (c\<lparr> preg := pr1 \<rparr>) = Some (c\<lparr> preg := pr2 \<rparr>)" "policies_step (\<lambda>m n. n) pr1 pr2"
    using assms(2) by auto
  from policies_grow(2) [OF 1(2) 2(2)] show ?thesis
    using 1(1) 2(1) by (intro exI [of _ pr2]) (auto simp: update_policies_step_def)
qed

section \<open>The registries together\<close>

text \<open>
  The control state is consistent with a list of registered workers: the worker registry
  implements it, every reference is allocated, future ids are unused, and the policy registry
  counts exactly the workers of every model.
\<close>

definition control_ok :: "wf_env \<Rightarrow> (string \<times> wref) list \<Rightarrow> control \<Rightarrow> bool" where
  "control_ok env es c \<longleftrightarrow>
     reg_rel (we_blake3 env) (we_unknown env) (wst c) es (wreg c) \<and> pr_ok (preg c) \<and> inj (we_new_id env) \<and>
     (\<forall>e\<in>set es. snd e < next_ref c) \<and> (\<forall>r\<ge>next_ref c. id_fresh (we_new_id env r) (wreg c)) \<and>
     (\<forall>m. count_at m (preg c) = of_model env (wst c) m (map snd es))"

lemma control_okD:
  assumes "control_ok env es c"
  shows "reg_rel (we_blake3 env) (we_unknown env) (wst c) es (wreg c)" "pr_ok (preg c)" "inj (we_new_id env)"
    "e \<in> set es \<Longrightarrow> snd e < next_ref c" "next_ref c \<le> r \<Longrightarrow> id_fresh (we_new_id env r) (wreg c)"
    "count_at m (preg c) = of_model env (wst c) m (map snd es)"
  using assms by (auto simp: control_ok_def)

lemma of_model_cong: "(\<And>r. r \<in> set rs \<Longrightarrow> metadata (st' r) = metadata (st r)) \<Longrightarrow> of_model env st' m rs = of_model env st m rs"
  unfolding of_model_def by (rule arg_cong [where f = length], rule filter_cong) (simp_all add: model_id_def)

lemma set_healthy_keeps [simp]:
  "url (set_healthy h w) = url w" "get_load (set_healthy h w) = get_load w" "api_key (set_healthy h w) = api_key w"
  "bw_circuit_breaker (base (set_healthy h w)) = bw_circuit_breaker (base w)" "get_worker_type (set_healthy h w) = get_worker_type w"
  "is_healthy (set_healthy h w) = h" "is_dp_aware (set_healthy h w) = is_dp_aware w"
  by (simp_all add: url_def get_load_def api_key_def get_worker_type_def is_healthy_def)
    (simp_all add: set_healthy_def bw_set_healthy_def, cases w, simp_all)

lemma foldl_set_healthy:
  "distinct rs \<Longrightarrow> foldl (\<lambda>st r. st(r := set_healthy True (st r))) st rs r = (if r \<in> set rs then set_healthy True (st r) else st r)"
  by (induction rs arbitrary: st) auto

lemma prefill_count_le: "length (get_prefill_workers st reg) \<le> length (reg_workers reg)"
proof -
  have "length (List.map_filter f xs) \<le> length xs" for f :: "'a \<Rightarrow> 'b option" and xs
    by (induction xs) (auto simp: List.map_filter_simps split: option.splits)
  then show ?thesis by (simp add: get_prefill_workers_def)
qed

lemma length_map_insert_le: "length (map_insert k v m) \<le> Suc (length m)"
  by (induction k v m rule: map_insert.induct) auto

lemma register_workers_frame:
  "\<exists>reg. snd (register_workers env rs c) = c\<lparr> wreg := reg \<rparr> \<and> length (reg_workers reg) \<le> length (reg_workers (wreg c)) + length rs"
proof (induction rs arbitrary: c)
  case (Cons r rs)
  let ?reg = "snd (register (we_blake3 env) (we_unknown env) (we_new_id env r) (wst c) r (wreg c))"
  have "length (reg_workers ?reg) \<le> Suc (length (reg_workers (wreg c)))" unfolding register_fields(2) by (rule length_map_insert_le)
  then show ?case using Cons [of "c\<lparr> wreg := ?reg \<rparr>"] by (auto simp: split_beta Let_def intro: exI)
next
  case Nil
  show ?case by (intro exI [of _ "wreg c"]) simp
qed

text \<open>Finishing a registration never fails.\<close>

lemma finish_total:
  assumes "pr_ok (preg c)" "length (reg_workers (wreg c)) + length rs \<le> 4096"
  shows "\<exists>c'. finish_registration env time ls rs c = Some c' \<and> next_ref c' = next_ref c \<and> (\<forall>r. url (wst c' r) = url (wst c r))"
proof -
  obtain reg where reg: "snd (register_workers env rs c) = c\<lparr> wreg := reg \<rparr>" "length (reg_workers reg) \<le> length (reg_workers (wreg c)) + length rs"
    using register_workers_frame by blast
  have "length (get_prefill_workers (wst c) reg) \<le> 4096" using prefill_count_le [of "wst c" reg] reg(2) assms(2) by simp
  then have "\<exists>pr. update_policies_step env time ls rs (c\<lparr> wreg := reg \<rparr>) = Some (c\<lparr> wreg := reg, preg := pr \<rparr>)"
    using update_policies_step_spec [of "c\<lparr> wreg := reg \<rparr>" env time ls rs] assms(1) by auto
  moreover have "url (foldl (\<lambda>st r. st(r := set_healthy True (st r))) st rs r) = url (st r)" for st r
    by (induction rs arbitrary: st) auto
  ultimately show ?thesis using reg(1) by (auto simp: finish_registration_def split_beta activate_workers_def)
qed

lemma finish_spec:
  assumes ok: "control_ok env es c0" and c: "wreg c = wreg c0" "preg c = preg c0" "next_ref c = next_ref c0 + length rs"
      "\<And>r. r < next_ref c0 \<Longrightarrow> wst c r = wst c0 r" and rs: "rs = [next_ref c0..<next_ref c0 + length rs]"
    and "distinct (map (\<lambda>r. url (wst c r)) rs)" "\<forall>e\<in>set es. \<forall>r\<in>set rs. url (wst c (snd e)) \<noteq> url (wst c r)"
    and fin: "finish_registration env time ls rs c = Some c'" "length es + length rs \<le> 4096"
  shows "\<exists>new. map snd new = rs \<and> control_ok env (es @ new) c' \<and> next_ref c' = next_ref c \<and>
    (\<forall>r. wst c' r = (if r \<in> set rs then set_healthy True (wst c r) else wst c r)) \<and>
    policies_step (\<lambda>m n. n + of_model env (wst c) m rs) (preg c) (preg c')"
proof -
  note d = control_okD [OF ok]
  let ?b = "we_blake3 env" and ?u = "we_unknown env"
  have dist: "distinct rs" by (metis distinct_upt rs)
  have in_rs: "r \<in> set rs \<longleftrightarrow> next_ref c0 \<le> r \<and> r < next_ref c0 + length rs" for r using rs by (metis atLeastLessThan_iff set_upt)
  have "\<forall>e\<in>set es. wst c (snd e) = wst c0 (snd e)" using d(4) c(4) by blast
  then have rel0: "reg_rel ?b ?u (wst c) es (wreg c)" unfolding c(1)
    by (intro reg_rel_cong [OF d(1)]) simp
  from register_workers_spec [OF rel0 d(3) dist assms(7,8)] obtain new reg where
    r: "map snd new = rs" "snd (register_workers env rs c) = c\<lparr> wreg := reg \<rparr>" "reg_rel ?b ?u (wst c) (es @ new) reg"
      "\<And>r. r \<notin> set rs \<Longrightarrow> id_fresh (we_new_id env r) (wreg c) \<Longrightarrow> id_fresh (we_new_id env r) reg"
    using d(5) in_rs c(1) by auto
  have len: "length new = length rs" using r(1) by (metis length_map)
  have "length (get_prefill_workers (wst c) reg) \<le> 4096"
    using prefill_count_le [of "wst c" reg] reg_relD(1) [OF r(3)] fin(2) len by simp
  then obtain pr where pr: "update_policies_step env time ls rs (c\<lparr> wreg := reg \<rparr>) = Some (c\<lparr> wreg := reg, preg := pr \<rparr>)"
      "policies_step (\<lambda>m n. n + of_model env (wst c) m rs) (preg c) pr"
    using update_policies_step_spec [of "c\<lparr> wreg := reg \<rparr>" env time ls rs] d(2) c(2) by auto
  have c': "c' = activate_workers rs (c\<lparr> wreg := reg, preg := pr \<rparr>)"
    using fin(1) r(2) pr(1) by (simp add: finish_registration_def split_beta)
  have st: "wst c' r' = (if r' \<in> set rs then set_healthy True (wst c r') else wst c r')" for r'
    using foldl_set_healthy [OF dist] by (simp add: c' activate_workers_def)
  have md: "same_metadata (wst c) (wst c')" by (simp add: same_metadata_def st)
  have "count_at m pr = of_model env (wst c') m (map snd (es @ new))" for m
  proof -
    have "of_model env (wst c') m (map snd (es @ new)) = of_model env (wst c) m (map snd (es @ new))"
      by (rule of_model_cong) (use md in \<open>simp add: same_metadata_def\<close>)
    moreover have "of_model env (wst c) m (map snd es) = of_model env (wst c0) m (map snd es)"
      by (rule of_model_cong) (use d(4) c(4) in auto)
    ultimately show ?thesis using pr(2) d(6) [of m] r(1) c(2) by (simp add: policies_step_def)
  qed
  moreover have "id_fresh (we_new_id env r') reg" if "next_ref c \<le> r'" for r'
    using r(4) [of r'] in_rs that c(1,3) d(5) by simp
  moreover have "snd e < next_ref c" if "e \<in> set (es @ new)" for e
  proof (cases "e \<in> set es")
    case True
    then show ?thesis using d(4) c(3) by fastforce
  next
    case False
    then have "snd e \<in> set rs" using that r(1) by (metis Un_iff image_eqI set_append set_map)
    then show ?thesis using in_rs c(3) by simp
  qed
  moreover have "reg_rel ?b ?u (wst c') (es @ new) reg" by (rule reg_rel_same_metadata [OF r(3) md])
  ultimately have "control_ok env (es @ new) c'" using d(3) pr(2)
    by (simp add: control_ok_def c' activate_workers_def policies_step_def)
  then show ?thesis using r(1) st pr(2) by (intro exI [of _ new]) (simp add: c' activate_workers_def)
qed

section \<open>What the workflow creates\<close>

text \<open>The URLs a request gives rise to: the normalised one, or one per data-parallel rank.\<close>

definition url_of_request :: "worker_config_request \<Rightarrow> string \<Rightarrow> bool" where
  "url_of_request config u \<longleftrightarrow> (\<exists>mode. let base = normalize_url (cr_url config) mode in
     if cr_dp_aware config then \<exists>k. u = base @ ''@'' @ show_nat k else u = base)"

text \<open>A worker as the configuration asks for it: idle, with a closed breaker.\<close>

definition started_from :: "'x router_config \<Rightarrow> worker_config_request \<Rightarrow> u64 \<Rightarrow> worker \<Rightarrow> bool" where
  "started_from rc config now w \<longleftrightarrow> url_of_request config (url w) \<and> is_dp_aware w = cr_dp_aware config \<and> get_load w = 0 \<and>
     bw_circuit_breaker (base w) = with_config_and_label (build_circuit_breaker_config rc) (url w) now \<and>
     api_key w = cr_api_key config \<and> get_worker_type w = parse_worker_type config \<and>
     wm_health_config (metadata w) = build_health_config rc config"

lemma configure_fields [simp]:
  "bb_url (configure ms t mode rt cb hc key ls b) = bb_url b"
  "bb_models (configure ms t mode rt cb hc key ls b) = bb_models b @ ms"
  "bb_worker_type (configure ms t mode rt cb hc key ls b) = t"
  "bb_connection_mode (configure ms t mode rt cb hc key ls b) = mode"
  "bb_runtime_type (configure ms t mode rt cb hc key ls b) = rt"
  "bb_circuit_breaker_config (configure ms t mode rt cb hc key ls b) = cb"
  "bb_health_config (configure ms t mode rt cb hc key ls b) = hc"
  "bb_api_key (configure ms t mode rt cb hc key ls b) = (case key of Some k \<Rightarrow> Some k | None \<Rightarrow> bb_api_key b)"
  by (auto simp: configure_def Let_def split: option.splits)

lemma builder_new_fields [simp]:
  "bb_url (builder_new u) = u" "bb_models (builder_new u) = []" "bb_api_key (builder_new u) = None"
  by (simp_all add: builder_new_def)

lemma extend_fields [simp]:
  "bb_url (basic_worker_builder.extend b x) = bb_url b" "bb_models (basic_worker_builder.extend b x) = bb_models b"
  "bb_worker_type (basic_worker_builder.extend b x) = bb_worker_type b" "bb_connection_mode (basic_worker_builder.extend b x) = bb_connection_mode b"
  "bb_runtime_type (basic_worker_builder.extend b x) = bb_runtime_type b" "bb_labels (basic_worker_builder.extend b x) = bb_labels b"
  "bb_health_config (basic_worker_builder.extend b x) = bb_health_config b" "bb_api_key (basic_worker_builder.extend b x) = bb_api_key b"
  "bb_circuit_breaker_config (basic_worker_builder.extend b x) = bb_circuit_breaker_config b"
  by (simp_all add: basic_worker_builder.extend_def)

lemma extend_dp [simp]:
  "db_dp_rank (basic_worker_builder.extend b \<lparr> db_dp_rank = k, db_dp_size = n \<rparr>) = k"
  "db_dp_size (basic_worker_builder.extend b \<lparr> db_dp_rank = k, db_dp_size = n \<rparr>) = n"
  by (simp_all add: basic_worker_builder.extend_def)

lemma started_from_healthy [simp]: "started_from rc config now (set_healthy h w) = started_from rc config now w"
  by (simp add: started_from_def)

lemma single_worker_spec:
  "url (create_single_worker env now b) = bb_url b" "get_load (create_single_worker env now b) = 0"
  "bw_circuit_breaker (base (create_single_worker env now b)) = with_config_and_label (bb_circuit_breaker_config b) (bb_url b) now"
  "api_key (create_single_worker env now b) = bb_api_key b" "get_worker_type (create_single_worker env now b) = bb_worker_type b"
  "wm_health_config (metadata (create_single_worker env now b)) = bb_health_config b"
  "wm_models (metadata (create_single_worker env now b)) = bb_models b" "\<not> is_dp_aware (create_single_worker env now b)"
  by (simp_all add: create_single_worker_def) (simp_all add: url_def api_key_def get_worker_type_def get_load_def metadata_def build_def)

lemma dp_worker_spec:
  "url (create_dp_aware_worker env now n b k) = bb_url b @ ''@'' @ show_nat k" "get_load (create_dp_aware_worker env now n b k) = 0"
  "bw_circuit_breaker (base (create_dp_aware_worker env now n b k)) =
     with_config_and_label (bb_circuit_breaker_config b) (bb_url b @ ''@'' @ show_nat k) now"
  "api_key (create_dp_aware_worker env now n b k) = bb_api_key b" "get_worker_type (create_dp_aware_worker env now n b k) = bb_worker_type b"
  "wm_health_config (metadata (create_dp_aware_worker env now n b k)) = bb_health_config b" "is_dp_aware (create_dp_aware_worker env now n b k)"
  by (simp_all add: create_dp_aware_worker_def)
    (simp_all add: url_def api_key_def get_worker_type_def get_load_def metadata_def dp_build_def with_base_worker_def build_def
      Let_def split: option.splits)

lemma show_nat_inj: "m < 2 ^ 64 \<Longrightarrow> n < 2 ^ 64 \<Longrightarrow> show_nat m = show_nat n \<longleftrightarrow> m = n"
  by (metis option.inject parse_usize_show_nat)

lemma create_local_spec:
  assumes "create_local_workers env rc now d c = Inr (ws, ls)"
  shows "\<forall>w\<in>set ws. started_from rc (ld_config d) now w"
    "\<not> cr_dp_aware (ld_config d) \<Longrightarrow> length ws = 1"
    "cr_dp_aware (ld_config d) \<Longrightarrow> \<exists>info. ld_dp_info d = Some info \<and> length ws = di_dp_size info"
    "length ws < 2 ^ 64 \<Longrightarrow> distinct (map url ws)"
proof -
  obtain mode where mode: "ld_connection_mode d = Some mode"
    using assms by (cases "ld_connection_mode d") (simp_all add: create_local_workers_def Let_def)
  define b where "b = configure [build_model_card env
        (determine_model_id (we_unknown env) (ld_config d) (merge_labels (ld_discovered_labels d) (config_labels (ld_config d))))
        (ld_config d) (merge_labels (ld_discovered_labels d) (config_labels (ld_config d)))]
      (parse_worker_type (ld_config d)) mode (determine_runtime_type mode d)
      (build_circuit_breaker_config rc) (build_health_config rc (ld_config d)) (cr_api_key (ld_config d))
      (merge_labels (ld_discovered_labels d) (config_labels (ld_config d))) (builder_new (normalize_url (cr_url (ld_config d)) mode))"
  have cases: "(\<not> cr_dp_aware (ld_config d) \<and> ws = [create_single_worker env now b]) \<or>
      (\<exists>info. cr_dp_aware (ld_config d) \<and> ld_dp_info d = Some info \<and> ws = map (create_dp_aware_worker env now (di_dp_size info) b) [0..<di_dp_size info])"
    using assms unfolding create_local_workers_def Let_def mode option.case b_def [symmetric]
    by (simp split: if_splits option.splits)
  have b: "bb_circuit_breaker_config b = build_circuit_breaker_config rc" "bb_api_key b = cr_api_key (ld_config d)"
      "bb_worker_type b = parse_worker_type (ld_config d)" "bb_health_config b = build_health_config rc (ld_config d)"
    by (simp_all add: b_def split: option.splits)
  have u: "bb_url b = normalize_url (cr_url (ld_config d)) mode" by (simp add: b_def)
  then have urls: "cr_dp_aware (ld_config d) \<Longrightarrow> url_of_request (ld_config d) (bb_url b @ ''@'' @ show_nat k)"
      "\<not> cr_dp_aware (ld_config d) \<Longrightarrow> url_of_request (ld_config d) (bb_url b)" for k
    by (auto simp: url_of_request_def Let_def)
  show "\<forall>w\<in>set ws. started_from rc (ld_config d) now w"
    using cases by (auto simp: started_from_def single_worker_spec dp_worker_spec b urls [simplified])
  show "length ws = 1" if "\<not> cr_dp_aware (ld_config d)" using cases that by auto
  show "\<exists>info. ld_dp_info d = Some info \<and> length ws = di_dp_size info" if "cr_dp_aware (ld_config d)" using cases that by auto
  show "distinct (map url ws)" if "length ws < 2 ^ 64"
    using cases
  proof
    assume "\<exists>info. cr_dp_aware (ld_config d) \<and> ld_dp_info d = Some info \<and> ws = map (create_dp_aware_worker env now (di_dp_size info) b) [0..<di_dp_size info]"
    then obtain n where n: "ws = map (create_dp_aware_worker env now n b) [0..<n]" by blast
    then have "n < 2 ^ 64" using that by simp
    then have "inj_on (\<lambda>k. bb_url b @ ''@'' @ show_nat k) {0..<n}" by (intro inj_onI) (simp add: show_nat_inj)
    then show ?thesis by (simp add: n comp_def dp_worker_spec(1) distinct_map)
  qed simp
qed

lemma detect_frame: "detect_connection_mode pb d = Inr d' \<Longrightarrow> ld_config d' = ld_config d \<and> ld_dp_info d' = ld_dp_info d \<and> ld_connection_mode d' \<noteq> None"
  by (auto simp: detect_connection_mode_def Let_def split: sum.splits)

lemma metadata_frame:
  assumes "discover_metadata env pb d = Inr d'"
  shows "ld_config d' = ld_config d \<and> ld_dp_info d' = ld_dp_info d \<and> ld_connection_mode d' = ld_connection_mode d"
proof -
  obtain mode where mode: "ld_connection_mode d = Some mode" using assms by (cases "ld_connection_mode d") (simp_all add: discover_metadata_def)
  have gen: "ld_config d' = ld_config d \<and> ld_dp_info d' = ld_dp_info d \<and> ld_connection_mode d' = ld_connection_mode d"
    if "(let (ls, rt) = p; x = d\<lparr> ld_discovered_labels := ls \<rparr> in
         Inr (case rt of Some r \<Rightarrow> x\<lparr> ld_detected_runtime_type := Some r \<rparr> | None \<Rightarrow> x)) = (Inr d' :: workflow_error + local_worker_data)" for p
    using that by (cases p) (auto simp: Let_def split: option.splits)
  show ?thesis by (rule gen [OF assms [unfolded discover_metadata_def mode option.case Let_def [of "ld_config d"]]])
qed

lemma dp_frame:
  assumes "discover_dp_info env pb d = Inr d'"
  shows "ld_config d' = ld_config d" "ld_dp_info d = None \<Longrightarrow> ld_dp_info d' = Some info \<Longrightarrow>
    \<exists>si. pr_server_info pb (cr_url (ld_config d)) (cr_api_key (ld_config d)) = Inr si \<and> si_dp_size si = Some (di_dp_size info)"
proof -
  show "ld_config d' = ld_config d" using assms by (auto simp: discover_dp_info_def Let_def split: if_splits sum.splits)
  assume none: "ld_dp_info d = None" and some: "ld_dp_info d' = Some info"
  then have "get_dp_info (we_unknown env) (cr_url (ld_config d)) (pr_server_info pb (cr_url (ld_config d)) (cr_api_key (ld_config d))) = Inr info"
    using assms by (auto simp: discover_dp_info_def Let_def split: if_splits sum.splits)
  then show "\<exists>si. pr_server_info pb (cr_url (ld_config d)) (cr_api_key (ld_config d)) = Inr si \<and> si_dp_size si = Some (di_dp_size info)"
    by (auto simp: get_dp_info_def split: sum.splits option.splits)
qed

lemma registration_run:
  "(\<exists>e. local_worker_registration env rc pb now time config c = Some (Inl e)) \<or>
   (\<exists>d ws ls. create_local_workers env rc now d c = Inr (ws, ls) \<and> ld_config d = config \<and>
      (\<forall>info. ld_dp_info d = Some info \<longrightarrow>
         (\<exists>si. pr_server_info pb (cr_url config) (cr_api_key config) = Inr si \<and> si_dp_size si = Some (di_dp_size info))) \<and>
      local_worker_registration env rc pb now time config c =
        map_option Inr (finish_registration env time ls (fst (alloc_workers ws c)) (snd (alloc_workers ws c))))"
proof (cases "detect_connection_mode pb (create_local_worker_workflow_data config)")
  case (Inr d1)
  then have 1: "ld_config d1 = config" "ld_dp_info d1 = None"
    using detect_frame [OF Inr] by (simp_all add: create_local_worker_workflow_data_def)
  define d2 where "d2 = (case discover_metadata env pb d1 of Inl _ \<Rightarrow> d1 | Inr d \<Rightarrow> d)"
  have 2: "ld_config d2 = config" "ld_dp_info d2 = None"
    using 1 metadata_frame [of env pb d1] by (auto simp: d2_def split: sum.splits)
  show ?thesis
  proof (cases "discover_dp_info env pb d2")
    case (Inl e)
    then show ?thesis using Inr by (simp add: local_worker_registration_def Let_def d2_def)
  next
    case (Inr d3)
    note 3 = dp_frame [OF this] 
    have run: "local_worker_registration env rc pb now time config c =
        (case create_worker_step env rc now d3 c of
                 Inl e \<Rightarrow> Some (Inl e)
               | Inr (d, c) \<Rightarrow>
                   (case ld_actual_workers d of
                      None \<Rightarrow> Some (Inl (ContextValueNotFound ''workers''))
                    | Some rs \<Rightarrow> map_option Inr (finish_registration env time (ld_final_labels d) rs c)))"
      using Inr \<open>detect_connection_mode pb _ = Inr d1\<close> by (simp add: local_worker_registration_def Let_def d2_def)
    show ?thesis
    proof (cases "create_local_workers env rc now d3 c")
      case (Inl e)
      then show ?thesis by (simp add: run create_worker_step_def)
    next
      case (Inr wl)
      obtain ws ls where wl: "wl = (ws, ls)" by fastforce
      have "local_worker_registration env rc pb now time config c =
          map_option Inr (finish_registration env time ls (fst (alloc_workers ws c)) (snd (alloc_workers ws c)))"
        unfolding run create_worker_step_def using Inr wl by (simp add: split_beta Let_def)
      moreover have "\<exists>si. pr_server_info pb (cr_url config) (cr_api_key config) = Inr si \<and> si_dp_size si = Some (di_dp_size info)"
        if "ld_dp_info d3 = Some info" for info using 3(2) [OF 2(2) that] 2(1) by simp
      ultimately show ?thesis using Inr wl 3(1) 2(1) by blast
    qed
  qed
qed (simp add: local_worker_registration_def)

text \<open>
  When a registration is accepted: a health probe succeeds, a data-parallel endpoint reports its
  size, and no worker is registered under the URL as it was sent.
\<close>

definition accepted :: "wf_env \<Rightarrow> probes \<Rightarrow> worker_config_request \<Rightarrow> worker_registry \<Rightarrow> bool" where
  "accepted env pb config reg \<longleftrightarrow>
     (\<exists>d. detect_connection_mode pb (create_local_worker_workflow_data config) = Inr d) \<and>
     (cr_dp_aware config \<longrightarrow> (\<exists>info. get_dp_info (we_unknown env) (cr_url config)
        (pr_server_info pb (cr_url config) (cr_api_key config)) = Inr info)) \<and>
     get_by_url (cr_url config) reg = None"

lemma create_local_accepts:
  assumes "ld_connection_mode d \<noteq> None" "cr_dp_aware (ld_config d) \<Longrightarrow> ld_dp_info d \<noteq> None"
  shows "(\<exists>wl. create_local_workers env rc now d c = Inr wl) \<longleftrightarrow> get_by_url (cr_url (ld_config d)) (wreg c) = None"
proof (cases "get_by_url (cr_url (ld_config d)) (wreg c)")
  case None
  then show ?thesis using assms by (auto simp: create_local_workers_def Let_def)
next
  case (Some r)
  then show ?thesis using assms(1) by (auto simp: create_local_workers_def Let_def)
qed

lemma registration_accepts:
  "(\<exists>e. local_worker_registration env rc pb now time config c = Some (Inl e)) \<longleftrightarrow> \<not> accepted env pb config (wreg c)"
proof (cases "detect_connection_mode pb (create_local_worker_workflow_data config)")
  case (Inl e)
  then show ?thesis by (simp add: local_worker_registration_def accepted_def)
next
  case (Inr d1)
  then have 1: "ld_config d1 = config" "ld_connection_mode d1 \<noteq> None"
    using detect_frame [OF Inr] by (simp_all add: create_local_worker_workflow_data_def)
  define d2 where "d2 = (case discover_metadata env pb d1 of Inl _ \<Rightarrow> d1 | Inr d \<Rightarrow> d)"
  have 2: "ld_config d2 = config" "ld_connection_mode d2 \<noteq> None"
    using 1 metadata_frame [of env pb d1 d2] by (cases "discover_metadata env pb d1"; simp add: d2_def)+
  let ?dp = "get_dp_info (we_unknown env) (cr_url config) (pr_server_info pb (cr_url config) (cr_api_key config))"
  have dp: "discover_dp_info env pb d2 = (if cr_dp_aware config then
      case ?dp of Inl e \<Rightarrow> Inl (StepFailed ''discover_dp_info'' (''Failed to get DP info: '' @ e)) | Inr info \<Rightarrow> Inr (d2\<lparr> ld_dp_info := Some info \<rparr>)
      else Inr d2)"
    using 2(1) by (simp add: discover_dp_info_def)
  have run: "local_worker_registration env rc pb now time config c =
      (case discover_dp_info env pb d2 of
         Inl e \<Rightarrow> Some (Inl e)
       | Inr d \<Rightarrow>
           (case create_worker_step env rc now d c of
              Inl e \<Rightarrow> Some (Inl e)
            | Inr (d, c) \<Rightarrow>
                (case ld_actual_workers d of
                   None \<Rightarrow> Some (Inl (ContextValueNotFound ''workers''))
                 | Some rs \<Rightarrow> map_option Inr (finish_registration env time (ld_final_labels d) rs c))))"
    using Inr by (simp add: local_worker_registration_def Let_def d2_def)
  show ?thesis
  proof (cases "discover_dp_info env pb d2")
    case (Inl e)
    then have "cr_dp_aware config" "\<nexists>info. ?dp = Inr info" using dp by (auto split: if_splits sum.splits)
    then show ?thesis by (simp add: run Inl accepted_def)
  next
    case ok: (Inr d3)
    then have 3: "ld_config d3 = config" "ld_connection_mode d3 \<noteq> None" "cr_dp_aware config \<Longrightarrow> ld_dp_info d3 \<noteq> None \<and> (\<exists>info. ?dp = Inr info)"
      using dp 2 by (auto split: if_splits sum.splits)
    have acc: "(\<exists>wl. create_local_workers env rc now d3 c = Inr wl) \<longleftrightarrow> accepted env pb config (wreg c)"
      using create_local_accepts [of d3 env rc now c] 3 Inr by (auto simp: accepted_def)
    show ?thesis unfolding run ok acc [symmetric]
      by (cases "create_local_workers env rc now d3 c") (auto simp: create_worker_step_def split_beta Let_def)
  qed
qed

text \<open>Room for the new workers: the bucket policy has ranges for 4096 workers.\<close>

definition room :: "probes \<Rightarrow> worker_config_request \<Rightarrow> nat \<Rightarrow> bool" where
  "room pb config n \<longleftrightarrow> n < 4096 \<and>
     (\<forall>si k. pr_server_info pb (cr_url config) (cr_api_key config) = Inr si \<longrightarrow> si_dp_size si = Some k \<longrightarrow> n + k \<le> 4096)"

text \<open>The number of workers made for a request, with those registered.\<close>

lemma made_room:
  assumes "room pb config n" and made: "create_local_workers env rc now d' c = Inr (ws, ls)" "ld_config d' = config"
      "\<forall>info. ld_dp_info d' = Some info \<longrightarrow>
         (\<exists>si. pr_server_info pb (cr_url config) (cr_api_key config) = Inr si \<and> si_dp_size si = Some (di_dp_size info))"
  shows "n + length ws \<le> 4096"
proof (cases "cr_dp_aware config")
  case True
  then obtain info where info: "ld_dp_info d' = Some info" "length ws = di_dp_size info" using create_local_spec(3) [OF made(1)] made(2) by auto
  then obtain si where "pr_server_info pb (cr_url config) (cr_api_key config) = Inr si" "si_dp_size si = Some (di_dp_size info)" using made(3) by blast
  then show ?thesis using info(2) assms(1) by (simp add: room_def)
next
  case False
  then have "length ws = 1" using create_local_spec(2) [OF made(1)] made(2) by simp
  then show ?thesis using assms(1) by (simp add: room_def)
qed

text \<open>
  A registration that passed its checks: new workers at new references, started as the request asks
  and with distinct URLs, which are then registered, given to the policies and activated.
\<close>

definition ready :: "wf_env \<Rightarrow> 'x router_config \<Rightarrow> u64 \<Rightarrow> nat \<Rightarrow> worker_config_request \<Rightarrow> control \<Rightarrow> nat \<Rightarrow> wref list \<Rightarrow> control \<Rightarrow> bool" where
  "ready env rc now time config c n rs c1 \<longleftrightarrow>
     wreg c1 = wreg c \<and> preg c1 = preg c \<and> next_ref c1 = next_ref c + length rs \<and> (\<forall>r<next_ref c. wst c1 r = wst c r) \<and>
     rs = [next_ref c..<next_ref c + length rs] \<and> distinct (map (\<lambda>r. url (wst c1 r)) rs) \<and> n + length rs \<le> 4096 \<and>
     (\<forall>r\<in>set rs. started_from rc config now (wst c1 r)) \<and> (cr_dp_aware config \<or> length rs = 1)"

lemma alloc_ready:
  assumes made: "create_local_workers env rc now d c = Inr (ws, ls)" "ld_config d = config" and n: "n + length ws \<le> 4096"
  shows "ready env rc now time config c n (fst (alloc_workers ws c)) (snd (alloc_workers ws c))"
proof -
  let ?rs = "fst (alloc_workers ws c)" and ?c = "snd (alloc_workers ws c)"
  have a: "?rs = [next_ref c..<next_ref c + length ws]" "next_ref ?c = next_ref c + length ws" "wreg ?c = wreg c" "preg ?c = preg c"
      "\<And>r. wst ?c r = (if next_ref c \<le> r \<and> r < next_ref c + length ws then ws ! (r - next_ref c) else wst c r)"
    using alloc_workers_spec [of ws c] by auto
  have st: "map (wst ?c) ?rs = ws" by (rule nth_equalityI) (simp_all add: a(1,5))
  have "length ws < 2 ^ 64" using n by simp
  then have "distinct (map url (map (wst ?c) ?rs))" using create_local_spec(4) [OF made(1)] st by simp
  then have dist: "distinct (map (\<lambda>r. url (wst ?c r)) ?rs)" by (simp add: comp_def)
  have "\<forall>r\<in>set ?rs. started_from rc config now (wst ?c r)"
    using create_local_spec(1) [OF made(1)] made(2) st by (metis image_eqI set_map)
  moreover have "cr_dp_aware config \<or> length ?rs = 1" using create_local_spec(2) [OF made(1)] made(2) a(1) by (metis diff_add_inverse length_upt)
  ultimately show ?thesis unfolding ready_def using a dist n by (simp add: a(1))
qed

lemma registration_made:
  assumes room: "room pb config n"
  shows "(\<exists>e. local_worker_registration env rc pb now time config c = Some (Inl e)) \<or>
    (\<exists>ls rs c1. ready env rc now time config c n rs c1 \<and>
       local_worker_registration env rc pb now time config c = map_option Inr (finish_registration env time ls rs c1))"
  using registration_run [of env rc pb now time config c] alloc_ready made_room [OF room] by metis

lemma registration_finished:
  assumes "room pb config n" "local_worker_registration env rc pb now time config c = Some (Inr c')"
  shows "\<exists>ls rs c1. ready env rc now time config c n rs c1 \<and> finish_registration env time ls rs c1 = Some c'"
proof -
  have "\<exists>ls rs c1. ready env rc now time config c n rs c1 \<and>
      (Some (Inr c') :: (workflow_error + control) option) = map_option Inr (finish_registration env time ls rs c1)"
    using registration_made [OF assms(1), of env rc now time c] unfolding assms(2) by blast
  then show ?thesis by (metis (no_types, lifting) map_option_eq_Some sum.inject(2))
qed

lemma registration_spec:
  assumes ok: "control_ok env es c" and room: "room pb config (length es)"
  shows "\<exists>res. local_worker_registration env rc pb now time config c = Some res"
    "local_worker_registration env rc pb now time config c = Some (Inr c') \<Longrightarrow>
      \<forall>e\<in>set es. \<not> url_of_request config (url (wst c (snd e))) \<Longrightarrow>
      \<exists>new. map snd new = [next_ref c..<next_ref c'] \<and> control_ok env (es @ new) c' \<and>
        (\<forall>r<next_ref c. wst c' r = wst c r) \<and>
        (\<forall>r\<in>set (map snd new). is_healthy (wst c' r) \<and> started_from rc config now (wst c' r)) \<and>
        policies_step (\<lambda>m n. n + of_model env (wst c') m (map snd new)) (preg c) (preg c') \<and> (cr_dp_aware config \<or> length new = 1)"
proof -
  note d = control_okD [OF ok]
  have "\<exists>c'. finish_registration env time ls rs c1 = Some c'" if "ready env rc now time config c (length es) rs c1" for ls rs c1
    using finish_total [of c1 rs env time ls] that d(2) reg_relD(1) [OF d(1)] by (auto simp: ready_def)
  then show "\<exists>res. local_worker_registration env rc pb now time config c = Some res"
    using registration_made [OF room, of env rc now time c] by (metis option.simps(9))
  assume run: "local_worker_registration env rc pb now time config c = Some (Inr c')"
    and urls: "\<forall>e\<in>set es. \<not> url_of_request config (url (wst c (snd e)))"
  obtain ls rs c1 where r: "ready env rc now time config c (length es) rs c1" and fin: "finish_registration env time ls rs c1 = Some c'"
    using registration_finished [OF room run] by blast
  have a: "wreg c1 = wreg c" "preg c1 = preg c" "next_ref c1 = next_ref c + length rs" "\<And>r. r < next_ref c \<Longrightarrow> wst c1 r = wst c r"
      "rs = [next_ref c..<next_ref c + length rs]" "distinct (map (\<lambda>r. url (wst c1 r)) rs)" "length es + length rs \<le> 4096"
      "\<And>r. r \<in> set rs \<Longrightarrow> started_from rc config now (wst c1 r)" "cr_dp_aware config \<or> length rs = 1"
    using r unfolding ready_def by blast+
  have "\<forall>e\<in>set es. \<forall>r\<in>set rs. url (wst c1 (snd e)) \<noteq> url (wst c1 r)"
    using a(8) urls a(4) [OF d(4)] by (metis started_from_def)
  from finish_spec [OF ok a(1-6) this fin a(7)] obtain new where
    n: "map snd new = rs" "control_ok env (es @ new) c'" "next_ref c' = next_ref c1"
      "\<And>r. wst c' r = (if r \<in> set rs then set_healthy True (wst c1 r) else wst c1 r)"
      "policies_step (\<lambda>m n. n + of_model env (wst c1) m rs) (preg c1) (preg c')" by auto
  have "\<forall>r\<in>set rs. is_healthy (wst c' r) \<and> started_from rc config now (wst c' r)" using a(8) n(4) by simp
  moreover have "of_model env (wst c') m rs = of_model env (wst c1) m rs" for m by (rule of_model_cong) (simp add: n(4))
  moreover have "wst c' r = wst c r" if "r < next_ref c" for r
  proof -
    have "r \<notin> set rs" using that a(5) by (metis atLeastLessThan_iff not_le set_upt)
    then show ?thesis using that n(4) a(4) by simp
  qed
  moreover have "cr_dp_aware config \<or> length new = 1" using a(9) n(1) by (metis length_map)
  moreover have "map snd new = [next_ref c..<next_ref c']" using n(1,3) a(3,5) by simp
  ultimately show "\<exists>new. map snd new = [next_ref c..<next_ref c'] \<and> control_ok env (es @ new) c' \<and>
        (\<forall>r<next_ref c. wst c' r = wst c r) \<and>
        (\<forall>r\<in>set (map snd new). is_healthy (wst c' r) \<and> started_from rc config now (wst c' r)) \<and>
        policies_step (\<lambda>m n. n + of_model env (wst c') m (map snd new)) (preg c) (preg c') \<and> (cr_dp_aware config \<or> length new = 1)"
    using n(1,2,5) a(2) by (intro exI [of _ new]) simp
qed

section \<open>Removal\<close>

lemma policies_shrink:
  assumes "policies_step (\<lambda>m n. n - a m) pr pr'"
  shows "policies_step (\<lambda>m n. n - b m) pr' pr'' \<Longrightarrow> policies_step (\<lambda>m n. n - (a m + b m)) pr pr''"
    "policies_step (\<lambda>m n. n) pr' pr'' \<Longrightarrow> policies_step (\<lambda>m n. n - a m) pr pr''"
proof -
  have pos: "0 < x - y \<or> x = 0 \<or> x - y - z = 0" for x y z :: nat by auto
  show "policies_step (\<lambda>m n. n - (a m + b m)) pr pr''" if "policies_step (\<lambda>m n. n - b m) pr' pr''"
    using policies_step_trans [OF assms that pos] by simp
  have pos': "0 < x - y \<or> x = 0 \<or> x - y = 0" for x y :: nat by auto
  show "policies_step (\<lambda>m n. n - a m) pr pr''" if "policies_step (\<lambda>m n. n) pr' pr''"
    by (rule policies_step_trans [OF assms that pos'])
qed

lemma remove_from_policies_spec:
  assumes "pr_ok (preg c)"
  shows "\<exists>pr. remove_from_policies env r c = Some (c\<lparr> preg := pr \<rparr>) \<and>
    policies_step (\<lambda>m n. n - of_model env (wst c) m [r]) (preg c) pr"
proof -
  let ?w = "wst c r" let ?m = "model_id (we_unknown env) ?w"
  from dispatch_spec(2) [OF assms, of ?m "url ?w"] obtain pr1 where
    1: "remove_worker_from_cache_aware ?m (url ?w) (preg c) = Some pr1" "pr_ok pr1" "touches (preg c) pr1" by blast
  from dispatch_spec(3) [OF 1(2), of "we_unknown env" ?w] obtain pr2 where
    2: "remove_pd_worker_from_cache_aware (we_unknown env) ?w pr1 = Some pr2" "pr_ok pr2" "touches pr1 pr2" by blast
  have t: "policies_step (\<lambda>m n. n) (preg c) pr2" by (rule touches_policies_step [OF 2(2) touches_trans [OF 1(3) 2(3)]])
  have "policies_step (\<lambda>m n. n - of_model env (wst c) m [r]) pr2 (fst (on_worker_removed ?m pr2))"
    using removed_spec [OF 2(2), of ?m] by (simp add: policies_step_def assigns_def)
  then have "policies_step (\<lambda>m n. n - of_model env (wst c) m [r]) (preg c) (fst (on_worker_removed ?m pr2))"
    by (rule policies_step_trans [OF t]) auto
  then show ?thesis using 1(1) 2(1)
    by (intro exI [of _ "fst (on_worker_removed ?m pr2)"]) (simp add: remove_from_policies_def Let_def)
qed

lemma remove_all_from_policies_spec:
  assumes "pr_ok (preg c)"
  shows "\<exists>pr. for_each (remove_from_policies env) rs c = Some (c\<lparr> preg := pr \<rparr>) \<and>
    policies_step (\<lambda>m n. n - of_model env (wst c) m rs) (preg c) pr"
  using assms
proof (induction rs arbitrary: c)
  case Nil
  then show ?case by (intro exI [of _ "preg c"]) (simp add: policies_step_def)
next
  case (Cons r rs)
  from remove_from_policies_spec [OF Cons.prems, of env r] obtain pr1 where
    1: "remove_from_policies env r c = Some (c\<lparr> preg := pr1 \<rparr>)"
      "policies_step (\<lambda>m n. n - of_model env (wst c) m [r]) (preg c) pr1" by blast
  then have "pr_ok (preg (c\<lparr> preg := pr1 \<rparr>))" by (simp add: policies_step_def)
  from Cons.IH [OF this] obtain pr2 where
    2: "for_each (remove_from_policies env) rs (c\<lparr> preg := pr1 \<rparr>) = Some (c\<lparr> preg := pr2 \<rparr>)"
      "policies_step (\<lambda>m n. n - of_model env (wst c) m rs) pr1 pr2" by auto
  have "policies_step (\<lambda>m n. n - of_model env (wst c) m (r # rs)) (preg c) pr2"
    using policies_shrink(1) [OF 1(2) 2(2)] by simp
  then show ?case using 1(1) 2(1) by (intro exI [of _ pr2]) simp
qed

lemma update_remaining_spec:
  assumes "pr_ok (preg c)"
  shows "\<exists>pr. update_remaining_policies env m c = Some (c\<lparr> preg := pr \<rparr>) \<and> policies_step (\<lambda>m n. n) (preg c) pr"
proof -
  have same: "policies_step (\<lambda>m n. n) (preg c) (preg c)" using assms by (simp add: policies_step_def)
  from dispatch_spec(1) [OF assms, of "we_unknown env" m "map (wst c) (get_by_model m (wreg c))"] obtain pr where
    pr: "init_cache_aware_policy (we_unknown env) m (map (wst c) (get_by_model m (wreg c))) (preg c) = Some pr" "pr_ok pr" "touches (preg c) pr"
    by blast
  have "update_remaining_policies env m c = Some (c\<lparr> preg := preg c \<rparr>) \<or> update_remaining_policies env m c = Some (c\<lparr> preg := pr \<rparr>)"
    using pr(1) by (auto simp: update_remaining_policies_def Let_def split: option.splits)
  then show ?thesis using same touches_policies_step [OF pr(2,3)] by blast
qed

lemma update_all_remaining_spec:
  assumes "pr_ok (preg c)"
  shows "\<exists>pr. for_each (update_remaining_policies env) ms c = Some (c\<lparr> preg := pr \<rparr>) \<and> policies_step (\<lambda>m n. n) (preg c) pr"
  using assms
proof (induction ms arbitrary: c)
  case Nil
  then show ?case by (intro exI [of _ "preg c"]) (simp add: policies_step_def)
next
  case (Cons m ms)
  from update_remaining_spec [OF Cons.prems, of env m] obtain pr1 where
    1: "update_remaining_policies env m c = Some (c\<lparr> preg := pr1 \<rparr>)" "policies_step (\<lambda>m n. n) (preg c) pr1" by blast
  then have "pr_ok (preg (c\<lparr> preg := pr1 \<rparr>))" by (simp add: policies_step_def)
  from Cons.IH [OF this] obtain pr2 where
    2: "for_each (update_remaining_policies env) ms (c\<lparr> preg := pr1 \<rparr>) = Some (c\<lparr> preg := pr2 \<rparr>)" "policies_step (\<lambda>m n. n) pr1 pr2" by auto
  have "policies_step (\<lambda>m n. n) (preg c) pr2" using 1(2) 2(2) by (auto simp: policies_step_def)
  then show ?case using 1(1) 2(1) by (intro exI [of _ pr2]) simp
qed

text \<open>Removing a URL touches only the worker that has it, and gives out no id.\<close>

lemma remove_by_url_frame:
  assumes rel: "reg_rel b u st es reg"
  shows "fst (snd (remove_by_url b u v st reg)) r = (if url (st r) = v \<and> r \<in> snd ` set es then set_healthy False (st r) else st r)"
    "id_fresh i reg \<Longrightarrow> id_fresh i (snd (snd (remove_by_url b u v st reg)))"
proof -
  note d = reg_relD [OF rel]
  show "id_fresh i (snd (snd (remove_by_url b u v st reg)))" if "id_fresh i reg"
    using that by (auto simp: id_fresh_def remove_by_url_def remove_def Let_def split: option.splits)
  show "fst (snd (remove_by_url b u v st reg)) r = (if url (st r) = v \<and> r \<in> snd ` set es then set_healthy False (st r) else st r)"
  proof (cases "\<exists>e\<in>set es. url (st (snd e)) = v")
    case True
    then obtain i r0 where ir: "(i, r0) \<in> set es" "url (st r0) = v" by auto
    have "map_get (reg_workers reg) i = Some r0" using d(1,2) ir(1) by (simp add: map_get_iff map_wf_def)
    note f = remove_fields(1) [OF this, of b u st]
    have "url (st r) = v \<and> r \<in> snd ` set es \<longleftrightarrow> r = r0"
      using distinct_key [OF d(3) _ ir(1)] ir by force
    then show ?thesis unfolding remove_by_url_registered [OF rel ir] f by auto
  next
    case False
    have "map_get (reg_workers reg) i = None" if "map_get (url_to_id reg) v = Some i" for i
    proof (rule ccontr)
      assume "map_get (reg_workers reg) i \<noteq> None"
      then obtain r0 where "(i, r0) \<in> set es" using d(1) map_get_in_set by fastforce
      then show False using d(5) [OF that] d(4) [of "(i, r0)"] False by auto
    qed
    then have "fst (snd (remove_by_url b u v st reg)) = st"
      by (auto simp: remove_by_url_def remove_def Let_def split: option.splits)
    then show ?thesis using False by auto
  qed
qed

lemma remove_urls_spec:
  assumes "reg_rel (we_blake3 env) (we_unknown env) (wst c) es (wreg c)"
  shows "\<exists>st reg. foldl (\<lambda>c u. remove_from_registry env u c) c us = c\<lparr> wst := st, wreg := reg \<rparr> \<and>
    reg_rel (we_blake3 env) (we_unknown env) st (filter (\<lambda>e. url (wst c (snd e)) \<notin> set us) es) reg \<and>
    (\<forall>r. st r = (if url (wst c r) \<in> set us \<and> r \<in> snd ` set es then set_healthy False (wst c r) else wst c r)) \<and>
    (\<forall>i. id_fresh i (wreg c) \<longrightarrow> id_fresh i reg)"
  using assms
proof (induction us arbitrary: c es)
  case Nil
  then show ?case by (intro exI [of _ "wst c"] exI [of _ "wreg c"]) simp
next
  case (Cons u us)
  let ?b = "we_blake3 env" and ?u = "we_unknown env"
  let ?st = "fst (snd (remove_by_url ?b ?u u (wst c) (wreg c)))" and ?reg = "snd (snd (remove_by_url ?b ?u u (wst c) (wreg c)))"
  let ?c = "c\<lparr> wst := ?st, wreg := ?reg \<rparr>" and ?es = "filter (\<lambda>e. url (wst c (snd e)) \<noteq> u) es"
  note f = remove_by_url_frame [OF Cons.prems, where v = u]
  have url: "url (?st r) = url (wst c r)" for r by (simp add: f(1))
  have "reg_rel ?b ?u (wst ?c) ?es (wreg ?c)" using reg_rel_remove_by_url [OF Cons.prems, of u] by simp
  from Cons.IH [OF this] obtain st reg where
    1: "foldl (\<lambda>c u. remove_from_registry env u c) ?c us = c\<lparr> wst := st, wreg := reg \<rparr>"
      "reg_rel ?b ?u st (filter (\<lambda>e. url (wst ?c (snd e)) \<notin> set us) ?es) reg"
      "\<And>r. st r = (if url (wst ?c r) \<in> set us \<and> r \<in> snd ` set ?es then set_healthy False (wst ?c r) else wst ?c r)"
      "\<And>i. id_fresh i (wreg ?c) \<Longrightarrow> id_fresh i reg" by auto
  have es: "filter (\<lambda>e. url (wst ?c (snd e)) \<notin> set us) ?es = filter (\<lambda>e. url (wst c (snd e)) \<notin> set (u # us)) es"
    by (simp add: url conj_commute)
  have "st r = (if url (wst c r) \<in> set (u # us) \<and> r \<in> snd ` set es then set_healthy False (wst c r) else wst c r)" for r
    unfolding 1(3) using f(1) [of r] by (auto simp: url)
  moreover have "foldl (\<lambda>c u. remove_from_registry env u c) c (u # us) = c\<lparr> wst := st, wreg := reg \<rparr>"
    using 1(1) by (simp add: remove_from_registry_def split_beta)
  moreover have "id_fresh i (wreg c) \<Longrightarrow> id_fresh i reg" for i using 1(4) f(2) by simp
  ultimately show ?case using 1(2) unfolding es by blast
qed

text \<open>The URLs a removal names: one URL, or all ranks of a base URL.\<close>

definition names_url :: "string \<Rightarrow> bool \<Rightarrow> string \<Rightarrow> bool" where
  "names_url u dp_aware v \<longleftrightarrow> (if dp_aware then prefix (u @ ''@'') v else v = u)"

lemma filter_single: "distinct xs \<Longrightarrow> x \<in> set xs \<Longrightarrow> filter (\<lambda>y. y = x) xs = [x]"
  by (induction xs) (auto simp: filter_empty_conv)

lemma find_workers_spec:
  assumes rel: "reg_rel b un st es reg"
  shows "find_workers_by_url st reg u dp = map snd (filter (\<lambda>e. names_url u dp (url (st (snd e)))) es)"
proof (cases dp)
  case True
  then show ?thesis using reg_relD(1) [OF rel] by (simp add: find_workers_by_url_def names_url_def get_all_def filter_map comp_def)
next
  case False
  note d = reg_relD [OF rel]
  show ?thesis
  proof (cases "get_by_url u reg")
    case None
    then have "\<not> (\<exists>e\<in>set es. url (st (snd e)) = u)" using get_by_url_registered [OF rel, of u] by fastforce
    then show ?thesis using False None by (auto simp: find_workers_by_url_def names_url_def filter_empty_conv)
  next
    case (Some r)
    then obtain i where ir: "(i, r) \<in> set es" "url (st r) = u" using get_by_url_registered [OF rel, of u] by auto
    have "url (st (snd e)) = u \<longleftrightarrow> e = (i, r)" if "e \<in> set es" for e using distinct_key [OF d(3) that ir(1)] ir(2) by auto
    then have "filter (\<lambda>e. url (st (snd e)) = u) es = filter (\<lambda>e. e = (i, r)) es" by (intro filter_cong) auto
    also have "\<dots> = [(i, r)]" by (rule filter_single) (use ir(1) d(2) in \<open>auto simp: distinct_map\<close>)
    finally show ?thesis using False Some by (simp add: find_workers_by_url_def names_url_def)
  qed
qed

lemma of_model_filter:
  "of_model env st m (map snd (filter P es)) + of_model env st m (map snd (filter (\<lambda>e. \<not> P e) es)) = of_model env st m (map snd es)"
  by (induction es) auto

lemma removal_spec:
  assumes ok: "control_ok env es c" and some: "\<exists>e\<in>set es. names_url u dp (url (wst c (snd e)))"
  shows "\<exists>c'. worker_removal env u dp c = Some (Inr c') \<and>
    control_ok env (filter (\<lambda>e. \<not> names_url u dp (url (wst c (snd e)))) es) c' \<and> next_ref c' = next_ref c \<and>
    (\<forall>r. wst c' r = (if names_url u dp (url (wst c r)) \<and> r \<in> snd ` set es then set_healthy False (wst c r) else wst c r)) \<and>
    policies_step (\<lambda>m n. n - of_model env (wst c) m (map snd (filter (\<lambda>e. names_url u dp (url (wst c (snd e)))) es))) (preg c) (preg c')"
proof -
  note d = control_okD [OF ok]
  let ?P = "\<lambda>e. names_url u dp (url (wst c (snd e)))"
  let ?gone = "map snd (filter ?P es)"
  let ?us = "map (\<lambda>r. url (wst c r)) ?gone" and ?ms = "remdups (map (\<lambda>r. model_id (we_unknown env) (wst c r)) ?gone)"
  have found: "find_workers_by_url (wst c) (wreg c) u dp = ?gone" by (rule find_workers_spec [OF d(1)])
  have ne: "?gone \<noteq> []" using some by (auto simp: filter_empty_conv)
  obtain pr1 where 1: "for_each (remove_from_policies env) ?gone c = Some (c\<lparr> preg := pr1 \<rparr>)"
      "policies_step (\<lambda>m n. n - of_model env (wst c) m ?gone) (preg c) pr1"
    using remove_all_from_policies_spec [OF d(2)] by blast
  have in_us: "url (wst c (snd e)) \<in> set ?us \<longleftrightarrow> ?P e" if "e \<in> set es" for e using that by auto
  then have keep: "filter (\<lambda>e. url (wst c (snd e)) \<notin> set ?us) es = filter (\<lambda>e. \<not> ?P e) es" by (intro filter_cong) auto
  obtain st reg where 2: "foldl (\<lambda>c u. remove_from_registry env u c) (c\<lparr> preg := pr1 \<rparr>) ?us = c\<lparr> preg := pr1, wst := st, wreg := reg \<rparr>"
      "reg_rel (we_blake3 env) (we_unknown env) st (filter (\<lambda>e. \<not> ?P e) es) reg"
      "\<And>r. st r = (if url (wst c r) \<in> set ?us \<and> r \<in> snd ` set es then set_healthy False (wst c r) else wst c r)"
      "\<And>i. id_fresh i (wreg c) \<Longrightarrow> id_fresh i reg"
    using remove_urls_spec [of env "c\<lparr> preg := pr1 \<rparr>" es ?us] d(1) keep by auto
  have "pr_ok (preg (c\<lparr> preg := pr1, wst := st, wreg := reg \<rparr>))" using 1(2) by (simp add: policies_step_def)
  from update_all_remaining_spec [OF this, of env ?ms] obtain pr2 where
    3: "for_each (update_remaining_policies env) ?ms (c\<lparr> preg := pr1, wst := st, wreg := reg \<rparr>) = Some (c\<lparr> wst := st, wreg := reg, preg := pr2 \<rparr>)"
      "policies_step (\<lambda>m n. n) pr1 pr2" by auto
  let ?c = "c\<lparr> wst := st, wreg := reg, preg := pr2 \<rparr>"
  have run: "worker_removal env u dp c = Some (Inr ?c)"
    unfolding worker_removal_def Let_def found using ne 1(1) 2(1) 3(1) by simp
  have step: "policies_step (\<lambda>m n. n - of_model env (wst c) m ?gone) (preg c) pr2" by (rule policies_shrink(2) [OF 1(2) 3(2)])
  have st: "st r = (if names_url u dp (url (wst c r)) \<and> r \<in> snd ` set es then set_healthy False (wst c r) else wst c r)" for r
    unfolding 2(3) using in_us by auto
  have "count_at m pr2 = of_model env st m (map snd (filter (\<lambda>e. \<not> ?P e) es))" for m
  proof -
    have "of_model env st m (map snd (filter (\<lambda>e. \<not> ?P e) es)) = of_model env (wst c) m (map snd (filter (\<lambda>e. \<not> ?P e) es))"
      by (rule of_model_cong) (simp add: st)
    then show ?thesis using step d(6) [of m] of_model_filter [of env "wst c" m ?P es] by (simp add: policies_step_def)
  qed
  then have "control_ok env (filter (\<lambda>e. \<not> ?P e) es) ?c"
    using 2(2,4) step d(3-5) by (simp add: control_ok_def policies_step_def)
  then show ?thesis using run step st by (intro exI [of _ ?c]) simp
qed

lemma removal_none:
  assumes "control_ok env es c" "\<not> (\<exists>e\<in>set es. names_url u dp (url (wst c (snd e))))"
  shows "\<exists>msg. worker_removal env u dp c = Some (Inl (StepFailed ''find_workers_to_remove'' msg))"
  using find_workers_spec [OF control_okD(1) [OF assms(1)], of u dp] assms(2)
  by (simp add: worker_removal_def filter_empty_conv)

section \<open>Properties\<close>

text \<open>
  What a registration leaves: new workers behind the old ones, healthy, idle and as configured;
  every older worker as it was, and models that had workers with the policy they had.
\<close>

definition registered :: "wf_env \<Rightarrow> 'x router_config \<Rightarrow> u64 \<Rightarrow> worker_config_request \<Rightarrow> (string \<times> wref) list \<Rightarrow> control \<Rightarrow> control \<Rightarrow> bool" where
  "registered env rc now config es c c' \<longleftrightarrow>
     (\<exists>new. map snd new = [next_ref c..<next_ref c'] \<and> control_ok env (es @ new) c' \<and>
        (\<not> cr_dp_aware config \<longrightarrow> length new = 1) \<and> (\<forall>r<next_ref c. wst c' r = wst c r) \<and>
        (\<forall>r\<in>set (map snd new). is_healthy (wst c' r) \<and> started_from rc config now (wst c' r)) \<and>
        (\<forall>m. 0 < count_at m (preg c) \<longrightarrow> get_policy m (preg c') = get_policy m (preg c)))"


lemma registration_registered:
  assumes "control_ok env es c" "room pb config (length es)" "local_worker_registration env rc pb now time config c = Some (Inr c')"
    and "\<forall>e\<in>set es. \<not> url_of_request config (url (wst c (snd e)))"
  shows "registered env rc now config es c c'"
proof -
  from registration_spec(2) [OF assms] obtain new where
    new: "map snd new = [next_ref c..<next_ref c']" "control_ok env (es @ new) c'" "\<forall>r<next_ref c. wst c' r = wst c r"
      "\<forall>r\<in>set (map snd new). is_healthy (wst c' r) \<and> started_from rc config now (wst c' r)" "cr_dp_aware config \<or> length new = 1"
      "policies_step (\<lambda>m n. n + of_model env (wst c') m (map snd new)) (preg c) (preg c')" by blast
  have "\<forall>m. 0 < count_at m (preg c) \<longrightarrow> get_policy m (preg c') = get_policy m (preg c)"
    using new(6) by (simp add: policies_step_def)
  then show ?thesis unfolding registered_def using new(1-5) by (intro exI [of _ new]) blast
qed

text \<open>
  A URL that is not normalised; the duplicate check is then exact, since it looks up the URL as it was
  sent.
\<close>

definition has_scheme :: "string \<Rightarrow> bool" where
  "has_scheme u \<longleftrightarrow> prefix ''http://'' u \<or> prefix ''https://'' u \<or> prefix ''grpc://'' u"

lemma url_of_request_scheme: "has_scheme (cr_url config) \<Longrightarrow> \<not> cr_dp_aware config \<Longrightarrow> url_of_request config v \<longleftrightarrow> v = cr_url config"
  by (auto simp: url_of_request_def normalize_url_def has_scheme_def)

lemma duplicate_check_exact:
  assumes "control_ok env es c" "accepted env pb config (wreg c)" "has_scheme (cr_url config)" "\<not> cr_dp_aware config"
  shows "\<forall>e\<in>set es. \<not> url_of_request config (url (wst c (snd e)))"
  using assms(2) get_by_url_registered [OF control_okD(1) [OF assms(1)], of "cr_url config"] url_of_request_scheme [OF assms(3,4)]
  by (force simp: accepted_def)

text \<open>Registering workers whose URLs may be registered: each takes the place of the worker of its URL.\<close>

lemma register_workers_covers:
  assumes "reg_covers (we_blake3 env) (we_unknown env) (wst c) es (wreg c)" "inj (we_new_id env)" "distinct rs"
    and "distinct (map (\<lambda>r. url (wst c r)) rs)" "\<forall>r\<in>set rs. id_fresh (we_new_id env r) (wreg c)"
  shows "\<exists>es' reg. snd (register_workers env rs c) = c\<lparr> wreg := reg \<rparr> \<and>
    reg_covers (we_blake3 env) (we_unknown env) (wst c) es' reg \<and> set rs \<subseteq> snd ` set es' \<and>
    (\<forall>e\<in>set es. url (wst c (snd e)) \<notin> (\<lambda>r. url (wst c r)) ` set rs \<longrightarrow> e \<in> set es')"
  using assms
proof (induction rs arbitrary: c es)
  case Nil
  then show ?case by (intro exI [of _ es] exI [of _ "wreg c"]) simp
next
  case (Cons r rs)
  let ?b = "we_blake3 env" and ?u = "we_unknown env"
  note d = reg_coversD [OF Cons.prems(1)]
  obtain wid msgs reg1 where reg: "register ?b ?u (we_new_id env r) (wst c) r (wreg c) = ((wid, msgs), reg1)"
    by (metis surj_pair)
  have f: "id_fresh (we_new_id env r) (wreg c)" using Cons.prems(5) by simp
  have rel: "reg_covers ?b ?u (wst c) (map_insert wid r es) reg1"
    using reg_covers_register [OF Cons.prems(1), of "we_new_id env r" r] f reg by (simp add: id_fresh_def)
  have u: "url_to_id reg1 = map_insert (url (wst c r)) wid (url_to_id (wreg c))"
    and wid: "wid = (case map_get (url_to_id (wreg c)) (url (wst c r)) of Some i \<Rightarrow> i | None \<Rightarrow> we_new_id env r)"
    using register_fields(1,3) [of ?b ?u "we_new_id env r" "wst c" r "wreg c"] reg by simp_all
  have fresh: "\<forall>r'\<in>set rs. id_fresh (we_new_id env r') reg1"
  proof
    fix r' assume r': "r' \<in> set rs"
    then have "r' \<noteq> r" "id_fresh (we_new_id env r') (wreg c)" using Cons.prems(3,5) by auto
    then show "id_fresh (we_new_id env r') reg1"
      using injD [OF Cons.prems(2), of r' r] u wid by (auto simp: id_fresh_def split: option.splits if_splits)
  qed
  have keep: "e \<in> set (map_insert wid r es)" if "e \<in> set es" "url (wst c (snd e)) \<noteq> url (wst c r)" for e
  proof -
    have e: "map_get (url_to_id (wreg c)) (url (wst c (snd e))) = Some (fst e)" using d(3) [of "fst e" "snd e"] that(1) by simp
    have "fst e \<noteq> wid"
    proof
      assume "fst e = wid"
      then show False using e d(4) [OF e, of "url (wst c r)"] that(2) f wid by (auto simp: id_fresh_def split: option.splits)
    qed
    then show ?thesis using that(1) set_map_insert_wf [OF d(2)] by auto
  qed
  have mem: "(wid, r) \<in> set (map_insert wid r es)" using set_map_insert_wf [OF d(2)] by auto
  from Cons.IH [of "c\<lparr> wreg := reg1 \<rparr>" "map_insert wid r es"] rel fresh Cons.prems(2-4) obtain es' reg' where
    IH: "snd (register_workers env rs (c\<lparr> wreg := reg1 \<rparr>)) = c\<lparr> wreg := reg' \<rparr>" "reg_covers ?b ?u (wst c) es' reg'" "set rs \<subseteq> snd ` set es'"
      "\<forall>e\<in>set (map_insert wid r es). url (wst c (snd e)) \<notin> (\<lambda>r. url (wst c r)) ` set rs \<longrightarrow> e \<in> set es'"
    by auto
  have "(wid, r) \<in> set es'" using IH(4) mem Cons.prems(4) by auto
  then have "set (r # rs) \<subseteq> snd ` set es'" using IH(3) by force
  moreover have "\<forall>e\<in>set es. url (wst c (snd e)) \<notin> (\<lambda>r. url (wst c r)) ` set (r # rs) \<longrightarrow> e \<in> set es'" using IH(4) keep by auto
  moreover have "snd (register_workers env (r # rs) c) = c\<lparr> wreg := reg' \<rparr>" using IH(1) reg by (simp add: split_beta)
  ultimately show ?case using IH(2) by blast
qed

text \<open>What every successful registration guarantees, whatever URLs were registered before.\<close>

definition takes_over :: "wf_env \<Rightarrow> (string \<times> wref) list \<Rightarrow> control \<Rightarrow> control \<Rightarrow> bool" where
  "takes_over env es c c' \<longleftrightarrow>
     (\<forall>r. next_ref c \<le> r \<longrightarrow> r < next_ref c' \<longrightarrow> get_by_url (url (wst c' r)) (wreg c') = Some r \<and>
        r \<in> set (get_by_model (model_id (we_unknown env) (wst c' r)) (wreg c'))) \<and>
     (\<forall>e\<in>set es. (\<forall>r. next_ref c \<le> r \<longrightarrow> r < next_ref c' \<longrightarrow> url (wst c' r) \<noteq> url (wst c (snd e))) \<longrightarrow>
        reg_get (fst e) (wreg c') = Some (snd e) \<and> url (wst c' (snd e)) = url (wst c (snd e)))"

lemma finish_takes_over:
  assumes ok: "control_ok env es c0" and c: "wreg c = wreg c0" "preg c = preg c0" "next_ref c = next_ref c0 + length rs"
      "\<And>r. r < next_ref c0 \<Longrightarrow> wst c r = wst c0 r" and rs: "rs = [next_ref c0..<next_ref c0 + length rs]"
    and urls: "distinct (map (\<lambda>r. url (wst c r)) rs)" and fin: "finish_registration env time ls rs c = Some c'" "length es + length rs \<le> 4096"
  shows "takes_over env es c0 c'"
proof -
  note d = control_okD [OF ok]
  let ?b = "we_blake3 env" and ?u = "we_unknown env"
  have dist: "distinct rs" by (metis distinct_upt rs)
  have in_rs: "r \<in> set rs \<longleftrightarrow> next_ref c0 \<le> r \<and> r < next_ref c0 + length rs" for r using rs by (metis atLeastLessThan_iff set_upt)
  have old: "wst c (snd e) = wst c0 (snd e)" if "e \<in> set es" for e using d(4) c(4) that by blast
  have "reg_rel ?b ?u (wst c) es (wreg c)" unfolding c(1) by (intro reg_rel_cong [OF d(1)]) (simp add: old)
  from register_workers_covers [OF reg_rel_covers [OF this] d(3) dist urls] obtain es' reg where
    r: "snd (register_workers env rs c) = c\<lparr> wreg := reg \<rparr>" "reg_covers ?b ?u (wst c) es' reg" "set rs \<subseteq> snd ` set es'"
      "\<forall>e\<in>set es. url (wst c (snd e)) \<notin> (\<lambda>r. url (wst c r)) ` set rs \<longrightarrow> e \<in> set es'"
    using d(5) in_rs c(1) by auto
  have "length (reg_workers reg) \<le> length (reg_workers (wreg c)) + length rs"
  proof -
    obtain reg0 where "snd (register_workers env rs c) = c\<lparr> wreg := reg0 \<rparr>" "length (reg_workers reg0) \<le> length (reg_workers (wreg c)) + length rs"
      using register_workers_frame by blast
    moreover have "wreg (snd (register_workers env rs c)) = reg" using r(1) by simp
    ultimately show ?thesis by simp
  qed
  then have "length (get_prefill_workers (wst c) reg) \<le> 4096"
    using prefill_count_le [of "wst c" reg] reg_relD(1) [OF d(1)] fin(2) c(1) by simp
  then obtain pr where "update_policies_step env time ls rs (c\<lparr> wreg := reg \<rparr>) = Some (c\<lparr> wreg := reg, preg := pr \<rparr>)"
    using update_policies_step_spec [of "c\<lparr> wreg := reg \<rparr>" env time ls rs] d(2) c(2) by auto
  then have c': "c' = activate_workers rs (c\<lparr> wreg := reg, preg := pr \<rparr>)"
    using fin(1) r(1) by (simp add: finish_registration_def split_beta)
  have st: "wst c' r' = (if r' \<in> set rs then set_healthy True (wst c r') else wst c r')" for r'
    using foldl_set_healthy [OF dist] by (simp add: c' activate_workers_def)
  have md: "same_metadata (wst c) (wst c')" by (simp add: same_metadata_def st)
  have u: "url (wst c' r) = url (wst c r)" for r by (simp add: st)
  have reg': "wreg c' = reg" "next_ref c' = next_ref c" by (simp_all add: c' activate_workers_def)
  note cov = reg_covers_same_metadata [OF r(2) md]
  show ?thesis
    unfolding takes_over_def reg'
  proof (intro conjI allI impI ballI)
    fix q assume "next_ref c0 \<le> q" "q < next_ref c"
    then obtain i where i: "(i, q) \<in> set es'" using r(3) in_rs c(3) by (metis image_iff prod.collapse subsetD)
    show "get_by_url (url (wst c' q)) reg = Some q" using covers_lookup(2) [OF cov, of "url (wst c' q)" q] i by auto
    show "q \<in> set (get_by_model (model_id ?u (wst c' q)) reg)" by (rule covers_index(1) [OF cov i])
  next
    fix e assume e: "e \<in> set es" "\<forall>r. next_ref c0 \<le> r \<longrightarrow> r < next_ref c \<longrightarrow> url (wst c' r) \<noteq> url (wst c0 (snd e))"
    have "url (wst c (snd e)) \<notin> (\<lambda>r. url (wst c r)) ` set rs" using e in_rs c(3) u old [OF e(1)] by force
    then have "(fst e, snd e) \<in> set es'" using r(4) e(1) by simp
    then show "reg_get (fst e) reg = Some (snd e)" using covers_lookup(1) [OF cov] by blast
    show "url (wst c' (snd e)) = url (wst c0 (snd e))" using u old [OF e(1)] by simp
  qed
qed

text \<open>
  C13: registering a local worker, from a consistent state with at most 4096 workers afterwards.  It never panics,
  and succeeds exactly when a health probe does, a data-parallel endpoint reports its size and no worker
  is registered under the URL as it was sent.  For a request with a scheme and without data
  parallelism this check is exact: success implies that no registered worker has the URL of the
  new one.  Whenever that is so, the new workers (one, or one per data-parallel rank) are registered
  behind the old ones, healthy and idle with the configured breaker, key, type and health
  settings; no other worker changes; the indexes, rings and worker counts agree with the longer list;
  and a model that had workers keeps its policy.  When the check missed a duplicate (a URL sent without
  scheme, or the ranks of a data-parallel endpoint), each new worker takes over its URL and is
  listed under its model, and the workers of all other URLs stay registered.
\<close>

theorem worker_registration_adds:
  assumes "control_ok env es c" "room pb config (length es)"
  shows "\<exists>res. local_worker_registration env rc pb now time config c = Some res \<and>
    ((\<exists>c'. res = Inr c') \<longleftrightarrow> accepted env pb config (wreg c)) \<and>
    (\<forall>c'. res = Inr c' \<longrightarrow>
       (has_scheme (cr_url config) \<and> \<not> cr_dp_aware config \<longrightarrow> (\<forall>e\<in>set es. \<not> url_of_request config (url (wst c (snd e))))) \<and>
       ((\<forall>e\<in>set es. \<not> url_of_request config (url (wst c (snd e)))) \<longrightarrow> registered env rc now config es c c') \<and>
       takes_over env es c c')"
proof -
  obtain res where res: "local_worker_registration env rc pb now time config c = Some res"
    using registration_spec(1) [OF assms(1,2)] by blast
  have acc: "(\<exists>c'. res = Inr c') \<longleftrightarrow> accepted env pb config (wreg c)"
    using registration_accepts [of env rc pb now time config c] res by (cases res) auto
  have over: "takes_over env es c c'" if "res = Inr c'" for c'
  proof -
    obtain ls rs c1 where r: "ready env rc now time config c (length es) rs c1" and fin: "finish_registration env time ls rs c1 = Some c'"
      using registration_finished [OF assms(2)] res \<open>res = Inr c'\<close> by blast
    show ?thesis by (rule finish_takes_over [OF assms(1) _ _ _ _ _ _ fin]) (use r in \<open>simp_all only: ready_def\<close>)
  qed
  show ?thesis
    using res acc over duplicate_check_exact [OF assms(1), of pb config] registration_registered [OF assms(1,2), of rc now time]
    by (intro exI [of _ res]) blast
qed

definition sample_wf_env :: wf_env where
  "sample_wf_env = \<lparr> we_blake3 = (\<lambda>b. b), we_unknown = ''unknown'', we_url_parse = (\<lambda>u. None), we_json_strings = (\<lambda>s. None),
     we_json_map = (\<lambda>s. None), we_json_print = (\<lambda>s. None), we_read = (\<lambda>f. None), we_new_id = (\<lambda>r. replicate r CHR ''i'') \<rparr>"

definition sample_control :: control where
  "sample_control = \<lparr> wst = (\<lambda>r. Basic (sample_worker ''a'')), wreg = worker_registry_new,
     preg = policy_registry_new (\<lambda>f. None) 0 PC_Random heap_empty, next_ref = 0 \<rparr>"

definition sample_probes :: probes where
  "sample_probes = \<lparr> pr_http = (\<lambda>u. Inr ()), pr_grpc = (\<lambda>u r. Inl ''refused''), pr_server_info = (\<lambda>u k. Inl ''refused''),
     pr_model_info = (\<lambda>u k. Inl ''refused''), pr_v1_model = (\<lambda>u k. Inl ''refused''), pr_grpc_labels = (\<lambda>u r. Inl ''refused'') \<rparr>"

definition sample_request :: worker_config_request where
  "sample_request = \<lparr> cr_url = ''http://a'', cr_api_key = None, cr_model_id = Some ''m'', cr_priority = None, cr_cost = None,
     cr_labels = [], cr_worker_type = None, cr_bootstrap_port = None, cr_runtime = None, cr_tokenizer_path = None,
     cr_reasoning_parser = None, cr_tool_parser = None, cr_chat_template = None, cr_disable_health_check = False, cr_dp_aware = False \<rparr>"

lemma sample_control_ok: "control_ok sample_wf_env [] sample_control"
proof -
  have "inj (we_new_id sample_wf_env)" by (auto simp: sample_wf_env_def inj_def)
  moreover have "heap_ok heap_empty" by (simp add: heap_ok_def heap_empty_def)
  ultimately show ?thesis using policy_registry_new_ok [of heap_empty "\<lambda>f. None" 0 PC_Random]
    by (simp add: control_ok_def sample_control_def reg_rel_new id_fresh_def) (simp add: worker_registry_new_def)
qed

lemma sample_room: "room sample_probes sample_request 0"
  by (simp add: room_def sample_probes_def)

definition sample_rc :: "unit router_config" where
  "sample_rc = router_config_default"

lemma sample_fields: "next_ref sample_control = 0" "\<not> cr_dp_aware sample_request"
  by (simp_all add: sample_control_def sample_request_def)

lemma sample_accepted: "accepted sample_wf_env sample_probes sample_request (wreg sample_control)"
  by (simp add: accepted_def detect_connection_mode_def sample_probes_def sample_request_def create_local_worker_workflow_data_def Let_def
      get_by_url_def sample_control_def worker_registry_new_def)

theorem worker_registration_adds_witness:
  "\<exists>c'. local_worker_registration sample_wf_env sample_rc sample_probes 0 0 sample_request sample_control = Some (Inr c') \<and>
    next_ref c' = 1 \<and> is_healthy (wst c' 0) \<and> started_from sample_rc sample_request 0 (wst c' 0)"
proof -
  from worker_registration_adds [OF sample_control_ok, of sample_probes sample_request sample_rc 0 0] sample_room sample_accepted
  obtain c' where run: "local_worker_registration sample_wf_env sample_rc sample_probes 0 0 sample_request sample_control = Some (Inr c')"
      "registered sample_wf_env sample_rc 0 sample_request [] sample_control c'"
    by auto
  then obtain new :: "(string \<times> wref) list" where c': "map snd new = [0..<next_ref c']" "length new = 1"
      "\<forall>r\<in>set (map snd new). is_healthy (wst c' r) \<and> started_from sample_rc sample_request 0 (wst c' r)"
    using sample_fields(2) unfolding registered_def sample_fields(1) by blast
  have "next_ref c' = 1" using c'(1,2) by (metis diff_zero length_map length_upt)
  then show ?thesis using run(1) c'(1,3) by auto
qed

text \<open>
  C29: removing workers by URL, or all ranks of a base URL, never fails by a panic.  It fails
  exactly when nothing has such a URL.  Otherwise exactly these workers leave the registry and are
  marked unhealthy, every other worker is as before, the indexes, rings and counts agree with the
  remaining list, and a model has a policy afterwards exactly if it has workers left, the one it had.
\<close>

theorem worker_removal_exact:
  assumes "control_ok env es c"
  shows "\<exists>res. worker_removal env u dp_aware c = Some res \<and>
    ((\<exists>e. res = Inl e) \<longleftrightarrow> \<not> (\<exists>e\<in>set es. names_url u dp_aware (url (wst c (snd e))))) \<and>
    (\<forall>c'. res = Inr c' \<longrightarrow>
      (let left = filter (\<lambda>e. \<not> names_url u dp_aware (url (wst c (snd e)))) es in
       control_ok env left c' \<and>
       (\<forall>r. wst c' r = (if names_url u dp_aware (url (wst c r)) \<and> r \<in> snd ` set es then set_healthy False (wst c r) else wst c r)) \<and>
       (\<forall>m. get_policy m (preg c') = (if 0 < of_model env (wst c) m (map snd left) then get_policy m (preg c) else None))))"
proof (cases "\<exists>e\<in>set es. names_url u dp_aware (url (wst c (snd e)))")
  case False
  then show ?thesis using removal_none [OF assms, of u dp_aware] by auto
next
  case True
  let ?left = "filter (\<lambda>e. \<not> names_url u dp_aware (url (wst c (snd e)))) es"
  from removal_spec [OF assms True] obtain c' where c': "worker_removal env u dp_aware c = Some (Inr c')"
    "control_ok env ?left c'"
    "\<forall>r. wst c' r = (if names_url u dp_aware (url (wst c r)) \<and> r \<in> snd ` set es then set_healthy False (wst c r) else wst c r)"
    "policies_step (\<lambda>m n. n - of_model env (wst c) m (map snd (filter (\<lambda>e. names_url u dp_aware (url (wst c (snd e)))) es))) (preg c) (preg c')"
    by blast
  have "get_policy m (preg c') = (if 0 < of_model env (wst c) m (map snd ?left) then get_policy m (preg c) else None)" for m
  proof -
    have cnt: "count_at m (preg c') = of_model env (wst c') m (map snd ?left)" by (rule control_okD(6) [OF c'(2)])
    also have "\<dots> = of_model env (wst c) m (map snd ?left)" by (rule of_model_cong) (simp add: c'(3))
    finally have n: "count_at m (preg c') = of_model env (wst c) m (map snd ?left)" .
    have "of_model env (wst c) m (map snd ?left) \<le> count_at m (preg c)"
      using control_okD(6) [OF assms, of m] of_model_filter [of env "wst c" m "\<lambda>e. names_url u dp_aware (url (wst c (snd e)))" es] by simp
    then show ?thesis using n c'(4) pr_ok_count [OF control_okD(2) [OF c'(2)], of m] by (auto simp: policies_step_def)
  qed
  then show ?thesis using c'(1-3) True by (intro exI [of _ "Inr c'"]) (simp add: Let_def)
qed

lemma sample_registered:
  "\<exists>c i. local_worker_registration sample_wf_env sample_rc sample_probes 0 0 sample_request sample_control = Some (Inr c) \<and>
    control_ok sample_wf_env [(i, 0)] c"
proof -
  obtain c where run: "local_worker_registration sample_wf_env sample_rc sample_probes 0 0 sample_request sample_control = Some (Inr c)"
    using registration_accepts [of sample_wf_env sample_rc sample_probes 0 0 sample_request sample_control] sample_accepted
      registration_spec(1) [OF sample_control_ok, of sample_probes sample_request sample_rc 0 0] sample_room
    by (metis list.size(3) sum.exhaust)
  have "registered sample_wf_env sample_rc 0 sample_request [] sample_control c"
    by (rule registration_registered [OF sample_control_ok _ run]) (simp_all add: sample_room)
  then obtain new where new: "map snd new = [0..<next_ref c]" "length new = 1" "control_ok sample_wf_env new c"
    using sample_fields(2) unfolding registered_def sample_fields(1) by auto
  then obtain e where e: "new = [e]" by (metis One_nat_def length_0_conv length_Suc_conv)
  have "next_ref c = 1" using new(1,2) by (metis diff_zero length_map length_upt)
  then have "new = [(fst e, 0)]" using new(1) e by (cases e) simp
  then show ?thesis using run new(3) by blast
qed

theorem worker_removal_exact_witness:
  "\<exists>c c'. control_ok sample_wf_env [] c' \<and> worker_removal sample_wf_env (url (wst c 0)) False c = Some (Inr c') \<and> \<not> is_healthy (wst c' 0)"
proof -
  obtain c i where "control_ok sample_wf_env [(i, 0)] c" using sample_registered by blast
  from worker_removal_exact [OF this, of "url (wst c 0)" False] show ?thesis
    by (auto simp: names_url_def Let_def split: sum.splits) (metis set_healthy_keeps(6) sum.exhaust)
qed

text \<open>
  Adding a worker and removing it again by its URL restores the registered workers, every other
  worker, the indexes and counts, and the policy of every model.
\<close>

theorem register_remove_roundtrip:
  assumes "control_ok env es c" "room pb config (length es)" "\<forall>e\<in>set es. \<not> url_of_request config (url (wst c (snd e)))"
    and "\<not> cr_dp_aware config" "accepted env pb config (wreg c)"
  shows "\<exists>c' c''. local_worker_registration env rc pb now time config c = Some (Inr c') \<and>
    worker_removal env (url (wst c' (next_ref c))) False c' = Some (Inr c'') \<and>
    control_ok env es c'' \<and> (\<forall>r<next_ref c. wst c'' r = wst c r) \<and> (\<forall>m. get_policy m (preg c'') = get_policy m (preg c))"
proof -
  obtain c' where run: "local_worker_registration env rc pb now time config c = Some (Inr c')"
    using registration_accepts [of env rc pb now time config c] assms(5) registration_spec(1) [OF assms(1,2), of rc now time]
    by (metis sum.exhaust)
  obtain new where new: "map snd new = [next_ref c..<next_ref c']" "control_ok env (es @ new) c'" "length new = 1"
      "\<And>r. r < next_ref c \<Longrightarrow> wst c' r = wst c r" "\<And>m. 0 < count_at m (preg c) \<Longrightarrow> get_policy m (preg c') = get_policy m (preg c)"
    using registration_registered [OF assms(1,2) run assms(3)] assms(4) unfolding registered_def by blast
  obtain e where e: "new = [e]" using new(3) by (metis One_nat_def length_0_conv length_Suc_conv)
  then have r: "snd e = next_ref c" using new(1) by (metis Nil_is_map_conv list.simps(9) list.inject not_Cons_self2 upt_rec)
  let ?u = "url (wst c' (next_ref c))"
  have "\<exists>e\<in>set (es @ new). names_url ?u False (url (wst c' (snd e)))" using e r by (simp add: names_url_def)
  from removal_spec [OF new(2) this] obtain c'' where c'': "worker_removal env ?u False c' = Some (Inr c'')"
      "control_ok env (filter (\<lambda>e. \<not> names_url ?u False (url (wst c' (snd e)))) (es @ new)) c''"
      "\<And>r. wst c'' r = (if names_url ?u False (url (wst c' r)) \<and> r \<in> snd ` set (es @ new) then set_healthy False (wst c' r) else wst c' r)"
      "policies_step (\<lambda>m n. n - of_model env (wst c') m (map snd (filter (\<lambda>e. names_url ?u False (url (wst c' (snd e)))) (es @ new)))) (preg c') (preg c'')"
    by blast
  have old: "\<not> names_url ?u False (url (wst c' (snd x)))" if "x \<in> set es" for x
  proof -
    have "distinct (map (\<lambda>e. url (wst c' (snd e))) (es @ new))" by (rule reg_relD(3) [OF control_okD(1) [OF new(2)]])
    then show ?thesis using that e r by (force simp: names_url_def)
  qed
  have es: "filter (\<lambda>e. \<not> names_url ?u False (url (wst c' (snd e)))) (es @ new) = es"
    using old e r by (simp add: names_url_def filter_id_conv)
  have ok: "control_ok env es c''" using c''(2) unfolding es .
  have kept: "wst c'' x = wst c x" if "x < next_ref c" for x
  proof (cases "names_url ?u False (url (wst c' x)) \<and> x \<in> snd ` set (es @ new)")
    case True
    then show ?thesis using old e r that by auto
  next
    case False
    then show ?thesis using new(4) [OF that] unfolding c''(3) if_not_P [OF False] by simp
  qed
  have "get_policy m (preg c'') = get_policy m (preg c)" for m
  proof -
    have eq: "count_at m (preg c'') = count_at m (preg c)"
      unfolding control_okD(6) [OF ok] control_okD(6) [OF assms(1)]
      by (rule of_model_cong) (use kept control_okD(4) [OF assms(1)] in auto)
    show ?thesis
    proof (cases "0 < count_at m (preg c)")
      case True
      have "count_at m (preg c'') \<le> count_at m (preg c')" using c''(4) by (simp add: policies_step_def)
      then have "get_policy m (preg c'') = get_policy m (preg c')" using c''(4) True eq by (simp add: policies_step_def)
      then show ?thesis using new(5) [OF True] by simp
    next
      case False
      then show ?thesis using eq pr_ok_count [OF control_okD(2) [OF ok], of m] pr_ok_count [OF control_okD(2) [OF assms(1)], of m] by simp
    qed
  qed
  then show ?thesis using run c''(1) ok kept by blast
qed

theorem register_remove_roundtrip_witness:
  "\<exists>c' c''. local_worker_registration sample_wf_env sample_rc sample_probes 0 0 sample_request sample_control = Some (Inr c') \<and>
    worker_removal sample_wf_env (url (wst c' 0)) False c' = Some (Inr c'') \<and> control_ok sample_wf_env [] c''"
  using register_remove_roundtrip [OF sample_control_ok, of sample_probes sample_request sample_rc 0 0] sample_room sample_fields sample_accepted
  by auto

text \<open>What an update makes of a worker: the settings merged, everything else that of a fresh worker.\<close>

definition updated_worker :: "u64 \<Rightarrow> worker_update_request \<Rightarrow> worker \<Rightarrow> worker \<Rightarrow> bool" where
  "updated_worker now req w w' \<longleftrightarrow> url w' = url w \<and> get_worker_type w' = get_worker_type w \<and> get_connection_mode w' = get_connection_mode w \<and>
     wm_models (metadata w') = wm_models (metadata w) \<and> labels (metadata w') = updated_labels req w \<and>
     wm_health_config (metadata w') = updated_health_config req w \<and> api_key w' = or_else (ur_api_key req) (api_key w) \<and>
     get_load w' = 0 \<and> is_healthy w' \<and>
     bw_circuit_breaker (base w') = with_config_and_label circuit_breaker_config_default (url w) now"

lemma rebuild_spec: "\<not> is_dp_aware w \<Longrightarrow> updated_worker now req w (rebuild_worker env now req w)"
  by (simp add: updated_worker_def rebuild_worker_def url_def get_worker_type_def get_connection_mode_def metadata_def api_key_def get_load_def
      is_healthy_def build_def builder_new_def)

lemma update_policies_for_model_spec:
  assumes "pr_ok (preg c)"
  shows "\<exists>pr. update_policies_for_model env time m c = Some (c\<lparr> preg := pr \<rparr>) \<and>
    policies_step (\<lambda>m' n. n + (if m' = m then 1 else 0)) (preg c) pr"
proof -
  from update_remaining_spec [OF assms, of env m] obtain pr1 where
    1: "update_remaining_policies env m c = Some (c\<lparr> preg := pr1 \<rparr>)" "policies_step (\<lambda>m n. n) (preg c) pr1" by blast
  then have ok: "pr_ok pr1" by (simp add: policies_step_def)
  from added_spec [OF ok, of "we_read env" time m None] obtain p pr2 msgs where
    2: "on_worker_added (we_read env) time m None pr1 = Some (p, pr2, msgs)" "pr_ok pr2" "\<And>m'. assigns m' (WorkerAdded time m None) pr1 pr2" by blast
  have "policies_step (\<lambda>m' n. n + (if m' = m then 1 else 0)) pr1 pr2"
    using 2(2,3) by (auto simp: policies_step_def assigns_def)
  then have "policies_step (\<lambda>m' n. n + (if m' = m then 1 else 0)) (preg c) pr2"
    by (rule policies_step_trans [OF 1(2)]) auto
  then show ?thesis using 1(1) 2(1) by (intro exI [of _ pr2]) (simp add: update_policies_for_model_def)
qed

text \<open>
  C30: updating a worker that is not data parallel.  The id then names a new worker with the same
  URL, type, connection and models and the merged settings, but its circuit breaker has the default
  settings instead of the configured ones, and load and health start afresh; the replaced worker
  stays in the index of the model, and the policies count one worker more, although none was added.
\<close>

theorem worker_update_resets:
  assumes ok: "control_ok env es c" and e: "(i, r) \<in> set es" and "\<not> is_dp_aware (wst c r)" "CHR ''@'' \<notin> set (url (wst c r))"
  shows "\<exists>c'. worker_update env now time (url (wst c r)) req c = Some (Inr c') \<and>
    reg_get i (wreg c') = Some (next_ref c) \<and> updated_worker now req (wst c r) (wst c' (next_ref c)) \<and>
    (let m = model_id (we_unknown env) (wst c' (next_ref c)) in
     count_at m (preg c') = count_at m (preg c) + 1 \<and>
     (model_id (we_unknown env) (wst c r) = m \<longrightarrow> {r, next_ref c} \<subseteq> set (get_by_model m (wreg c'))))"
proof -
  note d = control_okD [OF ok]
  let ?n = "next_ref c" and ?b = "we_blake3 env" and ?u = "we_unknown env"
  let ?w' = "rebuild_worker env now req (wst c r)"
  define c1 where "c1 = c\<lparr> wst := (wst c)(?n := ?w'), next_ref := ?n + 1 \<rparr>"
  define reg where "reg = snd (register ?b ?u (we_new_id env ?n) (wst c1) ?n (wreg c))"
  let ?m = "model_id ?u ?w'"
  have up: "updated_worker now req (wst c r) ?w'" by (rule rebuild_spec [OF assms(3)])
  have rn: "r < ?n" using d(4) [OF e] by simp
  have "get_by_url (url (wst c r)) (wreg c) = Some r" using get_by_url_registered [OF d(1)] e by blast
  then have found: "find_workers_by_url (wst c) (wreg c) (url (wst c r)) False = [r]" by (simp add: find_workers_by_url_def)
  have props: "update_worker_properties env now req [r] c = ([?n], c1\<lparr> wreg := reg \<rparr>)"
    by (simp add: c1_def reg_def split_beta Let_def)
  have st: "wst c1 ?n = ?w'" by (simp add: c1_def)
  have "pr_ok (preg (c1\<lparr> wreg := reg \<rparr>))" using d(2) by (simp add: c1_def)
  from update_policies_for_model_spec [OF this, of env time ?m] obtain pr where
    pr: "update_policies_for_model env time ?m (c1\<lparr> wreg := reg \<rparr>) = Some (c1\<lparr> wreg := reg, preg := pr \<rparr>)"
      "policies_step (\<lambda>m' n. n + (if m' = ?m then 1 else 0)) (preg c) pr" by (auto simp: c1_def)
  have run: "worker_update env now time (url (wst c r)) req c = Some (Inr (c1\<lparr> wreg := reg, preg := pr \<rparr>))"
    using assms(4) found props pr(1) st by (simp add: worker_update_def Let_def)
  have i: "map_get (url_to_id (wreg c)) (url ?w') = Some i"
    using reg_relD(4) [OF d(1) e] up by (simp add: updated_worker_def)
  note f = register_fields [where b = ?b and u = ?u and new_id = "we_new_id env ?n" and st = "wst c1" and r = ?n and reg = "wreg c",
      unfolded st i option.case, folded reg_def]
  have "r \<in> set (entry_list ?m (model_index (wreg c)))" if "model_id ?u (wst c r) = ?m"
    using reg_relD(6) [OF d(1)] e that by force
  then have idx: "model_id ?u (wst c r) = ?m \<Longrightarrow> {r, ?n} \<subseteq> set (get_by_model ?m reg)"
    by (simp add: get_by_entry_list f(4) entry_list_push)
  have "reg_get i reg = Some ?n" by (simp add: reg_get_def f(2))
  then show ?thesis using run up pr(2) idx st
    by (intro exI [of _ "c1\<lparr> wreg := reg, preg := pr \<rparr>"]) (simp add: policies_step_def Let_def)
qed

definition sample_update :: worker_update_request where
  "sample_update = \<lparr> ur_labels = None, ur_priority = Some 7, ur_cost = None, ur_api_key = None, ur_health_check_timeout_secs = None,
     ur_health_check_interval_secs = None, ur_health_failure_threshold = None, ur_health_success_threshold = None,
     ur_disable_health_check = None \<rparr>"

lemma sample_registered_worker:
  "\<exists>c i. control_ok sample_wf_env [(i, 0)] c \<and> \<not> is_dp_aware (wst c 0) \<and> url (wst c 0) = ''http://a''"
proof -
  obtain c i where c: "local_worker_registration sample_wf_env sample_rc sample_probes 0 0 sample_request sample_control = Some (Inr c)"
      "control_ok sample_wf_env [(i, 0)] c" using sample_registered by blast
  have "registered sample_wf_env sample_rc 0 sample_request [] sample_control c"
    by (rule registration_registered [OF sample_control_ok _ c(1)]) (simp_all add: sample_room)
  then obtain new :: "(string \<times> wref) list" where new: "map snd new = [0..<next_ref c]"
      "\<And>r. r \<in> set (map snd new) \<Longrightarrow> started_from sample_rc sample_request 0 (wst c r)"
    unfolding registered_def sample_fields(1) by blast
  have "0 < next_ref c" using control_okD(4) [OF c(2), of "(i, 0)"] by simp
  then have "started_from sample_rc sample_request 0 (wst c 0)" using new(1) new(2) [of 0] by simp
  then show ?thesis using c(2)
    by (auto simp: started_from_def url_of_request_def sample_request_def normalize_url_def prefix_def)
qed

theorem worker_update_resets_witness:
  "\<exists>c i c'. worker_update sample_wf_env 0 0 ''http://a'' sample_update c = Some (Inr c') \<and> reg_get i (wreg c') = Some (next_ref c) \<and>
    next_ref c \<noteq> 0 \<and> url (wst c' (next_ref c)) = ''http://a'' \<and> map_get (labels (metadata (wst c' (next_ref c)))) ''priority'' = Some ''7''"
proof -
  obtain c i where c: "control_ok sample_wf_env [(i, 0)] c" "\<not> is_dp_aware (wst c 0)" "url (wst c 0) = ''http://a''"
    using sample_registered_worker by blast
  have "next_ref c \<noteq> 0" using control_okD(4) [OF c(1), of "(i, 0)"] by simp
  moreover have seven: "show_nat 7 = ''7''" by code_simp
  moreover have "map_get (updated_labels sample_update w) ''priority'' = Some ''7''" for w
    using seven by (simp add: updated_labels_def sample_update_def insert_some_def)
  moreover obtain c' where "worker_update sample_wf_env 0 0 (url (wst c 0)) sample_update c = Some (Inr c')"
      "reg_get i (wreg c') = Some (next_ref c)" "updated_worker 0 sample_update (wst c 0) (wst c' (next_ref c))"
    using worker_update_resets [OF c(1), of i 0 0 0 sample_update] c(2,3) by auto
  ultimately show ?thesis using c(3)
    by (intro exI [of _ c] exI [of _ i] exI [of _ c']) (simp add: updated_worker_def)
qed

section \<open>Loads\<close>

lemma update_all_objs:
  assumes "distinct rs" "\<forall>r\<in>set rs. r < length (objs (heap pr))"
  shows "obj (foldl (\<lambda>pr r. pr\<lparr> heap := put_obj r (update_loads loads (obj pr r)) (heap pr) \<rparr>) pr rs) q =
    (if q \<in> set rs then update_loads loads (obj pr q) else obj pr q)"
  using assms
proof (induction rs arbitrary: pr)
  case (Cons r rs)
  let ?pr = "pr\<lparr> heap := put_obj r (update_loads loads (obj pr r)) (heap pr) \<rparr>"
  have "\<forall>r\<in>set rs. r < length (objs (heap ?pr))" using Cons.prems(2) by (simp add: put_obj_def)
  then have "obj (foldl (\<lambda>pr r. pr\<lparr> heap := put_obj r (update_loads loads (obj pr r)) (heap pr) \<rparr>) pr (r # rs)) q =
      (if q \<in> set rs then update_loads loads (obj ?pr q) else obj ?pr q)" using Cons.IH [of ?pr] Cons.prems(1) by simp
  moreover have "obj ?pr q = (if q = r then update_loads loads (obj pr r) else obj pr q)" using Cons.prems(2) by (simp add: put_obj_def)
  ultimately show ?case using Cons.prems(1) by auto
qed simp

lemma fold_insert_get:
  assumes "distinct (map fst xs)" "(k, v) \<in> set xs"
  shows "map_get (foldl (\<lambda>m (u, l). map_insert u l m) m xs) k = Some v"
  using assms
proof (induction xs arbitrary: m)
  case (Cons x xs)
  have keep: "k \<notin> fst ` set ys \<Longrightarrow> map_get (foldl (\<lambda>m (u, l). map_insert u l m) m ys) k = map_get m k" for m ys
    by (induction ys arbitrary: m) auto
  show ?case
  proof (cases "x = (k, v)")
    case True
    then show ?thesis using Cons.prems keep [of xs "map_insert k v m"] by simp
  next
    case False
    then show ?thesis using Cons by (cases x) auto
  qed
qed simp

lemma fold_insert_nonempty: "xs \<noteq> [] \<Longrightarrow> foldl (\<lambda>m (u, l). map_insert u l m) m xs \<noteq> []"
proof (induction xs arbitrary: m)
  case (Cons x xs)
  have "map_insert u l m \<noteq> []" for u l by (induction u l m rule: map_insert.induct) auto
  then show ?case using Cons.IH by (cases "xs = []") (auto split: prod.splits)
qed simp

lemma monitor_tick_spec:
  assumes rel: "reg_rel b un (wst c) es (wreg c)" and ok: "pr_ok (preg c)" and "es \<noteq> []" and q: "q \<in> refs (preg c)" "is_power_of_two (preg c) q"
  shows "\<exists>p. obj (preg (monitor_tick fetch c)) q = PowerOfTwoPolicy p \<and>
    (\<forall>e\<in>set es. map_get (cached_loads p) (url (wst c (snd e))) = Some (worker_load fetch (wst c (snd e))))"
proof -
  let ?loads = "foldl (\<lambda>m (u, l). map_insert u l m) [] (get_all_worker_loads fetch c)"
  have all: "get_all_worker_loads fetch c = map (\<lambda>e. (url (wst c (snd e)), worker_load fetch (wst c (snd e)))) es"
    using reg_relD(1) [OF rel] by (simp add: get_all_worker_loads_def get_all_def)
  have in_q: "q \<in> set (get_all_power_of_two_policies (preg c))" using power_of_two_policies_spec(2) q by auto
  then have ne: "get_all_power_of_two_policies (preg c) \<noteq> []" by auto
  have "?loads \<noteq> []" by (rule fold_insert_nonempty) (simp add: all assms(3))
  then have "obj (preg (monitor_tick fetch c)) q = update_loads ?loads (obj (preg c) q)"
    using update_all_objs [OF power_of_two_policies_spec(1), where loads = ?loads and q = q and pr = "preg c"] ok in_q ne
    by (simp add: monitor_tick_def Let_def pr_ok_def power_of_two_policies_spec(2))
  moreover obtain p where "obj (preg c) q = PowerOfTwoPolicy p"
    using q(2) by (cases "obj (preg c) q") (simp_all add: is_power_of_two_def)
  ultimately have p: "obj (preg (monitor_tick fetch c)) q = PowerOfTwoPolicy (power_of_two_update_loads ?loads p)" by simp
  have "map_get ?loads (url (wst c (snd e))) = Some (worker_load fetch (wst c (snd e)))" if "e \<in> set es" for e
    by (rule fold_insert_get) (use reg_relD(3) [OF rel] that in \<open>auto simp: all comp_def\<close>)
  then show ?thesis using p by (auto simp: power_of_two_update_loads_def)
qed

text \<open>
  C31: after a round of the load monitor every power-of-two policy in use compares the loads the
  workers just reported.  A worker that is reached over gRPC or does not answer counts as \<open>- 1\<close>,
  so of two available workers, one of which cannot be measured, it is the one that is always chosen.
\<close>

theorem load_monitor_compares_reported:
  assumes "reg_rel b un (wst c) es (wreg c)" "pr_ok (preg c)" "q \<in> refs (preg c)" "is_power_of_two (preg c) q" "(i, r) \<in> set es" "(i', r') \<in> set es"
  shows "\<exists>p. obj (preg (monitor_tick fetch c)) q = PowerOfTwoPolicy p \<and>
    compare_loads p (wst c r) (wst c r') = (worker_load fetch (wst c r), worker_load fetch (wst c r')) \<and>
    ((get_connection_mode (wst c r) \<noteq> Http \<or> fetch (url (wst c r)) = None) \<longrightarrow> 0 \<le> worker_load fetch (wst c r') \<longrightarrow>
     available clk [wst c r, wst c r'] 0 \<longrightarrow> available clk [wst c r, wst c r'] 1 \<longrightarrow>
     fst (power_of_two_select (draw m) (draw m') clk [wst c r, wst c r'] p) = Some 0)"
proof -
  from monitor_tick_spec [OF assms(1,2) _ assms(3,4), of fetch] assms(5) obtain p where
    p: "obj (preg (monitor_tick fetch c)) q = PowerOfTwoPolicy p"
      "\<And>e. e \<in> set es \<Longrightarrow> map_get (cached_loads p) (url (wst c (snd e))) = Some (worker_load fetch (wst c (snd e)))" by fastforce
  note loads = p(2) [OF assms(5)] p(2) [OF assms(6)]
  have cmp: "compare_loads p (wst c r) (wst c r') = (worker_load fetch (wst c r), worker_load fetch (wst c r'))"
    "compare_loads p (wst c r') (wst c r) = (worker_load fetch (wst c r'), worker_load fetch (wst c r))"
    using loads by (simp_all add: compare_loads_def)
  have "fst (power_of_two_select (draw m) (draw m') clk [wst c r, wst c r'] p) = Some 0"
    if fails: "get_connection_mode (wst c r) \<noteq> Http \<or> fetch (url (wst c r)) = None" and "0 \<le> worker_load fetch (wst c r')"
      and av: "available clk [wst c r, wst c r'] 0" "available clk [wst c r, wst c r'] 1"
  proof -
    have neg: "worker_load fetch (wst c r) = - 1" using fails by (auto simp: worker_load_def)
    obtain k where k: "fst (power_of_two_select (draw m) (draw m') clk [wst c r, wst c r'] p) = Some k"
      using power_of_two_available(2) [OF draw_ok draw_ok av(1)] by blast
    obtain j where j: "available clk [wst c r, wst c r'] j" "j \<noteq> k"
        "let (l1, l2) = compare_loads p ([wst c r, wst c r'] ! k) ([wst c r, wst c r'] ! j) in l1 \<le> l2"
      using power_of_two_not_worse [OF k av] by auto
    have "available clk [wst c r, wst c r'] k" using power_of_two_available(1) [OF draw_ok draw_ok k] .
    then have "k < 2" "j < 2" using j(1) by (simp_all add: available_def)
    moreover have False if "k = 1" "j = 0" using j(3) cmp(2) that neg \<open>0 \<le> worker_load fetch (wst c r')\<close> by simp
    ultimately have "k = 0" using j(2) by (auto simp: less_2_cases_iff)
    then show ?thesis using k by simp
  qed
  then show ?thesis using p(1) cmp(1) by (intro exI [of _ p] conjI impI)
qed

definition sample_pair :: wstore where
  "sample_pair r = Basic (sample_worker (if r = 0 then ''a'' else ''b''))"

definition sample_p2_control :: control where
  "sample_p2_control = \<lparr> wst = sample_pair,
     wreg = snd (register (\<lambda>b. b) ''unknown'' ''i1'' sample_pair 1 (snd (register (\<lambda>b. b) ''unknown'' ''i0'' sample_pair 0 worker_registry_new))),
     preg = policy_registry_new (\<lambda>f. None) 0 (PC_PowerOfTwo 1) heap_empty, next_ref = 2 \<rparr>"

lemma sample_p2:
  "reg_rel (\<lambda>b. b) ''unknown'' (wst sample_p2_control) [(''i0'', 0), (''i1'', 1)] (wreg sample_p2_control)"
  "pr_ok (preg sample_p2_control)" "0 \<in> refs (preg sample_p2_control)" "is_power_of_two (preg sample_p2_control) 0"
proof -
  have u: "url (sample_pair 0) = ''a''" "url (sample_pair 1) = ''b''"
    by (simp_all add: sample_pair_def sample_worker_def url_def metadata_def build_def builder_new_def)
  let ?reg = "snd (register (\<lambda>b. b) ''unknown'' ''i0'' sample_pair 0 worker_registry_new)"
  have id0: "fst (fst (register (\<lambda>b. b) ''unknown'' ''i0'' sample_pair 0 worker_registry_new)) = ''i0''"
    and u0: "url_to_id ?reg = [(''a'', ''i0'')]"
    using register_fields(1,3) [of "\<lambda>b. b" "''unknown''" "''i0''" sample_pair 0 worker_registry_new] u by (simp_all add: worker_registry_new_def)
  have 1: "reg_rel (\<lambda>b. b) ''unknown'' sample_pair ([] @ [(''i0'', 0)]) ?reg"
    using reg_rel_register [OF reg_rel_new, where r = 0 and new_id = "''i0''" and b = "\<lambda>b. b" and u = "''unknown''" and st = sample_pair] id0
    by (simp add: worker_registry_new_def split_beta)
  have id1: "fst (fst (register (\<lambda>b. b) ''unknown'' ''i1'' sample_pair 1 ?reg)) = ''i1''"
    using register_fields(1) [of "\<lambda>b. b" "''unknown''" "''i1''" sample_pair 1 ?reg] u u0 by simp
  show "reg_rel (\<lambda>b. b) ''unknown'' (wst sample_p2_control) [(''i0'', 0), (''i1'', 1)] (wreg sample_p2_control)"
    using reg_rel_register [OF 1, where r = 1 and new_id = "''i1''"] id1 u u0 by (simp add: sample_p2_control_def split_beta)
  have "heap_ok heap_empty" by (simp add: heap_ok_def heap_empty_def)
  then show "pr_ok (preg sample_p2_control)" using policy_registry_new_ok by (simp add: sample_p2_control_def)
  show "0 \<in> refs (preg sample_p2_control)" "is_power_of_two (preg sample_p2_control) 0"
    by (simp_all add: sample_p2_control_def policy_registry_new_def alloc_def heap_empty_def refs_def is_power_of_two_def Let_def)
qed

theorem load_monitor_compares_reported_witness:
  "\<exists>p. obj (preg (monitor_tick (\<lambda>u. if u = ''a'' then None else Some 5) sample_p2_control)) 0 = PowerOfTwoPolicy p \<and>
    compare_loads p (sample_pair 0) (sample_pair 1) = (- 1, 5)"
proof -
  have st: "wst sample_p2_control = sample_pair" by (simp add: sample_p2_control_def)
  have "worker_load (\<lambda>u. if u = ''a'' then None else Some 5) (sample_pair 0) = - 1"
      "worker_load (\<lambda>u. if u = ''a'' then None else Some 5) (sample_pair 1) = 5"
    by (simp_all add: worker_load_def sample_pair_def sample_worker_def url_def metadata_def get_connection_mode_def build_def builder_new_def)
  then show ?thesis
    using load_monitor_compares_reported [OF sample_p2, of "''i0''" 0 "''i1''" 1 "\<lambda>u. if u = ''a'' then None else Some 5"]
    unfolding st by fastforce
qed

end
