(* ===== verification/Control_Plane.thy ===== *)
theory Control_Plane
  imports Worker_Lifecycle
begin

text \<open>
  The control plane: the job queue of \<open>src/gateway/src/core/job_queue.rs\<close> and the worker service
  of \<open>core/worker_service.rs\<close> on top of the workflows of \<open>Worker_Lifecycle\<close>.

  A request to the service answers at once and leaves a job; the dispatcher takes jobs in order and
  runs at most a number of them at a time.  The channel and the senders that wait for room in it are
  one list, since a sender that waits is served in its turn.  What other crates do (UUID parsing,
  the text of workflow errors, and the workflows of MCP servers, WASM modules and tokenizers) is an
  argument.  A workflow is assumed to end before the queue stops waiting for it.
\<close>

section \<open>Jobs\<close>

datatype 'x job =
    AddWorker worker_config_request
  | UpdateWorker string worker_update_request
  | RemoveWorker string
  | InitializeWorkersFromConfig "'x router_config"
  | InitializeMcpServers "string list"
  | RegisterMcpServer string
  | AddWasmModule string
  | RemoveWasmModule string
  | AddTokenizer string
  | RemoveTokenizer string

fun job_type :: "'x job \<Rightarrow> string" where
  "job_type (AddWorker _) = ''AddWorker''"
| "job_type (UpdateWorker _ _) = ''UpdateWorker''"
| "job_type (RemoveWorker _) = ''RemoveWorker''"
| "job_type (InitializeWorkersFromConfig _) = ''InitializeWorkersFromConfig''"
| "job_type (InitializeMcpServers _) = ''InitializeMcpServers''"
| "job_type (RegisterMcpServer _) = ''RegisterMcpServer''"
| "job_type (AddWasmModule _) = ''AddWasmModule''"
| "job_type (RemoveWasmModule _) = ''RemoveWasmModule''"
| "job_type (AddTokenizer _) = ''AddTokenizer''"
| "job_type (RemoveTokenizer _) = ''RemoveTokenizer''"

fun worker_url :: "'x job \<Rightarrow> string" where
  "worker_url (AddWorker config) = cr_url config"
| "worker_url (UpdateWorker u _) = u"
| "worker_url (RemoveWorker u) = u"
| "worker_url (InitializeWorkersFromConfig _) = ''startup''"
| "worker_url (InitializeMcpServers _) = ''startup''"
| "worker_url (RegisterMcpServer name) = name"
| "worker_url (AddWasmModule name) = name"
| "worker_url (RemoveWasmModule uuid) = uuid"
| "worker_url (AddTokenizer i) = i"
| "worker_url (RemoveTokenizer i) = i"

text \<open>
  The status and info types belong to the protocol crate; they have the fields the sources read
  (core/job_queue.rs, core/worker.rs and wasm/route.rs), less the cost of a worker, a float label.
\<close>

record job_status =
  js_job_type :: string
  js_worker_url :: string
  js_status :: string
  js_message :: "string option"
  js_timestamp :: u64

definition status_pending :: "u64 \<Rightarrow> 'x job \<Rightarrow> job_status" where
  "status_pending now job = \<lparr> js_job_type = job_type job, js_worker_url = worker_url job, js_status = ''pending'', js_message = None, js_timestamp = now \<rparr>"

definition status_processing :: "u64 \<Rightarrow> 'x job \<Rightarrow> job_status" where
  "status_processing now job = (status_pending now job)\<lparr> js_status := ''processing'' \<rparr>"

definition status_failed :: "u64 \<Rightarrow> 'x job \<Rightarrow> string \<Rightarrow> job_status" where
  "status_failed now job msg = (status_pending now job)\<lparr> js_status := ''failed'', js_message := Some msg \<rparr>"

record job_queue_config =
  queue_capacity :: nat
  max_concurrent_jobs :: nat

definition job_queue_config_default :: job_queue_config where
  "job_queue_config_default = \<lparr> queue_capacity = 1000, max_concurrent_jobs = 200 \<rparr>"

record 'x job_queue =
  jq_jobs :: "'x job list"
  jq_running :: "'x job list"
  jq_config :: job_queue_config
  jq_status_map :: "(string \<times> job_status) list"
  jq_context_alive :: bool
  jq_open :: bool

definition job_queue_new :: "job_queue_config \<Rightarrow> 'x job_queue" where
  "job_queue_new config = \<lparr> jq_jobs = [], jq_running = [], jq_config = config, jq_status_map = [], jq_context_alive = True, jq_open = True \<rparr>"

definition get_load_info :: "'x job_queue \<Rightarrow> nat \<times> nat" where
  "get_load_info q = (min (length (jq_jobs q)) (queue_capacity (jq_config q)), max_concurrent_jobs (jq_config q) - length (jq_running q))"

text \<open>Sending fails only when the dispatcher has stopped; a full channel makes the sender wait.\<close>

definition submit :: "u64 \<Rightarrow> 'x job \<Rightarrow> 'x job_queue \<Rightarrow> (string + unit) \<times> 'x job_queue" where
  "submit now job q =
     (if \<not> jq_context_alive q then (Inl ''Job queue shutting down: AppContext dropped'', q)
      else
        let q = q\<lparr> jq_status_map := map_insert (worker_url job) (status_pending now job) (jq_status_map q) \<rparr> in
        if jq_open q then (Inr (), q\<lparr> jq_jobs := jq_jobs q @ [job] \<rparr>)
        else
          (Inl (''Job queue full: '' @ show_nat (fst (get_load_info q)) @ '' jobs pending (capacity: '' @
             show_nat (queue_capacity (jq_config q)) @ '')''),
           q\<lparr> jq_status_map := map_remove (worker_url job) (jq_status_map q) \<rparr>))"

definition get_status :: "string \<Rightarrow> 'x job_queue \<Rightarrow> job_status option" where
  "get_status u q = map_get (jq_status_map q) u"

definition remove_status :: "string \<Rightarrow> 'x job_queue \<Rightarrow> 'x job_queue" where
  "remove_status u q = q\<lparr> jq_status_map := map_remove u (jq_status_map q) \<rparr>"

text \<open>The dispatcher takes the next job once a permit is free; the job is then marked as processing.\<close>

definition dispatch_job :: "u64 \<Rightarrow> 'x job_queue \<Rightarrow> ('x job \<times> 'x job_queue) option" where
  "dispatch_job now q =
     (case jq_jobs q of
        [] \<Rightarrow> None
      | job # jobs \<Rightarrow>
          if length (jq_running q) < max_concurrent_jobs (jq_config q)
          then Some (job, q\<lparr> jq_jobs := jobs, jq_running := job # jq_running q,
                 jq_status_map := map_insert (worker_url job) (status_processing now job) (jq_status_map q) \<rparr>)
          else None)"

definition record_job_completion :: "u64 \<Rightarrow> 'x job \<Rightarrow> string + string \<Rightarrow> 'x job_queue \<Rightarrow> 'x job_queue" where
  "record_job_completion now job result q =
     (case result of
        Inr message \<Rightarrow> q\<lparr> jq_status_map := map_remove (worker_url job) (jq_status_map q) \<rparr>
      | Inl error \<Rightarrow> q\<lparr> jq_status_map := map_insert (worker_url job) (status_failed now job error) (jq_status_map q) \<rparr>)"

definition STATUS_TTL :: u64 where "STATUS_TTL = 300"

definition cleanup_old_statuses :: "u64 \<Rightarrow> 'x job_queue \<Rightarrow> 'x job_queue" where
  "cleanup_old_statuses now q =
     q\<lparr> jq_status_map := filter (\<lambda>e. now - js_timestamp (snd e) < STATUS_TTL) (jq_status_map q) \<rparr>"

section \<open>Executing jobs\<close>

record 'x plane =
  pl_env :: wf_env
  pl_rc :: "'x router_config"
  pl_probes :: probes
  pl_models :: "worker_config_request \<Rightarrow> workflow_error + model_card list"
  pl_describe :: "workflow_error \<Rightarrow> string"
  pl_completed :: string
  pl_other :: "'x job \<Rightarrow> string + string"
  pl_uuid :: "string \<Rightarrow> string option"

definition startup_request :: "'x router_config \<Rightarrow> string \<Rightarrow> string \<Rightarrow> u16 option \<Rightarrow> string option \<Rightarrow> bool \<Rightarrow> worker_config_request" where
  "startup_request rc u worker_type port runtime dp =
     \<lparr> cr_url = u, cr_api_key = rc_api_key rc, cr_model_id = None, cr_priority = None, cr_cost = None, cr_labels = [],
       cr_worker_type = Some worker_type, cr_bootstrap_port = port, cr_runtime = runtime, cr_tokenizer_path = None,
       cr_reasoning_parser = None, cr_tool_parser = None, cr_chat_template = rc_chat_template rc,
       cr_disable_health_check = hcc_disable_health_check (rc_health_check rc), cr_dp_aware = dp \<rparr>"

fun startup_requests :: "'x router_config \<Rightarrow> routing_mode \<Rightarrow> worker_config_request list" where
  "startup_requests rc (RM_Regular urls) = map (\<lambda>u. startup_request rc u ''regular'' None None (rc_dp_aware rc)) urls"
| "startup_requests rc (RM_PrefillDecode prefill_urls decode_urls pp dp) =
     map (\<lambda>(u, port). startup_request rc u ''prefill'' port None (rc_dp_aware rc)) prefill_urls @
     map (\<lambda>u. startup_request rc u ''decode'' None None (rc_dp_aware rc)) decode_urls"
| "startup_requests rc (RM_OpenAI urls) = map (\<lambda>u. startup_request rc u ''regular'' None (Some ''external'') False) urls"

text \<open>Jobs are submitted in order up to the first one that is refused; \<open>what\<close> names a job in the error.\<close>

fun submit_all :: "('x job \<Rightarrow> string) \<Rightarrow> u64 \<Rightarrow> 'x job list \<Rightarrow> 'x job_queue \<Rightarrow> (string + unit) \<times> 'x job_queue" where
  "submit_all what now [] q = (Inr (), q)"
| "submit_all what now (job # jobs) q =
     (case submit now job q of
        (Inl e, q) \<Rightarrow> (Inl (''Failed to submit '' @ job_type job @ '' job for '' @ what job @ '': '' @ e), q)
      | (Inr _, q) \<Rightarrow> submit_all what now jobs q)"

fun startup_what :: "routing_mode \<Rightarrow> 'x job \<Rightarrow> string" where
  "startup_what (RM_OpenAI urls) job = ''external endpoint '' @ worker_url job"
| "startup_what mode (AddWorker config) = (case cr_worker_type config of Some t \<Rightarrow> t | None \<Rightarrow> []) @ '' worker '' @ cr_url config"
| "startup_what mode job = worker_url job"

fun startup_message :: "routing_mode \<Rightarrow> nat \<Rightarrow> string" where
  "startup_message (RM_OpenAI urls) n =
     (if n = 0 then ''OpenAI mode: no worker URLs to initialize'' else ''Submitted '' @ show_nat n @ '' AddWorker jobs for external endpoints'')"
| "startup_message mode n = ''Submitted '' @ show_nat n @ '' AddWorker jobs''"

definition submitted_result :: "string \<Rightarrow> (string + unit) \<times> 'x job_queue \<Rightarrow> control \<Rightarrow> (string + string) \<times> control \<times> 'x job_queue" where
  "submitted_result msg rq c = (case fst rq of Inl e \<Rightarrow> Inl e | Inr _ \<Rightarrow> Inr msg, c, snd rq)"

definition workflow_result ::
    "'x plane \<Rightarrow> control \<Rightarrow> 'x job_queue \<Rightarrow> workflow_error + control \<Rightarrow> (string + string) \<times> control \<times> 'x job_queue" where
  "workflow_result pl c q r =
     (case r of Inl e \<Rightarrow> (Inl (pl_describe pl e), c, q) | Inr c \<Rightarrow> (Inr (pl_completed pl), c, q))"

fun execute_job ::
    "'x plane \<Rightarrow> u64 \<Rightarrow> nat \<Rightarrow> 'x job \<Rightarrow> control \<times> 'x job_queue \<Rightarrow> ((string + string) \<times> control \<times> 'x job_queue) option" where
  "execute_job pl now time (AddWorker config) (c, q) =
     (if cr_runtime config = Some ''external'' then
        (case pl_models pl config of
           Inl e \<Rightarrow> Some (Inl (pl_describe pl e), c, q)
         | Inr cards \<Rightarrow>
             map_option (\<lambda>c. (Inr (pl_completed pl), c, q)) (external_worker_registration (pl_env pl) (pl_rc pl) now time config cards c))
      else map_option (workflow_result pl c q) (local_worker_registration (pl_env pl) (pl_rc pl) (pl_probes pl) now time config c))"
| "execute_job pl now time (UpdateWorker u update) (c, q) =
     map_option (workflow_result pl c q) (worker_update (pl_env pl) now time u update c)"
| "execute_job pl now time (RemoveWorker u) (c, q) =
     map_option (\<lambda>(res, c, q). (res, c, remove_status u q))
       (map_option (workflow_result pl c q) (worker_removal (pl_env pl) u (rc_dp_aware (pl_rc pl)) c))"
| "execute_job pl now time (InitializeWorkersFromConfig rc) (c, q) =
     (let requests = startup_requests rc (rc_mode rc) in
      Some (submitted_result (startup_message (rc_mode rc) (length requests))
              (submit_all (startup_what (rc_mode rc)) now (map AddWorker requests) q) c))"
| "execute_job pl now time (InitializeMcpServers servers) (c, q) =
     Some (submitted_result (''Submitted '' @ show_nat (length servers) @ '' RegisterMcpServer jobs'')
             (submit_all (\<lambda>job. [CHR 39] @ worker_url job @ [CHR 39]) now (map RegisterMcpServer servers) q) c)"
| "execute_job pl now time job (c, q) = Some (pl_other pl job, c, q)"

text \<open>A running job is executed, its outcome recorded and its permit given back.\<close>

definition process_job :: "'x plane \<Rightarrow> u64 \<Rightarrow> nat \<Rightarrow> 'x job \<Rightarrow> control \<times> 'x job_queue \<Rightarrow> (control \<times> 'x job_queue) option" where
  "process_job pl now time job cq =
     (let q = snd cq in
      if jq_context_alive q then
        map_option (\<lambda>(res, c, q). (c, record_job_completion now job res (q\<lparr> jq_running := remove1 job (jq_running q) \<rparr>)))
          (execute_job pl now time job cq)
      else Some (fst cq, q\<lparr> jq_running := remove1 job (jq_running q),
             jq_status_map := map_insert (worker_url job) (status_failed now job ''AppContext dropped'') (jq_status_map q) \<rparr>))"

section \<open>The worker service\<close>

datatype worker_service_error = NotFound string | InvalidId string string | QueueNotInitialized | QueueSubmitFailed string

fun error_code :: "worker_service_error \<Rightarrow> string" where
  "error_code (NotFound _) = ''WORKER_NOT_FOUND''"
| "error_code (InvalidId _ _) = ''BAD_REQUEST''"
| "error_code QueueNotInitialized = ''INTERNAL_SERVER_ERROR''"
| "error_code (QueueSubmitFailed _) = ''INTERNAL_SERVER_ERROR''"

fun error_status :: "worker_service_error \<Rightarrow> status_code" where
  "error_status (NotFound _) = 404"
| "error_status (InvalidId _ _) = 400"
| "error_status QueueNotInitialized = 500"
| "error_status (QueueSubmitFailed _) = 500"

fun error_display :: "worker_service_error \<Rightarrow> string" where
  "error_display (NotFound i) = ''Worker '' @ i @ '' not found''"
| "error_display (InvalidId raw msg) = ''Invalid worker_id '' @ [CHR 39] @ raw @ [CHR 39] @ '' (expected UUID). Error: '' @ msg"
| "error_display QueueNotInitialized = ''Job queue not initialized''"
| "error_display (QueueSubmitFailed msg) = msg"

record worker_info =
  wi_id :: string
  wi_url :: string
  wi_model_id :: string
  wi_priority :: nat
  wi_worker_type :: string
  wi_is_healthy :: bool
  wi_load :: usize
  wi_connection_mode :: string
  wi_runtime_type :: "string option"
  wi_tokenizer_path :: "string option"
  wi_reasoning_parser :: "string option"
  wi_tool_parser :: "string option"
  wi_chat_template :: "string option"
  wi_bootstrap_port :: "u16 option"
  wi_metadata :: labels_map
  wi_disable_health_check :: bool
  wi_job_status :: "job_status option"

definition worker_to_info :: "string \<Rightarrow> worker \<Rightarrow> worker_info" where
  "worker_to_info unknown_id w =
     (let t = get_worker_type w; m = model_id unknown_id w in
      \<lparr> wi_id = url w, wi_url = url w, wi_model_id = m, wi_priority = priority w,
        wi_worker_type = (case t of Regular \<Rightarrow> ''regular'' | Prefill _ \<Rightarrow> ''prefill'' | Decode \<Rightarrow> ''decode''),
        wi_is_healthy = is_healthy w, wi_load = get_load w, wi_connection_mode = mode_display (get_connection_mode w),
        wi_runtime_type = (case get_connection_mode w of Grpc _ \<Rightarrow> Some (runtime_display (wm_runtime_type (metadata w))) | Http \<Rightarrow> None),
        wi_tokenizer_path = tokenizer_path w m, wi_reasoning_parser = reasoning_parser w m, wi_tool_parser = tool_parser w m,
        wi_chat_template = chat_template w m,
        wi_bootstrap_port = (case t of Prefill p \<Rightarrow> p | _ \<Rightarrow> None),
        wi_metadata = labels (metadata w), wi_disable_health_check = disable_health_check (wm_health_config (metadata w)),
        wi_job_status = None \<rparr>)"


text \<open>\<open>pl_uuid\<close> gives the message of a failed parse.\<close>

definition parse_worker_id :: "'x plane \<Rightarrow> string \<Rightarrow> worker_service_error + string" where
  "parse_worker_id pl raw = (case pl_uuid pl raw of None \<Rightarrow> Inr raw | Some msg \<Rightarrow> Inl (InvalidId raw msg))"



definition list_workers :: "'x plane \<Rightarrow> (wref \<Rightarrow> u64 \<times> u64) \<Rightarrow> control \<Rightarrow> (worker_info list \<times> worker_registry_stats) \<times> control" where
  "list_workers pl clk c =
     (let infos = map (\<lambda>(i, r). (worker_to_info (we_unknown (pl_env pl)) (wst c r))\<lparr> wi_id := i \<rparr>) (get_all_with_ids (wreg c));
          (stats, st) = reg_stats clk (wst c) (wreg c) in
      ((infos, stats), c\<lparr> wst := st \<rparr>))"


definition submit_for_id ::
    "'x plane \<Rightarrow> (string \<Rightarrow> 'x job) \<Rightarrow> u64 \<Rightarrow> string \<Rightarrow> control \<times> 'x job_queue option \<Rightarrow>
     (worker_service_error + string \<times> string) \<times> 'x job_queue option" where
  "submit_for_id pl job now raw cq =
     (let (c, qo) = cq in
      case parse_worker_id pl raw of
        Inl e \<Rightarrow> (Inl e, qo)
      | Inr worker_id \<Rightarrow>
          (case get_url_by_id (wst c) worker_id (wreg c) of
             None \<Rightarrow> (Inl (NotFound raw), qo)
           | Some u \<Rightarrow>
               (case qo of
                  None \<Rightarrow> (Inl QueueNotInitialized, None)
                | Some q \<Rightarrow>
                    (case submit now (job u) q of
                       (Inl e, q) \<Rightarrow> (Inl (QueueSubmitFailed e), Some q)
                     | (Inr _, q) \<Rightarrow> (Inr (worker_id, u), Some q)))))"

definition delete_worker where "delete_worker pl = submit_for_id pl RemoveWorker"

definition update_worker where "update_worker pl update = submit_for_id pl (\<lambda>u. UpdateWorker u update)"

section \<open>The identifiers of URLs\<close>


definition ids_grow :: "wf_env \<Rightarrow> worker_registry \<Rightarrow> worker_registry \<Rightarrow> bool" where
  "ids_grow env reg reg' \<longleftrightarrow> (\<forall>v i. map_get (url_to_id reg) v = Some i \<longrightarrow> map_get (url_to_id reg') v = Some i) \<and>
     set (url_to_id reg') \<subseteq> set (url_to_id reg) \<union> {e. snd e \<in> range (we_new_id env)}"

lemma ids_grow_refl [simp]: "ids_grow env reg reg"
  by (auto simp: ids_grow_def)








section \<open>Requests to the service\<close>




lemma normalize_url_scheme [simp]: "has_scheme (normalize_url u mode)"
  by (cases mode) (simp_all add: normalize_url_def has_scheme_def)




section \<open>Properties\<close>

text \<open>A turn of the dispatcher whose job runs to its end before the next one.\<close>

definition run_next :: "'x plane \<Rightarrow> u64 \<Rightarrow> nat \<Rightarrow> control \<times> 'x job_queue \<Rightarrow> (control \<times> 'x job_queue) option" where
  "run_next pl now time cq =
     Option.bind (dispatch_job now (snd cq)) (\<lambda>(job, q). process_job pl now time job (fst cq, q))"

definition idle :: "'x job_queue \<Rightarrow> bool" where
  "idle q \<longleftrightarrow> jq_jobs q = [] \<and> jq_running q = [] \<and> jq_context_alive q \<and> jq_open q \<and> 0 < max_concurrent_jobs (jq_config q)"

lemma submit_idle:
  assumes "idle q"
  shows "\<exists>q'. submit now job q = (Inr (), q') \<and> get_status (worker_url job) q' = Some (status_pending now job) \<and> jq_jobs q' = [job] \<and>
    jq_running q' = [] \<and> jq_context_alive q' \<and> jq_open q' \<and> jq_config q' = jq_config q"
  using assms by (simp add: submit_def idle_def get_status_def)




definition sample_plane :: "unit plane" where
  "sample_plane = \<lparr> pl_env = sample_wf_env, pl_rc = sample_rc, pl_probes = sample_probes, pl_models = (\<lambda>config. Inr []),
     pl_describe = (\<lambda>e. ''failed''), pl_completed = ''completed'', pl_other = (\<lambda>job. Inr ''done''), pl_uuid = (\<lambda>raw. None) \<rparr>"

lemma sample_plane_fields [simp]:
  "pl_env sample_plane = sample_wf_env" "pl_rc sample_plane = sample_rc" "pl_probes sample_plane = sample_probes" "pl_uuid sample_plane raw = None"
  by (simp_all add: sample_plane_def)

lemma sample_idle: "idle (job_queue_new job_queue_config_default)"
  by (simp add: idle_def job_queue_new_def job_queue_config_default_def)




lemma find_workers_none:
  assumes ok: "control_ok env es c" and at: "\<forall>e\<in>set es. count_list (url (wst c (snd e))) CHR ''@'' \<le> 1" and u: "CHR ''@'' \<in> set u"
  shows "find_workers_by_url (wst c) (wreg c) u True = []"
proof -
  have "\<not> prefix (u @ ''@'') (url (wst c (snd e)))" if e: "e \<in> set es" for e
  proof
    assume "prefix (u @ ''@'') (url (wst c (snd e)))"
    then obtain v where "url (wst c (snd e)) = u @ ''@'' @ v" by (auto simp: prefix_def)
    moreover have "count_list u CHR ''@'' \<noteq> 0" using u by (simp add: count_list_0_iff)
    ultimately show False using at e by fastforce
  qed
  then show ?thesis using find_workers_spec [OF control_okD(1) [OF ok], of u True] by (simp add: names_url_def filter_empty_conv)
qed

lemma run_failing:
  assumes "idle q" "submit now job q = (Inr (), q1)"
    and "\<And>q'. execute_job pl now' time job (c, q') = Some (Inl msg, c, if rm then remove_status (worker_url job) q' else q')"
  shows "\<exists>q2. run_next pl now' time (c, q1) = Some (c, q2) \<and> idle q2 \<and> get_status (worker_url job) q2 = Some (status_failed now' job msg)"
proof -
  have q1: "jq_jobs q1 = [job]" "jq_running q1 = []" "jq_context_alive q1" "jq_open q1" "jq_config q1 = jq_config q"
    using submit_idle [OF assms(1), of now job] assms(2) by auto
  then show ?thesis using assms(1)
    by (simp add: run_next_def dispatch_job_def idle_def process_job_def assms(3) record_job_completion_def get_status_def remove_status_def)
qed

text \<open>A request for a registered identifier becomes a job on the worker's URL.\<close>

lemma submit_registered:
  assumes "control_ok (pl_env pl) es c" "(i, r) \<in> set es" "pl_uuid pl i = None" "idle q"
  shows "\<exists>q1. submit_for_id pl job now i (c, Some q) = (Inr (i, url (wst c r)), Some q1) \<and> submit now (job (url (wst c r))) q = (Inr (), q1)"
proof -
  have "get_url_by_id (wst c) i (wreg c) = Some (url (wst c r))"
    using get_registered [OF control_okD(1) [OF assms(1)], of i r] assms(2) by (simp add: get_url_by_id_def)
  then show ?thesis using submit_idle [OF assms(4), of now "job (url (wst c r))"] assms(3) by (auto simp: submit_for_id_def parse_worker_id_def)
qed

text \<open>
  C37: when endpoints are served per data-parallel rank, no rank can be deleted or updated by the
  identifier under which it is listed.  Both requests are accepted, but their jobs look for URLs that
  extend the rank's own URL by another \<open>@\<close>: they fail, change nothing and leave the status failed.
\<close>

theorem dp_rank_requests_fail:
  assumes ok: "control_ok (pl_env pl) es c" and at: "\<forall>e\<in>set es. count_list (url (wst c (snd e))) CHR ''@'' \<le> 1"
    and i: "(i, r) \<in> set es" "CHR ''@'' \<in> set (url (wst c r))" and pl: "rc_dp_aware (pl_rc pl)" "pl_uuid pl i = None" and q: "idle q"
  shows "(\<exists>q1 q2 s. delete_worker pl t1 i (c, Some q) = (Inr (i, url (wst c r)), Some q1) \<and>
      run_next pl t2 n (c, q1) = Some (c, q2) \<and> get_status (url (wst c r)) q2 = Some s \<and> js_status s = ''failed'') \<and>
    (\<exists>q1 q2 s. update_worker pl req t1 i (c, Some q) = (Inr (i, url (wst c r)), Some q1) \<and>
      run_next pl t2 n (c, q1) = Some (c, q2) \<and> get_status (url (wst c r)) q2 = Some s \<and> js_status s = ''failed'')"
proof (intro conjI)
  let ?u = "url (wst c r)"
  note none = find_workers_none [OF ok at i(2)]
  have rm: "\<exists>e. worker_removal (pl_env pl) ?u True c = Some (Inl e)" using none by (simp add: worker_removal_def)
  have up: "\<exists>e. Worker_Lifecycle.worker_update (pl_env pl) t2 n ?u req c = Some (Inl e)" using none i(2) by (simp add: worker_update_def)
  obtain q1 where q1: "submit_for_id pl RemoveWorker t1 i (c, Some q) = (Inr (i, ?u), Some q1)" "submit t1 (RemoveWorker ?u) q = (Inr (), q1)"
    using submit_registered [OF ok i(1) pl(2) q] by blast
  obtain q1' where q1': "submit_for_id pl (\<lambda>u. UpdateWorker u req) t1 i (c, Some q) = (Inr (i, ?u), Some q1')"
      "submit t1 (UpdateWorker ?u req) q = (Inr (), q1')"
    using submit_registered [OF ok i(1) pl(2) q, where job = "\<lambda>u. UpdateWorker u req"] by blast
  show "\<exists>q1 q2 s. delete_worker pl t1 i (c, Some q) = (Inr (i, ?u), Some q1) \<and>
      run_next pl t2 n (c, q1) = Some (c, q2) \<and> get_status ?u q2 = Some s \<and> js_status s = ''failed''"
    using run_failing [OF q q1(2), of pl t2 n c _ True] rm pl(1) q1(1)
    by (fastforce simp: delete_worker_def workflow_result_def status_failed_def)
  show "\<exists>q1 q2 s. update_worker pl req t1 i (c, Some q) = (Inr (i, ?u), Some q1) \<and>
      run_next pl t2 n (c, q1) = Some (c, q2) \<and> get_status ?u q2 = Some s \<and> js_status s = ''failed''"
    using run_failing [OF q q1'(2), of pl t2 n c _ False] up q1'(1)
    by (fastforce simp: update_worker_def workflow_result_def status_failed_def)
qed

lemma dp_registration_count:
  assumes "control_ok env es c" "room pb config (length es)" "local_worker_registration env rc pb now time config c = Some (Inr c')"
    and "cr_dp_aware config" "pr_server_info pb (cr_url config) (cr_api_key config) = Inr si" "si_dp_size si = Some k"
  shows "next_ref c' = next_ref c + k"
proof -
  obtain d ws ls where made: "create_local_workers env rc now d c = Inr (ws, ls)" "ld_config d = config"
      "\<forall>info. ld_dp_info d = Some info \<longrightarrow>
         (\<exists>si. pr_server_info pb (cr_url config) (cr_api_key config) = Inr si \<and> si_dp_size si = Some (di_dp_size info))"
      "finish_registration env time ls (fst (alloc_workers ws c)) (snd (alloc_workers ws c)) = Some c'"
    using registration_run [of env rc pb now time config c, unfolded assms(3)] by (elim disjE exE conjE) (auto dest: sym)
  have k: "length ws = k" using create_local_spec(3) [OF made(1)] made(2,3) assms(4-6) by auto
  have "length (reg_workers (wreg c)) = length es" using reg_relD(1) [OF control_okD(1) [OF assms(1)]] by simp
  then have "next_ref c' = next_ref (snd (alloc_workers ws c))"
    using finish_total [of "snd (alloc_workers ws c)" "fst (alloc_workers ws c)" env time ls] alloc_workers_spec [of ws c]
      control_okD(2) [OF assms(1)] made(4) k assms(2,5,6) by (auto simp: room_def)
  then show ?thesis using alloc_workers_spec [of ws c] k by simp
qed

definition sample_dp_probes :: probes where
  "sample_dp_probes = sample_probes\<lparr> pr_server_info := (\<lambda>u k. Inr \<lparr> si_model_id = Some ''m'', si_model_path = None,
     si_served_model_name = None, si_tp_size = None, si_dp_size = Some 2, si_load_balance_method = None, si_disaggregation_mode = None \<rparr>) \<rparr>"

lemma sample_dp_registered:
  "\<exists>c es i. control_ok sample_wf_env es c \<and> (i, 0) \<in> set es \<and>
    (\<forall>e\<in>set es. CHR ''@'' \<in> set (url (wst c (snd e))) \<and> count_list (url (wst c (snd e))) CHR ''@'' \<le> 1)"
proof -
  let ?config = "sample_request\<lparr> cr_dp_aware := True \<rparr>"
  have room: "room sample_dp_probes ?config (length ([] :: (string \<times> wref) list))" by (simp add: room_def sample_dp_probes_def)
  have "accepted sample_wf_env sample_dp_probes ?config (wreg sample_control)"
    by (simp add: accepted_def detect_connection_mode_def sample_dp_probes_def sample_probes_def sample_request_def
        create_local_worker_workflow_data_def Let_def get_by_url_def sample_control_def worker_registry_new_def get_dp_info_def)
  then obtain c where run: "local_worker_registration sample_wf_env sample_rc sample_dp_probes 0 0 ?config sample_control = Some (Inr c)"
    using registration_accepts [of sample_wf_env sample_rc sample_dp_probes 0 0 ?config sample_control]
      registration_spec(1) [OF sample_control_ok room, of sample_rc 0 0] by (metis sum.exhaust)
  have n: "next_ref c = 2" using dp_registration_count [OF sample_control_ok room run] sample_fields(1) by (simp add: sample_dp_probes_def)
  obtain new where new: "map snd new = [0..<next_ref c]" "control_ok sample_wf_env new c"
      "\<forall>e\<in>set new. started_from sample_rc ?config 0 (wst c (snd e))"
    using registration_registered [OF sample_control_ok room run] unfolding registered_def sample_fields(1) by auto
  have "0 \<in> snd ` set new" using new(1) n by (metis atLeastLessThan_iff le0 list.set_map set_upt zero_less_numeral)
  then obtain i where "(i, 0) \<in> set new" by force
  moreover have "CHR ''@'' \<in> set (url (wst c (snd e))) \<and> count_list (url (wst c (snd e))) CHR ''@'' \<le> 1" if e: "e \<in> set new" for e
  proof -
    have "url_of_request ?config (url (wst c (snd e)))" using new(3) e by (simp add: started_from_def)
    then obtain k where "url (wst c (snd e)) = ''http://a@'' @ show_nat k"
      by (auto simp: url_of_request_def sample_request_def normalize_url_def)
    then show ?thesis using not_digit [of "CHR ''@''" k] by (simp add: count_list_0_iff)
  qed
  ultimately show ?thesis using new(2) by blast
qed

theorem dp_rank_requests_fail_witness:
  "\<exists>pl :: unit plane. \<exists>c i q1 q2 s. delete_worker pl 0 i (c, Some (job_queue_new job_queue_config_default)) = (Inr (i, url (wst c 0)), Some q1) \<and>
    run_next pl 0 0 (c, q1) = Some (c, q2) \<and> get_status (url (wst c 0)) q2 = Some s \<and> js_status s = ''failed''"
proof -
  let ?pl = "sample_plane\<lparr> pl_rc := sample_rc\<lparr> rc_dp_aware := True \<rparr> \<rparr>"
  obtain c es i where c: "control_ok sample_wf_env es c" "(i, 0) \<in> set es"
      "\<forall>e\<in>set es. CHR ''@'' \<in> set (url (wst c (snd e))) \<and> count_list (url (wst c (snd e))) CHR ''@'' \<le> 1"
    using sample_dp_registered by blast
  have at: "CHR ''@'' \<in> set (url (wst c 0))" using c(2,3) by force
  show ?thesis
    using dp_rank_requests_fail [of ?pl es c i 0 "job_queue_new job_queue_config_default" 0 0 0] c at sample_idle by fastforce
qed

section \<open>The queue as a state machine\<close>

text \<open>
  Submissions, turns of the dispatcher, jobs that end and the clean-up of statuses in any order; the
  histories hold the accepted jobs, the dispatched ones and the ended ones.
\<close>

inductive queue_run :: "'x plane \<Rightarrow> job_queue_config \<Rightarrow> 'x job list \<Rightarrow> 'x job list \<Rightarrow> 'x job list \<Rightarrow> control \<times> 'x job_queue \<Rightarrow> bool"
  for pl config where
  start: "queue_run pl config [] [] [] (c, job_queue_new config)"
| submitted: "queue_run pl config ins outs ends (c, q) \<Longrightarrow> submit now job q = (Inr (), q') \<Longrightarrow>
    queue_run pl config (ins @ [job]) outs ends (c, q')"
| refused: "queue_run pl config ins outs ends (c, q) \<Longrightarrow> submit now job q = (Inl e, q') \<Longrightarrow> queue_run pl config ins outs ends (c, q')"
| dispatched: "queue_run pl config ins outs ends (c, q) \<Longrightarrow> dispatch_job now q = Some (job, q') \<Longrightarrow>
    queue_run pl config ins (outs @ [job]) ends (c, q')"
| processed: "queue_run pl config ins outs ends (c, q) \<Longrightarrow> job \<in> set (jq_running q) \<Longrightarrow> process_job pl now time job (c, q) = Some (c', q') \<Longrightarrow>
    jq_jobs q' = jq_jobs q @ more_jobs \<Longrightarrow> queue_run pl config (ins @ more_jobs) outs (ends @ [job]) (c', q')"
| cleaned: "queue_run pl config ins outs ends (c, q) \<Longrightarrow> queue_run pl config ins outs ends (c, cleanup_old_statuses now q)"
| stopped: "queue_run pl config ins outs ends (c, q) \<Longrightarrow> queue_run pl config ins outs ends (c, q\<lparr> jq_open := False \<rparr>)"
| context_dropped: "queue_run pl config ins outs ends (c, q) \<Longrightarrow> queue_run pl config ins outs ends (c, q\<lparr> jq_context_alive := False \<rparr>)"

text \<open>Submitting only appends to the jobs; nothing else of the queue but statuses changes.\<close>

lemma submit_frame:
  "submit now job q = (r, q') \<Longrightarrow> jq_running q' = jq_running q \<and> jq_config q' = jq_config q \<and>
     jq_jobs q' = jq_jobs q @ (if r = Inr () then [job] else [])"
  by (auto simp: submit_def Let_def split: if_splits)

lemma submit_all_frame:
  "submit_all what now jobs q = (r, q') \<Longrightarrow> jq_running q' = jq_running q \<and> jq_config q' = jq_config q \<and> prefix (jq_jobs q) (jq_jobs q') \<and>
     (r = Inr () \<longrightarrow> jq_jobs q' = jq_jobs q @ jobs)"
proof (induction what now jobs q rule: submit_all.induct)
  case (2 what now job jobs q)
  obtain r1 q1 where 1: "submit now job q = (r1, q1)" by (metis surj_pair)
  note f = submit_frame [OF 1]
  show ?case using 2 1 f by (cases r1) (auto simp: prefix_def)
qed simp

lemma workflow_result_queue: "workflow_result pl c q r = (res, c', q') \<Longrightarrow> q' = q"
  by (auto simp: workflow_result_def split: sum.splits)

lemma execute_frame:
  assumes "execute_job pl now time job (c, q) = Some (res, c', q')"
  shows "jq_running q' = jq_running q \<and> jq_config q' = jq_config q \<and> prefix (jq_jobs q) (jq_jobs q')"
proof (cases job)
  case (AddWorker config)
  then show ?thesis using assms by (auto dest: workflow_result_queue split: if_splits sum.splits)
next
  case (InitializeWorkersFromConfig rc)
  then show ?thesis using assms
      submit_all_frame [of "startup_what (rc_mode rc)" now "map AddWorker (startup_requests rc (rc_mode rc))" q, OF surjective_pairing]
    by (auto simp: Let_def submitted_result_def)
next
  case (InitializeMcpServers servers)
  then show ?thesis using assms
      submit_all_frame [of "\<lambda>job. [CHR 39] @ worker_url job @ [CHR 39]" now "map RegisterMcpServer servers" q, OF surjective_pairing]
    by (auto simp: submitted_result_def)
qed (use assms in \<open>auto simp: remove_status_def dest: workflow_result_queue\<close>)

lemma process_frame:
  assumes "process_job pl now time job (c, q) = Some (c', q')"
  shows "jq_running q' = remove1 job (jq_running q) \<and> jq_config q' = jq_config q \<and> prefix (jq_jobs q) (jq_jobs q')"
proof (cases "jq_context_alive q")
  case True
  then obtain res q1 where ex: "execute_job pl now time job (c, q) = Some (res, c', q1)"
    and q': "q' = record_job_completion now job res (q1\<lparr> jq_running := remove1 job (jq_running q1) \<rparr>)"
    using assms by (auto simp: process_job_def)
  show ?thesis using execute_frame [OF ex] by (simp add: q' record_job_completion_def split: sum.splits)
qed (use assms in \<open>auto simp: process_job_def\<close>)

text \<open>
  C36: the job queue serves the accepted jobs in the order they came: what was dispatched and what
  still waits make up what was accepted, jobs added by running jobs included.  No job is lost or
  run twice, and at most the configured number of jobs runs at a time.
\<close>

theorem job_queue_fifo:
  assumes "queue_run pl config ins outs ends (c, q)"
  shows "ins = outs @ jq_jobs q \<and> mset outs = mset ends + mset (jq_running q) \<and> length (jq_running q) \<le> max_concurrent_jobs config"
proof -
  have "jq_config q = config \<and> ins = outs @ jq_jobs q \<and> mset outs = mset ends + mset (jq_running q) \<and>
      length (jq_running q) \<le> max_concurrent_jobs config"
    using assms
  proof (induction ins outs ends "(c, q)" arbitrary: c q rule: queue_run.induct)
    case (processed ins outs ends c q job now time c' q' more_jobs)
    note f = process_frame [OF processed(4)]
    have "mset (jq_running q) = mset (remove1 job (jq_running q)) + {#job#}" using processed(3) by simp
    then show ?case using f processed(2,5) length_remove1 [of job "jq_running q"] processed(3) by auto
  next
    case (dispatched ins outs ends c q now job q')
    then show ?case by (auto simp: dispatch_job_def split: list.splits if_splits)
  qed (auto simp: job_queue_new_def cleanup_old_statuses_def dest: submit_frame)
  then show ?thesis by blast
qed

theorem job_queue_fifo_witness:
  "\<exists>outs q. queue_run sample_plane job_queue_config_default [RemoveWorker ''a'', RemoveWorker ''b''] outs [] (sample_control, q) \<and>
    outs = [RemoveWorker ''a''] \<and> jq_jobs q = [RemoveWorker ''b''] \<and> mset outs = mset (jq_running q)"
proof -
  let ?a = "RemoveWorker ''a'' :: unit job" and ?b = "RemoveWorker ''b'' :: unit job"
  obtain q1 where q1: "submit 0 ?a (job_queue_new job_queue_config_default) = (Inr (), q1)" "jq_jobs q1 = [?a]" "jq_running q1 = []"
      "jq_context_alive q1" "jq_open q1" "jq_config q1 = job_queue_config_default"
    using submit_idle [OF sample_idle, of 0 ?a] by (auto simp: job_queue_new_def)
  define q2 where "q2 = snd (submit 0 ?b q1)"
  have q2: "submit 0 ?b q1 = (Inr (), q2)" "jq_jobs q2 = [?a, ?b]" "jq_running q2 = []" "jq_config q2 = job_queue_config_default"
    using q1(2-6) by (simp_all add: q2_def submit_def Let_def)
  obtain q where q3: "dispatch_job 0 q2 = Some (?a, q)" using q2(2-4) by (simp add: dispatch_job_def job_queue_config_default_def)
  have "queue_run sample_plane job_queue_config_default [?a] [] [] (sample_control, q1)"
    using queue_run.submitted [OF queue_run.start q1(1)] by simp
  from queue_run.dispatched [OF queue_run.submitted [OF this q2(1)] q3]
  have q: "queue_run sample_plane job_queue_config_default [?a, ?b] [?a] [] (sample_control, q)" by simp
  then show ?thesis using job_queue_fifo [OF q] by fastforce
qed



end
