(* ===== verification/PD_Router.thy ===== *)
theory PD_Router
  imports Http_Router
begin

text \<open>
  The router for disaggregated prefill and decode workers, \<open>src/gateway/src/routers/http/pd_router.rs\<close>
  with \<open>pd_types.rs\<close>.  A request goes to a prefill and to a decode worker at once; the prefill answer
  is awaited first, and the decode answer is the answer of the request.

  As in \<open>Http_Router\<close> the network is an argument.  Whether the decode worker answers before or after
  the prefill worker changes nothing of what is done with the two answers, so each answer is a function
  of its request.  JSON parsing and printing, UTF-8 checks, the display of statuses and
  errors and the trace headers are arguments, and the request types of the protocol crate are records of the fields that
  are read.
\<close>

section \<open>Model: requests to a pair of workers\<close>

definition is_client_error :: "status_code \<Rightarrow> bool" where
  "is_client_error s \<longleftrightarrow> 400 \<le> s \<and> s < 500"

record pd_router =
  pd_enable_igw :: bool
  pd_retry_config :: retry_config

record pd_libs =
  lb_show_status :: "status_code \<Rightarrow> string"
  lb_parse :: "string \<Rightarrow> json option"
  lb_print :: "json \<Rightarrow> string"
  lb_utf8 :: "string \<Rightarrow> bool"
  lb_lossy :: "string \<Rightarrow> string"
  lb_trim :: "string \<Rightarrow> string"
  lb_read_error :: string
  lb_worker_error :: "worker_error \<Rightarrow> string"
  lb_trace :: "header_map \<Rightarrow> header_map"

record pd_context =
  px_route :: string
  px_batch_size :: "nat option"
  px_is_stream :: bool
  px_return_logprob :: bool
  px_request_text :: "ustr option"
  px_model_id :: "string option"
  px_headers :: "header_map option"

text \<open>
  What the task of a stream meets: the next item of the upstream, with whether the client still
  listens when it is passed on, or that the client has gone.
\<close>

datatype stream_event = Upstream poll bool | ClientGone

text \<open>What one attempt reads from outside; the first of two is for the prefill side.\<close>

record pd_env =
  pv_moments :: "moment \<times> moment"
  pv_clocks :: "(wref \<Rightarrow> u64 \<times> u64) \<times> (wref \<Rightarrow> u64 \<times> u64)"
  pv_now :: "u64 \<times> u64"
  pv_random :: "nat \<Rightarrow> u64"
  pv_prefill :: "out_request \<Rightarrow> upstream"
  pv_decode :: "out_request \<Rightarrow> upstream"
  pv_dropped :: "stream_event list"

definition api_path :: "string \<Rightarrow> string \<Rightarrow> string" where
  "api_path u path = (if prefix ''/'' path then u @ path else u @ ''/'' @ path)"

definition worker_endpoint_url :: "worker \<Rightarrow> string \<Rightarrow> string" where
  "worker_endpoint_url w endpoint = api_path (base_url w) endpoint"

text \<open>\<open>rand & i64::MAX\<close>\<close>

definition generate_room_id :: "u64 \<Rightarrow> u64" where
  "generate_room_id random = and random (2 ^ 63 - 1)"

text \<open>The error response for a status; \<open>code\<close> completes the error code.\<close>

definition error_by_status :: "(string \<Rightarrow> string) \<Rightarrow> string \<Rightarrow> status_code \<Rightarrow> string \<Rightarrow> response" where
  "error_by_status code other status msg =
     (if status = 400 then bad_request (code ''bad_request'') msg
      else if status = 404 then not_found (code ''not_found'') msg
      else if status = 500 then internal_error (code ''internal_error'') msg
      else if status = 503 then service_unavailable (code ''unavailable'') msg
      else if status = 502 then bad_gateway (code ''bad_gateway'') msg
      else internal_error other msg)"

definition proxy_to_worker :: "pd_libs \<Rightarrow> (out_request \<Rightarrow> upstream) \<Rightarrow> worker \<Rightarrow> string \<Rightarrow> (string \<times> string) list option \<Rightarrow> response" where
  "proxy_to_worker lb net w endpoint hs =
     (case net \<lparr> o_url = worker_endpoint_url w endpoint, o_body = None, o_headers = (case hs of Some hs \<Rightarrow> hs | None \<Rightarrow> []) \<rparr> of
        Replied status hdrs body \<Rightarrow>
          if is_success status then
            (case body of
               Some b \<Rightarrow> \<lparr> resp_status = 200, resp_headers = preserve_response_headers hdrs, resp_body = Bytes b, resp_guard = None \<rparr>
             | None \<Rightarrow> internal_error ''read_response_body_failed'' (''Failed to read response body: '' @ lb_read_error lb))
          else error_by_status (\<lambda>c. ''server_'' @ c) ''server_error'' status (''Server returned status: '' @ lb_show_status lb status)
      | SendFailed e \<Rightarrow> internal_error ''proxy_request_failed'' (''Failed to proxy request: '' @ re_message e))"

definition proxy_to_first_prefill_worker ::
    "pd_libs \<Rightarrow> (out_request \<Rightarrow> upstream) \<Rightarrow> string \<Rightarrow> (string \<times> string) list option \<Rightarrow> gateway \<Rightarrow> response" where
  "proxy_to_first_prefill_worker lb net endpoint hs g =
     (case get_prefill_workers (wst g) (wreg g) of
        r # _ \<Rightarrow> proxy_to_worker lb net (wst g r) endpoint hs
      | [] \<Rightarrow> service_unavailable ''no_prefill_servers'' ''No prefill servers available'')"

definition handle_server_selection_error :: "string \<Rightarrow> response" where
  "handle_server_selection_error e = service_unavailable ''server_selection_failed'' (''No available servers: '' @ e)"

definition handle_serialization_error :: "string \<Rightarrow> response" where
  "handle_serialization_error e = internal_error ''serialization_failed'' ''Failed to serialize request''"

definition port_value :: "u16 option \<Rightarrow> json" where
  "port_value p = (case p of Some v \<Rightarrow> JNumber (uint v) | None \<Rightarrow> JNull)"

fun inject_bootstrap_into_value :: "(nat \<Rightarrow> u64) \<Rightarrow> json \<Rightarrow> worker \<Rightarrow> nat option \<Rightarrow> string + json" where
  "inject_bootstrap_into_value random (JObject m) w batch_size =
     (let room = (\<lambda>i. JNumber (uint (generate_room_id (random i)))) in
      case batch_size of
        Some n \<Rightarrow>
          Inr (JObject (map_insert ''bootstrap_room'' (JArray (map room [0..<n]))
            (map_insert ''bootstrap_port'' (JArray (replicate n (port_value (bootstrap_port w))))
              (map_insert ''bootstrap_host'' (JArray (replicate n (JString (bootstrap_host w)))) m))))
      | None \<Rightarrow>
          Inr (JObject (map_insert ''bootstrap_room'' (room 0)
            (map_insert ''bootstrap_port'' (port_value (bootstrap_port w))
              (map_insert ''bootstrap_host'' (JString (bootstrap_host w)) m)))))"
| "inject_bootstrap_into_value random _ w batch_size = Inl ''Request must be a JSON object''"

declare inject_bootstrap_into_value.simps [simp del]

definition inject_prefill_dp_rank_for_decode :: "json \<Rightarrow> worker \<Rightarrow> string + json" where
  "inject_prefill_dp_rank_for_decode decode_request prefill =
     (case dp_rank prefill of
        None \<Rightarrow> Inr decode_request
      | Some prefill_dp_rank \<Rightarrow>
          (case decode_request of
             JObject m \<Rightarrow> Inr (JObject (map_insert ''disagg_prefill_dp_rank'' (JNumber (int prefill_dp_rank)) m))
           | _ \<Rightarrow> Inl ''Failed to insert disagg_prefill_dp_rank because request body is not an object''))"

definition prepare_worker_request :: "pd_libs \<Rightarrow> string \<Rightarrow> worker \<Rightarrow> json \<Rightarrow> string + (string \<times> json)" where
  "prepare_worker_request lb route w json_request =
     (let body = (if is_dp_aware w
                  then (case prepare_request w json_request of
                          Inl e \<Rightarrow> Inl (''Failed to prepare request for worker '' @ url w @ '': '' @ lb_worker_error lb e)
                        | Inr j \<Rightarrow> Inr j)
                  else Inr json_request) in
      case body of Inl e \<Rightarrow> Inl e | Inr j \<Rightarrow> Inr (worker_endpoint_url w route, j))"

definition prepare_pd_worker_requests :: "pd_libs \<Rightarrow> string \<Rightarrow> json \<Rightarrow> worker \<Rightarrow> worker \<Rightarrow> string + (string \<times> json) \<times> (string \<times> json)" where
  "prepare_pd_worker_requests lb route json_request prefill decode =
     (case prepare_worker_request lb route prefill json_request of
        Inl e \<Rightarrow> Inl e
      | Inr prefill_request \<Rightarrow>
          (case inject_prefill_dp_rank_for_decode json_request prefill of
             Inl e \<Rightarrow> Inl e
           | Inr decode_json_request \<Rightarrow>
               (case prepare_worker_request lb route decode decode_json_request of
                  Inl e \<Rightarrow> Inl e
                | Inr decode_request \<Rightarrow> Inr (prefill_request, decode_request))))"

text \<open>A header value that is not visible ASCII is not forwarded.\<close>

definition build_post_with_headers :: "string \<times> json \<Rightarrow> header_map option \<Rightarrow> bool \<Rightarrow> out_request" where
  "build_post_with_headers prepared hs connection_close =
     \<lparr> o_url = fst prepared, o_body = Some (snd prepared),
       o_headers = (if connection_close then [(''Connection'', ''close'')] else []) @ filter (\<lambda>(name, v). to_str v \<noteq> None) (forwarded hs) \<rparr>"

section \<open>Model: choosing the pair\<close>

definition policies_need_request_text :: "gateway \<Rightarrow> bool" where
  "policies_need_request_text g \<longleftrightarrow>
     needs_request_text (obj (preg g) (get_prefill_policy (preg g))) \<or> needs_request_text (obj (preg g) (get_decode_policy (preg g)))"

text \<open>\<open>None\<close> is a panic of the policy or of the index into the slice.\<close>

definition pick_worker_by_policy_arc ::
    "runtime \<Rightarrow> moment \<Rightarrow> (wref \<Rightarrow> u64 \<times> u64) \<Rightarrow> wref list \<Rightarrow> pref \<Rightarrow> ustr option \<Rightarrow> header_map option \<Rightarrow> hash_ring option \<Rightarrow> string \<Rightarrow>
      gateway \<Rightarrow> ((string + wref) \<times> gateway) option" where
  "pick_worker_by_policy_arc rt mo clk workers policy txt hs ring kind g =
     (if workers = [] then
        Some (Inl (''No '' @ kind @ '' workers available. Please check if '' @ kind @ '' servers are configured and healthy.''), g)
      else
        let (available, st) = filter_available clk workers (wst g);
            g = g\<lparr> wst := st \<rparr> in
        if available = [] then Some (Inl (''No available '' @ kind @ '' workers (all circuits open or unhealthy)''), g)
        else
          do {
            (idx, ws, h, ops) \<leftarrow> select_worker rt mo (map st available)
              \<lparr> request_text = txt, tokens = None, headers = hs, info_hash_ring = ring \<rparr> policy (heap (preg g));
            let g = g\<lparr> wst := write_back available ws st, preg := (preg g)\<lparr> heap := h \<rparr> \<rparr>;
            case idx of
              None \<Rightarrow> Some (Inl (''Policy '' @ policy_name (obj (preg g) policy) @ '' failed to select a '' @ kind @ '' worker''), g)
            | Some i \<Rightarrow> if i < length available then Some (Inr (available ! i), g) else None
          })"

definition is_prefill :: "worker \<Rightarrow> bool" where
  "is_prefill w \<longleftrightarrow> (case get_worker_type w of Prefill _ \<Rightarrow> True | _ \<Rightarrow> False)"

definition pd_pool :: "pd_router \<Rightarrow> string option \<Rightarrow> bool \<Rightarrow> gateway \<Rightarrow> wref list" where
  "pd_pool pd m prefill g =
     (case (if \<not> pd_enable_igw pd then None else m) of
        Some model \<Rightarrow>
          filter (\<lambda>r. if prefill then is_prefill (wst g r) else get_worker_type (wst g r) = Decode) (get_by_model model (wreg g))
      | None \<Rightarrow> if prefill then get_prefill_workers (wst g) (wreg g) else get_decode_workers (wreg g))"

definition select_pd_pair ::
    "runtime \<Rightarrow> pd_router \<Rightarrow> pd_env \<Rightarrow> ustr option \<Rightarrow> string option \<Rightarrow> header_map option \<Rightarrow> gateway \<Rightarrow>
      ((string + wref \<times> wref) \<times> gateway) option" where
  "select_pd_pair rt pd env txt m hs g =
     (let effective_model_id = (if \<not> pd_enable_igw pd then None else m);
          prefill_workers = pd_pool pd m True g;
          decode_workers = pd_pool pd m False g;
          prefill_policy = get_prefill_policy (preg g);
          decode_policy = get_decode_policy (preg g);
          ring = get_hash_ring (case effective_model_id of Some m \<Rightarrow> m | None \<Rightarrow> rt_unknown rt) (wreg g) in
      do {
        (p, g) \<leftarrow> pick_worker_by_policy_arc rt (fst (pv_moments env)) (fst (pv_clocks env)) prefill_workers prefill_policy txt hs ring ''prefill'' g;
        case p of
          Inl e \<Rightarrow> Some (Inl e, g)
        | Inr p \<Rightarrow>
            do {
              (d, g) \<leftarrow> pick_worker_by_policy_arc rt (snd (pv_moments env)) (snd (pv_clocks env)) decode_workers decode_policy txt hs ring ''decode'' g;
              case d of Inl e \<Rightarrow> Some (Inl e, g) | Inr d \<Rightarrow> Some (Inr (p, d), g)
            }
      })"

section \<open>Model: answers\<close>

text \<open>
  A response with what travels with it: the load guards of a stream, the marker that the breakers know
  the outcome already, the log-probabilities a stream is merged with, and the one chunk of a stream
  the router made up.
\<close>

record pd_response =
  pq_resp :: response
  pq_guards :: "(wref \<times> string option) list"
  pq_recorded :: bool
  pq_logprobs :: "json option"
  pq_source :: "string option"

definition plain :: "response \<Rightarrow> pd_response" where
  "plain resp = \<lparr> pq_resp = resp, pq_guards = [], pq_recorded = False, pq_logprobs = None, pq_source = None \<rparr>"

text \<open>\<open>(status, bytes).into_response()\<close>\<close>

definition into_response :: "status_code \<Rightarrow> string \<Rightarrow> response" where
  "into_response status b =
     \<lparr> resp_status = status, resp_headers = [(''content-type'', ''application/octet-stream'')], resp_body = Bytes b, resp_guard = None \<rparr>"

fun json_get :: "string \<Rightarrow> json \<Rightarrow> json option" where
  "json_get k (JObject m) = map_get m k"
| "json_get k _ = None"

fun json_set :: "string \<Rightarrow> json \<Rightarrow> json \<Rightarrow> json" where
  "json_set k v (JObject m) = JObject (map_insert k v m)"
| "json_set k v j = j"

text \<open>The decode array is taken out before it is known to be one; what is no array is lost.\<close>

definition merged_logprobs :: "json list \<Rightarrow> json \<Rightarrow> json" where
  "merged_logprobs prefill_arr decode_logprobs =
     (case decode_logprobs of JArray decode_vec \<Rightarrow> JArray (prefill_arr @ decode_vec) | _ \<Rightarrow> JNull)"

definition merge_logprobs_in_json :: "json \<Rightarrow> json \<Rightarrow> bool \<times> json" where
  "merge_logprobs_in_json prefill_json decode_json =
     (case (json_get ''meta_info'' prefill_json, json_get ''meta_info'' decode_json) of
        (Some prefill_meta, Some decode_meta) \<Rightarrow>
          (case (json_get ''input_token_logprobs'' prefill_meta, json_get ''input_token_logprobs'' decode_meta) of
             (Some (JArray prefill_arr), Some decode_logprobs) \<Rightarrow>
               (case decode_logprobs of JArray _ \<Rightarrow> True | _ \<Rightarrow> False,
                json_set ''meta_info'' (json_set ''input_token_logprobs'' (merged_logprobs prefill_arr decode_logprobs) decode_meta) decode_json)
           | _ \<Rightarrow> (False, decode_json))
      | _ \<Rightarrow> (False, decode_json))"

text \<open>\<open>trim_start_matches("data: ")\<close>\<close>

function trim_data :: "string \<Rightarrow> string" where
  "trim_data s = (if prefix ''data: '' s then trim_data (drop 6 s) else s)"
  by auto
termination by (relation "measure length") (auto simp: prefix_def)

declare trim_data.simps [simp del]

definition merge_streaming_logprobs :: "pd_libs \<Rightarrow> json option \<Rightarrow> string \<Rightarrow> string option" where
  "merge_streaming_logprobs lb prefill_logprobs chunk =
     (if \<not> lb_utf8 lb chunk \<or> \<not> prefix ''data: '' chunk \<or> str_contains chunk ''[DONE]'' then None
      else
        case lb_parse lb (lb_trim lb (trim_data chunk)) of
          None \<Rightarrow> None
        | Some decode_json \<Rightarrow>
            let merged =
              (case (prefill_logprobs, json_get ''meta_info'' decode_json) of
                 (Some (JArray p_arr), Some meta) \<Rightarrow>
                   (case json_get ''input_token_logprobs'' meta of
                      Some d_logprobs \<Rightarrow>
                        json_set ''meta_info'' (json_set ''input_token_logprobs'' (merged_logprobs p_arr d_logprobs) meta) decode_json
                    | None \<Rightarrow> decode_json)
               | _ \<Rightarrow> decode_json) in
            Some (''data: '' @ lb_print lb merged @ [CHR 10, CHR 10]))"

definition process_non_streaming_response :: "pd_libs \<Rightarrow> status_code \<Rightarrow> string option \<Rightarrow> bool \<Rightarrow> string option \<Rightarrow> response" where
  "process_non_streaming_response lb status body return_logprob prefill_body =
     (case body of
        None \<Rightarrow> internal_error ''read_response_failed'' ''Failed to read response''
      | Some decode_body \<Rightarrow>
          if \<not> return_logprob then into_response status decode_body
          else
            case prefill_body of
              None \<Rightarrow> into_response status decode_body
            | Some prefill_body \<Rightarrow>
                (case (lb_parse lb prefill_body, lb_parse lb decode_body) of
                   (Some prefill_json, Some decode_json) \<Rightarrow>
                     into_response status (lb_print lb (snd (merge_logprobs_in_json prefill_json decode_json)))
                 | _ \<Rightarrow> into_response status decode_body))"

definition process_prefill_response :: "pd_libs \<Rightarrow> upstream \<Rightarrow> bool \<Rightarrow> response + (status_code \<times> string option)" where
  "process_prefill_response lb prefill_result return_logprob =
     (case prefill_result of
        SendFailed e \<Rightarrow>
          Inl (bad_gateway ''prefill_server_error'' (''Prefill server error: '' @ re_message e @ ''. This will cause decode timeout.''))
      | Replied status hdrs body \<Rightarrow>
          if \<not> is_success status then
            let error_msg = (case body of Some b \<Rightarrow> lb_lossy lb b | None \<Rightarrow> ''Unknown prefill error'') in
            Inl (error_by_status (\<lambda>c. ''prefill_'' @ c) ''prefill_error'' status
                   (''Prefill server error ('' @ lb_show_status lb status @ ''): '' @ error_msg))
          else Inr (status, if return_logprob then body else None))"

definition note_outcome :: "u64 \<times> u64 \<Rightarrow> wref \<Rightarrow> bool \<Rightarrow> wstore \<Rightarrow> wstore" where
  "note_outcome now r b st = st(r := worker_record_outcome (fst now) (snd now) b (st r))"

definition take_guard :: "header_map option \<Rightarrow> wref \<Rightarrow> wstore \<Rightarrow> (wref \<times> string option) \<times> wstore" where
  "take_guard hs r st = (let (k, w) = guard_new hs (st r) in ((r, k), st(r := w)))"

text \<open>
  The guards of a stream are made with the headers of the response.  The task that pumps the
  stream holds the tracked stream, the body the guards.
\<close>

definition create_streaming_response ::
    "string option \<Rightarrow> status_code \<Rightarrow> json option \<Rightarrow> bool \<Rightarrow> header_map option \<Rightarrow> wref \<Rightarrow> wref \<Rightarrow> wstore \<Rightarrow> pd_response \<times> wstore" where
  "create_streaming_response source status prefill_logprobs return_logprob hs prefill decode st =
     (let tracked = tracked_new decode;
          tracked = (if \<not> (is_success status \<or> is_client_error status) then mark_errored tracked else tracked);
          (gp, st) = take_guard hs prefill st;
          (gd, st) = take_guard hs decode st;
          response_headers = header_insert (case hs of Some h \<Rightarrow> h | None \<Rightarrow> []) ''content-type'' ''text/event-stream'' in
      (\<lparr> pq_resp = \<lparr> resp_status = status, resp_headers = response_headers, resp_body = StreamBody tracked, resp_guard = None \<rparr>,
         pq_guards = [gp, gd], pq_recorded = False,
         pq_logprobs = (if return_logprob then prefill_logprobs else None), pq_source = source \<rparr>, st))"

definition is_done :: "string \<Rightarrow> bool" where
  "is_done chunk \<longleftrightarrow> str_contains chunk ''data: [DONE]''"

fun pump :: "pd_libs \<Rightarrow> json option \<Rightarrow> stream_event list \<Rightarrow> tracked_stream \<Rightarrow> string option list \<times> tracked_stream" where
  "pump lb logprobs [] ts = ([], ts)"
| "pump lb logprobs (ClientGone # es) ts = ([], ts)"
| "pump lb logprobs (Upstream (ReadyOk chunk) listening # es) ts =
     (let ts = poll_next (ReadyOk chunk) ts;
          result = (case logprobs of
                      Some _ \<Rightarrow> (case merge_streaming_logprobs lb logprobs chunk of Some m \<Rightarrow> m | None \<Rightarrow> chunk)
                    | None \<Rightarrow> chunk);
          ts = (if is_done chunk then mark_completed ts else ts) in
      if \<not> listening then ([], ts)
      else if is_done chunk then ([Some result], ts)
      else let (out, ts) = pump lb logprobs es ts in (Some result # out, ts))"
| "pump lb logprobs (Upstream ReadyErr listening # es) ts = (if listening then [None] else [], poll_next ReadyErr ts)"
| "pump lb logprobs (Upstream ReadyNone listening # es) ts = ([], poll_next ReadyNone ts)"
| "pump lb logprobs (Upstream Pending listening # es) ts = pump lb logprobs es ts"

definition drop_guards :: "(wref \<times> string option) list \<Rightarrow> wstore \<Rightarrow> wstore" where
  "drop_guards gs st = foldl (\<lambda>st (r, k). st(r := guard_drop k (st r))) st gs"

text \<open>The end of a response: the task of a stream ends and drops the stream, the body drops the guards.\<close>

definition pd_finish :: "pd_libs \<Rightarrow> u64 \<times> u64 \<Rightarrow> stream_event list \<Rightarrow> pd_response \<Rightarrow> wstore \<Rightarrow> wstore" where
  "pd_finish lb now es resp st =
     drop_guards (pq_guards resp)
       (case resp_body (pq_resp resp) of
          StreamBody ts \<Rightarrow> tracked_drop now (snd (pump lb (pq_logprobs resp) es ts)) st
        | _ \<Rightarrow> st)"

definition error_message :: "pd_libs \<Rightarrow> string \<Rightarrow> string" where
  "error_message lb error_body =
     (let lossy = lb_lossy lb error_body in
      case lb_parse lb error_body of
        None \<Rightarrow> lossy
      | Some error_json \<Rightarrow>
          (case Option.bind (json_get ''error'' error_json) (json_get ''message'') of
             Some (JString msg) \<Rightarrow> msg
           | _ \<Rightarrow> (case json_get ''message'' error_json of Some (JString msg) \<Rightarrow> msg | _ \<Rightarrow> lossy)))"

definition handle_decode_error_response ::
    "pd_libs \<Rightarrow> status_code \<Rightarrow> header_map \<Rightarrow> string option \<Rightarrow> pd_context \<Rightarrow> wref \<Rightarrow> wref \<Rightarrow> wstore \<Rightarrow> pd_response \<times> wstore" where
  "handle_decode_error_response lb status hdrs body ctx prefill decode st =
     (if px_is_stream ctx then
        let message = (case body of
              Some error_body \<Rightarrow> (case lb_parse lb error_body of Some error_json \<Rightarrow> error_json | None \<Rightarrow> JString (lb_lossy lb error_body))
            | None \<Rightarrow> JString (''Decode server error: '' @ lb_read_error lb));
            payload = JObject [(''message'', message), (''status'', JNumber (int status))];
            sse_data = ''data: {'' @ [CHR 39] @ ''error'' @ [CHR 39] @ '': '' @ lb_print lb payload @ ''}'' in
        create_streaming_response (Some sse_data) status None (px_return_logprob ctx) (Some (preserve_response_headers hdrs)) prefill decode st
      else
        (plain (case body of
           Some error_body \<Rightarrow> error_by_status (\<lambda>c. ''decode_'' @ c) ''decode_error'' status (error_message lb error_body)
         | None \<Rightarrow> error_by_status (\<lambda>c. ''decode_read_failed'') ''decode_read_failed'' status (''Decode server error: '' @ lb_read_error lb)), st))"

section \<open>Model: the dispatch\<close>

definition prefill_failed :: "upstream \<Rightarrow> bool" where
  "prefill_failed u = (case u of Replied status hdrs body \<Rightarrow> \<not> is_success status | SendFailed e \<Rightarrow> True)"

definition answered_ok :: "upstream \<Rightarrow> bool" where
  "answered_ok u = (case u of Replied status hdrs body \<Rightarrow> is_success status \<or> is_client_error status | SendFailed e \<Rightarrow> False)"

definition recorded :: "pd_response \<times> wstore \<Rightarrow> pd_response \<times> wstore" where
  "recorded res = ((fst res)\<lparr> pq_recorded := True \<rparr>, snd res)"

definition pointer_logprobs :: "json \<Rightarrow> json option" where
  "pointer_logprobs j = Option.bind (json_get ''meta_info'' j) (json_get ''input_token_logprobs'')"

text \<open>The answer of the decode worker, once the prefill worker has answered with a success.\<close>

definition process_decode ::
    "pd_libs \<Rightarrow> u64 \<times> u64 \<Rightarrow> pd_context \<Rightarrow> wref \<Rightarrow> wref \<Rightarrow> upstream \<Rightarrow> upstream \<Rightarrow> wstore \<Rightarrow> pd_response \<times> wstore" where
  "process_decode lb now ctx prefill decode prefill_result decode_result st =
     (case decode_result of
        SendFailed e \<Rightarrow>
          recorded (plain (bad_gateway ''decode_server_error'' (''Decode server error: '' @ re_message e)),
            note_outcome now prefill (answered_ok prefill_result) (note_outcome now decode False st))
      | Replied status hdrs body \<Rightarrow>
          if \<not> is_success status then
            let st = note_outcome now prefill (answered_ok prefill_result) st;
                st = (if \<not> px_is_stream ctx then note_outcome now decode (is_success status \<or> is_client_error status) st else st) in
            recorded (handle_decode_error_response lb status hdrs body ctx prefill decode st)
          else
            case process_prefill_response lb prefill_result (px_return_logprob ctx) of
              Inl error_response \<Rightarrow> (plain error_response, st)
            | Inr (_, prefill_body) \<Rightarrow>
                if px_is_stream ctx then
                  let prefill_logprobs =
                    (if px_return_logprob ctx then Option.bind (Option.bind prefill_body (lb_parse lb)) pointer_logprobs else None) in
                  create_streaming_response None status prefill_logprobs (px_return_logprob ctx) (Some (preserve_response_headers hdrs)) prefill decode st
                else if px_return_logprob ctx then (plain (process_non_streaming_response lb status body (px_return_logprob ctx) prefill_body), st)
                else
                  (plain (case body of
                     Some decode_body \<Rightarrow>
                       \<lparr> resp_status = status, resp_headers = preserve_response_headers hdrs, resp_body = Bytes decode_body, resp_guard = None \<rparr>
                   | None \<Rightarrow> internal_error ''read_response_failed'' ''Failed to read response''), st))"

definition dispatch_pair ::
    "pd_libs \<Rightarrow> pd_env \<Rightarrow> header_map option \<Rightarrow> json \<Rightarrow> pd_context \<Rightarrow> wref \<Rightarrow> wref \<Rightarrow> wstore \<Rightarrow> pd_response \<times> wstore" where
  "dispatch_pair lb env hs json_request ctx prefill decode st =
     (let hs = Some (lb_trace lb (case hs of Some h \<Rightarrow> h | None \<Rightarrow> [])) in
      case prepare_pd_worker_requests lb (px_route ctx) json_request (st prefill) (st decode) of
        Inl e \<Rightarrow> (plain (internal_error ''pd_request_preparation_failed'' e), st)
      | Inr (prepared_prefill, prepared_decode) \<Rightarrow>
          let prefill_result = pv_prefill env (build_post_with_headers prepared_prefill hs False);
              decode_result = pv_decode env (build_post_with_headers prepared_decode hs False) in
          if prefill_failed prefill_result then
            let prefill_ok = (case prefill_result of Replied status hdrs body \<Rightarrow> is_client_error status | SendFailed e \<Rightarrow> False);
                st = note_outcome (pv_now env) prefill prefill_ok st in
            recorded (plain (case process_prefill_response lb prefill_result False of
                Inl error_response \<Rightarrow> error_response
              | Inr _ \<Rightarrow> bad_gateway ''prefill_server_error'' ''Prefill reported failure but returned a success response''), st)
          else process_decode lb (pv_now env) ctx prefill decode prefill_result decode_result st)"

text \<open>A request that does not stream holds a load guard on both workers while it runs.\<close>

definition execute_dual_dispatch_internal ::
    "pd_libs \<Rightarrow> pd_env \<Rightarrow> header_map option \<Rightarrow> json \<Rightarrow> pd_context \<Rightarrow> wref \<Rightarrow> wref \<Rightarrow> wstore \<Rightarrow> pd_response \<times> wstore" where
  "execute_dual_dispatch_internal lb env hs json_request ctx prefill decode st =
     (if px_is_stream ctx then dispatch_pair lb env hs json_request ctx prefill decode st
      else
        let (gp, st) = take_guard hs prefill st;
            (gd, st) = take_guard hs decode st;
            (resp, st) = dispatch_pair lb env hs json_request ctx prefill decode st in
        (resp, drop_guards [gd, gp] st))"

definition dual_dispatch_attempt ::
    "pd_libs \<Rightarrow> runtime \<Rightarrow> pd_router \<Rightarrow> pd_env \<Rightarrow> header_map option \<Rightarrow> json option \<Rightarrow> pd_context \<Rightarrow> gateway \<Rightarrow> (pd_response \<times> gateway) option" where
  "dual_dispatch_attempt lb rt pd env hs original_request ctx g =
     do {
       (sel, g) \<leftarrow> select_pd_pair rt pd env (px_request_text ctx) (px_model_id ctx) (px_headers ctx) g;
       case sel of
         Inl e \<Rightarrow> Some (plain (handle_server_selection_error e), g)
       | Inr (prefill, decode) \<Rightarrow>
           (case original_request of
              None \<Rightarrow> Some (plain (handle_serialization_error []), g)
            | Some v \<Rightarrow>
                (case inject_bootstrap_into_value (pv_random env) v (wst g prefill) (px_batch_size ctx) of
                   Inl e \<Rightarrow> Some (plain (handle_serialization_error e), g)
                 | Inr json_request \<Rightarrow>
                     let (resp, st) = execute_dual_dispatch_internal lb env hs json_request ctx prefill decode (wst g);
                         status = resp_status (pq_resp resp);
                         not_error = is_success status \<or> is_client_error status;
                         st = (if pq_recorded resp then st
                               else
                                 let st = note_outcome (pv_now env) prefill not_error st in
                                 if \<not> px_is_stream ctx then note_outcome (pv_now env) decode not_error st else st) in
                     Some (resp, g\<lparr> wst := st \<rparr>)))
     }"

text \<open>
  The response of an attempt that is retried is dropped before the next attempt.  The task that
  reads its stream runs meanwhile: it sees what had arrived and then that the receiver is gone.
\<close>

definition pd_drop_response :: "pd_libs \<Rightarrow> u64 \<times> u64 \<Rightarrow> stream_event list \<Rightarrow> pd_response \<Rightarrow> wstore \<Rightarrow> wstore" where
  "pd_drop_response lb now es resp st = pd_finish lb now (es @ [ClientGone]) resp st"

record pd_state =
  pd_gateway :: gateway
  pd_last :: "pd_response option"

definition pd_attempt ::
    "pd_libs \<Rightarrow> runtime \<Rightarrow> pd_router \<Rightarrow> (nat \<Rightarrow> pd_env) \<Rightarrow> header_map option \<Rightarrow> json option \<Rightarrow> pd_context \<Rightarrow> nat \<Rightarrow> pd_state \<Rightarrow>
      pd_response option \<times> pd_state" where
  "pd_attempt lb rt pd env hs body ctx k s =
     (let g = pd_gateway s;
          g = (case pd_last s of Some resp \<Rightarrow> g\<lparr> wst := pd_drop_response lb (pv_now (env k)) (pv_dropped (env k)) resp (wst g) \<rparr> | None \<Rightarrow> g) in
      case dual_dispatch_attempt lb rt pd (env k) hs body ctx g of
        None \<Rightarrow> (None, s)
      | Some (resp, g) \<Rightarrow> (Some resp, \<lparr> pd_gateway = g, pd_last = Some resp \<rparr>))"

definition pd_should_retry :: "pd_response option \<Rightarrow> nat \<Rightarrow> bool" where
  "pd_should_retry resp k = (case resp of Some resp \<Rightarrow> is_retryable_status (resp_status (pq_resp resp)) | None \<Rightarrow> False)"

definition execute_dual_dispatch ::
    "pd_libs \<Rightarrow> runtime \<Rightarrow> pd_router \<Rightarrow> (nat \<Rightarrow> pd_env) \<Rightarrow> (nat \<Rightarrow> real) \<Rightarrow> header_map option \<Rightarrow> json option \<Rightarrow> pd_context \<Rightarrow> gateway \<Rightarrow>
      pd_response option \<times> pd_state \<times> retry_event list" where
  "execute_dual_dispatch lb rt pd env jitter hs body ctx g =
     execute_response_with_retry (pd_retry_config pd) (pd_attempt lb rt pd env hs body ctx) pd_should_retry jitter
       \<lparr> pd_gateway = g, pd_last = None \<rparr>"

section \<open>Model: the routes\<close>

text \<open>The fields of the request types that the router reads, and the serialised request.\<close>

datatype input_ids = SingleIds "int list" | BatchIds "int list list"

record generate_request =
  gr_stream :: bool
  gr_return_logprob :: "bool option"
  gr_text :: "ustr option"
  gr_input_ids :: "input_ids option"

record chat_request =
  cq_stream :: bool
  cq_logprobs :: bool
  cq_n :: "u32 option"
  cq_routing_text :: ustr

datatype string_or_array = OneString ustr | ManyStrings "ustr list"

record completion_request =
  cc_stream :: bool
  cc_logprobs :: "u32 option"
  cc_prompt :: string_or_array

definition get_generate_batch_size :: "generate_request \<Rightarrow> nat option" where
  "get_generate_batch_size req =
     (case gr_input_ids req of Some (BatchIds batches) \<Rightarrow> if batches \<noteq> [] then Some (length batches) else None | _ \<Rightarrow> None)"

definition get_chat_batch_size :: "chat_request \<Rightarrow> nat option" where
  "get_chat_batch_size req = (case cq_n req of Some n \<Rightarrow> if 1 < n then Some (unat n) else None | None \<Rightarrow> None)"

definition get_completion_batch_size :: "completion_request \<Rightarrow> nat option" where
  "get_completion_batch_size req =
     (case cc_prompt req of ManyStrings arr \<Rightarrow> if arr \<noteq> [] then Some (length arr) else None | OneString _ \<Rightarrow> None)"

definition build_chat_request_text :: "chat_request \<Rightarrow> ustr option" where
  "build_chat_request_text body = (if cq_routing_text body = [] then None else Some (cq_routing_text body))"

definition generate_context :: "gateway \<Rightarrow> header_map option \<Rightarrow> generate_request \<Rightarrow> string option \<Rightarrow> pd_context" where
  "generate_context g hs body m =
     \<lparr> px_route = ''/generate'', px_batch_size = get_generate_batch_size body, px_is_stream = gr_stream body,
       px_return_logprob = (case gr_return_logprob body of Some b \<Rightarrow> b | None \<Rightarrow> False),
       px_request_text = (if policies_need_request_text g then gr_text body else None), px_model_id = m, px_headers = hs \<rparr>"

definition chat_context :: "gateway \<Rightarrow> header_map option \<Rightarrow> chat_request \<Rightarrow> string option \<Rightarrow> pd_context" where
  "chat_context g hs body m =
     \<lparr> px_route = ''/v1/chat/completions'', px_batch_size = get_chat_batch_size body, px_is_stream = cq_stream body,
       px_return_logprob = cq_logprobs body,
       px_request_text = (if policies_need_request_text g then build_chat_request_text body else None), px_model_id = m, px_headers = hs \<rparr>"

definition completion_context :: "gateway \<Rightarrow> header_map option \<Rightarrow> completion_request \<Rightarrow> string option \<Rightarrow> pd_context" where
  "completion_context g hs body m =
     \<lparr> px_route = ''/v1/completions'', px_batch_size = get_completion_batch_size body, px_is_stream = cc_stream body,
       px_return_logprob = cc_logprobs body \<noteq> None,
       px_request_text =
         (if policies_need_request_text g
          then (case cc_prompt body of OneString s \<Rightarrow> Some s | ManyStrings v \<Rightarrow> (case v of s # _ \<Rightarrow> Some s | [] \<Rightarrow> None)) else None),
       px_model_id = m, px_headers = hs \<rparr>"

definition rerank_context :: "gateway \<Rightarrow> header_map option \<Rightarrow> ustr \<Rightarrow> string option \<Rightarrow> pd_context" where
  "rerank_context g hs query m =
     \<lparr> px_route = ''/v1/rerank'', px_batch_size = None, px_is_stream = False, px_return_logprob = False,
       px_request_text = (if policies_need_request_text g then Some query else None), px_model_id = m, px_headers = hs \<rparr>"

definition route_embeddings :: response where
  "route_embeddings = bad_request ''pd_unsupported_embeddings'' ''PD mode does not support /v1/embeddings''"

definition route_classify :: response where
  "route_classify = bad_request ''pd_unsupported_classify'' ''PD mode does not support /v1/classify''"

definition health_error :: "pd_libs \<Rightarrow> string \<Rightarrow> worker \<Rightarrow> upstream \<Rightarrow> string list" where
  "health_error lb side w u =
     (case u of
        Replied status hdrs body \<Rightarrow> if is_success status then [] else [side @ '' '' @ url w @ '' returned status '' @ lb_show_status lb status]
      | SendFailed e \<Rightarrow> [side @ '' '' @ url w @ '' error: '' @ re_message e])"

text \<open>\<open>show_list\<close> is the debug display of the list of errors.\<close>

definition health_generate ::
    "pd_libs \<Rightarrow> (string list \<Rightarrow> string) \<Rightarrow> runtime \<Rightarrow> pd_router \<Rightarrow> pd_env \<Rightarrow> gateway \<Rightarrow> (response \<times> gateway) option" where
  "health_generate lb show_list rt pd env g =
     do {
       (sel, g) \<leftarrow> select_pd_pair rt pd env None None None g;
       case sel of
         Inl e \<Rightarrow> Some (service_unavailable ''no_healthy_worker_pair'' (''No healthy worker pair available: '' @ e), g)
       | Inr (prefill, decode) \<Rightarrow>
           let get = (\<lambda>w. \<lparr> o_url = worker_endpoint_url w ''health_generate'', o_body = None, o_headers = [] \<rparr>);
               errors = health_error lb ''Prefill'' (wst g prefill) (pv_prefill env (get (wst g prefill))) @
                        health_error lb ''Decode'' (wst g decode) (pv_decode env (get (wst g decode))) in
           Some (if errors = [] then
                   \<lparr> resp_status = 200, resp_headers = [(''content-type'', ''text/plain; charset=utf-8'')],
                     resp_body = Bytes (''Health generate passed on selected pair: prefill='' @ url (wst g prefill) @ '', decode='' @ url (wst g decode)),
                     resp_guard = None \<rparr>
                 else service_unavailable ''health_generate_failed'' (''Health generate failed: '' @ show_list errors), g)
     }"

definition get_server_info :: "pd_libs \<Rightarrow> (out_request \<Rightarrow> upstream) \<Rightarrow> gateway \<Rightarrow> response" where
  "get_server_info lb net g = proxy_to_first_prefill_worker lb net ''server_info'' None g"

definition get_models_request :: "pd_libs \<Rightarrow> (out_request \<Rightarrow> upstream) \<Rightarrow> header_map \<Rightarrow> gateway \<Rightarrow> response" where
  "get_models_request lb net req_headers g = proxy_to_first_prefill_worker lb net ''v1/models'' (Some (copy_request_headers req_headers)) g"

definition get_model_info :: "pd_libs \<Rightarrow> (out_request \<Rightarrow> upstream) \<Rightarrow> header_map \<Rightarrow> gateway \<Rightarrow> response" where
  "get_model_info lb net req_headers g = proxy_to_first_prefill_worker lb net ''model_info'' (Some (copy_request_headers req_headers)) g"

section \<open>Streams\<close>

text \<open>How a stream ends: by the first of an end, a done marker, an error and the client leaving.\<close>

fun stream_end :: "stream_event list \<Rightarrow> terminal" where
  "stream_end [] = Active"
| "stream_end (ClientGone # es) = Active"
| "stream_end (Upstream (ReadyOk chunk) listening # es) = (if is_done chunk then Completed else if listening then stream_end es else Active)"
| "stream_end (Upstream ReadyErr listening # es) = Errored"
| "stream_end (Upstream ReadyNone listening # es) = Completed"
| "stream_end (Upstream Pending listening # es) = stream_end es"

lemma pump_terminal:
  "ts_worker (snd (pump lb lp es ts)) = ts_worker ts \<and>
   (ts_terminal ts = Errored \<longrightarrow> ts_terminal (snd (pump lb lp es ts)) = Errored) \<and>
   (ts_terminal ts = Active \<longrightarrow> ts_terminal (snd (pump lb lp es ts)) = stream_end es)"
  by (induction lb lp es ts rule: pump.induct) (auto simp: Let_def mark_completed_def split_beta)

section \<open>The choice of the pair\<close>

definition pool_reached :: "(wref \<Rightarrow> u64 \<times> u64) \<Rightarrow> gateway \<Rightarrow> wref \<Rightarrow> bool" where
  "pool_reached clk g r \<longleftrightarrow> fst (is_available (fst (clk r)) (snd (clk r)) (wst g r))"

lemma pick_spec:
  assumes ok: "pr_ok (preg g)" and mo: "moment_ok mo" and pol: "pol < length (objs (heap (preg g)))"
  shows "\<exists>res g'. pick_worker_by_policy_arc rt mo clk workers pol txt hs ring kind g = Some (res, g') \<and>
    pr_ok (preg g') \<and> touches (preg g) (preg g') \<and> wreg g' = wreg g \<and> (\<forall>r. same_counts (wst g r) (wst g' r)) \<and>
    (\<forall>r. admits (wst g r) \<longrightarrow> admits (wst g' r)) \<and>
    (\<forall>r. res = Inr r \<longrightarrow> r \<in> set workers \<and> pool_reached clk g r \<and> admits (wst g' r)) \<and>
    ((\<exists>e. res = Inl e) \<longrightarrow> policy_name (obj (preg g) pol) \<in> set total_policies \<longrightarrow> (\<forall>r\<in>set workers. \<not> pool_reached clk g r))"
proof -
  obtain av st where f: "filter_available clk workers (wst g) = (av, st)" by fastforce
  have counts: "same_counts (wst g r) (st r)" for r using filter_available_counts [of "wst g" r clk workers] f by simp
  have keep: "admits (st r)" if "admits (wst g r)" for r using filter_available_admitted [of "wst g" r clk workers] f that by simp
  have av: "r \<in> set av \<longleftrightarrow> r \<in> set workers \<and> pool_reached clk g r" for r
    using filter_available_set [of r clk workers "wst g"] f by (simp add: pool_reached_def)
  have adm: "admits (st r)" if "r \<in> set av" for r using filter_available_admits [of r clk workers "wst g"] f that by simp
  show ?thesis
  proof (cases "workers = [] \<or> av = []")
    case True
    then have "\<forall>r\<in>set workers. \<not> pool_reached clk g r" using av by auto
    then show ?thesis using True f ok counts keep by (auto simp: pick_worker_by_policy_arc_def Let_def)
  next
    case False
    let ?ws = "map st av" and ?info = "\<lparr> request_text = txt, tokens = None, headers = hs, info_hash_ring = ring \<rparr>"
    have adms: "\<forall>w\<in>set ?ws. admits w" using adm by auto
    have hp: "heap_ok (heap (preg g))" using ok by (simp add: pr_ok_def)
    from select_worker_spec [OF hp pol mo, of rt ?ws ?info] obtain i ws' h' ops where
      s: "select_worker rt mo ?ws ?info pol (heap (preg g)) = Some (i, ws', h', ops)" "heap_ok h'"
        "names h' = names (heap (preg g))" "selected_ok (policy_name (obj (preg g) pol)) (m_clock mo) ?ws i"
      using pol by (auto simp: names_nth)
    have pl: "processed_list ?ws ws'" by (rule select_workers_after [OF adms s(1)])
    have touch: "touches (preg g) ((preg g)\<lparr> heap := h' \<rparr>)" using s(3) by (simp add: touches_def)
    have wb: "same_counts (wst g r) (write_back av ws' st r)" "admits (write_back av ws' st r) = admits (st r)" for r
      using write_back_processed [OF pl, of r] processed_only_keeps counts same_counts_trans by blast+
    have ne: "\<exists>j. available (m_clock mo) ?ws j" using False by (auto simp: admitted_available [OF adms])
    have i: "j < length av" if "i = Some j" for j using s(4) that by (auto simp: selected_ok_def)
    let ?g = "g\<lparr> wst := write_back av ws' st, preg := (preg g)\<lparr> heap := h' \<rparr> \<rparr>"
    obtain res where res: "pick_worker_by_policy_arc rt mo clk workers pol txt hs ring kind g = Some (res, ?g)"
        "\<And>r. res = Inr r \<Longrightarrow> r \<in> set av" "\<And>e. res = Inl e \<Longrightarrow> i = None"
      using f False s(1) i by (cases i) (simp_all add: pick_worker_by_policy_arc_def Let_def)
    have tot: "i \<noteq> None" if "policy_name (obj (preg g) pol) \<in> set total_policies" using that s(4) ne by (auto simp: selected_ok_def)
    show ?thesis using res(1) wb touch touches_ok [OF ok touch] s(2) av adm keep res(2,3) tot
      by (intro exI [of _ res] exI [of _ ?g] conjI allI impI) auto
  qed
qed

text \<open>The workers of a pool: registered, of the right kind, and of the model where models are told apart.\<close>

definition pool_worker :: "string \<Rightarrow> pd_router \<Rightarrow> string option \<Rightarrow> bool \<Rightarrow> worker \<Rightarrow> bool" where
  "pool_worker unknown_id pd m prefill w \<longleftrightarrow>
     (if prefill then is_prefill w else get_worker_type w = Decode) \<and> (pd_enable_igw pd \<longrightarrow> (case m of Some m \<Rightarrow> model_id unknown_id w = m | None \<Rightarrow> True))"

lemma pd_pool_spec:
  assumes rel: "reg_rel b u (wst g) es (wreg g)"
  shows "set (pd_pool pd m prefill g) = {r \<in> snd ` set es. pool_worker u pd m prefill (wst g r)}"
proof -
  note d = reg_relD [OF rel]
  have get: "\<forall>e\<in>set (filter P es). reg_get (fst e) (wreg g) = Some (snd e)" for P using get_registered [OF rel] by auto
  have model: "get_by_model k (wreg g) = map snd (filter (\<lambda>e. model_id u (wst g (snd e)) = k) es)" for k
    unfolding get_by_entry_list by (rule d(6))
  have decode: "get_decode_workers (wreg g) = map snd (filter (\<lambda>e. get_worker_type (wst g (snd e)) = Decode) es)"
    unfolding get_decode_workers_def get_by_entry_list d(7) by (rule map_filter_entries [OF get])
  have prefill: "set (get_prefill_workers (wst g) (wreg g)) = {r \<in> snd ` set es. is_prefill (wst g r)}"
    unfolding get_prefill_workers_def d(1)
    by (induction es) (auto simp: is_prefill_def List.map_filter_simps split: worker_type.splits)
  show ?thesis using model decode prefill by (auto simp: pd_pool_def pool_worker_def split: option.splits)
qed

lemma pd_policy_refs:
  assumes "pr_ok pr"
  shows "get_prefill_policy pr < length (objs (heap pr))" "get_decode_policy pr < length (objs (heap pr))"
  using assms pd_refs [of pr] by (force simp: pr_ok_def get_prefill_policy_def get_decode_policy_def get_default_policy_def split: option.splits)+

lemma touches_names: "touches pr pr' \<Longrightarrow> p < length (objs (heap pr)) \<Longrightarrow> policy_name (obj pr' p) = policy_name (obj pr p)"
  unfolding touches_def by (metis names_nth length_names)

lemma select_pair_spec:
  assumes ok: "pr_ok (preg g)" "reg_rel b u (wst g) es (wreg g)"
    and mo: "moment_ok (fst (pv_moments env))" "moment_ok (snd (pv_moments env))"
  shows "\<exists>res g'. select_pd_pair rt pd env txt m hs g = Some (res, g') \<and> pr_ok (preg g') \<and> wreg g' = wreg g \<and>
    (\<forall>r. same_counts (wst g r) (wst g' r)) \<and>
    (\<forall>p d. res = Inr (p, d) \<longrightarrow> p \<in> snd ` set es \<and> d \<in> snd ` set es \<and> pool_worker u pd m True (wst g p) \<and>
       pool_worker u pd m False (wst g d) \<and> admits (wst g' p) \<and> admits (wst g' d)) \<and>
    ((\<exists>e. res = Inl e) \<longrightarrow>
       policy_name (obj (preg g) (get_prefill_policy (preg g))) \<in> set total_policies \<longrightarrow>
       policy_name (obj (preg g) (get_decode_policy (preg g))) \<in> set total_policies \<longrightarrow>
       \<not> ((\<exists>r\<in>snd ` set es. pool_worker u pd m True (wst g r) \<and> admits (wst g r)) \<and>
          (\<exists>r\<in>snd ` set es. pool_worker u pd m False (wst g r) \<and> admits (wst g r))))"
proof -
  let ?ring = "get_hash_ring (case (if \<not> pd_enable_igw pd then None else m) of Some m \<Rightarrow> m | None \<Rightarrow> rt_unknown rt) (wreg g)"
  note refs = pd_policy_refs [OF ok(1)] and pool = pd_pool_spec [OF ok(2), of pd m]
  have reach: "pool_reached clk h r" if "admits (wst h r)" for clk h r using admits_available [OF that] by (simp add: pool_reached_def)
  from pick_spec [OF ok(1) mo(1) refs(1), of rt "fst (pv_clocks env)" "pd_pool pd m True g" "txt" hs ?ring "''prefill''"] obtain p g1 where
    p: "pick_worker_by_policy_arc rt (fst (pv_moments env)) (fst (pv_clocks env)) (pd_pool pd m True g) (get_prefill_policy (preg g)) txt hs ?ring ''prefill'' g =
        Some (p, g1)" "pr_ok (preg g1)" "touches (preg g) (preg g1)" "wreg g1 = wreg g" "\<forall>r. same_counts (wst g r) (wst g1 r)"
      "\<forall>r. admits (wst g r) \<longrightarrow> admits (wst g1 r)" "\<forall>r. p = Inr r \<longrightarrow> r \<in> set (pd_pool pd m True g) \<and> admits (wst g1 r)"
      "(\<exists>e. p = Inl e) \<longrightarrow> policy_name (obj (preg g) (get_prefill_policy (preg g))) \<in> set total_policies \<longrightarrow>
        (\<forall>r\<in>set (pd_pool pd m True g). \<not> admits (wst g r))"
    using reach by blast
  show ?thesis
  proof (cases p)
    case (Inl e)
    then show ?thesis using p pool(1) by (auto simp: select_pd_pair_def Let_def)
  next
    case (Inr q)
    have refs1: "get_decode_policy (preg g) < length (objs (heap (preg g1)))"
      using refs(2) p(3) by (metis touches_def length_names)
    from pick_spec [OF p(2) mo(2) refs1, of rt "snd (pv_clocks env)" "pd_pool pd m False g" "txt" hs ?ring "''decode''"] obtain d g2 where
      d: "pick_worker_by_policy_arc rt (snd (pv_moments env)) (snd (pv_clocks env)) (pd_pool pd m False g) (get_decode_policy (preg g)) txt hs ?ring ''decode'' g1 =
          Some (d, g2)" "pr_ok (preg g2)" "wreg g2 = wreg g1" "\<forall>r. same_counts (wst g1 r) (wst g2 r)"
        "\<forall>r. admits (wst g1 r) \<longrightarrow> admits (wst g2 r)" "\<forall>r. d = Inr r \<longrightarrow> r \<in> set (pd_pool pd m False g) \<and> admits (wst g2 r)"
        "(\<exists>e. d = Inl e) \<longrightarrow> policy_name (obj (preg g1) (get_decode_policy (preg g))) \<in> set total_policies \<longrightarrow>
          (\<forall>r\<in>set (pd_pool pd m False g). \<not> admits (wst g1 r))"
      using reach by blast
    let ?res = "case d of Inl e \<Rightarrow> Inl e | Inr r \<Rightarrow> Inr (q, r)"
    have run: "select_pd_pair rt pd env txt m hs g = Some (?res, g2)"
      using p(1) d(1) Inr by (cases d) (simp_all add: select_pd_pair_def Let_def)
    have "\<forall>r. same_counts (wst g r) (wst g2 r)" using p(5) d(4) same_counts_trans by blast
    then show ?thesis
      using run d(2,3) p(4,6,7) d(5,6,7) Inr pool touches_names [OF p(3) refs(2)]
      by (intro exI [of _ ?res] exI [of _ g2] conjI) (auto split: sum.splits)
  qed
qed

section \<open>Accounting of one attempt\<close>

type_synonym told = "((u64 \<times> u64) \<times> bool) option"

text \<open>The two workers of a pair, each with its breaker told a verdict.\<close>

definition tells :: "wref \<Rightarrow> wref \<Rightarrow> told \<Rightarrow> told \<Rightarrow> wstore \<Rightarrow> wstore" where
  "tells p d vp vd st = st(p := breaker_map (tell vp) (st p), d := breaker_map (tell vd) (st d))"

definition stream_verdict :: "u64 \<times> u64 \<Rightarrow> status_code \<Rightarrow> stream_event list \<Rightarrow> told" where
  "stream_verdict now' status es =
     (if \<not> (is_success status \<or> is_client_error status) then Some (now', False)
      else case stream_end es of Completed \<Rightarrow> Some (now', True) | Errored \<Rightarrow> Some (now', False) | Active \<Rightarrow> None)"

text \<open>
  What the breakers of a prefill and a decode worker are told, from the two requests and what became
  of them: a failed prefill spares the decode worker, a failed decode the prefill worker.
\<close>

definition pd_verdict ::
    "pd_env \<Rightarrow> u64 \<times> u64 \<Rightarrow> stream_event list \<Rightarrow> header_map option \<Rightarrow> bool \<Rightarrow> string + (string \<times> json) \<times> (string \<times> json) \<Rightarrow> told \<times> told" where
  "pd_verdict env now' es hs is_stream prepared =
     (let now = pv_now env in
      case prepared of
        Inl e \<Rightarrow> (Some (now, False), if is_stream then None else Some (now, False))
      | Inr (pp, dd) \<Rightarrow>
          let prefill_result = pv_prefill env (build_post_with_headers pp hs False) in
          if prefill_failed prefill_result then (Some (now, answered_ok prefill_result), None)
          else
            case pv_decode env (build_post_with_headers dd hs False) of
              SendFailed e \<Rightarrow> (Some (now, True), Some (now, False))
            | Replied status hdrs body \<Rightarrow>
                if is_stream then (Some (now, True), stream_verdict now' status es)
                else if is_success status \<and> body = None then (Some (now, False), Some (now, False))
                else (Some (now, True), Some (now, is_success status \<or> is_client_error status)))"

lemma note_outcome_tell: "note_outcome now r b st = st(r := breaker_map (tell (Some (now, b))) (st r))"
  by (simp add: note_outcome_def record_outcome_map)

lemma tells_noted [simp]:
  assumes "p \<noteq> d"
  shows "note_outcome now p b (tells p d None vd st) = tells p d (Some (now, b)) vd st"
    "note_outcome now d b (tells p d vp None st) = tells p d vp (Some (now, b)) st" "tells p d None None st = st"
  using assms by (auto simp: note_outcome_tell tells_def fun_eq_iff)

lemma tells_both:
  assumes "p \<noteq> d"
  shows "note_outcome now p x (note_outcome now d y st) = tells p d (Some (now, x)) (Some (now, y)) st"
    "note_outcome now d y (note_outcome now p x st) = tells p d (Some (now, x)) (Some (now, y)) st"
  using tells_noted [OF assms] by metis+

lemma not_failed: "\<not> prefill_failed u \<Longrightarrow> answered_ok u" "\<not> prefill_failed u \<Longrightarrow> \<exists>x. process_prefill_response lb u b = Inr x"
  by (auto simp: prefill_failed_def answered_ok_def process_prefill_response_def split: upstream.splits)

lemma failed_client: "prefill_failed u \<Longrightarrow> (case u of Replied status hdrs body \<Rightarrow> is_client_error status | SendFailed e \<Rightarrow> False) = answered_ok u"
  by (auto simp: prefill_failed_def answered_ok_def split: upstream.splits)

definition no_stream :: "response \<Rightarrow> bool" where
  "no_stream resp \<longleftrightarrow> (case resp_body resp of StreamBody ts \<Rightarrow> False | _ \<Rightarrow> True)"

lemma no_stream_simps [simp]:
  "no_stream (create_error s c msg)" "no_stream (internal_error c msg)" "no_stream (bad_gateway c msg)" "no_stream (bad_request c msg)"
  "no_stream (not_found c msg)" "no_stream (service_unavailable c msg)" "no_stream (into_response s b)" "no_stream (error_by_status f c s msg)"
  by (simp_all add: no_stream_def internal_error_def bad_gateway_def bad_request_def not_found_def service_unavailable_def into_response_def
      error_by_status_def)

lemma no_stream_prefill: "process_prefill_response lb u b = Inl resp \<Longrightarrow> no_stream resp"
  by (auto simp: process_prefill_response_def Let_def split: upstream.splits if_splits)

lemma pd_finish_recorded [simp]: "pd_finish lb now es (resp\<lparr> pq_recorded := b \<rparr>) st = pd_finish lb now es resp st"
  by (cases resp) (simp add: pd_finish_def split: resp_body.split)

lemma finish_plain: "no_stream resp \<Longrightarrow> pd_finish lb now es ((plain resp)\<lparr> pq_recorded := b \<rparr>) st = st"
  by (auto simp: pd_finish_def plain_def no_stream_def drop_guards_def split: resp_body.splits)

text \<open>What the outer dispatcher does after the inner one.\<close>

definition settle :: "u64 \<times> u64 \<Rightarrow> bool \<Rightarrow> wref \<Rightarrow> wref \<Rightarrow> pd_response \<times> wstore \<Rightarrow> wstore" where
  "settle now is_stream p d res =
     (let resp = fst res; not_error = (is_success (resp_status (pq_resp resp)) \<or> is_client_error (resp_status (pq_resp resp))) in
      if pq_recorded resp then snd res
      else
        let st = note_outcome now p not_error (snd res) in
        if \<not> is_stream then note_outcome now d not_error st else st)"

lemma ok_statuses [simp]: "\<not> is_success 500" "\<not> is_client_error 500" "\<not> is_success 502" "\<not> is_client_error 502"
  by (simp_all add: is_success_def is_client_error_def)

lemma error_status_simps [simp]: "resp_status (internal_error c msg) = 500" "resp_status (bad_gateway c msg) = 502" "resp_status (into_response s b) = s"
  by (simp_all add: internal_error_def bad_gateway_def into_response_def)

lemma plain_eq [simp]: "plain a = plain b \<longleftrightarrow> a = b"
  by (simp add: plain_def)

lemma decode_error_recorded:
  assumes "\<not> px_is_stream ctx"
  shows "\<exists>resp. handle_decode_error_response lb status hdrs body ctx p d st = (plain resp, st) \<and> no_stream resp"
  using assms by (cases body) (simp_all add: handle_decode_error_response_def)

lemma decode_error_stream:
  assumes "px_is_stream ctx"
  shows "\<exists>src. handle_decode_error_response lb status hdrs body ctx p d st =
    create_streaming_response src status None (px_return_logprob ctx) (Some (preserve_response_headers hdrs)) p d st"
  unfolding handle_decode_error_response_def Let_def if_P [OF assms] by (rule exI, rule refl)

text \<open>The plain answer after two successes.\<close>

definition decode_answer :: "pd_libs \<Rightarrow> pd_context \<Rightarrow> status_code \<Rightarrow> header_map \<Rightarrow> string option \<Rightarrow> string option \<Rightarrow> response" where
  "decode_answer lb ctx status hdrs body prefill_body =
     (if px_return_logprob ctx then process_non_streaming_response lb status body (px_return_logprob ctx) prefill_body
      else case body of
        Some decode_body \<Rightarrow> \<lparr> resp_status = status, resp_headers = preserve_response_headers hdrs, resp_body = Bytes decode_body, resp_guard = None \<rparr>
      | None \<Rightarrow> internal_error ''read_response_failed'' ''Failed to read response'')"

lemma decode_answer_spec:
  "no_stream (decode_answer lb ctx status hdrs body pb)"
  "resp_status (decode_answer lb ctx status hdrs body pb) = (if body = None then 500 else status)"
  by (simp_all add: decode_answer_def process_non_streaming_response_def split: option.splits)
    (simp_all add: no_stream_def)

text \<open>A request that does not stream: the response is plain, and the breakers know the verdict.\<close>

lemma dispatch_plain:
  assumes ns: "\<not> px_is_stream ctx" and ne: "p \<noteq> d"
    and prep: "prepare_pd_worker_requests lb (px_route ctx) j (st p) (st d) = prepared"
    and hs': "hs' = Some (lb_trace lb (case hs of Some h \<Rightarrow> h | None \<Rightarrow> []))"
  shows "\<exists>resp b vp vd. dispatch_pair lb env hs j ctx p d st = ((plain resp)\<lparr> pq_recorded := b \<rparr>, tells p d vp vd st) \<and> no_stream resp \<and>
    (if b then (vp, vd) = pd_verdict env now' es hs' False prepared
     else vp = None \<and> vd = None \<and> (let ok = is_success (resp_status resp) \<or> is_client_error (resp_status resp) in
       pd_verdict env now' es hs' False prepared = (Some (pv_now env, ok), Some (pv_now env, ok))))"
proof (cases prepared)
  case (Inl e)
  then show ?thesis using prep ne
    by (intro exI [of _ "internal_error ''pd_request_preparation_failed'' e"] exI [of _ False] exI [of _ None])
      (simp add: dispatch_pair_def pd_verdict_def Let_def plain_def)
next
  case (Inr pp)
  obtain a b where pp: "pp = (a, b)" by (cases pp)
  let ?P = "pv_prefill env (build_post_with_headers a hs' False)" and ?D = "pv_decode env (build_post_with_headers b hs' False)"
  let ?now = "pv_now env"
  show ?thesis
  proof (cases "prefill_failed ?P")
    case True
    define resp where "resp = (case process_prefill_response lb ?P False of Inl r \<Rightarrow> r
      | Inr _ \<Rightarrow> bad_gateway ''prefill_server_error'' ''Prefill reported failure but returned a success response'')"
    have "no_stream resp" by (auto simp: resp_def no_stream_prefill split: sum.splits)
    moreover have "note_outcome ?now p (answered_ok ?P) st = tells p d (Some (?now, answered_ok ?P)) None st" using tells_noted [OF ne] by metis
    ultimately show ?thesis using prep Inr pp True failed_client [OF True] hs'
      by (intro exI [of _ resp] exI [of _ True] exI [of _ "Some (?now, answered_ok ?P)"] exI [of _ None])
        (simp add: dispatch_pair_def pd_verdict_def Let_def recorded_def resp_def plain_def)
  next
    case False
    have run: "dispatch_pair lb env hs j ctx p d st = process_decode lb ?now ctx p d ?P ?D st"
      using prep Inr pp False hs' by (simp add: dispatch_pair_def Let_def)
    note both = tells_both [OF ne]
    show ?thesis
    proof (cases ?D)
      case (SendFailed e)
      then show ?thesis using run Inr pp False both not_failed(1) [OF False]
        by (intro exI [of _ "bad_gateway ''decode_server_error'' (''Decode server error: '' @ re_message e)"] exI [of _ True]
            exI [of _ "Some (?now, True)"] exI [of _ "Some (?now, False)"])
          (simp add: process_decode_def pd_verdict_def Let_def recorded_def plain_def)
    next
      case (Replied status hdrs body)
      show ?thesis
      proof (cases "is_success status")
        case False': False
        obtain resp where "handle_decode_error_response lb status hdrs body ctx p d
            (tells p d (Some (?now, True)) (Some (?now, is_client_error status)) st) =
            (plain resp, tells p d (Some (?now, True)) (Some (?now, is_client_error status)) st)" "no_stream resp"
          using decode_error_recorded [OF ns] by blast
        then show ?thesis using run Inr pp False False' Replied ns both not_failed(1) [OF False]
          by (intro exI [of _ resp] exI [of _ True] exI [of _ "Some (?now, True)"] exI [of _ "Some (?now, is_client_error status)"])
            (simp add: process_decode_def pd_verdict_def Let_def recorded_def plain_def)
      next
        case True
        obtain s pb where "process_prefill_response lb ?P (px_return_logprob ctx) = Inr (s, pb)"
          using not_failed(2) [OF False, of lb "px_return_logprob ctx"] by (metis surj_pair)
        then have run': "dispatch_pair lb env hs j ctx p d st = (plain (decode_answer lb ctx status hdrs body pb), st)"
          using run Replied True ns by (simp add: process_decode_def decode_answer_def)
        show ?thesis using run' Inr pp False True Replied ne decode_answer_spec [of lb ctx status hdrs body pb]
          by (intro exI [of _ "decode_answer lb ctx status hdrs body pb"] exI [of _ False] exI [of _ None])
            (simp add: pd_verdict_def Let_def plain_def)
      qed
    qed
  qed
qed

text \<open>Guards on both workers, taken and dropped around any verdicts.\<close>

lemma guard_face:
  assumes "guard_new hs w = (k, w')"
  shows "url w' = url w" "base_url w' = base_url w" "is_dp_aware w' = is_dp_aware w" "dp_rank w' = dp_rank w" "prepare_request w' j = prepare_request w j"
proof -
  have w': "w' = snd (guard_new hs w)" using assms by simp
  show "url w' = url w" "base_url w' = base_url w" "is_dp_aware w' = is_dp_aware w" "dp_rank w' = dp_rank w" "prepare_request w' j = prepare_request w j"
    unfolding w' by (cases w; cases "extract_routing_key hs"; cases j;
        simp add: guard_new_def Let_def increment_load_def bw_increment_load_def url_def metadata_def)+
qed

lemma prepare_guarded:
  assumes "guard_new hs w = (k, w')" "guard_new hs v = (k', v')"
  shows "prepare_pd_worker_requests lb route j w' v' = prepare_pd_worker_requests lb route j w v"
  unfolding prepare_pd_worker_requests_def prepare_worker_request_def inject_prefill_dp_rank_for_decode_def worker_endpoint_url_def
    guard_face [OF assms(1)] guard_face [OF assms(2)] by (rule refl)

lemma guard_round:
  assumes "countable_load w" "guard_new hs w = (k, w')"
  shows "guard_drop k (breaker_map f w') = breaker_map f w"
  using guard_cancel(1) [OF assms] by (simp add: guard_drop_breaker)

lemma breaker_map_comp: "breaker_map f (breaker_map h w) = breaker_map (\<lambda>cb. f (h cb)) w"
  by (cases w) (simp_all add: breaker_map_def)

lemma countable_breaker [simp]: "countable_load (breaker_map f w) = countable_load w"
  using same_counts_countable [OF breaker_map_keeps(2)] by simp

lemma internal_plain:
  assumes ns: "\<not> px_is_stream ctx" and ne: "p \<noteq> d" and room: "countable_load (st p)" "countable_load (st d)"
    and prep: "prepare_pd_worker_requests lb (px_route ctx) j (st p) (st d) = prepared"
    and hs': "hs' = Some (lb_trace lb (case hs of Some h \<Rightarrow> h | None \<Rightarrow> []))"
  shows "\<exists>resp. fst (execute_dual_dispatch_internal lb env hs j ctx p d st) = resp \<and>
    pd_finish lb now' es resp (settle (pv_now env) False p d (execute_dual_dispatch_internal lb env hs j ctx p d st)) =
      (let v = pd_verdict env now' es hs' False prepared in tells p d (fst v) (snd v) st)"
proof -
  obtain kp wp where gp: "guard_new hs (st p) = (kp, wp)" by fastforce
  obtain kd wd where gd: "guard_new hs (st d) = (kd, wd)" by fastforce
  let ?st = "st(p := wp, d := wd)"
  have prep': "prepare_pd_worker_requests lb (px_route ctx) j (?st p) (?st d) = prepared"
    using prepare_guarded [OF gp gd] prep ne by simp
  from dispatch_plain [OF ns ne prep' hs', of env now' es] obtain resp b vp vd where
    r: "dispatch_pair lb env hs j ctx p d ?st = ((plain resp)\<lparr> pq_recorded := b \<rparr>, tells p d vp vd ?st)" "no_stream resp"
      "if b then (vp, vd) = pd_verdict env now' es hs' False prepared
       else vp = None \<and> vd = None \<and> (let ok = is_success (resp_status resp) \<or> is_client_error (resp_status resp) in
         pd_verdict env now' es hs' False prepared = (Some (pv_now env, ok), Some (pv_now env, ok)))" by blast
  have drop: "drop_guards [(d, kd), (p, kp)] (tells p d vp vd ?st) = tells p d vp vd st"
    using ne guard_round [OF room(1) gp] guard_round [OF room(2) gd] by (auto simp: drop_guards_def tells_def fun_eq_iff)
  have run: "execute_dual_dispatch_internal lb env hs j ctx p d st = ((plain resp)\<lparr> pq_recorded := b \<rparr>, tells p d vp vd st)"
    using ns ne gp gd r(1) drop by (simp add: execute_dual_dispatch_internal_def take_guard_def)
  show ?thesis
  proof (cases b)
    case True
    then have "pd_verdict env now' es hs' False prepared = (vp, vd)" using r(3) by simp
    then show ?thesis using run True finish_plain [OF r(2)] by (simp add: settle_def Let_def)
  next
    case False
    then show ?thesis using run r(2,3) finish_plain [OF r(2), of lb now' es False] tells_both [OF ne] ne
      by (simp add: settle_def Let_def plain_def)
  qed
qed

text \<open>A stream: it tells the decode worker how it ended, and dropping it restores the loads.\<close>

lemma stream_finish:
  assumes ne: "p \<noteq> d" and room: "countable_load (st p)" "countable_load (st d)"
    and made: "create_streaming_response src status lp rl hs p d st = (resp, st')"
  shows "pd_finish lb now' es (resp\<lparr> pq_recorded := b \<rparr>) (st'(p := breaker_map f (st' p))) =
    st(p := breaker_map f (st p), d := breaker_map (tell (stream_verdict now' status es)) (st d))"
proof -
  obtain kp wp where gp: "guard_new hs (st p) = (kp, wp)" by fastforce
  obtain kd wd where gd: "guard_new hs (st d) = (kd, wd)" by fastforce
  define ts where "ts = (if \<not> (is_success status \<or> is_client_error status) then mark_errored (tracked_new d) else tracked_new d)"
  have st': "st' = st(p := wp, d := wd)" and resp: "resp_body (pq_resp resp) = StreamBody ts" "pq_guards resp = [(p, kp), (d, kd)]"
    using made gp gd ne by (auto simp: create_streaming_response_def take_guard_def Let_def ts_def)
  have out: "ts_worker (snd (pump lb l es ts)) = d" "ts_terminal (snd (pump lb l es ts)) =
      (if \<not> (is_success status \<or> is_client_error status) then Errored else stream_end es)" for l
    using pump_terminal [of lb l es ts] by (auto simp: ts_def tracked_new_def mark_errored_def)
  have "tracked_drop now' (snd (pump lb l es ts)) st0 = st0(d := breaker_map (tell (stream_verdict now' status es)) (st0 d))" for l st0
    using out [of l] by (cases "stream_end es") (auto simp: tracked_drop_def stream_verdict_def record_outcome_map Let_def)
  then show ?thesis using resp st' ne guard_round [OF room(1) gp] guard_round [OF room(2) gd]
    by (auto simp: pd_finish_def drop_guards_def fun_eq_iff)
qed

lemma internal_stream:
  assumes s: "px_is_stream ctx" and ne: "p \<noteq> d" and room: "countable_load (st p)" "countable_load (st d)"
    and prep: "prepare_pd_worker_requests lb (px_route ctx) j (st p) (st d) = prepared"
    and hs': "hs' = Some (lb_trace lb (case hs of Some h \<Rightarrow> h | None \<Rightarrow> []))"
  shows "\<exists>resp. fst (execute_dual_dispatch_internal lb env hs j ctx p d st) = resp \<and>
    pd_finish lb now' es resp (settle (pv_now env) True p d (execute_dual_dispatch_internal lb env hs j ctx p d st)) =
      (let v = pd_verdict env now' es hs' True prepared in tells p d (fst v) (snd v) st)"
proof (cases prepared)
  case (Inl e)
  then show ?thesis using prep s tells_noted [OF ne] finish_plain [of _ lb now' es False]
    by (simp add: execute_dual_dispatch_internal_def dispatch_pair_def pd_verdict_def settle_def Let_def plain_def note_outcome_tell tells_def fun_upd_twist [OF ne])
next
  case (Inr pp)
  obtain a b where pp: "pp = (a, b)" by (cases pp)
  let ?P = "pv_prefill env (build_post_with_headers a hs' False)" and ?D = "pv_decode env (build_post_with_headers b hs' False)"
  let ?now = "pv_now env"
  have run: "execute_dual_dispatch_internal lb env hs j ctx p d st = (if prefill_failed ?P then
      recorded (plain (case process_prefill_response lb ?P False of Inl r \<Rightarrow> r
        | Inr _ \<Rightarrow> bad_gateway ''prefill_server_error'' ''Prefill reported failure but returned a success response''),
        note_outcome ?now p (answered_ok ?P) st) else process_decode lb ?now ctx p d ?P ?D st)"
    using prep Inr pp s hs' failed_client [of ?P] by (simp add: execute_dual_dispatch_internal_def dispatch_pair_def Let_def)
  show ?thesis
  proof (cases "prefill_failed ?P")
    case True
    define resp where "resp = (case process_prefill_response lb ?P False of Inl r \<Rightarrow> r
      | Inr _ \<Rightarrow> bad_gateway ''prefill_server_error'' ''Prefill reported failure but returned a success response'')"
    have "no_stream resp" by (auto simp: resp_def no_stream_prefill split: sum.splits)
    then show ?thesis using run True Inr pp finish_plain [of resp lb now' es True]
      by (simp add: resp_def [symmetric] recorded_def settle_def pd_verdict_def Let_def note_outcome_tell tells_def fun_upd_twist [OF ne] ne)
  next
    case False
    note ok = not_failed(1) [OF False]
    show ?thesis
    proof (cases ?D)
      case (SendFailed e)
      then show ?thesis using run False ok Inr pp ne finish_plain [of "bad_gateway ''decode_server_error'' (''Decode server error: '' @ re_message e)" lb now' es True]
        by (simp add: process_decode_def recorded_def settle_def pd_verdict_def Let_def note_outcome_tell tells_def fun_upd_twist [OF ne])
    next
      case (Replied status hdrs body)
      show ?thesis
      proof (cases "is_success status")
        case True
        obtain sx pb where pb: "process_prefill_response lb ?P (px_return_logprob ctx) = Inr (sx, pb)"
          using not_failed(2) [OF False, of lb "px_return_logprob ctx"] by (metis surj_pair)
        let ?lp = "if px_return_logprob ctx then Option.bind (Option.bind pb (lb_parse lb)) pointer_logprobs else None"
        obtain resp st' where made: "create_streaming_response None status ?lp (px_return_logprob ctx) (Some (preserve_response_headers hdrs)) p d st = (resp, st')"
          by fastforce
        then have "resp_status (pq_resp resp) = status" "pq_recorded resp = False" by (auto simp: create_streaming_response_def split_beta Let_def)
        then show ?thesis using run False Inr pp Replied True pb s made stream_finish [OF ne room made, of lb now' es False "tell (Some (?now, True))"]
          by (simp add: process_decode_def settle_def pd_verdict_def Let_def note_outcome_tell tells_def ne)
      next
        case False': False
        let ?st = "st(p := breaker_map (tell (Some (?now, True))) (st p))"
        obtain resp st' where made1: "handle_decode_error_response lb status hdrs body ctx p d ?st = (resp, st')" by (rule prod.exhaust)
        then obtain src where made2: "create_streaming_response src status None (px_return_logprob ctx) (Some (preserve_response_headers hdrs)) p d ?st = (resp, st')"
          using decode_error_stream [OF s] by metis
        note made = made1 made2
        have room': "countable_load (?st p)" "countable_load (?st d)" using room ne by simp_all
        show ?thesis using run False Inr pp Replied False' s made(1) ok stream_finish [OF ne room' made(2), of lb now' es True "\<lambda>cb. cb"]
          by (simp add: process_decode_def settle_def recorded_def pd_verdict_def Let_def note_outcome_tell tells_def ne ne [symmetric])
      qed
    qed
  qed
qed

text \<open>What the two workers are sent.\<close>

definition pd_prepared ::
    "pd_libs \<Rightarrow> pd_env \<Rightarrow> pd_context \<Rightarrow> (string \<times> json) list \<Rightarrow> worker \<Rightarrow> worker \<Rightarrow> string + (string \<times> json) \<times> (string \<times> json)" where
  "pd_prepared lb env ctx m prefill decode =
     (case inject_bootstrap_into_value (pv_random env) (JObject m) prefill (px_batch_size ctx) of
        Inl e \<Rightarrow> Inl e
      | Inr j \<Rightarrow> prepare_pd_worker_requests lb (px_route ctx) j prefill decode)"

definition traced :: "pd_libs \<Rightarrow> header_map option \<Rightarrow> header_map option" where
  "traced lb hs = Some (lb_trace lb (case hs of Some h \<Rightarrow> h | None \<Rightarrow> []))"

lemma inject_object: "\<exists>m'. inject_bootstrap_into_value random (JObject m) w n = Inr (JObject m')"
  by (cases n) (simp_all add: inject_bootstrap_into_value.simps Let_def)

lemma inject_no_object: "\<forall>m. j \<noteq> JObject m \<Longrightarrow> inject_bootstrap_into_value random j w n = Inl ''Request must be a JSON object''"
  by (cases j) (simp_all add: inject_bootstrap_into_value.simps)

lemma attempt_settles:
  assumes sel: "select_pd_pair rt pd env (px_request_text ctx) (px_model_id ctx) (px_headers ctx) g = Some (Inr (p, d), g1)"
    and ne: "p \<noteq> d" and room: "countable_load (wst g1 p)" "countable_load (wst g1 d)"
  shows "\<exists>resp g'. dual_dispatch_attempt lb rt pd env hs (Some (JObject m)) ctx g = Some (resp, g') \<and> preg g' = preg g1 \<and> wreg g' = wreg g1 \<and>
    (\<forall>now' es. pd_finish lb now' es resp (wst g') =
      (let v = pd_verdict env now' es (traced lb hs) (px_is_stream ctx) (pd_prepared lb env ctx m (wst g1 p) (wst g1 d)) in
       tells p d (fst v) (snd v) (wst g1)))"
proof -
  obtain m' where j: "inject_bootstrap_into_value (pv_random env) (JObject m) (wst g1 p) (px_batch_size ctx) = Inr (JObject m')"
    using inject_object by blast
  let ?res = "execute_dual_dispatch_internal lb env hs (JObject m') ctx p d (wst g1)"
  have run: "dual_dispatch_attempt lb rt pd env hs (Some (JObject m)) ctx g =
      Some (fst ?res, g1\<lparr> wst := settle (pv_now env) (px_is_stream ctx) p d ?res \<rparr>)"
    using sel j by (simp add: dual_dispatch_attempt_def settle_def split_beta Let_def)
  have prep: "prepare_pd_worker_requests lb (px_route ctx) (JObject m') (wst g1 p) (wst g1 d) = pd_prepared lb env ctx m (wst g1 p) (wst g1 d)"
    using j by (simp add: pd_prepared_def)
  have "pd_finish lb now' es (fst ?res) (settle (pv_now env) (px_is_stream ctx) p d ?res) =
      (let v = pd_verdict env now' es (traced lb hs) (px_is_stream ctx) (pd_prepared lb env ctx m (wst g1 p) (wst g1 d)) in
       tells p d (fst v) (snd v) (wst g1))" for now' es
  proof (cases "px_is_stream ctx")
    case True
    then show ?thesis using internal_stream [OF True ne room prep traced_def] by auto
  next
    case False
    then show ?thesis using internal_plain [OF False ne room prep traced_def] by auto
  qed
  then show ?thesis using run by auto
qed

text \<open>Every JSON object can be prepared for every pair.\<close>

lemma room_range: "0 \<le> uint (generate_room_id r)" "uint (generate_room_id r) < 2 ^ 63"
proof -
  have "generate_room_id r = take_bit 63 r" unfolding generate_room_id_def take_bit_eq_mask mask_eq_exp_minus_1 by (rule refl)
  then have "uint (generate_room_id r) = take_bit 63 (uint r)" by (simp add: unsigned_take_bit_eq)
  then show "uint (generate_room_id r) < 2 ^ 63" using take_bit_int_less_exp [of 63 "uint r"] by simp
qed simp

text \<open>The fields that bring the two workers together, and the rank each of them is to run on.\<close>

definition bootstrap_fields :: "pd_env \<Rightarrow> pd_context \<Rightarrow> worker \<Rightarrow> (string \<times> json) list \<Rightarrow> (string \<times> json) list" where
  "bootstrap_fields env ctx p m =
     (case px_batch_size ctx of
        None \<Rightarrow>
          map_insert ''bootstrap_room'' (JNumber (uint (generate_room_id (pv_random env 0))))
            (map_insert ''bootstrap_port'' (port_value (bootstrap_port p)) (map_insert ''bootstrap_host'' (JString (bootstrap_host p)) m))
      | Some n \<Rightarrow>
          map_insert ''bootstrap_room'' (JArray (map (\<lambda>i. JNumber (uint (generate_room_id (pv_random env i)))) [0..<n]))
            (map_insert ''bootstrap_port'' (JArray (replicate n (port_value (bootstrap_port p))))
              (map_insert ''bootstrap_host'' (JArray (replicate n (JString (bootstrap_host p)))) m)))"

definition rank_field :: "string \<Rightarrow> worker \<Rightarrow> (string \<times> json) list \<Rightarrow> (string \<times> json) list" where
  "rank_field k w m = (case dp_rank w of Some r \<Rightarrow> map_insert k (JNumber (int r)) m | None \<Rightarrow> m)"

lemma prepare_object:
  "prepare_worker_request lb route w (JObject m) = Inr (api_path (base_url w) route, JObject (rank_field ''data_parallel_rank'' w m))"
  by (cases w) (simp_all add: prepare_worker_request_def worker_endpoint_url_def rank_field_def)

lemma prepared_object:
  "pd_prepared lb env ctx m p d =
     Inr ((api_path (base_url p) (px_route ctx), JObject (rank_field ''data_parallel_rank'' p (bootstrap_fields env ctx p m))),
          (api_path (base_url d) (px_route ctx), JObject (rank_field ''data_parallel_rank'' d (rank_field ''disagg_prefill_dp_rank'' p (bootstrap_fields env ctx p m)))))"
proof -
  have "inject_bootstrap_into_value (pv_random env) (JObject m) p (px_batch_size ctx) = Inr (JObject (bootstrap_fields env ctx p m))"
    by (cases "px_batch_size ctx") (simp_all add: inject_bootstrap_into_value.simps bootstrap_fields_def Let_def)
  moreover have "inject_prefill_dp_rank_for_decode (JObject m') p = Inr (JObject (rank_field ''disagg_prefill_dp_rank'' p m'))" for m'
    by (cases "dp_rank p") (simp_all add: inject_prefill_dp_rank_for_decode_def rank_field_def)
  ultimately show ?thesis by (simp add: pd_prepared_def prepare_pd_worker_requests_def prepare_object)
qed

section \<open>Properties\<close>

text \<open>
  C39: choice of a pair.  In every consistent state the choice returns, and changes no load; a chosen
  pair is a registered prefill and a registered decode worker, of the model where models are
  told apart, both healthy and admitted by their breakers; and with policies that look at availability
  there is a pair whenever each pool has an admitted worker.
\<close>

theorem pd_pair_available:
  assumes "pr_ok (preg g)" "reg_rel b u (wst g) es (wreg g)" "moment_ok (fst (pv_moments env))" "moment_ok (snd (pv_moments env))"
  shows "\<exists>res g'. select_pd_pair rt pd env txt m hs g = Some (res, g') \<and> pr_ok (preg g') \<and> (\<forall>r. same_counts (wst g r) (wst g' r)) \<and>
    (\<forall>p d. res = Inr (p, d) \<longrightarrow> p \<noteq> d \<and> p \<in> snd ` set es \<and> d \<in> snd ` set es \<and> pool_worker u pd m True (wst g p) \<and>
       pool_worker u pd m False (wst g d) \<and> admits (wst g' p) \<and> admits (wst g' d)) \<and>
    ((\<exists>e. res = Inl e) \<longrightarrow>
       policy_name (obj (preg g) (get_prefill_policy (preg g))) \<in> set total_policies \<longrightarrow>
       policy_name (obj (preg g) (get_decode_policy (preg g))) \<in> set total_policies \<longrightarrow>
       \<not> ((\<exists>r\<in>snd ` set es. pool_worker u pd m True (wst g r) \<and> admits (wst g r)) \<and>
          (\<exists>r\<in>snd ` set es. pool_worker u pd m False (wst g r) \<and> admits (wst g r))))"
proof -
  have "p \<noteq> d" if "pool_worker u pd m True (wst g p)" "pool_worker u pd m False (wst g d)" for p d
    using that by (auto simp: pool_worker_def is_prefill_def)
  then show ?thesis using select_pair_spec [OF assms, of rt pd "txt" m hs] by blast
qed

text \<open>Which answers the verdicts come from.\<close>

lemma verdict_attribution:
  assumes "pd_verdict env now' es hs is_stream (Inr (pp, dd)) = (vp, vd)"
  shows "vp = Some (pv_now env, True) \<or> prefill_failed (pv_prefill env (build_post_with_headers pp hs False)) \<or>
      \<not> is_stream \<and> (\<exists>status hdrs. pv_decode env (build_post_with_headers dd hs False) = Replied status hdrs None \<and> is_success status)"
    "prefill_failed (pv_prefill env (build_post_with_headers pp hs False)) \<Longrightarrow> vd = None"
  using assms by (auto simp: pd_verdict_def Let_def split: if_splits upstream.splits)

text \<open>
  C11: accounting.  One attempt for a chosen pair, followed by whatever becomes of the body of the
  response, changes nothing but the two breakers: loads and routing keys are as they were after the pair
  was chosen, and each breaker was told at most one verdict.  After a failed prefill request the breaker of the
  decode worker is told nothing.  The breaker of the prefill worker is told a success unless its own
  request failed or, for a request that does not stream, the body of a successful decode answer could
  not be read: in that one case a failure is recorded against both workers although only
  the decode worker is at fault.
\<close>

theorem pd_attempt_accounts:
  assumes "pr_ok (preg g)" "reg_rel b u (wst g) ws (wreg g)" "moment_ok (fst (pv_moments env))" "moment_ok (snd (pv_moments env))"
    and "\<forall>r. countable_load (wst g r)"
    and sel: "select_pd_pair rt pd env (px_request_text ctx) (px_model_id ctx) (px_headers ctx) g = Some (Inr (p, d), g1)"
  shows "\<exists>resp g' pp dd. dual_dispatch_attempt lb rt pd env hs (Some (JObject m)) ctx g = Some (resp, g') \<and>
    pd_prepared lb env ctx m (wst g1 p) (wst g1 d) = Inr (pp, dd) \<and>
    (let v = pd_verdict env now' es (traced lb hs) (px_is_stream ctx) (Inr (pp, dd));
         prefill_result = pv_prefill env (build_post_with_headers pp (traced lb hs) False);
         decode_result = pv_decode env (build_post_with_headers dd (traced lb hs) False) in
     pd_finish lb now' es resp (wst g') = (wst g1)(p := breaker_map (tell (fst v)) (wst g1 p), d := breaker_map (tell (snd v)) (wst g1 d)) \<and>
     (prefill_failed prefill_result \<longrightarrow> snd v = None) \<and>
     (fst v = Some (pv_now env, True) \<or> prefill_failed prefill_result \<or>
      \<not> px_is_stream ctx \<and> (\<exists>status hdrs. decode_result = Replied status hdrs None \<and> is_success status)))"
proof -
  from select_pair_spec [OF assms(1-4), of rt pd "px_request_text ctx" "px_model_id ctx" "px_headers ctx"] have
    c: "\<forall>r. same_counts (wst g r) (wst g1 r)" "pool_worker u pd (px_model_id ctx) True (wst g p)"
      "pool_worker u pd (px_model_id ctx) False (wst g d)" using sel by auto
  have "p \<noteq> d" using c(2,3) by (auto simp: pool_worker_def is_prefill_def)
  moreover have "countable_load (wst g1 r)" for r using same_counts_countable c(1) assms(5) by blast
  ultimately obtain resp g' where
    r: "dual_dispatch_attempt lb rt pd env hs (Some (JObject m)) ctx g = Some (resp, g')"
      "let v = pd_verdict env now' es (traced lb hs) (px_is_stream ctx) (pd_prepared lb env ctx m (wst g1 p) (wst g1 d)) in
       pd_finish lb now' es resp (wst g') = (wst g1)(p := breaker_map (tell (fst v)) (wst g1 p), d := breaker_map (tell (snd v)) (wst g1 d))"
    using attempt_settles [OF sel, of lb hs m] unfolding tells_def Let_def by blast
  obtain pp dd where prep: "pd_prepared lb env ctx m (wst g1 p) (wst g1 d) = Inr (pp, dd)" using prepared_object by blast
  show ?thesis
    using r prep verdict_attribution [of env now' es "traced lb hs" "px_is_stream ctx" pp dd, OF prod.collapse [symmetric]]
    by (intro exI [of _ resp] exI [of _ g'] exI [of _ pp] exI [of _ dd]) (simp add: Let_def)
qed

text \<open>A pair of workers, registered one after the other.\<close>

definition sample_typed :: "worker_type \<Rightarrow> string \<Rightarrow> worker" where
  "sample_typed t u = Basic (build (\<lambda>u. None) 0 ((builder_new u)\<lparr> bb_worker_type := t \<rparr>))"

definition sample_pair_store :: wstore where
  "sample_pair_store r = (if r = 0 then sample_typed (Prefill (Some 9000)) ''http://p'' else sample_typed Decode ''http://d'')"

definition sample_pd_gateway :: gateway where
  "sample_pd_gateway = \<lparr> wst = sample_pair_store,
     wreg = snd (register (\<lambda>b. b) ''unknown'' ''j'' sample_pair_store 1 (snd (register (\<lambda>b. b) ''unknown'' ''i'' sample_pair_store 0 worker_registry_new))),
     preg = policy_registry_new (\<lambda>f. None) 0 PC_RoundRobin heap_empty \<rparr>"

definition sample_pd :: pd_router where
  "sample_pd = \<lparr> pd_enable_igw = False, pd_retry_config = retry_config_default \<rparr>"

definition sample_pd_env :: pd_env where
  "sample_pd_env = \<lparr> pv_moments = (ae_moment sample_env, ae_moment sample_env), pv_clocks = (\<lambda>r. (0, 0), \<lambda>r. (0, 0)), pv_now = (0, 0),
     pv_random = (\<lambda>i. of_nat i), pv_prefill = (\<lambda>req. Replied 200 [] (Some ''ok'')), pv_decode = (\<lambda>req. SendFailed \<lparr> re_status = None, re_kinds = {}, re_message = [] \<rparr>), pv_dropped = [] \<rparr>"

definition sample_libs :: pd_libs where
  "sample_libs = \<lparr> lb_show_status = (\<lambda>s. []), lb_parse = (\<lambda>s. None), lb_print = (\<lambda>j. []), lb_utf8 = (\<lambda>s. True), lb_lossy = (\<lambda>s. s), lb_trim = (\<lambda>s. s),
     lb_read_error = [], lb_worker_error = (\<lambda>e. []), lb_trace = (\<lambda>h. h) \<rparr>"

lemma sample_typed_checks:
  "admits (sample_typed t u)" "countable_load (sample_typed t u)" "get_worker_type (sample_typed t u) = t" "url (sample_typed t u) = u"
  by (simp_all add: sample_typed_def admits_def countable_load_def get_load_def get_routing_key_load_def is_healthy_def get_worker_type_def
      metadata_def build_def builder_new_def builder_new_with_type_def url_def
      routing_key_load_new_def with_config_and_label_def from_int_def STATE_CLOSED_def STATE_OPEN_def STATE_HALF_OPEN_def Let_def)

lemma sample_pd_registered:
  "reg_rel (\<lambda>b. b) ''unknown'' (wst sample_pd_gateway) [(''i'', 0), (''j'', 1)] (wreg sample_pd_gateway)"
proof -
  let ?b = "\<lambda>b :: nat list. b" and ?u = "''unknown''" and ?st = sample_pair_store
  let ?r1 = "register (\<lambda>b. b) ?u ''i'' ?st 0 worker_registry_new"
  let ?r2 = "register (\<lambda>b. b) ?u ''j'' ?st 1 (snd ?r1)"
  have id1: "fst (fst ?r1) = ''i''" and urls1: "url_to_id (snd ?r1) = [(''http://p'', ''i'')]"
    by (simp_all add: register_fields worker_registry_new_def sample_pair_store_def sample_typed_checks)
  have rel1: "reg_rel (\<lambda>b. b) ?u ?st [(''i'', 0)] (snd ?r1)"
    using reg_rel_register [OF reg_rel_new, of ?st 0 "''i''" "\<lambda>b. b" ?u] id1 by (simp add: worker_registry_new_def)
  have id2: "fst (fst ?r2) = ''j''" by (simp add: register_fields(1) urls1 sample_pair_store_def sample_typed_checks)
  have "reg_rel (\<lambda>b. b) ?u ?st ([(''i'', 0)] @ [(fst (fst ?r2), 1)]) (snd ?r2)"
    by (rule reg_rel_register [OF rel1]) (simp_all add: urls1 sample_pair_store_def sample_typed_checks)
  then show ?thesis unfolding id2 by (simp add: sample_pd_gateway_def)
qed

lemma sample_pd_ok:
  "pr_ok (preg sample_pd_gateway)" "moment_ok (fst (pv_moments sample_pd_env))" "moment_ok (snd (pv_moments sample_pd_env))"
  "\<forall>r. countable_load (wst sample_pd_gateway r)"
  using policy_registry_new_ok [of heap_empty] sample_gateway_ok(2)
  by (simp_all add: sample_pd_gateway_def sample_pd_env_def sample_pair_store_def sample_typed_checks heap_ok_def heap_empty_def)

lemma sample_pd_policy:
  "policy_name (obj (preg sample_pd_gateway) (get_prefill_policy (preg sample_pd_gateway))) \<in> set total_policies"
  "policy_name (obj (preg sample_pd_gateway) (get_decode_policy (preg sample_pd_gateway))) \<in> set total_policies"
  by (simp_all add: sample_pd_gateway_def policy_registry_new_def get_prefill_policy_def get_decode_policy_def get_default_policy_def
      alloc_def heap_empty_def total_policies_def)

lemma sample_pool: "pool_worker ''unknown'' sample_pd m True (wst sample_pd_gateway r) \<longleftrightarrow> r = 0"
  "pool_worker ''unknown'' sample_pd m False (wst sample_pd_gateway r) \<longleftrightarrow> r \<noteq> 0"
  by (simp_all add: pool_worker_def sample_pd_def sample_pd_gateway_def sample_pair_store_def sample_typed_checks is_prefill_def)

lemma sample_pair_selected:
  "\<exists>g'. select_pd_pair sample_runtime sample_pd sample_pd_env None None None sample_pd_gateway = Some (Inr (0, 1), g') \<and> pr_ok (preg g')"
proof -
  from select_pair_spec [OF sample_pd_ok(1) sample_pd_registered sample_pd_ok(2,3), of sample_runtime sample_pd None None None] obtain res g' where
    r: "select_pd_pair sample_runtime sample_pd sample_pd_env None None None sample_pd_gateway = Some (res, g')" "pr_ok (preg g')"
      "\<forall>p d. res = Inr (p, d) \<longrightarrow> p \<in> snd ` set [(''i'', 0), (''j'', 1 :: wref)] \<and> d \<in> snd ` set [(''i'', 0), (''j'', 1 :: wref)] \<and>
        pool_worker ''unknown'' sample_pd None True (wst sample_pd_gateway p) \<and> pool_worker ''unknown'' sample_pd None False (wst sample_pd_gateway d)"
      "(\<exists>e. res = Inl e) \<longrightarrow> \<not> ((\<exists>r\<in>snd ` set [(''i'', 0), (''j'', 1 :: wref)]. pool_worker ''unknown'' sample_pd None True (wst sample_pd_gateway r) \<and> admits (wst sample_pd_gateway r)) \<and>
          (\<exists>r\<in>snd ` set [(''i'', 0), (''j'', 1 :: wref)]. pool_worker ''unknown'' sample_pd None False (wst sample_pd_gateway r) \<and> admits (wst sample_pd_gateway r)))"
    using sample_pd_policy by blast
  have adm: "admits (wst sample_pd_gateway r)" for r by (simp add: sample_pd_gateway_def sample_pair_store_def sample_typed_checks)
  have "\<nexists>e. res = Inl e" using r(4) adm sample_pool by auto
  then obtain p d where "res = Inr (p, d)" by (cases res) auto
  moreover have "p = 0" "d = 1" using r(3) calculation sample_pool by auto
  ultimately show ?thesis using r(1,2) by simp
qed

theorem pd_pair_available_witness:
  "\<exists>g'. select_pd_pair sample_runtime sample_pd sample_pd_env None None None sample_pd_gateway = Some (Inr (0, 1), g') \<and>
    admits (wst g' 0) \<and> admits (wst g' 1)"
proof -
  obtain g' where g': "select_pd_pair sample_runtime sample_pd sample_pd_env None None None sample_pd_gateway = Some (Inr (0, 1), g')"
    using sample_pair_selected by blast
  from pd_pair_available [OF sample_pd_ok(1) sample_pd_registered sample_pd_ok(2,3), of sample_runtime sample_pd None None None]
  show ?thesis unfolding g' by auto
qed

definition sample_pd_context :: pd_context where
  "sample_pd_context = \<lparr> px_route = ''/generate'', px_batch_size = None, px_is_stream = False, px_return_logprob = False, px_request_text = None,
     px_model_id = None, px_headers = None \<rparr>"

theorem pd_attempt_accounts_witness:
  "\<exists>resp g' (g1 :: gateway). dual_dispatch_attempt sample_libs sample_runtime sample_pd sample_pd_env None (Some (JObject [])) sample_pd_context sample_pd_gateway = Some (resp, g') \<and>
    pd_finish sample_libs (5, 5) [] resp (wst g') =
      (wst g1)(0 := breaker_map (record_outcome 0 0 True) (wst g1 0), 1 := breaker_map (record_outcome 0 0 False) (wst g1 1))"
proof -
  obtain g1 where sel: "select_pd_pair sample_runtime sample_pd sample_pd_env (px_request_text sample_pd_context) (px_model_id sample_pd_context)
      (px_headers sample_pd_context) sample_pd_gateway = Some (Inr (0, 1), g1)"
    using sample_pair_selected by (auto simp: sample_pd_context_def)
  have v: "pd_verdict sample_pd_env (5, 5) [] (traced sample_libs None) (px_is_stream sample_pd_context) (Inr (pp, dd)) =
      (Some ((0, 0), True), Some ((0, 0), False))" for pp dd
    by (simp add: pd_verdict_def sample_pd_env_def prefill_failed_def is_success_def Let_def)
  show ?thesis
    using pd_attempt_accounts [OF sample_pd_ok(1) sample_pd_registered sample_pd_ok(2,3,4) sel, of sample_libs None "[]" "(5, 5)" "[]"]
    unfolding v Let_def fst_conv snd_conv tell_simps by blast
qed

lemma get_rank_field:
  "map_get (rank_field k w m) k' = (if k' = k \<and> dp_rank w \<noteq> None then Some (JNumber (int (the (dp_rank w)))) else map_get m k')"
  by (simp add: rank_field_def split: option.split)

lemma get_bootstrap_other:
  "k \<notin> {''bootstrap_host'', ''bootstrap_port'', ''bootstrap_room''} \<Longrightarrow> map_get (bootstrap_fields env ctx p m) k = map_get m k"
  by (simp add: bootstrap_fields_def split: option.split)

text \<open>
  C15: rendezvous.  For every request that is a JSON object and every pair, both workers are sent the
  request at their own base URL with the bootstrap host and port of the prefill worker (null when it
  has none) and the same rooms, each below \<open>2 ^ 63\<close>: one value each, or for a batch an array with
  one element per element of the batch.  The rank of a data-parallel prefill worker is sent to it, and to
  the decode worker as the rank to fetch from; the rank of a data-parallel decode worker is sent to it.
  Every other field is as the client sent it, the rank fields too where a worker has no rank.
\<close>

theorem pd_rendezvous:
  "\<exists>mp md rooms. pd_prepared lb env ctx m p d =
      Inr ((api_path (base_url p) (px_route ctx), JObject mp), (api_path (base_url d) (px_route ctx), JObject md)) \<and>
    list_all (\<lambda>x. 0 \<le> x \<and> x < 2 ^ 63) rooms \<and>
    (\<forall>body\<in>{mp, md}. case px_batch_size ctx of
       None \<Rightarrow> length rooms = 1 \<and> map_get body ''bootstrap_room'' = Some (JNumber (hd rooms)) \<and>
         map_get body ''bootstrap_host'' = Some (JString (bootstrap_host p)) \<and>
         map_get body ''bootstrap_port'' = Some (case bootstrap_port p of Some v \<Rightarrow> JNumber (uint v) | None \<Rightarrow> JNull)
     | Some n \<Rightarrow> length rooms = n \<and> map_get body ''bootstrap_room'' = Some (JArray (map JNumber rooms)) \<and>
         map_get body ''bootstrap_host'' = Some (JArray (replicate n (JString (bootstrap_host p)))) \<and>
         map_get body ''bootstrap_port'' =
           Some (JArray (replicate n (case bootstrap_port p of Some v \<Rightarrow> JNumber (uint v) | None \<Rightarrow> JNull)))) \<and>
    (\<forall>k. k \<notin> {''bootstrap_host'', ''bootstrap_port'', ''bootstrap_room''} \<longrightarrow>
       map_get mp k = (if k = ''data_parallel_rank'' \<and> dp_rank p \<noteq> None then Some (JNumber (int (the (dp_rank p)))) else map_get m k) \<and>
       map_get md k =
         (if k = ''data_parallel_rank'' \<and> dp_rank d \<noteq> None then Some (JNumber (int (the (dp_rank d))))
          else if k = ''disagg_prefill_dp_rank'' \<and> dp_rank p \<noteq> None then Some (JNumber (int (the (dp_rank p)))) else map_get m k))"
proof -
  let ?m = "bootstrap_fields env ctx p m"
  let ?mp = "rank_field ''data_parallel_rank'' p ?m" and ?md = "rank_field ''data_parallel_rank'' d (rank_field ''disagg_prefill_dp_rank'' p ?m)"
  let ?rooms = "map (\<lambda>i. uint (generate_room_id (pv_random env i))) [0..<(case px_batch_size ctx of Some n \<Rightarrow> n | None \<Rightarrow> 1)]"
  have same: "map_get body k = map_get ?m k" if "body \<in> {?mp, ?md}" "k \<in> {''bootstrap_host'', ''bootstrap_port'', ''bootstrap_room''}" for body k
    using that by (auto simp: get_rank_field)
  show ?thesis
  proof (intro exI conjI ballI allI impI)
    show "pd_prepared lb env ctx m p d =
        Inr ((api_path (base_url p) (px_route ctx), JObject ?mp), (api_path (base_url d) (px_route ctx), JObject ?md))" by (rule prepared_object)
    show "list_all (\<lambda>x. 0 \<le> x \<and> x < 2 ^ 63) ?rooms" using room_range by (simp add: list_all_iff)
    show "case px_batch_size ctx of
        None \<Rightarrow> length ?rooms = 1 \<and> map_get body ''bootstrap_room'' = Some (JNumber (hd ?rooms)) \<and>
          map_get body ''bootstrap_host'' = Some (JString (bootstrap_host p)) \<and>
          map_get body ''bootstrap_port'' = Some (case bootstrap_port p of Some v \<Rightarrow> JNumber (uint v) | None \<Rightarrow> JNull)
      | Some n \<Rightarrow> length ?rooms = n \<and> map_get body ''bootstrap_room'' = Some (JArray (map JNumber ?rooms)) \<and>
          map_get body ''bootstrap_host'' = Some (JArray (replicate n (JString (bootstrap_host p)))) \<and>
          map_get body ''bootstrap_port'' =
            Some (JArray (replicate n (case bootstrap_port p of Some v \<Rightarrow> JNumber (uint v) | None \<Rightarrow> JNull)))"
      if "body \<in> {?mp, ?md}" for body
      using same [OF that] by (simp add: bootstrap_fields_def port_value_def comp_def split: option.split)
    fix k assume k: "k \<notin> {''bootstrap_host'', ''bootstrap_port'', ''bootstrap_room''}"
    show "map_get ?mp k = (if k = ''data_parallel_rank'' \<and> dp_rank p \<noteq> None then Some (JNumber (int (the (dp_rank p)))) else map_get m k)"
      unfolding get_rank_field get_bootstrap_other [OF k] ..
    show "map_get ?md k =
         (if k = ''data_parallel_rank'' \<and> dp_rank d \<noteq> None then Some (JNumber (int (the (dp_rank d))))
          else if k = ''disagg_prefill_dp_rank'' \<and> dp_rank p \<noteq> None then Some (JNumber (int (the (dp_rank p)))) else map_get m k)"
      unfolding get_rank_field get_bootstrap_other [OF k] ..
  qed
qed

theorem pd_rendezvous_witness:
  "\<exists>mp md. pd_prepared sample_libs sample_pd_env sample_pd_context [(''text'', JString ''hi'')] (sample_typed (Prefill (Some 8998)) ''http://p'') (sample_typed Decode ''http://d'') =
      Inr ((''http://p/generate'', JObject mp), (''http://d/generate'', JObject md)) \<and>
    map_get mp ''bootstrap_port'' = Some (JNumber 8998) \<and> map_get md ''bootstrap_port'' = Some (JNumber 8998) \<and>
    map_get mp ''text'' = Some (JString ''hi'')"
proof -
  let ?p = "sample_typed (Prefill (Some 8998)) ''http://p''" and ?d = "sample_typed Decode ''http://d''" and ?m = "[(''text'', JString ''hi'')]"
  have u: "base_url (sample_typed t u) = u" for t u using sample_typed_checks(4) [of t u] by (simp add: sample_typed_def url_def metadata_def)
  have port: "bootstrap_port ?p = Some 8998" by (simp add: bootstrap_port_def sample_typed_def metadata_def build_def Let_def)
  have path: "api_path (base_url ?p) (px_route sample_pd_context) = ''http://p/generate''"
      "api_path (base_url ?d) (px_route sample_pd_context) = ''http://d/generate''"
    unfolding u by (simp_all add: api_path_def sample_pd_context_def)
  have batch: "px_batch_size sample_pd_context = None" by (simp add: sample_pd_context_def)
  obtain mp md rooms where
    r: "pd_prepared sample_libs sample_pd_env sample_pd_context ?m ?p ?d = Inr ((''http://p/generate'', JObject mp), (''http://d/generate'', JObject md))"
    and boot: "\<forall>body\<in>{mp, md}. length rooms = 1 \<and> map_get body ''bootstrap_room'' = Some (JNumber (hd rooms)) \<and>
         map_get body ''bootstrap_host'' = Some (JString (bootstrap_host ?p)) \<and>
         map_get body ''bootstrap_port'' = Some (JNumber (uint (8998 :: u16)))"
    and other: "\<forall>k. k \<notin> {''bootstrap_host'', ''bootstrap_port'', ''bootstrap_room''} \<longrightarrow>
       map_get mp k = (if k = ''data_parallel_rank'' \<and> dp_rank ?p \<noteq> None then Some (JNumber (int (the (dp_rank ?p)))) else map_get ?m k) \<and>
       map_get md k =
         (if k = ''data_parallel_rank'' \<and> dp_rank ?d \<noteq> None then Some (JNumber (int (the (dp_rank ?d))))
          else if k = ''disagg_prefill_dp_rank'' \<and> dp_rank ?p \<noteq> None then Some (JNumber (int (the (dp_rank ?p)))) else map_get ?m k)"
    using pd_rendezvous [of sample_libs sample_pd_env sample_pd_context ?m ?p ?d, unfolded path batch port option.case]
    by (elim exE conjE) (rule that)
  have "uint (8998 :: u16) = 8998" by simp
  then have "map_get mp ''bootstrap_port'' = Some (JNumber 8998)" "map_get md ''bootstrap_port'' = Some (JNumber 8998)" using boot by simp_all
  moreover have "map_get mp ''text'' = Some (JString ''hi'')" using other [rule_format, of "''text''"] by simp
  ultimately show ?thesis using r by blast
qed

section \<open>Requests with retries\<close>

lemma tells_counts: "same_counts (st r) (tells p d vp vd st r)"
  by (simp add: tells_def)

lemma attempt_any:
  assumes "pr_ok (preg g)" "reg_rel b u (wst g) ws (wreg g)" "moment_ok (fst (pv_moments env))" "moment_ok (snd (pv_moments env))"
    and room: "\<forall>r. countable_load (wst g r)"
  shows "\<exists>resp g'. dual_dispatch_attempt lb rt pd env hs body ctx g = Some (resp, g') \<and> pr_ok (preg g') \<and> wreg g' = wreg g \<and>
    (\<forall>now es r. same_counts (wst g r) (pd_finish lb now es resp (wst g') r))"
proof -
  from select_pair_spec [OF assms(1-4), of rt pd "px_request_text ctx" "px_model_id ctx" "px_headers ctx"] obtain sel g1 where
    s: "select_pd_pair rt pd env (px_request_text ctx) (px_model_id ctx) (px_headers ctx) g = Some (sel, g1)" "pr_ok (preg g1)" "wreg g1 = wreg g"
      "\<forall>r. same_counts (wst g r) (wst g1 r)"
      "\<forall>p d. sel = Inr (p, d) \<longrightarrow> pool_worker u pd (px_model_id ctx) True (wst g p) \<and> pool_worker u pd (px_model_id ctx) False (wst g d)" by blast
  have plain: ?thesis if "dual_dispatch_attempt lb rt pd env hs body ctx g = Some (plain resp, g1)" "no_stream resp" for resp
    using that s(2-4) finish_plain [of resp lb _ _ False] by (simp add: plain_def)
  show ?thesis
  proof (cases sel)
    case (Inl e)
    then show ?thesis using s(1) by (intro plain [of "handle_server_selection_error e"]) (simp_all add: dual_dispatch_attempt_def handle_server_selection_error_def)
  next
    case (Inr pd')
    obtain p d where pd': "sel = Inr (p, d)" using Inr by (cases pd') simp
    show ?thesis
    proof (cases "\<exists>m. body = Some (JObject m)")
      case True
      then obtain m where m: "body = Some (JObject m)" by blast
      have ne: "p \<noteq> d" using s(5) pd' by (auto simp: pool_worker_def is_prefill_def)
      have c: "countable_load (wst g1 r)" for r using same_counts_countable s(4) room by blast
      obtain resp g' where r: "dual_dispatch_attempt lb rt pd env hs (Some (JObject m)) ctx g = Some (resp, g')" "preg g' = preg g1" "wreg g' = wreg g1"
          "\<And>now' es. \<exists>vp vd. pd_finish lb now' es resp (wst g') = tells p d vp vd (wst g1)"
        using attempt_settles [OF s(1) [unfolded pd'] ne c c, of lb hs m] unfolding Let_def by blast
      have "same_counts (wst g x) (pd_finish lb now es resp (wst g') x)" for now es x
        using r(4) [of now es] s(4) tells_counts same_counts_trans by metis
      then show ?thesis using r(1-3) m s(2,3) by auto
    next
      case False
      then obtain e where "dual_dispatch_attempt lb rt pd env hs body ctx g = Some (plain (handle_serialization_error e), g1)"
        using s(1) pd' by (cases body) (auto simp: dual_dispatch_attempt_def inject_no_object)
      then show ?thesis by (rule plain) (simp add: handle_serialization_error_def)
    qed
  qed
qed

definition pd_settled :: "pd_libs \<Rightarrow> gateway \<Rightarrow> pd_state \<Rightarrow> bool" where
  "pd_settled lb g0 s \<longleftrightarrow> pr_ok (preg (pd_gateway s)) \<and> wreg (pd_gateway s) = wreg g0 \<and>
     (\<forall>now es r. same_counts (wst g0 r)
       (case pd_last s of Some resp \<Rightarrow> pd_drop_response lb now es resp (wst (pd_gateway s)) r | None \<Rightarrow> wst (pd_gateway s) r))"

definition pd_moments_ok :: "(nat \<Rightarrow> pd_env) \<Rightarrow> bool" where
  "pd_moments_ok env \<longleftrightarrow> (\<forall>k. moment_ok (fst (pv_moments (env k))) \<and> moment_ok (snd (pv_moments (env k))))"

lemma pd_attempt_settled:
  assumes s: "pd_settled lb g0 s" and mo: "pd_moments_ok env" and rel: "reg_rel b u (wst g0) ws (wreg g0)" and room: "\<forall>r. countable_load (wst g0 r)"
  shows "\<exists>resp s'. pd_attempt lb rt pd env hs body ctx k s = (Some resp, s') \<and> pd_last s' = Some resp \<and> pd_settled lb g0 s'"
proof -
  define g where "g = (case pd_last s of
    Some resp \<Rightarrow> (pd_gateway s)\<lparr> wst := pd_drop_response lb (pv_now (env k)) (pv_dropped (env k)) resp (wst (pd_gateway s)) \<rparr> | None \<Rightarrow> pd_gateway s)"
  have g: "pr_ok (preg g)" "wreg g = wreg g0" "same_counts (wst g0 r) (wst g r)" for r
    using s unfolding pd_settled_def g_def by (cases "pd_last s"; simp del: split_paired_All)+
  have rel': "reg_rel b u (wst g) ws (wreg g)"
    unfolding g(2) by (rule reg_rel_same_metadata [OF rel]) (use g(3) in \<open>simp add: same_metadata_def same_counts_def\<close>)
  have "\<forall>r. countable_load (wst g r)" using same_counts_countable [OF g(3)] room by simp
  from attempt_any [OF g(1) rel' _ _ this, of "env k" lb rt pd hs body ctx] mo obtain resp g' where
    r: "dual_dispatch_attempt lb rt pd (env k) hs body ctx g = Some (resp, g')" "pr_ok (preg g')" "wreg g' = wreg g"
      "\<forall>now es r. same_counts (wst g r) (pd_finish lb now es resp (wst g') r)" unfolding pd_moments_ok_def by blast
  have "same_counts (wst g0 r) (pd_drop_response lb now es resp (wst g') r)" for now es r
    using r(4) g(3) same_counts_trans unfolding pd_drop_response_def by blast
  then show ?thesis using r(1-3) g(2) by (cases "pd_last s") (simp_all add: pd_attempt_def g_def pd_settled_def)
qed

lemma pd_attempts_settled:
  assumes "pd_settled lb g0 s" "pd_moments_ok env" "reg_rel b u (wst g0) ws (wreg g0)" "\<forall>r. countable_load (wst g0 r)"
  shows "pd_settled lb g0 (state_before (pd_attempt lb rt pd env hs body ctx) 0 n s)"
proof (induction n)
  case (Suc n)
  let ?op = "pd_attempt lb rt pd env hs body ctx"
  have step: "pd_settled lb g0 s \<Longrightarrow> pd_settled lb g0 (snd (?op k s))" for k s
    using pd_attempt_settled [of lb g0 s env b u ws rt pd hs body ctx k] assms(2-4) by fastforce
  show ?case using step [OF Suc] by (simp add: state_before_Suc del: state_before.simps)
qed (simp add: assms(1))

text \<open>
  C40: a request to a pair with its retries always ends with a response, after at least one and at most
  the configured number of attempts, with a retryable status only when they are used up; and when
  that response has been dropped, loads and routing keys of all workers are what they were.
\<close>

theorem pd_request_returns_balanced:
  assumes "pr_ok (preg g)" "reg_rel b u (wst g) ws (wreg g)" "pd_moments_ok env" "\<forall>r. countable_load (wst g r)"
  shows "\<exists>resp s k. k < max (unat (max_retries (pd_retry_config pd))) 1 \<and>
    execute_dual_dispatch lb rt pd env jitter hs body ctx g =
      (Some resp, s, map (backoff_at (pd_retry_config pd) jitter) [0..<k] @
        (if is_retryable_status (resp_status (pq_resp resp)) then [Exhausted] else [])) \<and>
    (is_retryable_status (resp_status (pq_resp resp)) \<longrightarrow> Suc k = max (unat (max_retries (pd_retry_config pd))) 1) \<and>
    (\<forall>now es r. same_counts (wst g r) (pd_drop_response lb now es resp (wst (pd_gateway s)) r))"
proof -
  let ?op = "pd_attempt lb rt pd env hs body ctx" and ?s = "\<lparr> pd_gateway = g, pd_last = None \<rparr>"
  have s0: "pd_settled lb g ?s" using assms(1) by (simp add: pd_settled_def)
  obtain k where k: "k < max (unat (max_retries (pd_retry_config pd))) 1"
      "pd_should_retry (response_of ?op 0 k ?s) k \<longrightarrow> Suc k = max (unat (max_retries (pd_retry_config pd))) 1"
      "execute_dual_dispatch lb rt pd env jitter hs body ctx g =
        (response_of ?op 0 k ?s, state_before ?op 0 (Suc k) ?s, map (backoff_at (pd_retry_config pd) jitter) [0..<k] @
          (if pd_should_retry (response_of ?op 0 k ?s) k then [Exhausted] else []))"
    using retry_execute_spec [of "pd_retry_config pd" pd_should_retry ?op ?s jitter] unfolding execute_dual_dispatch_def by blast
  obtain resp s' where a: "?op k (state_before ?op 0 k ?s) = (Some resp, s')" "pd_last s' = Some resp" "pd_settled lb g s'"
    using pd_attempt_settled [OF pd_attempts_settled [OF s0 assms(3,2,4)] assms(3,2,4)] by blast
  have r: "response_of ?op 0 k ?s = Some resp" "state_before ?op 0 (Suc k) ?s = s'"
    using a(1) by (simp_all add: response_of_def state_before_Suc del: state_before.simps)
  have "same_counts (wst g q) (pd_drop_response lb now es resp (wst (pd_gateway s')) q)" for now es q
    using a(2,3) by (simp add: pd_settled_def del: split_paired_All)
  then show ?thesis using k unfolding r pd_should_retry_def by (intro exI [of _ resp] exI [of _ s'] exI [of _ k]) simp
qed

theorem pd_request_returns_balanced_witness:
  "\<exists>resp s k. execute_dual_dispatch sample_libs sample_runtime sample_pd (\<lambda>k. sample_pd_env) (\<lambda>k. 0) None None sample_pd_context sample_pd_gateway =
      (Some resp, s, map (backoff_at (pd_retry_config sample_pd) (\<lambda>k. 0)) [0..<k] @
        (if is_retryable_status (resp_status (pq_resp resp)) then [Exhausted] else [])) \<and>
    (\<forall>now es r. same_counts (wst sample_pd_gateway r) (pd_drop_response sample_libs now es resp (wst (pd_gateway s)) r))"
proof -
  have "pd_moments_ok (\<lambda>k. sample_pd_env)" using sample_pd_ok(2,3) by (simp add: pd_moments_ok_def)
  from pd_request_returns_balanced [OF sample_pd_ok(1) sample_pd_registered this sample_pd_ok(4), of sample_pd sample_libs sample_runtime "\<lambda>k. 0" None None
      sample_pd_context] show ?thesis by blast
qed

end
