(* ===== verification/Spec2Isabelle.thy ===== *)
theory Spec2Isabelle
  imports Token_Bucket Radix_Evict Middleware Control_Plane PD_Router
begin

text \<open>
  \<^bold>\<open>The model gateway: a verification development.\<close>

  The gateway (the Rust crate under src/gateway) accepts inference requests and
  forwards each of them to one of many model servers, its workers. This library
  models the part of the crate that decides: which workers exist and are usable,
  which of them gets a request, how often a failed request is repeated, and how
  many requests are admitted.

  \<^bold>\<open>How the parts interact.\<close>
  A worker (core/worker.rs) carries its metadata, its health, its load and a
  circuit breaker (core/circuit_breaker.rs); it is usable when it is healthy and
  its breaker admits a request. Workers enter the worker registry
  (core/worker_registry.rs), which keeps indexes by URL, model, type and
  connection and a consistent hash ring per model. A router takes the workers of
  the model of a request from the registry, resolves a routing key from the
  headers (routers/header_utils.rs), and asks a load balancing policy (policies/)
  for an index into that list. The cache-aware policy keeps a radix tree
  (policies/tree.rs) per model that approximates what every worker has cached.
  The chosen worker is held by a load guard while the request runs, the outcome is
  recorded in its breaker, and the retry executor (core/retry.rs) repeats the
  request. The token bucket (core/token_bucket.rs) limits how many run at a time.

  \<^bold>\<open>Theories and sources.\<close>
  \<^item> \<open>Gateway_Prelude\<close>: association lists as hash maps, positions, minima,
    iteration with a panic, generic list and option lemmas.
  \<^item> \<open>Circuit_Breaker\<close>: core/circuit_breaker.rs. Every reachable breaker refines
    a three-state machine; it opens exactly after a run of failures.
  \<^item> \<open>Token_Bucket\<close>: core/token_bucket.rs. Rate and concurrency bounds.
  \<^item> \<open>Retry\<close>: core/retry.rs and the retry settings of config/types.rs.
  \<^item> \<open>Rust_Str\<close>: the string helpers of policies/tree.rs, on bytes, shown equal to
    the operations on characters.
  \<^item> \<open>Radix_Tree\<close>, \<open>Radix_Evict\<close>: policies/tree.rs. The abstraction of a tree is
    the set of prefixes every tenant owns; insertion, matching, eviction by size
    and removal of a tenant are specified on it.
  \<^item> \<open>Model_Card\<close>: core/model_type.rs and core/model_card.rs.
  \<^item> \<open>Header_Utils\<close>: routers/header_utils.rs.
  \<^item> \<open>Worker\<close>: core/worker.rs, core/worker_builder.rs, core/error.rs.
  \<^item> \<open>Hash_Ring\<close>: the ring of core/worker_registry.rs.
  \<^item> \<open>Policies\<close>: policies/mod.rs and the random, round-robin and power-of-two
    policies. The locale \<open>load_balancing_policy\<close> is the trait of the same name,
    \<open>available_policy\<close> adds that a policy returns an available worker.
  \<^item> \<open>Hash_Policies\<close>: policies/consistent_hashing.rs and policies/prefix_hash.rs.
  \<^item> \<open>Manual_Policy\<close>: policies/manual.rs with its persisted session table.
  \<^item> \<open>Cache_Aware\<close>: policies/cache_aware.rs. It relies on the radix tree through
    the locale \<open>prefix_index\<close>, interpreted on the tree of \<open>Radix_Evict\<close>.
  \<^item> \<open>Bucket_Policy\<close>: policies/bucket.rs. The length ranges tile the naturals, the
    binary search agrees with a linear one, the window holds the last period.
  \<^item> \<open>Worker_Registry\<close>: core/worker_registry.rs. Lookups refine the plain list of
    registered workers over every history; the indexes by model, type and connection are exact as
    long as no URL is registered twice, and miss no worker otherwise.
  \<^item> \<open>Policy_Registry\<close>: policies/registry.rs and policies/factory.rs. Policies are
    objects on a heap, so a model that uses the default policy shares its state; no
    history of the registry fails, and a model keeps its policy while it has workers.
  \<^item> \<open>Http_Router\<close>: routers/http/router.rs, routers/streaming_utils.rs and
    routers/error.rs. One attempt is accounted for exactly once, whatever the client
    does with the stream; a request with its retries returns and leaks no load.
  \<^item> \<open>PD_Router\<close>: routers/http/pd_router.rs and pd_types.rs. A pair of a prefill and a decode
    worker is chosen, both get the same bootstrap fields, each breaker hears of its own worker
    (but for a decode body that cannot be read, which counts against both), and requests with
    retries return and leak no load.
  \<^item> \<open>Config\<close>: config/types.rs, builder.rs and validation.rs. What a build
    returns, exactly, the round trip, and what a validated configuration guarantees.
  \<^item> \<open>Worker_Lifecycle\<close>: the workflow steps of core/steps/worker/ and the load monitor
    of core/worker_manager.rs. The invariant \<open>control_ok\<close> ties the registered workers,
    the indexes and rings, and the worker counts of the policies together.
  \<^item> \<open>Middleware\<close>: middleware.rs and the limiter of app_context.rs. Authentication, request
    ids, the limiter with its queue as a step relation, the rewriting of paths for metrics, and
    the request and response modules.
  \<^item> \<open>Control_Plane\<close>: core/job_queue.rs and core/worker_service.rs on top of the workflows:
    jobs are served in order, and the life of a worker through the service.
  \<^item> this theory: properties that span registry, ring, policies and router.

  \<^bold>\<open>Conventions.\<close>
  A definition has the name of the Rust function, with a prefix where two types
  share a method name. A struct is a record and an enum a datatype. A panic is
  \<open>None\<close> of an option result, and the properties show that it does not occur. A
  DashMap or HashMap is an association list whose keys are distinct, so that its
  iteration order is explicit and no property depends on it. Where several parts
  of the code share an object through Arc, the model has a store and references
  into it. Clock readings, random numbers and fresh UUIDs are arguments. Every
  operation is one atomic step: interleavings are sequences of operations, and
  races inside one operation are not modelled.

  Code outside the crate is a parameter: the hash functions blake3 and xxh3, URL
  parsing, the placeholder id of unknown models, the rounding of floating-point
  ratios (the parameter \<open>rd\<close>), what a file or the mesh store returned. What a
  theorem needs of such a parameter is among its hypotheses, and its witness
  instantiates it.

  \<^bold>\<open>Bounds and fuel.\<close>
  The loops of the radix tree descend the text, so insertion and matching take the
  length of the text as fuel; the eviction and removal loops take the number of
  tenant entries plus the length of the queue. The theorems state that these
  calls return, so the fuel is enough. Counters that wrap in the code are words;
  the epoch counter of the trees is a natural number, and as one process-wide
  counter in the code it is handed from tree to tree. Bucket arithmetic is on
  natural numbers below usize::MAX, where it does not wrap.

  \<^bold>\<open>Numbers and orders.\<close>
  The tokens and times of the token bucket (f64) and the back-off computation (f32) are real
  numbers, the ratios of the cache-aware and prefix-hash policies rationals with an
  arbitrary rounding. Entries of the hash ring at equal positions keep the order of the
  workers, where the code sorts unstably. The dispatcher of the job queue takes a job when
  a permit is free; the code takes it first and then waits for the permit, so the load it reports
  may differ by the one job in hand. Loads reported to the monitor are integers (i64 in the code).

  \<^bold>\<open>Not modelled.\<close>
  Sending requests and streaming responses, connection pools and gRPC clients,
  asynchronous tasks and their cancellation, the HTTP server and its routes,
  Kubernetes service discovery, metrics, logs and traces, JSON
  (de)serialisation, tokenizers and chat templates, and the protocol types of the
  model APIs: this is input and output, or code of libraries the crate calls.
  Binary heaps are modelled with one order for equal priorities.
\<close>

section \<open>The gateway as a whole\<close>

text \<open>The routing decision under the consistent hashing policy.\<close>

lemma select_by_hash:
  assumes igw: "hr_enable_igw hr" and pol: "obj (preg g) (policy_for (Some m) (preg g)) = ConsistentHashingPolicy"
    and key: "extract_target_worker hs = None" "extract_routing_key hs = Some key"
    and ring: "get_hash_ring m (wreg g) = Some ring"
    and f: "filter_available clk (candidates hr (Some m) g) (wst g) = (av, st)" "av \<noteq> []"
  shows "\<exists>g'. select_worker_for_model rt hr mo clk (Some m) inp hs g =
    Some (map_option ((!) av) (find_by_consistent_hash (rt_blake3 rt) (map st av)
      \<lparr> request_text = inp, tokens = None, headers = hs, info_hash_ring = Some ring \<rparr> key), g')"
proof -
  let ?info = "\<lparr> request_text = inp, tokens = None, headers = hs, info_hash_ring = Some ring \<rparr>"
  let ?i = "find_by_consistent_hash (rt_blake3 rt) (map st av) ?info key"
  have sel: "select_worker rt mo (map st av) ?info (policy_for (Some m) (preg g)) (heap (preg g)) = Some (?i, map st av, heap (preg g), [])"
    using pol f(2) key by (simp add: select_worker_def ch_select_worker_def ch_select_worker_impl_def or_else_def split: option.splits)
  have "j < length av" if "?i = Some j" for j using find_by_hash_sound [OF that] by simp
  then show ?thesis
    using igw f ring sel by (cases ?i) (simp_all add: select_worker_for_model_def Let_def effective_model_def)
qed

lemma healthy_urls_admitted: "\<forall>r\<in>set av. admits (st r) \<Longrightarrow> healthy_urls (map st av) = (url \<circ> st) ` set av"
  by (auto simp: healthy_urls_def admits_def)

lemma candidate_registered:
  assumes "reg_rel b u (wst g) es (wreg g)" "hr_enable_igw hr" "r \<in> set (candidates hr (Some m) g)"
  shows "r \<in> snd ` set es" "get_hash_ring m (wreg g) = Some (hash_ring_new b (map (wst g) (get_by_model m (wreg g))))"
proof -
  have r: "r \<in> set (get_by_model m (wreg g))"
    using assms(2,3) by (simp add: candidates_def effective_model_def get_workers_filtered_def)
  have "get_by_model m (wreg g) = map snd (filter (\<lambda>e. model_id u (wst g (snd e)) = m) es)"
    unfolding get_by_entry_list by (rule reg_relD(6) [OF assms(1)])
  then show "r \<in> snd ` set es" using r by auto
  show "get_hash_ring m (wreg g) = Some (hash_ring_new b (map (wst g) (get_by_model m (wreg g))))"
    using reg_relD(9) [OF assms(1), of m] r by (cases "map_get (model_index (wreg g)) m") (simp_all add: get_hash_ring_def get_by_model_def)
qed

lemma url_injective:
  assumes "reg_rel b u st es reg" "r \<in> snd ` set es" "r' \<in> snd ` set es" "url (st r) = url (st r')"
  shows "r = r'"
  using reg_relD(3) [OF assms(1)] assms(2-4) by (auto simp: distinct_map inj_on_def)

text \<open>The URLs of the candidates that are available, and the walk on the ring of the model over them.\<close>

definition open_urls :: "http_router \<Rightarrow> attempt_env \<Rightarrow> string \<Rightarrow> gateway \<Rightarrow> string set" where
  "open_urls hr env m g = {url (wst g r) | r. r \<in> set (candidates hr (Some m) g) \<and> reaches env g r}"

definition ring_choice :: "runtime \<Rightarrow> http_router \<Rightarrow> attempt_env \<Rightarrow> string \<Rightarrow> string \<Rightarrow> gateway \<Rightarrow> string option" where
  "ring_choice rt hr env m key g =
     find_healthy_url (rt_blake3 rt) (hash_ring_new (rt_blake3 rt) (map (wst g) (get_by_model m (wreg g)))) key (\<lambda>u. u \<in> open_urls hr env m g)"

lemma hash_choice:
  assumes rel: "reg_rel (rt_blake3 rt) (rt_unknown rt) (wst g) es (wreg g)" and igw: "hr_enable_igw hr"
    and pol: "obj (preg g) (policy_for (Some m) (preg g)) = ConsistentHashingPolicy"
    and key: "extract_target_worker hs = None" "extract_routing_key hs = Some key"
  shows "\<exists>sel g'. select_worker_for_model rt hr (ae_moment env) (ae_clock env) (Some m) inp hs g = Some (sel, g') \<and>
    (\<forall>r. sel = Some r \<longrightarrow> r \<in> set (candidates hr (Some m) g)) \<and> map_option (\<lambda>r. url (wst g r)) sel = ring_choice rt hr env m key g"
proof -
  obtain av st where f: "filter_available (ae_clock env) (candidates hr (Some m) g) (wst g) = (av, st)" by fastforce
  have av: "q \<in> set av \<longleftrightarrow> q \<in> set (candidates hr (Some m) g) \<and> reaches env g q" "q \<in> set av \<Longrightarrow> admits (st q)" "url (st q) = url (wst g q)" for q
    using filter_available_set [of q "ae_clock env" "candidates hr (Some m) g" "wst g"]
      filter_available_admits [of q "ae_clock env" "candidates hr (Some m) g" "wst g"]
      filter_available_counts [of "wst g" q "ae_clock env" "candidates hr (Some m) g"] f
    by (simp_all add: reaches_def same_counts_def url_def)
  have urls: "healthy_urls (map st av) = open_urls hr env m g"
    using healthy_urls_admitted [of av st] av by (auto simp: open_urls_def)
  show ?thesis
  proof (cases "av = []")
    case True
    then have "open_urls hr env m g = {}" using av(1) by (auto simp: open_urls_def)
    then have "ring_choice rt hr env m key g = None" by (simp add: ring_choice_def find_on_ring_None)
    then show ?thesis using True f by (simp add: select_worker_for_model_def Let_def)
  next
    case False
    then have "\<exists>q. q \<in> set (candidates hr (Some m) g)" using av(1) by (cases av) auto
    then have ring: "get_hash_ring m (wreg g) = Some (hash_ring_new (rt_blake3 rt) (map (wst g) (get_by_model m (wreg g))))"
      using candidate_registered(2) [OF rel igw] by blast
    let ?info = "\<lparr> request_text = inp, tokens = None, headers = hs, info_hash_ring = get_hash_ring m (wreg g) \<rparr>"
    let ?i = "find_by_consistent_hash (rt_blake3 rt) (map st av) ?info key"
    have i: "i < length av" if "?i = Some i" for i using find_by_hash_sound [OF that] by simp
    have "map_option (\<lambda>j. url (map st av ! j)) ?i = ring_choice rt hr env m key g"
      using find_by_hash_url [of ?info, OF _, of "rt_blake3 rt" _ "map st av" key] ring urls by (simp add: ring_choice_def)
    moreover have "map_option (\<lambda>r. url (wst g r)) (map_option ((!) av) ?i) = map_option (\<lambda>j. url (map st av ! j)) ?i"
      using i av(3) by (cases ?i) simp_all
    moreover have "r \<in> set (candidates hr (Some m) g)" if chosen: "map_option ((!) av) ?i = Some r" for r
    proof -
      obtain j where "?i = Some j" "r = av ! j" using chosen by auto
      then have "r \<in> set av" using i by simp
      then show ?thesis by (simp add: av(1))
    qed
    ultimately show ?thesis using select_by_hash [OF igw pol key ring f False, of rt "ae_moment env" inp] ring by auto
  qed
qed

text \<open>The ring looks at the URLs of the workers only, and the walk only at those that may be chosen.\<close>

lemma find_by_urls:
  assumes "map url (filter (\<lambda>w. url w \<in> H) ws') = map url (filter (\<lambda>w. url w \<in> H) ws)"
  shows "find_healthy_url b (hash_ring_new b ws') key (\<lambda>u. u \<in> H) = find_healthy_url b (hash_ring_new b ws) key (\<lambda>u. u \<in> H)"
proof -
  have "find_healthy_url b (hash_ring_new b ws) key (\<lambda>u. u \<in> H) =
      find_healthy_url b (hash_ring_new b (filter (\<lambda>w. url w \<in> H) ws)) key (\<lambda>u. u \<in> H)" for ws
    using find_restrict [of b "\<lambda>u. u \<in> H" ws key "\<lambda>u. u \<in> H"] by simp
  moreover have "hash_ring_new b (filter (\<lambda>w. url w \<in> H) ws') = hash_ring_new b (filter (\<lambda>w. url w \<in> H) ws)"
    using assms by (simp add: hash_ring_new_def)
  ultimately show ?thesis by metis
qed

text \<open>
  What lies between two requests: workers of the first registry were removed, others were added
  behind them, and those that stayed have the metadata they had.
\<close>

definition registry_changed :: "wstore \<Rightarrow> (string \<times> wref) list \<Rightarrow> wstore \<Rightarrow> (string \<times> wref) list \<Rightarrow> bool" where
  "registry_changed st es st' es' \<longleftrightarrow>
     (\<exists>P new. es' = filter P es @ new \<and> (\<forall>e\<in>set new. snd e \<notin> snd ` set es)) \<and> (\<forall>e\<in>set es. metadata (st' (snd e)) = metadata (st (snd e)))"

lemma changed_entries:
  assumes rel: "reg_rel b u st es reg" "reg_rel b u st' es' reg'" and ch: "registry_changed st es st' es'"
    and H: "\<And>v. v \<in> H \<Longrightarrow> \<exists>r. r \<in> snd ` set es \<and> r \<in> snd ` set es' \<and> url (st r) = v"
  shows "map (\<lambda>e. url (st' (snd e))) (filter (\<lambda>e. model_id u (st' (snd e)) = m \<and> url (st' (snd e)) \<in> H) es') =
    map (\<lambda>e. url (st (snd e))) (filter (\<lambda>e. model_id u (st (snd e)) = m \<and> url (st (snd e)) \<in> H) es)"
proof -
  obtain P new where c: "es' = filter P es @ new" "\<forall>e\<in>set new. snd e \<notin> snd ` set es" "\<forall>e\<in>set es. metadata (st' (snd e)) = metadata (st (snd e))"
    using ch unfolding registry_changed_def by blast
  have md: "url (st' (snd e)) = url (st (snd e))" "model_id u (st' (snd e)) = model_id u (st (snd e))" if "e \<in> set es" for e
    using c(3) that by (simp_all add: url_def model_id_def)
  have "url (st' (snd e)) \<notin> H" if e: "e \<in> set new" for e
  proof
    assume "url (st' (snd e)) \<in> H"
    then obtain r where r: "r \<in> snd ` set es" "r \<in> snd ` set es'" "url (st r) = url (st' (snd e))" using H by blast
    then have "url (st' r) = url (st' (snd e))" using md(1) by auto
    then have "r = snd e" using url_injective [OF rel(2) r(2)] e c(1) by auto
    then show False using r(1) c(2) e by auto
  qed
  then have new: "filter (\<lambda>e. model_id u (st' (snd e)) = m \<and> url (st' (snd e)) \<in> H) new = []" by (simp add: filter_empty_conv)
  have stays: "P e" if e: "e \<in> set es" "url (st (snd e)) \<in> H" for e
  proof -
    obtain r where r: "r \<in> snd ` set es" "r \<in> snd ` set es'" "url (st r) = url (st (snd e))" using H [OF e(2)] by blast
    then obtain e' where e': "e' \<in> set es'" "r = snd e'" by blast
    then have "e' \<notin> set new" using c(2) r(1) by auto
    then have e': "e' \<in> set es" "P e'" "r = snd e'" using e' c(1) by auto
    then have "e' = e" using distinct_key [OF reg_relD(3) [OF rel(1)] e'(1) e(1)] r(3) by simp
    then show ?thesis using e'(2) by simp
  qed
  have "filter (\<lambda>e. model_id u (st' (snd e)) = m \<and> url (st' (snd e)) \<in> H) (filter P es) =
      filter (\<lambda>e. model_id u (st (snd e)) = m \<and> url (st (snd e)) \<in> H) es"
    unfolding filter_filter by (rule filter_cong) (use md stays in auto)
  then show ?thesis unfolding c(1) filter_append new using md(1) by simp
qed

text \<open>
  C1: session affinity of the gateway, with the inference gateway mode on.  Requests for a model whose
  policy is consistent hashing, which name no target worker and carry the same routing key, go to the same
  worker: once a request was given to a worker, a later one is given to it again if the worker is still a
  candidate and available and every candidate that is available then was one and available at
  the first request.  In between workers may have been removed and others added, and health, load and
  breakers of all workers may have changed; the two requests may differ in everything else.
\<close>

theorem gateway_session_affinity:
  assumes reach: "reachable_registry (rt_blake3 rt) (rt_unknown rt) (wst g) es (wreg g)"
      "reachable_registry (rt_blake3 rt) (rt_unknown rt) (wst g') es' (wreg g')"
    and later: "registry_changed (wst g) es (wst g') es'"
    and igw: "hr_enable_igw hr"
    and pol: "obj (preg g) (policy_for (Some m) (preg g)) = ConsistentHashingPolicy"
      "obj (preg g') (policy_for (Some m) (preg g')) = ConsistentHashingPolicy"
    and key: "extract_target_worker hs = None" "extract_routing_key hs = Some key"
      "extract_target_worker hs' = None" "extract_routing_key hs' = Some key"
    and first: "select_worker_for_model rt hr (ae_moment env) (ae_clock env) (Some m) inp hs g = Some (Some r, g1)"
    and again: "r \<in> set (candidates hr (Some m) g')" "reaches env' g' r"
      "\<forall>r'\<in>set (candidates hr (Some m) g'). reaches env' g' r' \<longrightarrow> r' \<in> set (candidates hr (Some m) g) \<and> reaches env g r'"
  shows "\<exists>g2. select_worker_for_model rt hr (ae_moment env') (ae_clock env') (Some m) inp' hs' g' = Some (Some r, g2)"
proof -
  have rel: "reg_rel (rt_blake3 rt) (rt_unknown rt) (wst g) es (wreg g)" "reg_rel (rt_blake3 rt) (rt_unknown rt) (wst g') es' (wreg g')"
    using reach by (auto intro: reachable_reg_rel)
  note registered = candidate_registered(1) [OF rel(1) igw] candidate_registered(1) [OF rel(2) igw]
  have same: "url (wst g' q) = url (wst g q)" if "q \<in> set (candidates hr (Some m) g)" for q
    using registered(1) [OF that] later by (auto simp: registry_changed_def url_def)
  have r: "r \<in> set (candidates hr (Some m) g)" "ring_choice rt hr env m key g = Some (url (wst g r))"
    using hash_choice [OF rel(1) igw pol(1) key(1,2), of env inp] first by auto
  let ?H = "open_urls hr env' m g'"
  have open_old: "\<exists>q. q \<in> set (candidates hr (Some m) g') \<and> q \<in> set (candidates hr (Some m) g) \<and> reaches env g q \<and> url (wst g q) = v"
    if "v \<in> ?H" for v using that again(3) same by (fastforce simp: open_urls_def)
  have mem: "url (wst g r) \<in> ?H" using again(1,2) same [OF r(1)] by (force simp: open_urls_def)
  have "v \<in> open_urls hr env m g" if "v \<in> ?H" for v using open_old [OF that] unfolding open_urls_def [of hr env m g] by blast
  then have sub: "(\<lambda>u. u \<in> ?H) = (\<lambda>u. u \<in> ?H \<and> u \<in> open_urls hr env m g)" by blast
  have "map url (filter (\<lambda>w. url w \<in> ?H) (map (wst g') (get_by_model m (wreg g')))) =
      map url (filter (\<lambda>w. url w \<in> ?H) (map (wst g) (get_by_model m (wreg g))))"
  proof -
    have "\<exists>q. q \<in> snd ` set es \<and> q \<in> snd ` set es' \<and> url (wst g q) = v" if "v \<in> ?H" for v
    proof -
      obtain q where q: "q \<in> set (candidates hr (Some m) g')" "q \<in> set (candidates hr (Some m) g)" "url (wst g q) = v" using open_old [OF \<open>v \<in> ?H\<close>] by blast
      show ?thesis using registered(1) [OF q(2)] registered(2) [OF q(1)] q(3) by blast
    qed
    from changed_entries [OF rel later, of ?H m, OF this] show ?thesis
      unfolding indexes_exact(1) [OF rel(1)] indexes_exact(1) [OF rel(2)] map_map comp_def filter_map filter_filter .
  qed
  from find_by_urls [OF this, of "rt_blake3 rt" key] have "ring_choice rt hr env' m key g' =
      find_healthy_url (rt_blake3 rt) (hash_ring_new (rt_blake3 rt) (map (wst g) (get_by_model m (wreg g)))) key (\<lambda>u. u \<in> ?H)"
    by (simp add: ring_choice_def)
  also have "\<dots> = Some (url (wst g r))"
    unfolding sub by (rule find_restrict_same [OF r(2) [unfolded ring_choice_def], of "\<lambda>u. u \<in> ?H", OF mem])
  finally have again_choice: "ring_choice rt hr env' m key g' = Some (url (wst g' r))" unfolding same [OF r(1)] .
  obtain sel g2 where s: "select_worker_for_model rt hr (ae_moment env') (ae_clock env') (Some m) inp' hs' g' = Some (sel, g2)"
      "\<forall>q. sel = Some q \<longrightarrow> q \<in> set (candidates hr (Some m) g')" "map_option (\<lambda>q. url (wst g' q)) sel = Some (url (wst g' r))"
    using hash_choice [OF rel(2) igw pol(2) key(3,4), of env' inp'] unfolding again_choice by blast
  then obtain r' where r': "sel = Some r'" "r' \<in> set (candidates hr (Some m) g')" "url (wst g' r') = url (wst g' r)" by (cases sel) auto
  have "r' = r" by (rule url_injective [OF rel(2) registered(2) [OF r'(2)] registered(2) [OF again(1)] r'(3)])
  then show ?thesis using s(1) r'(1) by blast
qed

definition hash_gateway :: gateway where
  "hash_gateway = \<lparr> wst = (\<lambda>r. Basic (sample_worker ''a'')),
     wreg = snd (register (rt_blake3 sample_runtime) (rt_unknown sample_runtime) ''i1'' (\<lambda>r. Basic (sample_worker ''a'')) 0 worker_registry_new),
     preg = policy_registry_new (\<lambda>f. None) 0 PC_ConsistentHashing heap_empty \<rparr>"

theorem gateway_session_affinity_witness:
  "\<exists>r g1 g2. select_worker_for_model sample_runtime (sample_router\<lparr> hr_enable_igw := True \<rparr>) (ae_moment sample_env) (ae_clock sample_env)
      (Some ''unknown'') None (Some [(''x-smg-routing-key'', ''k'')]) hash_gateway = Some (Some r, g1) \<and>
    select_worker_for_model sample_runtime (sample_router\<lparr> hr_enable_igw := True \<rparr>) (ae_moment sample_env) (ae_clock sample_env)
      (Some ''unknown'') (Some [104]) (Some [(''x-smg-routing-key'', ''k'')]) hash_gateway = Some (Some r, g2)"
proof -
  let ?hr = "sample_router\<lparr> hr_enable_igw := True \<rparr>" and ?hs = "Some [(''x-smg-routing-key'', ''k'')]" and ?g = hash_gateway and ?m = "''unknown''"
  have reach: "reachable_registry (rt_blake3 sample_runtime) (rt_unknown sample_runtime) (wst ?g) [(''i1'', 0)] (wreg ?g)"
    using sample_registry by (simp add: hash_gateway_def)
  have pol: "obj (preg ?g) (policy_for (Some ?m) (preg ?g)) = ConsistentHashingPolicy"
    by (simp add: hash_gateway_def policy_registry_new_def policy_for_def get_policy_or_default_def get_policy_def get_default_policy_def alloc_def heap_empty_def)
  have key: "extract_target_worker ?hs = None" "extract_routing_key ?hs = Some ''k''" by code_simp+
  have mid: "get_by_model ?m (wreg ?g) = [0]"
    by (simp add: hash_gateway_def register_def worker_registry_new_def sample_runtime_def model_id_def metadata_def sample_worker_def build_def
        builder_new_def or_else_def rebuild_hash_ring_def push_entry_def map_modify_or_insert_def get_by_model_def Let_def)
  have cand: "0 \<in> set (candidates ?hr (Some ?m) ?g)"
    using mid by (simp add: candidates_def effective_model_def get_workers_filtered_def passes_filter_def)
      (simp add: hash_gateway_def sample_worker_checks)
  have reaches: "reaches sample_env ?g r" for r by (simp add: reaches_def hash_gateway_def admits_available sample_worker_checks)
  have "ring_choice sample_runtime ?hr sample_env ?m ''k'' ?g \<noteq> None"
    using cand reaches by (auto simp: ring_choice_def find_on_ring_None mid open_urls_def)
  then obtain r g1 where first: "select_worker_for_model sample_runtime ?hr (ae_moment sample_env) (ae_clock sample_env) (Some ?m) None ?hs ?g = Some (Some r, g1)"
    using hash_choice [OF reachable_reg_rel [OF reach] _ pol key, of ?hr sample_env None] by auto
  have same: "registry_changed (wst ?g) [(''i1'', 0)] (wst ?g) [(''i1'', 0)]"
    unfolding registry_changed_def by (intro conjI exI [of _ "\<lambda>e. True"] exI [of _ "[]"]) auto
  have "r \<in> set (candidates ?hr (Some ?m) ?g)"
    using hash_choice [OF reachable_reg_rel [OF reach] _ pol key, of ?hr sample_env None] first by auto
  from gateway_session_affinity [OF reach reach same _ pol pol key key first this reaches, of "Some [104]"] reaches first
  show ?thesis by auto
qed

end
